(* ===== verification/Prelude.thy ===== *)
theory Prelude
  imports Main "HOL-Library.Word"
begin

text \<open>
  Shared vocabulary of the development: the C integer types that the scheduler uses, and the
  generic facts on bits, masks and modular slots that several components need. \<open>size_t\<close> and
  \<open>uint64_t\<close> are 64-bit words and \<open>uint32_t\<close> is a 32-bit word, so every wrap-around of the code
  is a wrap-around of the model.
\<close>

unbundle bit_operations_syntax

type_synonym size_t = "64 word"
type_synonym uint64 = "64 word"
type_synonym uint32 = "32 word"

named_theorems word_nat "facts that move machine-word arithmetic to the naturals"

section \<open>Bits and masks\<close>

text \<open>Or-ing a word with its own shift doubles the window over which its bits are smeared.\<close>

lemma smear_double:
  fixes x y :: "'a::len word"
  assumes "\<And>n. bit y n \<longleftrightarrow> (\<exists>j<m. bit x (n + j))"
  shows "bit (y OR drop_bit m y) n \<longleftrightarrow> (\<exists>j<m + m. bit x (n + j))"
proof -
  have "bit (y OR drop_bit m y) n \<longleftrightarrow> (\<exists>j<m. bit x (n + j)) \<or> (\<exists>j<m. bit x (n + (m + j)))"
    by (simp add: bit_or_iff bit_drop_bit_eq assms add.assoc add.left_commute)
  also have "\<dots> \<longleftrightarrow> (\<exists>j<m + m. bit x (n + j))"
    by (metis add_less_cancel_left le_add_diff_inverse not_less trans_less_add1 nat_add_left_cancel_less)
  finally show ?thesis .
qed

text \<open>The highest set bit of a word between two powers of two.\<close>

lemma word_top_bit:
  fixes x :: "'a::len word"
  assumes "2 ^ p \<le> unat x" and "unat x < 2 ^ Suc p"
  shows word_top_bit_set: "bit x p"
    and word_top_bit_above: "\<And>n. p < n \<Longrightarrow> \<not> bit x n"
proof -
  have "unat x div 2 ^ p = 1"
    using assms by (intro div_nat_eqI) auto
  then have "bit (unat x) p" by (simp add: bit_iff_odd)
  then show "bit x p" by (simp add: bit_unsigned_iff)
  fix n assume "p < n"
  then have "unat x < 2 ^ n"
    using assms(2) by (meson Suc_leI less_le_trans one_le_numeral power_increasing)
  then have "\<not> bit (unat x) n" by (simp add: bit_iff_odd)
  then show "\<not> bit x n"
    by (metis bit_unsigned_iff possible_bit_nat)
qed

text \<open>Every positive number lies between two consecutive powers of two.\<close>

lemma floor_pow2:
  assumes "0 < (n::nat)"
  obtains p where "2 ^ p \<le> n" and "n < 2 ^ Suc p"
proof -
  define p where "p = (LEAST k. n < 2 ^ Suc k)"
  have ex: "n < 2 ^ Suc n"
    by (metis Suc_lessD lessI less_exp power_strict_increasing_iff one_less_numeral_iff order.strict_trans semiring_norm(76))
  have up: "n < 2 ^ Suc p"
    unfolding p_def by (rule LeastI [of "\<lambda>k. n < 2 ^ Suc k", OF ex])
  have "2 ^ p \<le> n"
  proof (cases p)
    case 0
    with assms show ?thesis by simp
  next
    case (Suc q)
    then have "\<not> n < 2 ^ Suc q"
      using not_less_Least [of q "\<lambda>k. n < 2 ^ Suc k"] by (simp add: p_def)
    with Suc show ?thesis by simp
  qed
  with up show thesis by (rule that[rotated])
qed

text \<open>Masking with \<open>2 ^ k - 1\<close> is the remainder, on words and on (non-negative) integers.\<close>

lemma unat_take_bit [word_nat]:
  fixes x :: "'a::len word"
  shows "unat (take_bit k x) = unat x mod 2 ^ k"
  by (metis take_bit_eq_mod unsigned_take_bit_eq)

lemma unat_and_pow2_minus_1:
  fixes x :: "'a::len word"
  shows "unat (x AND (2 ^ k - 1)) = unat x mod 2 ^ k"
  by (simp add: unat_take_bit flip: take_bit_eq_mask mask_eq_exp_minus_1)

lemma int_and_pow2_minus_1: "(x::int) AND (2 ^ k - 1) = x mod 2 ^ k"
  by (simp add: take_bit_int_def flip: take_bit_eq_mask mask_eq_exp_minus_1)

lemma unat_and_not_mask:
  fixes x :: "'a::len word"
  shows "unat (x AND NOT (2 ^ k - 1)) = unat x - unat x mod 2 ^ k"
proof -
  have "(x AND (2 ^ k - 1)) + (x AND NOT (2 ^ k - 1)) = x"
    by (subst disjunctive_add_eq_or) (auto intro!: bit_eqI simp: bit_simps)
  then have eq: "x AND NOT (2 ^ k - 1) = x - (x AND (2 ^ k - 1))"
    by (metis add_diff_cancel_left')
  have "x AND (2 ^ k - 1) \<le> x"
    by (simp add: word_le_nat_alt unat_and_pow2_minus_1)
  then show ?thesis
    by (simp add: eq unat_sub unat_and_pow2_minus_1)
qed

section \<open>Slots of a ring\<close>

text \<open>Two indices less than a ring's capacity apart never share a slot.\<close>

lemma mod_slot_neq:
  fixes i j cap :: int
  assumes "i \<noteq> j" and "\<bar>i - j\<bar> < cap"
  shows "i mod cap \<noteq> j mod cap"
proof
  assume "i mod cap = j mod cap"
  then have "cap dvd (i - j)" by (simp add: mod_eq_dvd_iff)
  with assms(1) have "\<bar>cap\<bar> \<le> \<bar>i - j\<bar>" by (intro dvd_imp_le_int) simp_all
  with assms(2) show False by simp
qed

lemma mod_slot_neq_nat:
  fixes i j cap :: nat
  assumes "i < j" and "j < i + cap"
  shows "i mod cap \<noteq> j mod cap"
  using mod_slot_neq [of "int i" "int j" "int cap"] assms
  by (auto simp flip: of_nat_mod)

section \<open>Word arithmetic without wrap-around\<close>

lemma unat_bound_64: "unat (x :: 64 word) < 2 ^ 64"
  using unsigned_less [of x] by simp

lemma unat_bound_32: "unat (x :: 32 word) < 2 ^ 32"
  using unsigned_less [of x] by simp

lemma unat_pow2_64: "p < 64 \<Longrightarrow> unat (2 ^ p :: 64 word) = 2 ^ p"
proof -
  assume "p < 64"
  then have "(2::nat) ^ p < 2 ^ 64" by (rule power_strict_increasing) simp
  then show ?thesis
    using unat_of_nat [where 'a = 64 and x = "2 ^ p"] by simp
qed

lemma unat_add_no_wrap [word_nat]:
  fixes a b :: "'a::len word"
  shows "unat a + unat b < 2 ^ LENGTH('a) \<Longrightarrow> unat (a + b) = unat a + unat b"
  using unat_add_lem by blast

lemma unat_Suc_no_wrap [word_nat]:
  fixes a :: "'a::len word"
  shows "Suc (unat a) < 2 ^ LENGTH('a) \<Longrightarrow> unat (a + 1) = Suc (unat a)"
  by (simp add: unat_add_no_wrap)

lemma unat_mult_no_wrap [word_nat]:
  fixes a b :: "'a::len word"
  shows "unat a * unat b < 2 ^ LENGTH('a) \<Longrightarrow> unat (a * b) = unat a * unat b"
  using unat_mult_lem by blast

lemma unat_diff_le [word_nat]:
  fixes a b :: "'a::len word"
  shows "b \<le> a \<Longrightarrow> unat (a - b) = unat a - unat b"
  by (rule unat_sub)

text \<open>Multiplying by a word that has an inverse loses nothing.\<close>

lemma word_mult_inverse_nonzero:
  fixes a b c :: "'a::len word"
  assumes "a * c = 1" and "b \<noteq> 0"
  shows "b * a \<noteq> 0"
proof
  assume "b * a = 0"
  then have "b * (a * c) = 0" by (simp flip: mult.assoc)
  with assms show False by simp
qed

section \<open>Reachability\<close>

text \<open>States that a step relation reaches from an initial state; used for every step relation.\<close>

inductive reaches :: "('s \<Rightarrow> 's \<Rightarrow> bool) \<Rightarrow> 's \<Rightarrow> 's \<Rightarrow> bool"
  for r :: "'s \<Rightarrow> 's \<Rightarrow> bool" and s0 :: 's where
  start: "reaches r s0 s0"
| step: "reaches r s0 s \<Longrightarrow> r s t \<Longrightarrow> reaches r s0 t"

lemma reaches_invariant:
  assumes "reaches r s0 s" and "I s0" and "\<And>s t. I s \<Longrightarrow> r s t \<Longrightarrow> I t"
  shows "I s"
  using assms(1) by (induction rule: reaches.induct) (auto intro: assms(2,3))

lemma reaches_trans:
  assumes "reaches r b c" and "reaches r a b"
  shows "reaches r a c"
  using assms by (induction rule: reaches.induct) (auto intro: reaches.step)

lemma reaches_step1: "r s t \<Longrightarrow> reaches r s t"
  by (rule reaches.step [OF reaches.start])

lemma reaches_then: "r s t \<Longrightarrow> reaches r t u \<Longrightarrow> reaches r s u"
  by (rule reaches_trans [OF _ reaches_step1])

lemma reaches_mono_invariant:
  assumes "reaches r s0 s" and "I s0" and "\<And>s t. reaches r s0 s \<Longrightarrow> I s \<Longrightarrow> r s t \<Longrightarrow> I t"
  shows "I s"
  using assms(1) by (induction rule: reaches.induct) (auto intro: assms(2,3))

end
