(* ===== verification/MemUtils.thy ===== *)
theory MemUtils
  imports Prelude
begin

text \<open>
  The memory helpers of \<open>include/sk_memory_utils.h\<close>: the over-aligned allocator
  \<open>sys_aligned_alloc\<close> / \<open>sys_aligned_free\<close>, and \<open>next_power_of_two\<close>, which rounds the capacities
  of both queues. \<open>malloc\<close> is a parameter: it maps a request in bytes to the address of a block, or
  \<open>None\<close> for a null result. The words of memory the helpers write (one header word per block) are
  a partial map from addresses to values.
\<close>

section \<open>The aligned allocator\<close>

type_synonym ptr_store = "size_t \<rightharpoonup> size_t"

definition sys_aligned_alloc ::
  "(size_t \<Rightarrow> size_t option) \<Rightarrow> ptr_store \<Rightarrow> size_t \<Rightarrow> size_t \<Rightarrow> (size_t \<times> ptr_store) option" where
  "sys_aligned_alloc malloc st alignment sz =
     (let offset = alignment - 1 + 8 in
      case malloc (sz + offset) of
        None \<Rightarrow> None
      | Some raw_ptr \<Rightarrow>
          (let unaligned_addr = raw_ptr + 8;
               aligned_addr = (unaligned_addr + alignment - 1) AND NOT (alignment - 1)
           in Some (aligned_addr, st(aligned_addr - 8 \<mapsto> raw_ptr))))"

text \<open>
  \<open>sys_aligned_free\<close> passes the header word to \<open>free\<close>; the result is that argument, \<open>None\<close> when
  nothing is freed (a null pointer, or a pointer without a header, which the code must not be given).
\<close>

definition sys_aligned_free :: "ptr_store \<Rightarrow> size_t \<Rightarrow> size_t option" where
  "sys_aligned_free st aligned_ptr = (if aligned_ptr \<noteq> 0 then st (aligned_ptr - 8) else None)"

section \<open>Rounding to a power of two\<close>

definition next_power_of_two :: "size_t \<Rightarrow> size_t" where
  "next_power_of_two sz =
     (if sz \<le> 2 then 2
      else
        (let s = sz - 1;
             s = s OR drop_bit 1 s;
             s = s OR drop_bit 2 s;
             s = s OR drop_bit 4 s;
             s = s OR drop_bit 8 s;
             s = s OR drop_bit 16 s;
             s = s OR drop_bit 32 s
         in s + 1))"

text \<open>The six shifts fill every bit below the highest one.\<close>

definition smear64 :: "size_t \<Rightarrow> size_t" where
  "smear64 s =
     (let s = s OR drop_bit 1 s;
          s = s OR drop_bit 2 s;
          s = s OR drop_bit 4 s;
          s = s OR drop_bit 8 s;
          s = s OR drop_bit 16 s
      in s OR drop_bit 32 s)"

lemma next_power_of_two_smear:
  "next_power_of_two sz = (if sz \<le> 2 then 2 else smear64 (sz - 1) + 1)"
  by (simp add: next_power_of_two_def smear64_def Let_def)

lemma bit_smear64: "bit (smear64 s) n \<longleftrightarrow> (\<exists>j<64. bit s (n + j))"
proof -
  let ?s1 = "s OR drop_bit 1 s"
  let ?s2 = "?s1 OR drop_bit 2 ?s1"
  let ?s3 = "?s2 OR drop_bit 4 ?s2"
  let ?s4 = "?s3 OR drop_bit 8 ?s3"
  let ?s5 = "?s4 OR drop_bit 16 ?s4"
  have 0: "bit s n \<longleftrightarrow> (\<exists>j<1. bit s (n + j))" for n by simp
  note 1 = smear_double [OF 0]
  note 2 = smear_double [where x = s and m = 2, OF 1 [unfolded one_add_one]]
  note 3 = smear_double [where x = s and m = 4, OF 2 [simplified]]
  note 4 = smear_double [where x = s and m = 8, OF 3 [simplified]]
  note 5 = smear_double [where x = s and m = 16, OF 4 [simplified]]
  note 6 = smear_double [where x = s and m = 32, OF 5 [simplified]]
  show ?thesis
    using 6 [of n] by (simp add: smear64_def Let_def)
qed

lemma smear64_mask:
  assumes "2 ^ p \<le> unat s" and "unat s < 2 ^ Suc p"
  shows "smear64 s = mask (Suc p)"
proof (rule bit_eqI)
  fix n assume n: "possible_bit TYPE(64 word) n"
  have "2 ^ p < (2::nat) ^ 64"
    using assms(1) unat_bound_64 [of s] by linarith
  then have p: "p < 64"
    by (rule power_less_imp_less_exp [rotated]) simp
  show "bit (smear64 s) n \<longleftrightarrow> bit (mask (Suc p) :: 64 word) n"
  proof (cases "n \<le> p")
    case True
    then have "bit s (n + (p - n))" and "p - n < 64"
      using word_top_bit_set [OF assms] p by simp_all
    with True n show ?thesis
      by (auto simp: bit_smear64 bit_mask_iff)
  next
    case False
    then have "\<not> bit s (n + j)" for j
      using word_top_bit_above [OF assms] by simp
    with False show ?thesis
      by (auto simp: bit_smear64 bit_mask_iff)
  qed
qed

text \<open>
  Rounding is exact for every size whose power of two is representable: the result is the least
  power of two that is not below the size (and 2 for sizes below 2).
\<close>

lemma next_power_of_two_smear_value:
  assumes "2 < sz" and "2 ^ p < unat sz" and "unat sz \<le> 2 ^ Suc p"
  shows "next_power_of_two sz = mask (Suc p) + 1"
proof -
  have "unat (sz - 1) = unat sz - 1"
    using assms(1) by (intro unat_minus_one) auto
  then have "2 ^ p \<le> unat (sz - 1)" and "unat (sz - 1) < 2 ^ Suc p"
    using assms(2,3) by simp_all
  then have "smear64 (sz - 1) = mask (Suc p)" by (rule smear64_mask)
  with assms(1) show ?thesis
    by (simp add: next_power_of_two_smear flip: linorder_not_less)
qed

lemma pow2_bracket:
  assumes "2 < (n::nat)"
  obtains p where "2 ^ p < n" and "n \<le> 2 ^ Suc p"
proof -
  obtain p where "2 ^ p \<le> n - 1" and "n - 1 < 2 ^ Suc p"
    using assms by (elim floor_pow2 [of "n - 1", rotated]) auto
  with assms have "2 ^ p < n" and "n \<le> 2 ^ Suc p" by linarith+
  then show thesis by (rule that)
qed

text \<open>
  \<open>next_power_of_two\<close> returns, for every size up to \<open>2 ^ 63\<close>, the least power of two that is at
  least the size and at least 2.
\<close>

theorem next_power_of_two_correct:
  assumes "unat sz \<le> 2 ^ 63"
  shows "\<exists>k. 0 < k \<and> k \<le> 63 \<and> unat (next_power_of_two sz) = 2 ^ k
           \<and> unat sz \<le> 2 ^ k \<and> (\<forall>j. 0 < j \<and> unat sz \<le> 2 ^ j \<longrightarrow> k \<le> j)"
proof (cases "sz \<le> 2")
  case True
  then have "unat sz \<le> 2" by (simp add: word_le_nat_alt)
  with True show ?thesis
    by (intro exI [of _ 1]) (simp add: next_power_of_two_def)
next
  case False
  then have "2 < unat sz" by (simp add: word_le_nat_alt)
  then obtain p where p: "2 ^ p < unat sz" "unat sz \<le> 2 ^ Suc p"
    by (rule pow2_bracket)
  have "2 ^ p < (2::nat) ^ 63" using p(1) assms by simp
  then have "p < 63" by (rule power_less_imp_less_exp [rotated]) simp
  have "next_power_of_two sz = 2 ^ Suc p"
    using next_power_of_two_smear_value [OF _ p] False by (simp add: mask_eq_exp_minus_1)
  with \<open>p < 63\<close> have val: "unat (next_power_of_two sz) = 2 ^ Suc p"
    using unat_pow2_64 [of "Suc p"] by simp
  have "Suc p \<le> j" if "0 < j \<and> unat sz \<le> 2 ^ j" for j
  proof -
    from that p(1) have "2 ^ p < (2::nat) ^ j" by linarith
    then have "p < j" by (rule power_less_imp_less_exp [rotated]) simp
    then show ?thesis by simp
  qed
  with val p \<open>p < 63\<close> show ?thesis
    by (intro exI [of _ "Suc p"]) auto
qed

theorem next_power_of_two_correct_witness:
  "\<exists>k. 0 < k \<and> k \<le> 63 \<and> unat (next_power_of_two 1000) = 2 ^ k
     \<and> unat (1000::size_t) \<le> 2 ^ k \<and> (\<forall>j. 0 < j \<and> unat (1000::size_t) \<le> 2 ^ j \<longrightarrow> k \<le> j)"
  by (rule next_power_of_two_correct) simp

lemma next_power_of_two_pow2:
  assumes "unat sz \<le> 2 ^ 63"
  obtains k where "0 < k" and "k \<le> 63" and "next_power_of_two sz = 2 ^ k" and "unat sz \<le> 2 ^ k"
    and "k = 1 \<or> 2 ^ (k - 1) < unat sz"
proof (cases "sz \<le> 2")
  case True
  with that [of 1] show thesis by (simp add: next_power_of_two_def word_le_nat_alt)
next
  case False
  then have "2 < unat sz" by (simp add: word_le_nat_alt)
  then obtain p where p: "2 ^ p < unat sz" "unat sz \<le> 2 ^ Suc p"
    by (rule pow2_bracket)
  then have "2 ^ p < (2::nat) ^ 63" using assms by simp
  then have "p < 63" by (rule power_less_imp_less_exp [rotated]) simp
  with that [of "Suc p"] p next_power_of_two_smear_value [OF _ p] False show thesis
    by (simp add: mask_eq_exp_minus_1)
qed

text \<open>
  Above \<open>2 ^ 63\<close> there is no power of two to round up to, and \<open>next_power_of_two\<close> wraps around
  to 0 (a capacity mask of \<open>-1\<close> over an empty buffer follows).
\<close>

theorem next_power_of_two_overflow:
  assumes "2 ^ 63 < unat sz"
  shows "next_power_of_two sz = 0"
proof -
  have "2 < sz" using assms by (simp add: word_less_nat_alt)
  moreover have "unat sz \<le> 2 ^ Suc 63" using unat_bound_64 [of sz] by simp
  ultimately have "next_power_of_two sz = mask (Suc 63) + 1"
    using assms by (intro next_power_of_two_smear_value)
  then show ?thesis by (simp add: mask_eq_exp_minus_1)
qed

theorem next_power_of_two_overflow_witness: "next_power_of_two 9223372036854775809 = 0"
  by (rule next_power_of_two_overflow) simp

section \<open>Alignment, bounds and the free round trip\<close>

text \<open>
  Rounding an address up to a multiple of \<open>2 ^ k\<close> with the code's mask expression.
\<close>

lemma align_up_value:
  fixes addr :: size_t
  assumes "k < 64" and "unat addr + 2 ^ k \<le> 2 ^ 64"
  shows "unat ((addr + 2 ^ k - 1) AND NOT (2 ^ k - 1))
       = (unat addr + (2 ^ k - 1)) - (unat addr + (2 ^ k - 1)) mod 2 ^ k"
proof -
  have "unat ((2::size_t) ^ k - 1) = 2 ^ k - 1"
    using unat_and_pow2_minus_1 [of "-1 :: size_t" k] assms(1)
    by (simp add: unat_pow2_64 unat_minus_one)
  moreover have "unat addr + (2 ^ k - 1) < 2 ^ 64" using assms(2) by simp
  ultimately have "unat (addr + (2 ^ k - 1)) = unat addr + (2 ^ k - 1)"
    by (simp add: unat_add_no_wrap)
  then show ?thesis
    by (simp add: unat_and_not_mask flip: add_diff_eq)
qed

lemma round_up_bounds:
  fixes n a :: nat
  assumes "0 < a"
  defines "r \<equiv> (n + (a - 1)) - (n + (a - 1)) mod a"
  shows "n \<le> r" and "r \<le> n + (a - 1)" and "r mod a = 0"
proof -
  have "(n + (a - 1)) mod a < a" using assms(1) by (rule mod_less_divisor)
  then show "n \<le> r" using assms(1) unfolding r_def by linarith
  show "r \<le> n + (a - 1)" by (simp add: r_def)
  show "r mod a = 0" by (simp add: r_def minus_mod_eq_mult_div)
qed


text \<open>
  \<open>sys_aligned_alloc\<close> returns an address that is a multiple of the requested alignment, whose
  header word and whole payload lie inside the block that \<open>malloc\<close> returned, and
  \<open>sys_aligned_free\<close> on that address hands the original \<open>malloc\<close> pointer back to \<open>free\<close>.
\<close>

theorem sys_aligned_alloc_correct:
  assumes k: "3 \<le> k" "k < 63"
    and req: "unat sz + 2 ^ k + 7 < 2 ^ 64"
    and blk: "malloc (sz + (2 ^ k - 1 + 8)) = Some raw"
      "0 < unat raw" "unat raw + (unat sz + 2 ^ k + 7) < 2 ^ 64"
  shows "\<exists>p st'. sys_aligned_alloc malloc st (2 ^ k) sz = Some (p, st')
      \<and> unat p mod 2 ^ k = 0 \<and> unat raw \<le> unat p - 8 \<and> 8 \<le> unat p
      \<and> unat p + unat sz \<le> unat raw + (unat sz + 2 ^ k + 7)
      \<and> sys_aligned_free st' p = Some raw"
proof -
  let ?una = "raw + 8 :: size_t"
  let ?p = "(?una + 2 ^ k - 1) AND NOT (2 ^ k - 1)"
  have one: "8 \<le> (2::nat) ^ k" using power_increasing [OF k(1), of "2::nat"] by simp
  have "unat raw + 8 < 2 ^ 64" using blk(3) one by linarith
  then have una: "unat ?una = unat raw + 8"
    using unat_add_no_wrap [of raw "8 :: size_t"] by simp
  have "unat ?una + 2 ^ k \<le> 2 ^ 64"
    using blk(3) una by simp
  with k(2) have p: "unat ?p = (unat ?una + (2 ^ k - 1)) - (unat ?una + (2 ^ k - 1)) mod 2 ^ k"
    by (intro align_up_value) simp_all
  note b = round_up_bounds [of "2 ^ k" "unat ?una", folded p]
  have lo: "unat raw + 8 \<le> unat ?p" using b(1) una by simp
  have hi: "unat ?p \<le> unat raw + 8 + (2 ^ k - 1)" using b(2) una by simp
  have "?p \<noteq> 0" using lo by (metis add_is_0 le_zero_eq unsigned_0 zero_neq_numeral)
  moreover have "sys_aligned_alloc malloc st (2 ^ k) sz = Some (?p, st(?p - 8 \<mapsto> raw))"
    using blk(1) by (simp add: sys_aligned_alloc_def Let_def algebra_simps)
  ultimately show ?thesis
    using b(3) lo hi by (intro exI [of _ ?p] exI [of _ "st(?p - 8 \<mapsto> raw)"]) (auto simp: sys_aligned_free_def)
qed

theorem sys_aligned_alloc_correct_witness:
  "\<exists>p st'. sys_aligned_alloc (\<lambda>n. Some 4104) Map.empty (2 ^ 6) 512 = Some (p, st')
      \<and> unat p mod 2 ^ 6 = 0 \<and> unat (4104::size_t) \<le> unat p - 8 \<and> 8 \<le> unat p
      \<and> unat p + unat (512::size_t) \<le> unat (4104::size_t) + (unat (512::size_t) + 2 ^ 6 + 7)
      \<and> sys_aligned_free st' p = Some 4104"
  by (rule sys_aligned_alloc_correct) simp_all

text \<open>A request whose \<open>malloc\<close> call fails is reported to the caller, and nothing is written.\<close>

lemma sys_aligned_alloc_null:
  "malloc (sz + (alignment - 1 + 8)) = None \<Longrightarrow> sys_aligned_alloc malloc st alignment sz = None"
  by (simp add: sys_aligned_alloc_def Let_def)

end
