(* ===== verification/ClDeque.thy ===== *)
theory ClDeque
  imports MemUtils "HOL-Library.Multiset"
begin

text \<open>
  The Chase-Lev deque of \<open>include/sk_cl_deque.h\<close>, each operation run without interference. The
  fields are those of \<open>sc_cl_deque\<close>; \<open>int64_t\<close> indices are integers (the code never lets them
  overflow before \<open>2 ^ 63\<close> pushes, and overflowing them is undefined in C), the buffer is a function
  of the masked index. The locale \<open>work_deque\<close> states what the workers rely on; it is interpreted on
  the operations below. \<open>ClDequeConc\<close> runs the same operations interleaved.
\<close>

section \<open>State and operations\<close>

record 'a sc_cl_deque =
  cl_top :: int
  cl_bottom :: int
  cl_top_cache :: int
  cl_buffer :: "int \<Rightarrow> 'a"
  cl_capacity_mask :: int

text \<open>
  \<open>alloc\<close> stands for \<open>sys_aligned_alloc(64, bytes)\<close>: the contents of the fresh buffer, or \<open>None\<close> for
  a failed allocation, on which the code exits the process.
\<close>

definition chase_lev_init :: "(size_t \<Rightarrow> (int \<Rightarrow> 'a) option) \<Rightarrow> size_t \<Rightarrow> 'a sc_cl_deque option" where
  "chase_lev_init alloc deque_size =
     (let actual_size = sint (next_power_of_two deque_size) in
      case alloc (word_of_int actual_size * 8) of
        None \<Rightarrow> None
      | Some buf \<Rightarrow> Some \<lparr>cl_top = 0, cl_bottom = 0, cl_top_cache = 0, cl_buffer = buf,
                         cl_capacity_mask = actual_size - 1\<rparr>)"

definition slot :: "'a sc_cl_deque \<Rightarrow> int \<Rightarrow> int" where
  "slot d i = i AND cl_capacity_mask d"

definition chase_lev_push :: "'a sc_cl_deque \<Rightarrow> 'a \<Rightarrow> bool \<times> 'a sc_cl_deque" where
  "chase_lev_push d task =
     (let b = cl_bottom d;
          capacity = cl_capacity_mask d + 1;
          d1 = (if capacity \<le> b - cl_top_cache d then d\<lparr>cl_top_cache := cl_top d\<rparr> else d)
      in if capacity \<le> b - cl_top_cache d \<and> capacity \<le> b - cl_top_cache d1 then (False, d1)
         else (True, d1\<lparr>cl_buffer := (cl_buffer d1)(slot d1 b := task), cl_bottom := b + 1\<rparr>))"

text \<open>The copy loop of \<open>chase_lev_push_batch\<close>: \<open>tasks[i]\<close> goes to the slot of \<open>b + i\<close>.\<close>

fun write_batch :: "'a sc_cl_deque \<Rightarrow> int \<Rightarrow> 'a list \<Rightarrow> 'a sc_cl_deque" where
  "write_batch d b [] = d"
| "write_batch d b (x # xs) =
     write_batch (d\<lparr>cl_buffer := (cl_buffer d)(slot d b := x)\<rparr>) (b + 1) xs"

definition chase_lev_push_batch :: "'a sc_cl_deque \<Rightarrow> 'a list \<Rightarrow> nat \<times> 'a sc_cl_deque" where
  "chase_lev_push_batch d tasks =
     (let count = int (length tasks) in
      if count = 0 then (0, d)
      else
        (let b = cl_bottom d;
             capacity = cl_capacity_mask d + 1;
             d1 = (if capacity - (b - cl_top_cache d) < count then d\<lparr>cl_top_cache := cl_top d\<rparr> else d);
             available = capacity - (b - cl_top_cache d1)
         in if capacity - (b - cl_top_cache d) < count \<and> available \<le> 0 then (0, d1)
            else
              (let push_count = (if available < count then available else count)
               in (nat push_count,
                   (write_batch d1 b (take (nat push_count) tasks))\<lparr>cl_bottom := b + push_count\<rparr>))))"

text \<open>
  The owner's pop. The compare-and-swap of the last element succeeds exactly when \<open>top\<close> still holds
  the expected value, which it does when no thief runs in between.
\<close>

definition chase_lev_pop :: "'a sc_cl_deque \<Rightarrow> 'a option \<times> 'a sc_cl_deque" where
  "chase_lev_pop d =
     (let b = cl_bottom d; t = cl_top d in
      if b \<le> t then (None, d)
      else
        (let b = b - 1;
             d1 = d\<lparr>cl_bottom := b\<rparr>;
             t = cl_top d1;
             sz = b - t
         in if sz < 0 then (None, d1\<lparr>cl_bottom := t\<rparr>)
            else
              (let task = cl_buffer d1 (slot d1 b)
               in if 0 < sz then (Some task, d1)
                  else
                    (let won_race = (cl_top d1 = t);
                         d2 = (if won_race then d1\<lparr>cl_top := t + 1\<rparr> else d1)
                     in (if won_race then Some task else None, d2\<lparr>cl_bottom := t + 1\<rparr>)))))"

definition chase_lev_steal :: "'a sc_cl_deque \<Rightarrow> 'a option \<times> 'a sc_cl_deque" where
  "chase_lev_steal d =
     (let t = cl_top d; b = cl_bottom d in
      if b \<le> t then (None, d)
      else
        (let task = cl_buffer d (slot d t)
         in if cl_top d = t then (Some task, d\<lparr>cl_top := t + 1\<rparr>) else (None, d)))"

section \<open>Live ranges of the ring\<close>

text \<open>The elements stored at the logical indices from \<open>t\<close> up to, not including, \<open>e\<close>.\<close>

definition live :: "'a sc_cl_deque \<Rightarrow> int \<Rightarrow> int \<Rightarrow> 'a list" where
  "live d t e = map (\<lambda>i. cl_buffer d (slot d i)) [t..e - 1]"

definition ring_ok :: "'a sc_cl_deque \<Rightarrow> bool" where
  "ring_ok d \<longleftrightarrow> (\<exists>k. cl_capacity_mask d + 1 = 2 ^ k)"

lemma ring_ok_updates [simp]:
  "ring_ok (d\<lparr>cl_top := t\<rparr>) = ring_ok d"
  "ring_ok (d\<lparr>cl_bottom := b\<rparr>) = ring_ok d"
  "ring_ok (d\<lparr>cl_top_cache := c\<rparr>) = ring_ok d"
  "ring_ok (d\<lparr>cl_buffer := f\<rparr>) = ring_ok d"
  by (simp_all add: ring_ok_def)

lemma slot_updates [simp]:
  "slot (d\<lparr>cl_top := t\<rparr>) = slot d"
  "slot (d\<lparr>cl_bottom := b\<rparr>) = slot d"
  "slot (d\<lparr>cl_top_cache := c\<rparr>) = slot d"
  "slot (d\<lparr>cl_buffer := f\<rparr>) = slot d"
  by (simp_all add: slot_def fun_eq_iff)

lemma live_updates [simp]:
  "live (d\<lparr>cl_top := t\<rparr>) = live d"
  "live (d\<lparr>cl_bottom := b\<rparr>) = live d"
  "live (d\<lparr>cl_top_cache := c\<rparr>) = live d"
  by (simp_all add: live_def fun_eq_iff)

lemma ring_ok_capacity: "ring_ok d \<Longrightarrow> 0 < cl_capacity_mask d + 1"
  by (metis ring_ok_def zero_less_numeral zero_less_power)

lemma slot_mod:
  assumes "ring_ok d"
  shows "slot d i = i mod (cl_capacity_mask d + 1)"
proof -
  obtain k where "cl_capacity_mask d + 1 = 2 ^ k" using assms by (auto simp: ring_ok_def)
  moreover from this have "cl_capacity_mask d = 2 ^ k - 1" by simp
  ultimately show ?thesis by (simp add: slot_def int_and_pow2_minus_1)
qed

text \<open>Every buffer access of the code stays inside the allocated ring.\<close>

lemma slot_bounds:
  assumes "ring_ok d"
  shows "0 \<le> slot d i" and "slot d i < cl_capacity_mask d + 1"
  using pos_mod_sign [OF ring_ok_capacity [OF assms]] pos_mod_bound [OF ring_ok_capacity [OF assms]]
  by (simp_all add: slot_mod [OF assms])

lemma slot_neq:
  assumes "ring_ok d" and "i \<noteq> j" and "\<bar>i - j\<bar> < cl_capacity_mask d + 1"
  shows "slot d i \<noteq> slot d j"
  using assms by (simp add: slot_mod mod_slot_neq)

lemma live_empty [simp]: "e \<le> t \<Longrightarrow> live d t e = []"
  by (simp add: live_def)

lemma length_live: "length (live d t e) = nat (e - t)"
  by (simp add: live_def)

lemma live_Cons: "t < e \<Longrightarrow> live d t e = cl_buffer d (slot d t) # live d (t + 1) e"
  by (simp add: live_def upto_rec1)

lemma live_snoc: "t \<le> b \<Longrightarrow> live d t (b + 1) = live d t b @ [cl_buffer d (slot d b)]"
  by (simp add: live_def upto_rec2)

lemma live_append: "t \<le> b \<Longrightarrow> b \<le> e \<Longrightarrow> live d t e = live d t b @ live d b e"
proof -
  assume "t \<le> b" "b \<le> e"
  then have "[t..e - 1] = [t..b - 1] @ [b..e - 1]"
    using upto_split1 [of t b "e - 1"] by (cases "b = e") simp_all
  then show ?thesis by (simp add: live_def)
qed

lemma live_write_outside:
  assumes "ring_ok d" and "e \<le> b" and "b - t < cl_capacity_mask d + 1"
  shows "live (d\<lparr>cl_buffer := (cl_buffer d)(slot d b := x)\<rparr>) t e = live d t e"
  unfolding live_def
  using assms by (auto simp: slot_neq)

lemma live_push:
  assumes "ring_ok d" and "t \<le> b" and "b - t < cl_capacity_mask d + 1"
  shows "live (d\<lparr>cl_buffer := (cl_buffer d)(slot d b := x)\<rparr>) t (b + 1) = live d t b @ [x]"
  using assms by (simp add: live_snoc live_write_outside)

section \<open>Invariant and contents\<close>

definition deque_inv :: "'a sc_cl_deque \<Rightarrow> bool" where
  "deque_inv d \<longleftrightarrow> ring_ok d \<and> 0 \<le> cl_top_cache d \<and> cl_top_cache d \<le> cl_top d
     \<and> cl_top d \<le> cl_bottom d \<and> cl_bottom d - cl_top d \<le> cl_capacity_mask d + 1"

definition deque_items :: "'a sc_cl_deque \<Rightarrow> 'a list" where
  "deque_items d = live d (cl_top d) (cl_bottom d)"

definition deque_capacity :: "'a sc_cl_deque \<Rightarrow> nat" where
  "deque_capacity d = nat (cl_capacity_mask d + 1)"

lemma length_deque_items: "length (deque_items d) = nat (cl_bottom d - cl_top d)"
  by (simp add: deque_items_def length_live)

section \<open>The interface of a work-stealing deque\<close>

text \<open>
  What the workers rely on: the owner pushes and pops at one end, thieves take from the other, a
  full deque refuses a push and an empty one yields nothing.
\<close>

datatype 'a deque_op = Push 'a | Pop | Steal

text \<open>A run of operations: the values accepted, the values handed out, and the final deque.\<close>

fun deque_run ::
  "('d \<Rightarrow> 'a \<Rightarrow> bool \<times> 'd) \<Rightarrow> ('d \<Rightarrow> 'a option \<times> 'd) \<Rightarrow> ('d \<Rightarrow> 'a option \<times> 'd) \<Rightarrow>
   'd \<Rightarrow> 'a deque_op list \<Rightarrow> 'a list \<times> 'a list \<times> 'd" where
  "deque_run push pop steal d [] = ([], [], d)"
| "deque_run push pop steal d (Push x # os) =
     (let (ok, d') = push d x; (ins, outs, d'') = deque_run push pop steal d' os
      in (if ok then x # ins else ins, outs, d''))"
| "deque_run push pop steal d (Pop # os) =
     (let (r, d') = pop d; (ins, outs, d'') = deque_run push pop steal d' os
      in (ins, (case r of None \<Rightarrow> outs | Some x \<Rightarrow> x # outs), d''))"
| "deque_run push pop steal d (Steal # os) =
     (let (r, d') = steal d; (ins, outs, d'') = deque_run push pop steal d' os
      in (ins, (case r of None \<Rightarrow> outs | Some x \<Rightarrow> x # outs), d''))"

locale work_deque =
  fixes inv :: "'d \<Rightarrow> bool"
    and items :: "'d \<Rightarrow> 'a list"
    and cap :: "'d \<Rightarrow> nat"
    and push :: "'d \<Rightarrow> 'a \<Rightarrow> bool \<times> 'd"
    and pop :: "'d \<Rightarrow> 'a option \<times> 'd"
    and steal :: "'d \<Rightarrow> 'a option \<times> 'd"
  assumes push_keeps: "inv d \<Longrightarrow> inv (snd (push d x)) \<and> cap (snd (push d x)) = cap d"
    and push_result: "inv d \<Longrightarrow> fst (push d x) \<longleftrightarrow> length (items d) < cap d"
    and push_items: "inv d \<Longrightarrow>
      items (snd (push d x)) = (if length (items d) < cap d then items d @ [x] else items d)"
    and pop_keeps: "inv d \<Longrightarrow> inv (snd (pop d)) \<and> cap (snd (pop d)) = cap d"
    and pop_result: "inv d \<Longrightarrow> fst (pop d) = (if items d = [] then None else Some (last (items d)))"
    and pop_items: "inv d \<Longrightarrow> items (snd (pop d)) = butlast (items d)"
    and steal_keeps: "inv d \<Longrightarrow> inv (snd (steal d)) \<and> cap (snd (steal d)) = cap d"
    and steal_result: "inv d \<Longrightarrow> fst (steal d) = (if items d = [] then None else Some (hd (items d)))"
    and steal_items: "inv d \<Longrightarrow> items (snd (steal d)) = tl (items d)"
begin

lemma pop_after_push:
  assumes "inv d" and "length (items d) < cap d"
  shows "fst (pop (snd (push d x))) = Some x"
    and "items (snd (pop (snd (push d x)))) = items d"
  using assms by (simp_all add: push_keeps push_items pop_result pop_items)

lemma mset_pop: "inv d \<Longrightarrow>
    mset (items d) = mset (items (snd (pop d))) + (case fst (pop d) of None \<Rightarrow> {#} | Some x \<Rightarrow> {#x#})"
  by (cases "items d" rule: rev_cases) (simp_all add: pop_result pop_items)

lemma mset_steal: "inv d \<Longrightarrow>
    mset (items d) = mset (items (snd (steal d))) + (case fst (steal d) of None \<Rightarrow> {#} | Some x \<Rightarrow> {#x#})"
  by (cases "items d") (simp_all add: steal_result steal_items)

lemma mset_push: "inv d \<Longrightarrow>
    mset (items (snd (push d x))) = mset (items d) + (if fst (push d x) then {#x#} else {#})"
  by (simp add: push_result push_items)

text \<open>Nothing is lost and nothing is handed out twice in any run of operations.\<close>

lemma run_conserves:
  assumes "inv d" and "deque_run push pop steal d os = (ins, outs, d')"
  shows "inv d' \<and> mset (items d) + mset ins = mset outs + mset (items d')"
  using assms
proof (induction os arbitrary: d ins outs d')
  case Nil
  then show ?case by simp
next
  case (Cons a os)
  show ?case
  proof (cases a)
    case (Push x)
    obtain ok d1 where p: "push d x = (ok, d1)" by fastforce
    obtain i u d2 where r: "deque_run push pop steal d1 os = (i, u, d2)" by (rule prod_cases3)
    have "inv d1" using push_keeps [OF Cons.prems(1), of x] p by simp
    with Cons.IH [OF _ r] mset_push [OF Cons.prems(1), of x] Cons.prems(2) Push p r
    show ?thesis by (auto split: if_splits)
  next
    case Pop
    obtain x d1 where p: "pop d = (x, d1)" by fastforce
    obtain i u d2 where r: "deque_run push pop steal d1 os = (i, u, d2)" by (rule prod_cases3)
    have "inv d1" using pop_keeps [OF Cons.prems(1)] p by simp
    with Cons.IH [OF _ r] mset_pop [OF Cons.prems(1)] Cons.prems(2) Pop p r
    show ?thesis by (auto split: option.splits)
  next
    case Steal
    obtain x d1 where p: "steal d = (x, d1)" by fastforce
    obtain i u d2 where r: "deque_run push pop steal d1 os = (i, u, d2)" by (rule prod_cases3)
    have "inv d1" using steal_keeps [OF Cons.prems(1)] p by simp
    with Cons.IH [OF _ r] mset_steal [OF Cons.prems(1)] Cons.prems(2) Steal p r
    show ?thesis by (auto split: option.splits)
  qed
qed

end

section \<open>The code's deque meets the interface\<close>

lemma deque_push_full:
  assumes "deque_inv d" and "length (deque_items d) \<ge> deque_capacity d"
  shows "chase_lev_push d x = (False, d\<lparr>cl_top_cache := cl_top d\<rparr>)"
proof -
  have "cl_capacity_mask d + 1 \<le> cl_bottom d - cl_top d"
    using assms ring_ok_capacity [of d]
    by (simp add: deque_inv_def length_deque_items deque_capacity_def nat_le_eq_zle)
  moreover have "cl_top_cache d \<le> cl_top d" using assms(1) by (simp add: deque_inv_def)
  ultimately show ?thesis by (simp add: chase_lev_push_def Let_def)
qed

lemma deque_push_room:
  assumes "deque_inv d" and "length (deque_items d) < deque_capacity d"
  shows "\<exists>c. cl_top_cache d \<le> c \<and> c \<le> cl_top d \<and> chase_lev_push d x =
      (True, d\<lparr>cl_top_cache := c, cl_buffer := (cl_buffer d)(slot d (cl_bottom d) := x),
              cl_bottom := cl_bottom d + 1\<rparr>)"
proof -
  have "cl_bottom d - cl_top d < cl_capacity_mask d + 1"
    using assms by (simp add: deque_inv_def length_deque_items deque_capacity_def)
  then show ?thesis
    using assms(1)
    by (intro exI [of _ "if cl_capacity_mask d + 1 \<le> cl_bottom d - cl_top_cache d
                         then cl_top d else cl_top_cache d"])
       (auto simp: chase_lev_push_def Let_def deque_inv_def)
qed

lemma deque_pop_value:
  assumes "deque_inv d"
  shows "chase_lev_pop d =
    (if cl_bottom d \<le> cl_top d then (None, d)
     else (Some (cl_buffer d (slot d (cl_bottom d - 1))),
           if cl_bottom d - 1 = cl_top d then d\<lparr>cl_top := cl_bottom d\<rparr>
           else d\<lparr>cl_bottom := cl_bottom d - 1\<rparr>))"
  using assms by (auto simp: chase_lev_pop_def Let_def deque_inv_def)

lemma deque_steal_value:
  "chase_lev_steal d =
    (if cl_bottom d \<le> cl_top d then (None, d)
     else (Some (cl_buffer d (slot d (cl_top d))), d\<lparr>cl_top := cl_top d + 1\<rparr>))"
  by (simp add: chase_lev_steal_def Let_def)

lemma deque_items_split:
  assumes "deque_inv d" and "cl_top d < cl_bottom d"
  shows "deque_items d = cl_buffer d (slot d (cl_top d)) # live d (cl_top d + 1) (cl_bottom d)"
    and "deque_items d = live d (cl_top d) (cl_bottom d - 1) @ [cl_buffer d (slot d (cl_bottom d - 1))]"
  using assms live_snoc [of "cl_top d" "cl_bottom d - 1" d]
  by (simp_all add: deque_items_def live_Cons)

lemma deque_items_empty: "deque_inv d \<Longrightarrow> deque_items d = [] \<longleftrightarrow> cl_bottom d \<le> cl_top d"
  using length_deque_items [of d] by (auto simp: deque_inv_def simp flip: length_0_conv)

interpretation cl: work_deque deque_inv deque_items deque_capacity
  chase_lev_push chase_lev_pop chase_lev_steal
proof unfold_locales
  fix d :: "'a sc_cl_deque" and x :: 'a
  assume inv: "deque_inv d"
  note ring = inv [unfolded deque_inv_def]
  show "deque_inv (snd (chase_lev_push d x)) \<and> deque_capacity (snd (chase_lev_push d x)) = deque_capacity d"
    using deque_push_full [OF inv, of x] deque_push_room [OF inv, of x] inv
    by (cases "length (deque_items d) < deque_capacity d")
       (auto simp: deque_inv_def deque_capacity_def length_deque_items)
  show "fst (chase_lev_push d x) \<longleftrightarrow> length (deque_items d) < deque_capacity d"
    using deque_push_full [OF inv, of x] deque_push_room [OF inv, of x]
    by (cases "length (deque_items d) < deque_capacity d") auto
  show "deque_items (snd (chase_lev_push d x))
      = (if length (deque_items d) < deque_capacity d then deque_items d @ [x] else deque_items d)"
  proof (cases "length (deque_items d) < deque_capacity d")
    case True
    then have "cl_bottom d - cl_top d < cl_capacity_mask d + 1"
      using inv by (simp add: deque_inv_def length_deque_items deque_capacity_def)
    with ring have "live (d\<lparr>cl_buffer := (cl_buffer d)(slot d (cl_bottom d) := x)\<rparr>) (cl_top d) (cl_bottom d + 1)
        = live d (cl_top d) (cl_bottom d) @ [x]"
      by (intro live_push) simp_all
    with True deque_push_room [OF inv True, of x] show ?thesis
      by (auto simp: deque_items_def live_def slot_def)
  next
    case False
    with deque_push_full [OF inv, of x] show ?thesis by (simp add: deque_items_def)
  qed
  show "deque_inv (snd (chase_lev_pop d)) \<and> deque_capacity (snd (chase_lev_pop d)) = deque_capacity d"
    using ring by (auto simp: deque_pop_value [OF inv] deque_inv_def deque_capacity_def)
  show "fst (chase_lev_pop d) = (if deque_items d = [] then None else Some (last (deque_items d)))"
    using deque_items_split(2) [OF inv] by (auto simp: deque_pop_value [OF inv] deque_items_empty [OF inv])
  show "deque_items (snd (chase_lev_pop d)) = butlast (deque_items d)"
    using deque_items_split(2) [OF inv]
    by (auto simp: deque_pop_value [OF inv] deque_items_empty [OF inv])
       (auto simp: deque_items_def)
  show "deque_inv (snd (chase_lev_steal d)) \<and> deque_capacity (snd (chase_lev_steal d)) = deque_capacity d"
    using ring by (auto simp: deque_steal_value deque_inv_def deque_capacity_def)
  show "fst (chase_lev_steal d) = (if deque_items d = [] then None else Some (hd (deque_items d)))"
    using deque_items_split(1) [OF inv] by (auto simp: deque_steal_value deque_items_empty [OF inv])
  show "deque_items (snd (chase_lev_steal d)) = tl (deque_items d)"
    using deque_items_split(1) [OF inv]
    by (auto simp: deque_steal_value deque_items_empty [OF inv])
       (auto simp: deque_items_def)
qed

section \<open>Initialisation\<close>

lemma sint_pow2:
  assumes "k < 63"
  shows "sint (2 ^ k :: 64 word) = 2 ^ k"
proof -
  have "unat (2 ^ k :: 64 word) = 2 ^ k" using assms by (simp add: unat_pow2_64)
  then have u: "uint (2 ^ k :: 64 word) = 2 ^ k"
    by (metis of_nat_numeral of_nat_power uint_nat)
  have "(2::int) ^ k < 2 ^ 63" using assms by (intro power_strict_increasing) simp_all
  moreover have "- (2 ^ 63) \<le> (2::int) ^ k" by (rule order_trans [of _ 0]) simp_all
  ultimately show ?thesis
    by (simp add: sint_uint u signed_take_bit_int_eq_self)
qed

lemma chase_lev_init_ok:
  assumes "unat n \<le> 2 ^ 60" and "\<And>b. alloc b = Some buf"
  shows "\<exists>d k. chase_lev_init alloc n = Some d \<and> deque_inv d \<and> deque_items d = []
      \<and> deque_capacity d = 2 ^ k \<and> unat n \<le> 2 ^ k \<and> next_power_of_two n = 2 ^ k
      \<and> unat (word_of_int (cl_capacity_mask d + 1) * 8 :: size_t) = 8 * deque_capacity d"
proof -
  obtain k where k: "0 < k" "next_power_of_two n = 2 ^ k" "unat n \<le> 2 ^ k" "k = 1 \<or> 2 ^ (k - 1) < unat n"
    using next_power_of_two_pow2 [of n] assms(1) by auto
  have "k \<le> 60"
  proof (cases "k = 1")
    case False
    with k(4) assms(1) have "2 ^ (k - 1) < (2::nat) ^ 60" by linarith
    then have "k - 1 < 60" by (rule power_less_imp_less_exp [rotated]) simp
    then show ?thesis by simp
  qed simp
  then have sint: "sint (2 ^ k :: 64 word) = 2 ^ k" by (intro sint_pow2) simp
  have "(2::nat) ^ k \<le> 2 ^ 60" using \<open>k \<le> 60\<close> by (intro power_increasing) simp_all
  then have bytes: "unat (2 ^ k * 8 :: size_t) = 8 * 2 ^ k"
    using \<open>k \<le> 60\<close> by (subst unat_mult_no_wrap) (simp_all add: unat_pow2_64)
  let ?d = "\<lparr>cl_top = 0, cl_bottom = 0, cl_top_cache = 0, cl_buffer = buf, cl_capacity_mask = 2 ^ k - 1\<rparr>"
  have "chase_lev_init alloc n = Some ?d"
    by (simp add: chase_lev_init_def k(2) sint assms(2))
  moreover have "deque_inv ?d" by (auto simp: deque_inv_def ring_ok_def)
  moreover have "deque_items ?d = []" by (simp add: deque_items_def)
  moreover have "deque_capacity ?d = 2 ^ k" by (simp add: deque_capacity_def nat_power_eq)
  ultimately show ?thesis
    using k bytes by (intro exI [of _ ?d] exI [of _ k]) simp
qed

text \<open>
  \<open>chase_lev_init\<close> builds an empty deque that satisfies the invariant, with the capacity rounded
  up to a power of two, for every requested size up to \<open>2 ^ 60\<close>; the allocation it asks for has room
  for that many pointers of 8 bytes.
\<close>

theorem chase_lev_init_correct:
  assumes "unat n \<le> 2 ^ 60" and "\<And>b. alloc b = Some buf"
  shows "\<exists>d k. chase_lev_init alloc n = Some d \<and> deque_inv d \<and> deque_items d = []
      \<and> deque_capacity d = 2 ^ k \<and> unat n \<le> 2 ^ k \<and> next_power_of_two n = 2 ^ k
      \<and> unat (word_of_int (cl_capacity_mask d + 1) * 8 :: size_t) = 8 * deque_capacity d"
  by (rule chase_lev_init_ok [OF assms])

theorem chase_lev_init_correct_witness:
  "\<exists>d k. chase_lev_init (\<lambda>_. Some (\<lambda>_. 0::nat)) 4000 = Some d \<and> deque_inv d \<and> deque_items d = []
      \<and> deque_capacity d = 2 ^ k \<and> unat (4000::size_t) \<le> 2 ^ k \<and> next_power_of_two 4000 = 2 ^ k
      \<and> unat (word_of_int (cl_capacity_mask d + 1) * 8 :: size_t) = 8 * deque_capacity d"
  by (rule chase_lev_init_correct) simp_all

text \<open>
  For a requested size of \<open>2 ^ 61\<close> the byte count \<open>actual_size * sizeof(sc_task*)\<close> wraps around to
  0, so a deque is set up that believes in \<open>2 ^ 61\<close> slots over an allocation of no bytes.
\<close>

theorem chase_lev_init_size_wrap:
  "chase_lev_init alloc (2 ^ 61) =
     map_option (\<lambda>buf. \<lparr>cl_top = 0, cl_bottom = 0, cl_top_cache = 0, cl_buffer = buf,
                       cl_capacity_mask = 2 ^ 61 - 1\<rparr>) (alloc 0)"
proof -
  have "next_power_of_two (2 ^ 61) = 2 ^ 61"
    by (simp add: next_power_of_two_def Let_def)
  then have a: "sint (next_power_of_two (2 ^ 61)) = 2 ^ 61" by (simp add: sint_pow2)
  have b: "word_of_int (2 ^ 61) * 8 = (0 :: size_t)" by code_simp
  show ?thesis
    unfolding chase_lev_init_def Let_def a b by (cases "alloc 0") simp_all
qed

section \<open>Pushing a batch\<close>

lemma write_batch_fields [simp]:
  "cl_top (write_batch d b xs) = cl_top d"
  "cl_bottom (write_batch d b xs) = cl_bottom d"
  "cl_top_cache (write_batch d b xs) = cl_top_cache d"
  "cl_capacity_mask (write_batch d b xs) = cl_capacity_mask d"
  by (induction d b xs rule: write_batch.induct) simp_all

lemma ring_ok_write_batch [simp]: "ring_ok (write_batch d b xs) = ring_ok d"
  by (simp add: ring_ok_def)

lemma write_batch_live:
  assumes "ring_ok d" and "t \<le> b" and "b + int (length xs) - t \<le> cl_capacity_mask d + 1"
  shows "live (write_batch d b xs) t (b + int (length xs)) = live d t b @ xs"
  using assms
proof (induction d b xs rule: write_batch.induct)
  case (1 d b)
  then show ?case by simp
next
  case (2 d b x xs)
  let ?d = "d\<lparr>cl_buffer := (cl_buffer d)(slot d b := x)\<rparr>"
  have "live (write_batch ?d (b + 1) xs) t (b + 1 + int (length xs)) = live ?d t (b + 1) @ xs"
    using "2.prems" by (intro "2.IH") simp_all
  moreover have "live ?d t (b + 1) = live d t b @ [x]"
    using "2.prems" by (intro live_push) simp_all
  ultimately show ?case by (simp add: algebra_simps)
qed

lemma push_batch_result:
  assumes "deque_inv d" and n_def: "n = min (length tasks) (deque_capacity d - length (deque_items d))"
  shows "fst (chase_lev_push_batch d tasks) = n
       \<and> deque_inv (snd (chase_lev_push_batch d tasks))
       \<and> deque_items (snd (chase_lev_push_batch d tasks)) = deque_items d @ take n tasks
       \<and> deque_capacity (snd (chase_lev_push_batch d tasks)) = deque_capacity d"
proof -
  note inv = assms(1) [unfolded deque_inv_def]
  define count where "count = int (length tasks)"
  define cap where "cap = cl_capacity_mask d + 1"
  define room where "room = cap - (cl_bottom d - cl_top d)"
  have room: "0 \<le> room" "int n = min count room"
    using inv by (auto simp: room_def cap_def count_def n_def length_deque_items deque_capacity_def)
  have stale: "cap - (cl_bottom d - cl_top_cache d) \<le> room" using inv by (simp add: room_def)
  have "\<exists>c. 0 \<le> c \<and> c \<le> cl_top d \<and> chase_lev_push_batch d tasks =
      (n, (write_batch (d\<lparr>cl_top_cache := c\<rparr>) (cl_bottom d) (take n tasks))\<lparr>cl_bottom := cl_bottom d + int n\<rparr>)"
    (is "\<exists>c. ?P c")
  proof -
    consider (none) "count = 0" | (stale) "0 < count" "count \<le> cap - (cl_bottom d - cl_top_cache d)"
      | (full) "0 < count" "cap - (cl_bottom d - cl_top_cache d) < count" "room = 0"
      | (fresh) "0 < count" "cap - (cl_bottom d - cl_top_cache d) < count" "0 < room"
      using room(1) by (fastforce simp: count_def)
    then show ?thesis
    proof cases
      case none
      then have "?P (cl_top_cache d)"
        using inv by (simp add: chase_lev_push_batch_def Let_def count_def n_def)
      then show ?thesis by blast
    next
      case stale': stale
      then have "n = length tasks" using stale room(2) by (simp add: count_def)
      with stale' have "?P (cl_top_cache d)"
        using inv by (simp add: chase_lev_push_batch_def Let_def count_def cap_def)
      then show ?thesis by blast
    next
      case full
      then have "n = 0" using room(2) by simp
      with full have "?P (cl_top d)"
        using inv by (auto simp: chase_lev_push_batch_def Let_def count_def cap_def room_def)
      then show ?thesis by blast
    next
      case fresh
      then have "?P (cl_top d)"
      proof (cases "room < count")
        case True
        then have "n = nat room" using room by simp
        with True fresh show ?thesis
          using inv by (simp add: chase_lev_push_batch_def Let_def count_def cap_def room_def)
      next
        case False
        then have "n = length tasks" using room by (simp add: count_def)
        with False fresh show ?thesis
          using inv by (simp add: chase_lev_push_batch_def Let_def count_def cap_def room_def)
      qed
      then show ?thesis by blast
    qed
  qed
  then obtain c where c: "0 \<le> c" "c \<le> cl_top d" and eq: "chase_lev_push_batch d tasks =
      (n, (write_batch (d\<lparr>cl_top_cache := c\<rparr>) (cl_bottom d) (take n tasks))\<lparr>cl_bottom := cl_bottom d + int n\<rparr>)"
    by blast
  have len: "length (take n tasks) = n" by (simp add: n_def)
  have "live (write_batch (d\<lparr>cl_top_cache := c\<rparr>) (cl_bottom d) (take n tasks)) (cl_top d) (cl_bottom d + int n)
      = live d (cl_top d) (cl_bottom d) @ take n tasks"
    using write_batch_live [of "d\<lparr>cl_top_cache := c\<rparr>" "cl_top d" "cl_bottom d" "take n tasks"] inv room len
    by (simp add: room_def cap_def)
  then show ?thesis
    using c inv room
    by (auto simp: eq deque_inv_def deque_items_def deque_capacity_def room_def cap_def)
qed

text \<open>
  \<open>chase_lev_push_batch\<close> appends the longest prefix of the batch that fits, in order, and returns
  its length; the deque stays well formed whatever the staleness of \<open>top_cache\<close>.
\<close>

theorem chase_lev_push_batch_spec:
  assumes "deque_inv d" and n_def: "n = min (length tasks) (deque_capacity d - length (deque_items d))"
  shows "fst (chase_lev_push_batch d tasks) = n
       \<and> deque_inv (snd (chase_lev_push_batch d tasks))
       \<and> deque_items (snd (chase_lev_push_batch d tasks)) = deque_items d @ take n tasks
       \<and> deque_capacity (snd (chase_lev_push_batch d tasks)) = deque_capacity d"
  by (rule push_batch_result [OF assms])

definition sample_deque :: "nat sc_cl_deque" where
  "sample_deque = \<lparr>cl_top = 1, cl_bottom = 3, cl_top_cache = 0, cl_buffer = (\<lambda>i. nat i), cl_capacity_mask = 3\<rparr>"

lemma sample_deque_inv: "deque_inv sample_deque"
  by (auto simp: sample_deque_def deque_inv_def ring_ok_def intro: exI [of _ "2::nat"])

theorem chase_lev_push_batch_spec_witness:
  "fst (chase_lev_push_batch sample_deque [7, 8, 9]) = 2
   \<and> deque_inv (snd (chase_lev_push_batch sample_deque [7, 8, 9]))
   \<and> deque_items (snd (chase_lev_push_batch sample_deque [7, 8, 9])) = deque_items sample_deque @ take 2 [7, 8, 9]
   \<and> deque_capacity (snd (chase_lev_push_batch sample_deque [7, 8, 9])) = deque_capacity sample_deque"
  by (rule chase_lev_push_batch_spec [OF sample_deque_inv])
     (simp add: sample_deque_def deque_items_def length_live deque_capacity_def)

section \<open>Properties of the deque\<close>

text \<open>
  C30: run without interference, the deque is the bounded list it promises to be: the owner's push
  appends or is refused exactly when the ring is full, the owner's pop removes the newest element and
  a steal removes the oldest one, and each keeps the representation invariant.
\<close>

theorem chase_lev_refines_list:
  assumes "deque_inv d"
  shows "chase_lev_push d x = (length (deque_items d) < deque_capacity d, snd (chase_lev_push d x))
       \<and> deque_items (snd (chase_lev_push d x))
           = (if length (deque_items d) < deque_capacity d then deque_items d @ [x] else deque_items d)
       \<and> fst (chase_lev_pop d) = (if deque_items d = [] then None else Some (last (deque_items d)))
       \<and> deque_items (snd (chase_lev_pop d)) = butlast (deque_items d)
       \<and> fst (chase_lev_steal d) = (if deque_items d = [] then None else Some (hd (deque_items d)))
       \<and> deque_items (snd (chase_lev_steal d)) = tl (deque_items d)
       \<and> deque_inv (snd (chase_lev_push d x)) \<and> deque_inv (snd (chase_lev_pop d))
       \<and> deque_inv (snd (chase_lev_steal d))"
  using assms
  by (simp add: prod_eq_iff cl.push_result cl.push_items cl.pop_result cl.pop_items cl.steal_result
      cl.steal_items cl.push_keeps cl.pop_keeps cl.steal_keeps)

theorem chase_lev_refines_list_witness:
  "deque_items (snd (chase_lev_push sample_deque 9)) = [1, 2, 9]"
proof -
  have "deque_items sample_deque = [1, 2]" and "deque_capacity sample_deque = 4"
    by (simp_all add: sample_deque_def deque_items_def deque_capacity_def live_Cons slot_def)
  then show ?thesis
    using chase_lev_refines_list [OF sample_deque_inv, of 9] by simp
qed

text \<open>
  Over any sequence of pushes, pops and steals, the tasks that went in are exactly the tasks that
  came out together with those still queued: none is lost and none is handed out twice.
\<close>

theorem chase_lev_run_conserves:
  assumes "deque_inv d"
    and "deque_run chase_lev_push chase_lev_pop chase_lev_steal d os = (ins, outs, d')"
  shows "deque_inv d' \<and> mset (deque_items d) + mset ins = mset outs + mset (deque_items d')"
  using assms by (rule cl.run_conserves)

theorem chase_lev_run_conserves_witness:
  "\<exists>ins outs d'. deque_run chase_lev_push chase_lev_pop chase_lev_steal sample_deque [Push 7, Steal, Pop, Pop] = (ins, outs, d')
     \<and> deque_inv d' \<and> mset (deque_items sample_deque) + mset ins = mset outs + mset (deque_items d')"
proof -
  obtain ins outs d' where
    "deque_run chase_lev_push chase_lev_pop chase_lev_steal sample_deque [Push 7, Steal, Pop, Pop] = (ins, outs, d')"
    by (rule prod_cases3)
  with chase_lev_run_conserves [OF sample_deque_inv this] show ?thesis by blast
qed

end
