(* ===== verification/ClDequeConc.thy ===== *)
theory ClDequeConc
  imports ClDeque
begin

text \<open>
  The Chase-Lev deque under interleaving: one owner thread and any number of thieves run the
  operations of \<open>include/sk_cl_deque.h\<close>, one shared-memory access per step, in any order. Memory is
  sequentially consistent: the acquire/release annotations and the fences are taken to give the
  order of the program text. The owner's \<open>top_cache\<close> is private to it, so reading it takes no step of
  its own. Ghost multisets record what was pushed (when the new \<open>bottom\<close> is published) and what was
  handed out (when an operation has secured its element).
\<close>

section \<open>Program counters\<close>

text \<open>
  The owner's position inside \<open>chase_lev_push\<close>, \<open>chase_lev_push_batch\<close> and \<open>chase_lev_pop\<close>, with the
  local variables that are live there.
\<close>

datatype 'a owner_pc =
    OIdle
  | PushRefresh 'a int              \<comment> \<open>looks full: about to load \<open>top\<close> into \<open>top_cache\<close>\<close>
  | PushWrite 'a int                \<comment> \<open>about to write \<open>buffer[b & mask]\<close>\<close>
  | PushPublish 'a int              \<comment> \<open>about to store \<open>bottom = b + 1\<close>\<close>
  | BatchRefresh "'a list" int      \<comment> \<open>\<open>available < count\<close>: about to load \<open>top\<close>\<close>
  | BatchWrite "'a list" "'a list" int  \<comment> \<open>written, still to write, \<open>b\<close>\<close>
  | BatchPublish "'a list" int      \<comment> \<open>about to store \<open>bottom = b + push_count\<close>\<close>
  | PopCheck int                    \<comment> \<open>\<open>b\<close> loaded: about to load \<open>top\<close>\<close>
  | PopReserve int                  \<comment> \<open>about to store the decremented \<open>bottom\<close>\<close>
  | PopReload int                   \<comment> \<open>after the fence: about to load \<open>top\<close> again\<close>
  | PopRestore int                  \<comment> \<open>\<open>size < 0\<close>: about to store \<open>bottom = t\<close>\<close>
  | PopRead int int                 \<comment> \<open>about to read the buffer\<close>
  | PopRace int 'a                  \<comment> \<open>\<open>size = 0\<close>: about to compare-and-swap \<open>top\<close> from \<open>t\<close>\<close>
  | PopFinish int                   \<comment> \<open>about to store \<open>bottom = t + 1\<close>\<close>

datatype 'a thief_pc =
    TIdle
  | StealBottom int                 \<comment> \<open>\<open>t\<close> loaded: about to load \<open>bottom\<close>\<close>
  | StealRead int                   \<comment> \<open>\<open>t < b\<close>: about to read the buffer\<close>
  | StealRace int 'a                \<comment> \<open>about to compare-and-swap \<open>top\<close> from \<open>t\<close>\<close>

record 'a cl_sys =
  dq :: "'a sc_cl_deque"
  own :: "'a owner_pc"
  thf :: "nat \<Rightarrow> 'a thief_pc"
  pushed :: "'a multiset"
  taken :: "'a multiset"

definition cl_start :: "'a sc_cl_deque \<Rightarrow> 'a cl_sys" where
  "cl_start d = \<lparr>dq = d, own = OIdle, thf = (\<lambda>_. TIdle), pushed = mset (deque_items d), taken = {#}\<rparr>"

section \<open>Steps\<close>

text \<open>
  The entry of \<open>chase_lev_push\<close> and \<open>chase_lev_push_batch\<close>: \<open>bottom\<close> is loaded, and the private
  \<open>top_cache\<close> decides whether \<open>top\<close> must be loaded too.
\<close>

definition push_entry :: "'a sc_cl_deque \<Rightarrow> 'a \<Rightarrow> 'a owner_pc" where
  "push_entry d x = (let b = cl_bottom d in
     if cl_capacity_mask d + 1 \<le> b - cl_top_cache d then PushRefresh x b else PushWrite x b)"

definition batch_room :: "'a sc_cl_deque \<Rightarrow> int \<Rightarrow> int" where
  "batch_room d b = cl_capacity_mask d + 1 - (b - cl_top_cache d)"

definition batch_entry :: "'a sc_cl_deque \<Rightarrow> 'a list \<Rightarrow> 'a owner_pc" where
  "batch_entry d xs = (let b = cl_bottom d in
     if xs = [] then OIdle
     else if batch_room d b < int (length xs) then BatchRefresh xs b
     else BatchWrite [] xs b)"

text \<open>After the refresh: nothing is pushed when there is still no room, else the prefix that fits.\<close>

definition batch_refreshed :: "'a sc_cl_deque \<Rightarrow> 'a list \<Rightarrow> int \<Rightarrow> 'a owner_pc" where
  "batch_refreshed d xs b =
     (if batch_room d b \<le> 0 then OIdle
      else BatchWrite [] (take (nat (min (batch_room d b) (int (length xs)))) xs) b)"

inductive cl_step :: "'a cl_sys \<Rightarrow> 'a cl_sys \<Rightarrow> bool" where
  push_start: "own s = OIdle \<Longrightarrow> cl_step s (s\<lparr>own := push_entry (dq s) x\<rparr>)"
| push_refresh: "own s = PushRefresh x b \<Longrightarrow> d = (dq s)\<lparr>cl_top_cache := cl_top (dq s)\<rparr> \<Longrightarrow>
    cl_step s (s\<lparr>dq := d,
      own := (if cl_capacity_mask d + 1 \<le> b - cl_top_cache d then OIdle else PushWrite x b)\<rparr>)"
| push_write: "own s = PushWrite x b \<Longrightarrow>
    cl_step s (s\<lparr>dq := (dq s)\<lparr>cl_buffer := (cl_buffer (dq s))(slot (dq s) b := x)\<rparr>, own := PushPublish x b\<rparr>)"
| push_publish: "own s = PushPublish x b \<Longrightarrow>
    cl_step s (s\<lparr>dq := (dq s)\<lparr>cl_bottom := b + 1\<rparr>, own := OIdle, pushed := pushed s + {#x#}\<rparr>)"
| batch_start: "own s = OIdle \<Longrightarrow> cl_step s (s\<lparr>own := batch_entry (dq s) xs\<rparr>)"
| batch_refresh: "own s = BatchRefresh xs b \<Longrightarrow> d = (dq s)\<lparr>cl_top_cache := cl_top (dq s)\<rparr> \<Longrightarrow>
    cl_step s (s\<lparr>dq := d, own := batch_refreshed d xs b\<rparr>)"
| batch_write: "own s = BatchWrite ys (x # xs) b \<Longrightarrow>
    cl_step s (s\<lparr>dq := (dq s)\<lparr>cl_buffer := (cl_buffer (dq s))(slot (dq s) (b + int (length ys)) := x)\<rparr>,
                 own := BatchWrite (ys @ [x]) xs b\<rparr>)"
| batch_written: "own s = BatchWrite ys [] b \<Longrightarrow> cl_step s (s\<lparr>own := BatchPublish ys b\<rparr>)"
| batch_publish: "own s = BatchPublish ys b \<Longrightarrow>
    cl_step s (s\<lparr>dq := (dq s)\<lparr>cl_bottom := b + int (length ys)\<rparr>, own := OIdle, pushed := pushed s + mset ys\<rparr>)"
| pop_start: "own s = OIdle \<Longrightarrow> cl_step s (s\<lparr>own := PopCheck (cl_bottom (dq s))\<rparr>)"
| pop_check: "own s = PopCheck b \<Longrightarrow>
    cl_step s (s\<lparr>own := (if b \<le> cl_top (dq s) then OIdle else PopReserve b)\<rparr>)"
| pop_reserve: "own s = PopReserve b \<Longrightarrow>
    cl_step s (s\<lparr>dq := (dq s)\<lparr>cl_bottom := b - 1\<rparr>, own := PopReload (b - 1)\<rparr>)"
| pop_reload: "own s = PopReload b \<Longrightarrow> t = cl_top (dq s) \<Longrightarrow>
    cl_step s (s\<lparr>own := (if b - t < 0 then PopRestore t else PopRead b t)\<rparr>)"
| pop_restore: "own s = PopRestore t \<Longrightarrow>
    cl_step s (s\<lparr>dq := (dq s)\<lparr>cl_bottom := t\<rparr>, own := OIdle\<rparr>)"
| pop_take: "own s = PopRead b t \<Longrightarrow> 0 < b - t \<Longrightarrow>
    cl_step s (s\<lparr>own := OIdle, taken := taken s + {#cl_buffer (dq s) (slot (dq s) b)#}\<rparr>)"
| pop_last: "own s = PopRead b t \<Longrightarrow> \<not> 0 < b - t \<Longrightarrow>
    cl_step s (s\<lparr>own := PopRace t (cl_buffer (dq s) (slot (dq s) b))\<rparr>)"
| pop_win: "own s = PopRace t x \<Longrightarrow> cl_top (dq s) = t \<Longrightarrow>
    cl_step s (s\<lparr>dq := (dq s)\<lparr>cl_top := t + 1\<rparr>, own := PopFinish t, taken := taken s + {#x#}\<rparr>)"
| pop_lose: "own s = PopRace t x \<Longrightarrow> cl_top (dq s) \<noteq> t \<Longrightarrow> cl_step s (s\<lparr>own := PopFinish t\<rparr>)"
| pop_finish: "own s = PopFinish t \<Longrightarrow>
    cl_step s (s\<lparr>dq := (dq s)\<lparr>cl_bottom := t + 1\<rparr>, own := OIdle\<rparr>)"
| steal_start: "thf s i = TIdle \<Longrightarrow> cl_step s (s\<lparr>thf := (thf s)(i := StealBottom (cl_top (dq s)))\<rparr>)"
| steal_bottom: "thf s i = StealBottom t \<Longrightarrow>
    cl_step s (s\<lparr>thf := (thf s)(i := (if cl_bottom (dq s) \<le> t then TIdle else StealRead t))\<rparr>)"
| steal_read: "thf s i = StealRead t \<Longrightarrow>
    cl_step s (s\<lparr>thf := (thf s)(i := StealRace t (cl_buffer (dq s) (slot (dq s) t)))\<rparr>)"
| steal_win: "thf s i = StealRace t x \<Longrightarrow> cl_top (dq s) = t \<Longrightarrow>
    cl_step s (s\<lparr>dq := (dq s)\<lparr>cl_top := t + 1\<rparr>, thf := (thf s)(i := TIdle), taken := taken s + {#x#}\<rparr>)"
| steal_lose: "thf s i = StealRace t x \<Longrightarrow> cl_top (dq s) \<noteq> t \<Longrightarrow>
    cl_step s (s\<lparr>thf := (thf s)(i := TIdle)\<rparr>)"

section \<open>The invariant\<close>

text \<open>
  Where the queued elements end: the published \<open>bottom\<close>, except while a pop has lowered it without
  having secured (or given up) the element it reserved.
\<close>

fun eff_bottom :: "'a sc_cl_deque \<Rightarrow> 'a owner_pc \<Rightarrow> int" where
  "eff_bottom d (PopReload b) = b + 1"
| "eff_bottom d (PopRestore t) = t"
| "eff_bottom d (PopRead b t) = (if t < b then b else b + 1)"
| "eff_bottom d (PopRace t x) = t + 1"
| "eff_bottom d (PopFinish t) = t + 1"
| "eff_bottom d _ = cl_bottom d"

text \<open>The element that a pop owns already but has not read yet.\<close>

fun in_flight :: "'a sc_cl_deque \<Rightarrow> 'a owner_pc \<Rightarrow> 'a multiset" where
  "in_flight d (PopRead b t) = (if t < b then {#cl_buffer d (slot d b)#} else {#})"
| "in_flight d _ = {#}"

fun owner_ok :: "'a sc_cl_deque \<Rightarrow> 'a owner_pc \<Rightarrow> bool" where
  "owner_ok d OIdle \<longleftrightarrow> True"
| "owner_ok d (PushRefresh x b) \<longleftrightarrow> b = cl_bottom d"
| "owner_ok d (PushWrite x b) \<longleftrightarrow> b = cl_bottom d \<and> b - cl_top_cache d < cl_capacity_mask d + 1"
| "owner_ok d (PushPublish x b) \<longleftrightarrow>
     b = cl_bottom d \<and> b - cl_top_cache d < cl_capacity_mask d + 1 \<and> cl_buffer d (slot d b) = x"
| "owner_ok d (BatchRefresh xs b) \<longleftrightarrow> b = cl_bottom d"
| "owner_ok d (BatchWrite ys xs b) \<longleftrightarrow> b = cl_bottom d
     \<and> b + int (length ys) + int (length xs) - cl_top_cache d \<le> cl_capacity_mask d + 1
     \<and> live d b (b + int (length ys)) = ys"
| "owner_ok d (BatchPublish ys b) \<longleftrightarrow> b = cl_bottom d
     \<and> b + int (length ys) - cl_top_cache d \<le> cl_capacity_mask d + 1
     \<and> live d b (b + int (length ys)) = ys"
| "owner_ok d (PopCheck b) \<longleftrightarrow> b = cl_bottom d"
| "owner_ok d (PopReserve b) \<longleftrightarrow> b = cl_bottom d"
| "owner_ok d (PopReload b) \<longleftrightarrow> b = cl_bottom d"
| "owner_ok d (PopRestore t) \<longleftrightarrow> cl_bottom d = t - 1 \<and> cl_top d = t"
| "owner_ok d (PopRead b t) \<longleftrightarrow> b = cl_bottom d \<and> t \<le> b \<and> t \<le> cl_top d"
| "owner_ok d (PopRace t x) \<longleftrightarrow>
     cl_bottom d = t \<and> t \<le> cl_top d \<and> (cl_top d = t \<longrightarrow> x = cl_buffer d (slot d t))"
| "owner_ok d (PopFinish t) \<longleftrightarrow> cl_bottom d = t \<and> cl_top d = t + 1"

fun thief_ok :: "'a sc_cl_deque \<Rightarrow> int \<Rightarrow> 'a thief_pc \<Rightarrow> bool" where
  "thief_ok d e TIdle \<longleftrightarrow> True"
| "thief_ok d e (StealBottom t) \<longleftrightarrow> t \<le> cl_top d"
| "thief_ok d e (StealRead t) \<longleftrightarrow> t \<le> cl_top d \<and> (t = cl_top d \<longrightarrow> t < e)"
| "thief_ok d e (StealRace t x) \<longleftrightarrow>
     t \<le> cl_top d \<and> (t = cl_top d \<longrightarrow> t < e \<and> x = cl_buffer d (slot d t))"

definition cl_shape :: "'a sc_cl_deque \<Rightarrow> int \<Rightarrow> bool" where
  "cl_shape d e \<longleftrightarrow> ring_ok d \<and> 0 \<le> cl_top_cache d \<and> cl_top_cache d \<le> cl_top d
     \<and> cl_top d \<le> e \<and> e - cl_top d \<le> cl_capacity_mask d + 1"

definition cl_inv :: "'a cl_sys \<Rightarrow> bool" where
  "cl_inv s \<longleftrightarrow> (let d = dq s; e = eff_bottom d (own s) in
     cl_shape d e \<and> owner_ok d (own s) \<and> (\<forall>i. thief_ok d e (thf s i))
     \<and> pushed s = taken s + mset (live d (cl_top d) e) + in_flight d (own s))"

lemma cl_inv_start: "deque_inv d \<Longrightarrow> cl_inv (cl_start d)"
  by (simp add: cl_inv_def cl_start_def cl_shape_def deque_inv_def deque_items_def)

text \<open>The published \<open>bottom\<close> never lies beyond the effective one.\<close>

lemma bottom_le_eff: "owner_ok d pc \<Longrightarrow> cl_bottom d \<le> eff_bottom d pc"
  by (cases pc) auto

text \<open>How the thieves' knowledge survives the steps of the others.\<close>

lemma thief_ok_top_advance:
  assumes "thief_ok d e p" and "cl_top d < t"
  shows "thief_ok (d\<lparr>cl_top := t\<rparr>) e' p"
  using assms by (cases p) auto

lemma thief_ok_same_buffer [simp]:
  "thief_ok (d\<lparr>cl_bottom := b\<rparr>) e p = thief_ok d e p"
  "thief_ok (d\<lparr>cl_top_cache := c\<rparr>) e p = thief_ok d e p"
  by (cases p; simp)+

lemma thief_ok_mono: "thief_ok d e p \<Longrightarrow> e \<le> e' \<Longrightarrow> thief_ok d e' p"
  by (cases p) auto

lemma thief_ok_shrink: "thief_ok d e p \<Longrightarrow> cl_top d < e' \<Longrightarrow> thief_ok d e' p"
  by (cases p) auto

lemma thief_ok_write:
  assumes "thief_ok d e p" and "ring_ok d" and "e \<le> b" and "b - cl_top d < cl_capacity_mask d + 1"
  shows "thief_ok (d\<lparr>cl_buffer := (cl_buffer d)(slot d b := x)\<rparr>) e p"
proof -
  have "slot d (cl_top d) \<noteq> slot d b" if "cl_top d < e"
    using assms that by (intro slot_neq) auto
  with assms(1) show ?thesis by (cases p) auto
qed

lemma thieves_mono: "\<forall>i. thief_ok d e (f i) \<Longrightarrow> e \<le> e' \<Longrightarrow> thief_ok d e' (f i)"
  by (blast intro: thief_ok_mono)

lemma thieves_shrink: "\<forall>i. thief_ok d e (f i) \<Longrightarrow> cl_top d < e' \<Longrightarrow> thief_ok d e' (f i)"
  by (blast intro: thief_ok_shrink)

lemma thieves_advance:
  "\<forall>i. thief_ok d e (f i) \<Longrightarrow> cl_top d < t \<Longrightarrow> thief_ok (d\<lparr>cl_top := t\<rparr>) e' (f i)"
  by (blast intro: thief_ok_top_advance)

text \<open>A successful steal disturbs neither the owner's knowledge nor the end of the queue.\<close>

lemma steal_step_owner:
  assumes "owner_ok d pc" and "cl_top d = t" and "t < eff_bottom d pc"
  shows "owner_ok (d\<lparr>cl_top := t + 1\<rparr>) pc" and "eff_bottom (d\<lparr>cl_top := t + 1\<rparr>) pc = eff_bottom d pc"
    and "in_flight (d\<lparr>cl_top := t + 1\<rparr>) pc = in_flight d pc"
  using assms by (cases pc; simp)+

lemma cl_inv_thief: "cl_inv s \<Longrightarrow> thf s i = p \<Longrightarrow> thief_ok (dq s) (eff_bottom (dq s) (own s)) p"
  by (auto simp: cl_inv_def Let_def)

lemma cl_inv_owner: "cl_inv s \<Longrightarrow> owner_ok (dq s) (own s)"
  by (simp add: cl_inv_def Let_def)

lemma cl_step_inv: "cl_step s t \<Longrightarrow> cl_inv s \<Longrightarrow> cl_inv t"
proof (induction rule: cl_step.induct)
  case (push_start s x)
  then show ?case by (auto simp: cl_inv_def cl_shape_def push_entry_def Let_def)
next
  case (push_refresh s x b d)
  then show ?case by (auto simp: cl_inv_def cl_shape_def Let_def)
next
  case (push_write s x b)
  then show ?case
    by (auto simp: cl_inv_def cl_shape_def Let_def live_write_outside intro!: thief_ok_write)
next
  case (push_publish s x b)
  then show ?case
    by (auto simp: cl_inv_def cl_shape_def Let_def live_snoc intro: thieves_mono)
next
  case (batch_start s xs)
  then show ?case by (auto simp: cl_inv_def cl_shape_def batch_entry_def batch_room_def Let_def)
next
  case (batch_refresh s xs b d)
  then show ?case by (auto simp: cl_inv_def cl_shape_def batch_refreshed_def batch_room_def Let_def)
next
  case (batch_write s ys x xs b)
  let ?d = "dq s" and ?i = "b + int (length ys)"
  from batch_write have inv: "cl_shape ?d b" "b = cl_bottom ?d" "live ?d b ?i = ys"
      "?i + 1 + int (length xs) - cl_top_cache ?d \<le> cl_capacity_mask ?d + 1"
      "\<forall>i. thief_ok ?d b (thf s i)" "pushed s = taken s + mset (live ?d (cl_top ?d) b)"
    by (auto simp: cl_inv_def Let_def)
  then have ring: "ring_ok ?d" and room: "?i - cl_top ?d < cl_capacity_mask ?d + 1" "?i - b < cl_capacity_mask ?d + 1"
    by (auto simp: cl_shape_def)
  have old: "live (?d\<lparr>cl_buffer := (cl_buffer ?d)(slot ?d ?i := x)\<rparr>) (cl_top ?d) b = live ?d (cl_top ?d) b"
    using ring room by (intro live_write_outside) simp_all
  have new: "live (?d\<lparr>cl_buffer := (cl_buffer ?d)(slot ?d ?i := x)\<rparr>) b (?i + 1) = ys @ [x]"
    using live_push [OF ring _ room(2)] inv(3) by simp
  have "thief_ok (?d\<lparr>cl_buffer := (cl_buffer ?d)(slot ?d ?i := x)\<rparr>) b (thf s i)" for i
    using inv(5) ring room by (intro thief_ok_write) simp_all
  with batch_write.hyps inv old new show ?case
    by (simp add: cl_inv_def cl_shape_def Let_def algebra_simps)
next
  case (batch_written s ys b)
  then show ?case by (auto simp: cl_inv_def cl_shape_def Let_def)
next
  case (batch_publish s ys b)
  let ?d = "dq s"
  from batch_publish have inv: "cl_shape ?d b" "b = cl_bottom ?d" "live ?d b (b + int (length ys)) = ys"
      "b + int (length ys) - cl_top_cache ?d \<le> cl_capacity_mask ?d + 1"
      "\<forall>i. thief_ok ?d b (thf s i)" "pushed s = taken s + mset (live ?d (cl_top ?d) b)"
    by (auto simp: cl_inv_def Let_def)
  then have "live ?d (cl_top ?d) (b + int (length ys)) = live ?d (cl_top ?d) b @ ys"
    using live_append [of "cl_top ?d" b "b + int (length ys)" ?d] by (simp add: cl_shape_def)
  with batch_publish.hyps inv show ?case
    by (auto simp: cl_inv_def cl_shape_def Let_def intro: thieves_mono)
next
  case (pop_start s)
  then show ?case by (auto simp: cl_inv_def cl_shape_def Let_def)
next
  case (pop_check s b)
  then show ?case by (auto simp: cl_inv_def cl_shape_def Let_def)
next
  case (pop_reserve s b)
  then show ?case by (auto simp: cl_inv_def cl_shape_def Let_def)
next
  case (pop_reload s b t)
  then show ?case
    by (auto simp: cl_inv_def cl_shape_def Let_def live_snoc intro: thieves_shrink thieves_mono)
next
  case (pop_restore s t)
  then show ?case by (auto simp: cl_inv_def cl_shape_def Let_def)
next
  case (pop_take s b t)
  then show ?case by (auto simp: cl_inv_def cl_shape_def Let_def)
next
  case (pop_last s b t)
  then show ?case by (auto simp: cl_inv_def cl_shape_def Let_def)
next
  case (pop_win s t x)
  then show ?case by (auto simp: cl_inv_def cl_shape_def Let_def live_Cons intro: thieves_advance)
next
  case (pop_lose s t x)
  then show ?case by (auto simp: cl_inv_def cl_shape_def Let_def)
next
  case (pop_finish s t)
  then show ?case by (auto simp: cl_inv_def cl_shape_def Let_def)
next
  case (steal_start s i)
  then show ?case by (auto simp: cl_inv_def cl_shape_def Let_def)
next
  case (steal_bottom s i t)
  note cl_inv_thief [OF steal_bottom.prems steal_bottom.hyps]
    bottom_le_eff [OF cl_inv_owner [OF steal_bottom.prems]]
  with steal_bottom this show ?case by (auto simp: cl_inv_def Let_def)
next
  case (steal_read s i t)
  note cl_inv_thief [OF steal_read.prems steal_read.hyps]
  with steal_read this show ?case by (auto simp: cl_inv_def Let_def)
next
  case (steal_win s i t x)
  let ?d = "dq s" and ?e = "eff_bottom (dq s) (own s)"
  from steal_win have inv: "cl_shape ?d ?e" "owner_ok ?d (own s)" "\<forall>i. thief_ok ?d ?e (thf s i)"
      "pushed s = taken s + mset (live ?d t ?e) + in_flight ?d (own s)"
    by (auto simp: cl_inv_def Let_def)
  from cl_inv_thief [OF steal_win.prems steal_win.hyps(1)] have "thief_ok ?d ?e (StealRace t x)" .
  with steal_win.hyps have t: "t < ?e" and x: "x = cl_buffer ?d (slot ?d t)" by auto
  note adv = steal_step_owner [OF inv(2), of t] thieves_advance [OF inv(3), of "t + 1" ?e]
  from inv t x adv steal_win.hyps show ?case
    by (auto simp: cl_inv_def cl_shape_def Let_def live_Cons)
next
  case (steal_lose s i t x)
  then show ?case by (auto simp: cl_inv_def cl_shape_def Let_def)
qed

lemma cl_reaches_inv: "reaches cl_step (cl_start d) s \<Longrightarrow> deque_inv d \<Longrightarrow> cl_inv s"
  by (erule reaches_invariant) (auto intro: cl_inv_start cl_step_inv)

section \<open>No task is lost or handed out twice\<close>

text \<open>
  C10: however the owner and the thieves interleave, every task handed out was pushed, no push is
  handed out more than once, and whenever the owner is between operations the tasks pushed are exactly
  those handed out together with those still in the ring, which is well formed.
\<close>

theorem cl_no_loss_no_duplicate:
  assumes "deque_inv d" and "reaches cl_step (cl_start d) s"
  shows "taken s \<subseteq># pushed s
       \<and> (own s = OIdle \<longrightarrow> deque_inv (dq s) \<and> pushed s = taken s + mset (deque_items (dq s)))"
proof -
  have "cl_inv s" using assms(2,1) by (rule cl_reaches_inv)
  then show ?thesis
    by (auto simp: cl_inv_def cl_shape_def Let_def deque_inv_def deque_items_def union_assoc)
qed

theorem cl_no_loss_no_duplicate_witness:
  "taken (cl_start sample_deque\<lparr>own := PopCheck 3\<rparr>) \<subseteq># pushed (cl_start sample_deque\<lparr>own := PopCheck 3\<rparr>)"
proof -
  have "cl_step (cl_start sample_deque) (cl_start sample_deque\<lparr>own := PopCheck (cl_bottom (dq (cl_start sample_deque)))\<rparr>)"
    by (rule pop_start) (simp add: cl_start_def)
  then have "reaches cl_step (cl_start sample_deque) (cl_start sample_deque\<lparr>own := PopCheck 3\<rparr>)"
    by (intro reaches_step1) (simp add: cl_start_def sample_deque_def)
  from cl_no_loss_no_duplicate [OF sample_deque_inv this] show ?thesis by blast
qed

lemmas cl_then = reaches_then [where r = cl_step]
lemmas cl_one = reaches_step1 [where r = cl_step]

abbreviation cl_at ::
  "'a sc_cl_deque \<Rightarrow> 'a owner_pc \<Rightarrow> (nat \<Rightarrow> 'a thief_pc) \<Rightarrow> 'a multiset \<Rightarrow> 'a multiset \<Rightarrow> 'a cl_sys" where
  "cl_at d pc f p tk \<equiv> \<lparr>dq = d, own = pc, thf = f, pushed = p, taken = tk\<rparr>"

text \<open>A thief that finds an element gets as far as its compare-and-swap.\<close>

lemma steal_to_race:
  assumes "f i = TIdle" and "cl_top d < cl_bottom d"
  shows "reaches cl_step (cl_at d pc f p tk)
           (cl_at d pc (f(i := StealRace (cl_top d) (cl_buffer d (slot d (cl_top d))))) p tk)"
proof (rule cl_then)
  show "cl_step (cl_at d pc f p tk) (cl_at d pc (f(i := StealBottom (cl_top d))) p tk)"
    using steal_start [of "cl_at d pc f p tk" i] assms(1) by simp
  have "cl_step (cl_at d pc (f(i := StealBottom (cl_top d))) p tk) (cl_at d pc (f(i := StealRead (cl_top d))) p tk)"
    using steal_bottom [of "cl_at d pc (f(i := StealBottom (cl_top d))) p tk" i] assms(2) by simp
  moreover have "cl_step (cl_at d pc (f(i := StealRead (cl_top d))) p tk)
      (cl_at d pc (f(i := StealRace (cl_top d) (cl_buffer d (slot d (cl_top d))))) p tk)"
    using steal_read [of "cl_at d pc (f(i := StealRead (cl_top d))) p tk" i] by simp
  ultimately show "reaches cl_step (cl_at d pc (f(i := StealBottom (cl_top d))) p tk)
      (cl_at d pc (f(i := StealRace (cl_top d) (cl_buffer d (slot d (cl_top d))))) p tk)"
    by (intro cl_then [OF _ cl_one])
qed

text \<open>
  A compare-and-swap on \<open>top\<close> fails only because another thread has taken an element since
  \<open>top\<close> was read: a failing thief finds \<open>top\<close> advanced, and an owner that fails the race for the last
  element finds that a thief has taken exactly that one.
\<close>

theorem cl_cas_failure_is_progress:
  assumes "deque_inv d" and "reaches cl_step (cl_start d) s"
  shows "(\<forall>i t x. thf s i = StealRace t x \<longrightarrow> cl_top (dq s) \<noteq> t \<longrightarrow> t < cl_top (dq s))
       \<and> (\<forall>t x. own s = PopRace t x \<longrightarrow> cl_top (dq s) \<noteq> t \<longrightarrow> cl_top (dq s) = t + 1)"
proof -
  have inv: "cl_inv s" using assms(2,1) by (rule cl_reaches_inv)
  show ?thesis
  proof (intro conjI allI impI)
    fix i t x assume "thf s i = StealRace t x" "cl_top (dq s) \<noteq> t"
    with cl_inv_thief [OF inv this(1)] show "t < cl_top (dq s)" by simp
  next
    fix t x assume "own s = PopRace t x" "cl_top (dq s) \<noteq> t"
    with inv show "cl_top (dq s) = t + 1" by (simp add: cl_inv_def cl_shape_def Let_def)
  qed
qed

theorem cl_cas_failure_is_progress_witness:
  "\<exists>s x. reaches cl_step (cl_start sample_deque) s \<and> thf s 1 = StealRace (cl_top sample_deque) x
     \<and> cl_top (dq s) \<noteq> cl_top sample_deque \<and> cl_top sample_deque < cl_top (dq s)"
proof -
  let ?f = "\<lambda>_. TIdle :: nat thief_pc" and ?t = "cl_top sample_deque" and ?d = sample_deque
  let ?r = "StealRace ?t (cl_buffer ?d (slot ?d ?t))"
  have lt: "?t < cl_bottom ?d" by (simp add: sample_deque_def)
  have both: "reaches cl_step (cl_start ?d) (cl_at ?d OIdle (?f(1 := ?r, 0 := ?r)) (mset (deque_items ?d)) {#})"
    unfolding cl_start_def
    by (rule reaches_trans [OF steal_to_race [OF _ lt] steal_to_race [OF _ lt]]) simp_all
  let ?s = "cl_at (?d\<lparr>cl_top := ?t + 1\<rparr>) OIdle (?f(1 := ?r, 0 := TIdle)) (mset (deque_items ?d))
              ({#} + {#cl_buffer ?d (slot ?d ?t)#})"
  have "cl_step (cl_at ?d OIdle (?f(1 := ?r, 0 := ?r)) (mset (deque_items ?d)) {#}) ?s"
    using steal_win [of "cl_at ?d OIdle (?f(1 := ?r, 0 := ?r)) (mset (deque_items ?d)) {#}" 0 ?t]
    by (simp add: fun_upd_twist)
  with both have run: "reaches cl_step (cl_start ?d) ?s" by (rule reaches.step)
  have "thf ?s 1 = ?r" and "cl_top (dq ?s) \<noteq> ?t" by simp_all
  with cl_cas_failure_is_progress [OF sample_deque_inv run] run show ?thesis by blast
qed

section \<open>An operation that runs alone is the sequential operation\<close>

lemma solo_push:
  "reaches cl_step (cl_at d OIdle f p tk) (cl_at (snd (chase_lev_push d x)) OIdle f
     (p + (if fst (chase_lev_push d x) then {#x#} else {#})) tk)"
proof -
  let ?b = "cl_bottom d" let ?cap = "cl_capacity_mask d + 1"
  let ?d1 = "d\<lparr>cl_top_cache := cl_top d\<rparr>"
  have go: "reaches cl_step (cl_at e (PushWrite x b) f p tk)
      (cl_at (e\<lparr>cl_buffer := (cl_buffer e)(slot e b := x), cl_bottom := b + 1\<rparr>) OIdle f (p + {#x#}) tk)" for e b
  proof (rule cl_then [OF _ cl_one])
    let ?e = "e\<lparr>cl_buffer := (cl_buffer e)(slot e b := x)\<rparr>"
    show "cl_step (cl_at e (PushWrite x b) f p tk) (cl_at ?e (PushPublish x b) f p tk)"
      using push_write [of "cl_at e (PushWrite x b) f p tk" x b] by simp
    show "cl_step (cl_at ?e (PushPublish x b) f p tk)
        (cl_at (e\<lparr>cl_buffer := (cl_buffer e)(slot e b := x), cl_bottom := b + 1\<rparr>) OIdle f (p + {#x#}) tk)"
      using push_publish [of "cl_at ?e (PushPublish x b) f p tk" x b] by simp
  qed
  have s1: "cl_step (cl_at d OIdle f p tk) (cl_at d (push_entry d x) f p tk)"
    using push_start [of "cl_at d OIdle f p tk" x] by simp
  have s2: "cl_step (cl_at d (PushRefresh x ?b) f p tk)
      (cl_at ?d1 (if ?cap \<le> ?b - cl_top d then OIdle else PushWrite x ?b) f p tk)"
    using push_refresh [of "cl_at d (PushRefresh x ?b) f p tk" x ?b ?d1] by simp
  consider (room) "\<not> ?cap \<le> ?b - cl_top_cache d"
    | (full) "?cap \<le> ?b - cl_top_cache d" "?cap \<le> ?b - cl_top d"
    | (stale) "?cap \<le> ?b - cl_top_cache d" "\<not> ?cap \<le> ?b - cl_top d" by blast
  then show ?thesis
  proof cases
    case room
    then have "push_entry d x = PushWrite x ?b" by (simp add: push_entry_def Let_def)
    with cl_then [OF s1] go [of d ?b] room show ?thesis
      by (simp add: chase_lev_push_def Let_def)
  next
    case full
    then have "push_entry d x = PushRefresh x ?b" by (simp add: push_entry_def Let_def)
    with cl_then [OF s1] cl_one [OF s2] full show ?thesis
      by (simp add: chase_lev_push_def Let_def)
  next
    case stale
    then have "push_entry d x = PushRefresh x ?b" by (simp add: push_entry_def Let_def)
    with cl_then [OF s1] cl_then [OF s2] go [of ?d1 ?b] stale show ?thesis
      by (simp add: chase_lev_push_def Let_def)
  qed
qed

lemma solo_pop:
  "reaches cl_step (cl_at d OIdle f p tk) (cl_at (snd (chase_lev_pop d)) OIdle f p
     (tk + (case fst (chase_lev_pop d) of None \<Rightarrow> {#} | Some x \<Rightarrow> {#x#})))"
proof -
  let ?b = "cl_bottom d" and ?t = "cl_top d"
  let ?d1 = "d\<lparr>cl_bottom := ?b - 1\<rparr>"
  let ?x = "cl_buffer d (slot d (?b - 1))"
  have s1: "cl_step (cl_at d OIdle f p tk) (cl_at d (PopCheck ?b) f p tk)"
    using pop_start [of "cl_at d OIdle f p tk"] by simp
  have s2: "cl_step (cl_at d (PopCheck ?b) f p tk) (cl_at d (if ?b \<le> ?t then OIdle else PopReserve ?b) f p tk)"
    using pop_check [of "cl_at d (PopCheck ?b) f p tk" ?b] by simp
  have s3: "cl_step (cl_at d (PopReserve ?b) f p tk) (cl_at ?d1 (PopReload (?b - 1)) f p tk)"
    using pop_reserve [of "cl_at d (PopReserve ?b) f p tk" ?b] by simp
  have s4: "cl_step (cl_at ?d1 (PopReload (?b - 1)) f p tk)
      (cl_at ?d1 (if ?b - 1 - ?t < 0 then PopRestore ?t else PopRead (?b - 1) ?t) f p tk)"
    using pop_reload [of "cl_at ?d1 (PopReload (?b - 1)) f p tk" "?b - 1" ?t] by simp
  have s5: "cl_step (cl_at ?d1 (PopRead (?b - 1) ?t) f p tk) (cl_at ?d1 OIdle f p (tk + {#?x#}))"
    if "0 < ?b - 1 - ?t"
    using pop_take [of "cl_at ?d1 (PopRead (?b - 1) ?t) f p tk" "?b - 1" ?t] that by simp
  have s6: "cl_step (cl_at ?d1 (PopRead (?b - 1) ?t) f p tk) (cl_at ?d1 (PopRace ?t ?x) f p tk)"
    if "\<not> 0 < ?b - 1 - ?t"
    using pop_last [of "cl_at ?d1 (PopRead (?b - 1) ?t) f p tk" "?b - 1" ?t] that by simp
  have s7: "cl_step (cl_at ?d1 (PopRace ?t ?x) f p tk)
      (cl_at (?d1\<lparr>cl_top := ?t + 1\<rparr>) (PopFinish ?t) f p (tk + {#?x#}))"
    using pop_win [of "cl_at ?d1 (PopRace ?t ?x) f p tk" ?t ?x] by simp
  have s8: "cl_step (cl_at (?d1\<lparr>cl_top := ?t + 1\<rparr>) (PopFinish ?t) f p (tk + {#?x#}))
      (cl_at (?d1\<lparr>cl_top := ?t + 1, cl_bottom := ?t + 1\<rparr>) OIdle f p (tk + {#?x#}))"
    using pop_finish [of "cl_at (?d1\<lparr>cl_top := ?t + 1\<rparr>) (PopFinish ?t) f p (tk + {#?x#})" ?t] by simp
  consider (empty) "?b \<le> ?t" | (many) "0 < ?b - 1 - ?t" | (last) "\<not> ?b \<le> ?t" "\<not> 0 < ?b - 1 - ?t" by linarith
  then show ?thesis
  proof cases
    case empty
    with cl_then [OF s1 cl_one [OF s2]] show ?thesis by (simp add: chase_lev_pop_def Let_def)
  next
    case many
    have "reaches cl_step (cl_at d OIdle f p tk) (cl_at ?d1 OIdle f p (tk + {#?x#}))"
      using cl_then [OF s1] cl_then [OF s2] cl_then [OF s3] cl_then [OF s4] cl_one [OF s5] many by simp
    with many show ?thesis by (simp add: chase_lev_pop_def Let_def)
  next
    case last
    have "reaches cl_step (cl_at d OIdle f p tk)
        (cl_at (?d1\<lparr>cl_top := ?t + 1, cl_bottom := ?t + 1\<rparr>) OIdle f p (tk + {#?x#}))"
      using cl_then [OF s1] cl_then [OF s2] cl_then [OF s3] cl_then [OF s4] cl_then [OF s6] cl_then [OF s7 cl_one [OF s8]]
        last by simp
    with last show ?thesis by (simp add: chase_lev_pop_def Let_def)
  qed
qed

lemma solo_steal:
  assumes "f i = TIdle"
  shows "reaches cl_step (cl_at d pc f p tk) (cl_at (snd (chase_lev_steal d)) pc f p
     (tk + (case fst (chase_lev_steal d) of None \<Rightarrow> {#} | Some x \<Rightarrow> {#x#})))"
proof -
  let ?t = "cl_top d" let ?x = "cl_buffer d (slot d ?t)"
  have same: "f(i := TIdle) = f" using assms by auto
  have s1: "cl_step (cl_at d pc f p tk) (cl_at d pc (f(i := StealBottom ?t)) p tk)"
    using steal_start [of "cl_at d pc f p tk" i] assms by simp
  have s2: "cl_step (cl_at d pc (f(i := StealBottom ?t)) p tk)
      (cl_at d pc (f(i := (if cl_bottom d \<le> ?t then TIdle else StealRead ?t))) p tk)"
    using steal_bottom [of "cl_at d pc (f(i := StealBottom ?t)) p tk" i ?t] by simp
  have s3: "cl_step (cl_at d pc (f(i := StealRead ?t)) p tk) (cl_at d pc (f(i := StealRace ?t ?x)) p tk)"
    using steal_read [of "cl_at d pc (f(i := StealRead ?t)) p tk" i ?t] by simp
  have s4: "cl_step (cl_at d pc (f(i := StealRace ?t ?x)) p tk) (cl_at (d\<lparr>cl_top := ?t + 1\<rparr>) pc f p (tk + {#?x#}))"
    using steal_win [of "cl_at d pc (f(i := StealRace ?t ?x)) p tk" i ?t ?x] same by simp
  show ?thesis
  proof (cases "cl_bottom d \<le> ?t")
    case True
    with cl_then [OF s1 cl_one [OF s2]] same show ?thesis by (simp add: deque_steal_value)
  next
    case False
    with cl_then [OF s1] cl_then [OF s2] cl_then [OF s3 cl_one [OF s4]] show ?thesis
      by (simp add: deque_steal_value)
  qed
qed

text \<open>
  The interleaved model and the sequential functions are the same code: an operation that runs
  without interference takes the interleaved system to exactly the state, and hands out exactly the
  task, that \<open>chase_lev_push\<close>, \<open>chase_lev_pop\<close> and \<open>chase_lev_steal\<close> compute.
\<close>

theorem cl_solo_runs_agree:
  assumes "f i = TIdle"
  shows "reaches cl_step (cl_at d OIdle f p tk) (cl_at (snd (chase_lev_push d x)) OIdle f
           (p + (if fst (chase_lev_push d x) then {#x#} else {#})) tk)
       \<and> reaches cl_step (cl_at d OIdle f p tk) (cl_at (snd (chase_lev_pop d)) OIdle f p
           (tk + (case fst (chase_lev_pop d) of None \<Rightarrow> {#} | Some x \<Rightarrow> {#x#})))
       \<and> reaches cl_step (cl_at d pc f p tk) (cl_at (snd (chase_lev_steal d)) pc f p
           (tk + (case fst (chase_lev_steal d) of None \<Rightarrow> {#} | Some x \<Rightarrow> {#x#})))"
  using solo_push [of d f p tk x] solo_pop [of d f p tk] solo_steal [of f i d pc p tk, OF assms] by blast

theorem cl_solo_runs_agree_witness:
  "reaches cl_step (cl_at sample_deque OIdle (\<lambda>_. TIdle) {#} {#}) (cl_at (snd (chase_lev_steal sample_deque)) OIdle (\<lambda>_. TIdle) {#}
           ({#} + (case fst (chase_lev_steal sample_deque) of None \<Rightarrow> {#} | Some x \<Rightarrow> {#x#})))"
  using cl_solo_runs_agree [of "\<lambda>_. TIdle" 0 sample_deque "{#}" "{#}" 5 OIdle] by blast

end
