(* ===== verification/Task.thy ===== *)
theory Task
  imports Prelude
begin

text \<open>
  The task and job records of \<open>include/sk_task.h\<close> and \<open>include/sk_scheduler.h\<close>. A \<open>void*\<close> payload is
  null, a pointer to a job, or a pointer to the developer's data; a function pointer is
  \<open>internal_macro_job_splitter\<close>, \<open>hooked_job_finish_task\<close> (the two functions the scheduler itself
  stores in tasks) or a function of the developer. A \<open>sc_task*\<close> is the
  index of the task in \<open>global_task_array\<close>, and \<open>None\<close> is the null pointer.
\<close>

type_synonym task_ref = nat
type_synonym job_ref = nat

datatype ptr = Null | JobPtr job_ref | UserPtr nat

datatype sc_fn = SplitterFn | HookFn | UserFn nat

record sc_task =
  task_payload :: ptr
  start_inx :: size_t
  end_inx :: size_t
  task_fn :: "sc_fn option"
  unfinished_dependencies :: size_t
  parent_task :: "task_ref option"
  next_free_idx :: uint32

definition JOB_STATE_RUNNING :: uint32 where "JOB_STATE_RUNNING = 0"
definition JOB_STATE_WAITING :: uint32 where "JOB_STATE_WAITING = 1"
definition JOB_STATE_DONE :: uint32 where "JOB_STATE_DONE = 2"

lemmas job_state_defs = JOB_STATE_RUNNING_def JOB_STATE_WAITING_def JOB_STATE_DONE_def

record sc_job =
  job_state :: uint32
  job_payload :: ptr
  payload_size :: size_t
  chunk_size :: size_t
  job_function :: sc_fn

end
