(* ===== verification/TaskPool.thy ===== *)
theory TaskPool
  imports Task
begin

text \<open>
  The task pool of \<open>src/sk_scheduler.c\<close>: a free list threaded through \<open>global_task_array\<close>, whose
  head word carries an index and an ABA tag, and one cache of task pointers per thread. Every
  operation here runs without interference; \<open>TaskPoolConc\<close> interleaves them. The cache array with its
  count is the list of its first \<open>task_cache_count\<close> entries.
\<close>

section \<open>Tagged indices\<close>

definition POOL_EMPTY_INDEX :: uint32 where "POOL_EMPTY_INDEX = 0xFFFFFFFF"

definition pack_aba :: "uint32 \<Rightarrow> uint32 \<Rightarrow> uint64" where
  "pack_aba index tag = push_bit 32 (ucast tag) OR ucast index"

definition unpack_index :: "uint64 \<Rightarrow> uint32" where
  "unpack_index packed_val = ucast (packed_val AND 0xFFFFFFFF)"

definition unpack_tag :: "uint64 \<Rightarrow> uint32" where
  "unpack_tag packed_val = ucast (drop_bit 32 packed_val)"

lemma bit_low_half: "bit (0xFFFFFFFF :: uint64) n \<longleftrightarrow> n < 32"
proof -
  have "(0xFFFFFFFF :: uint64) = mask 32" by (simp add: mask_eq_exp_minus_1)
  then show ?thesis by (simp only: bit_mask_iff) auto
qed

lemma bit_unpack_index: "bit (unpack_index v) n \<longleftrightarrow> n < 32 \<and> bit v n"
  by (auto simp only: unpack_index_def bit_ucast_iff bit_and_iff bit_low_half len_num1 len_bit0 len_bit1
      possible_bit_word)

lemma bit_unpack_tag: "bit (unpack_tag v) n \<longleftrightarrow> n < 32 \<and> bit v (n + 32)"
  by (auto simp: unpack_tag_def bit_ucast_iff bit_drop_bit_eq add.commute)

lemma bit_pack_aba:
  "bit (pack_aba index tag) n \<longleftrightarrow> (if n < 32 then bit index n else n < 64 \<and> bit tag (n - 32))"
  using bit_imp_le_length [of index n]
  by (auto simp: pack_aba_def bit_or_iff bit_push_bit_iff bit_ucast_iff)

lemma unpack_index_pack [simp]: "unpack_index (pack_aba index tag) = index"
  by (rule bit_eqI) (auto simp: bit_unpack_index bit_pack_aba dest: bit_imp_le_length)

lemma unpack_tag_pack [simp]: "unpack_tag (pack_aba index tag) = tag"
  by (rule bit_eqI) (auto simp: bit_unpack_tag bit_pack_aba dest: bit_imp_le_length)

lemma pack_unpack [simp]: "pack_aba (unpack_index v) (unpack_tag v) = v"
  by (rule bit_eqI) (auto simp: bit_unpack_index bit_unpack_tag bit_pack_aba dest: bit_imp_le_length)

text \<open>
  C40: packing an index with its ABA tag and unpacking them again is lossless in both directions, so a
  compare-and-swap on the packed head compares exactly the index and the tag.
\<close>

theorem pack_aba_roundtrip:
  "unpack_index (pack_aba index tag) = index \<and> unpack_tag (pack_aba index tag) = tag
   \<and> pack_aba (unpack_index v) (unpack_tag v) = v"
  by simp

section \<open>The pool and its operations\<close>

definition TASK_CACHE_CAPACITY :: nat where "TASK_CACHE_CAPACITY = 64"
definition TASK_EVICT_COUNT :: nat where "TASK_EVICT_COUNT = 32"

record task_pool =
  global_pool_head :: uint64
  global_task_array :: "task_ref \<Rightarrow> sc_task"
  task_cache :: "nat \<Rightarrow> task_ref list"

definition set_next :: "task_ref \<Rightarrow> uint32 \<Rightarrow> (task_ref \<Rightarrow> sc_task) \<Rightarrow> (task_ref \<Rightarrow> sc_task)" where
  "set_next t n a = a(t := (a t)\<lparr>next_free_idx := n\<rparr>)"

text \<open>The part of \<open>scheduler_boot\<close> that builds the free list and the initial head.\<close>

definition init_task :: "nat \<Rightarrow> nat \<Rightarrow> (task_ref \<Rightarrow> sc_task) \<Rightarrow> (task_ref \<Rightarrow> sc_task)" where
  "init_task cap i a =
     a(i := (a i)\<lparr>next_free_idx := (if i = cap - 1 then POOL_EMPTY_INDEX else word_of_nat (i + 1)),
                 unfinished_dependencies := 0, parent_task := None\<rparr>)"

definition init_task_pool :: "nat \<Rightarrow> task_pool \<Rightarrow> task_pool" where
  "init_task_pool cap p =
     p\<lparr>global_task_array := fold (init_task cap) [0..<cap] (global_task_array p),
       global_pool_head := pack_aba 0 0\<rparr>"

definition memory_pool_acquire :: "nat \<Rightarrow> task_pool \<Rightarrow> task_ref option \<times> task_pool" where
  "memory_pool_acquire tid p =
     (let cache = task_cache p tid in
      if 0 < length cache then
        (Some (cache ! (length cache - 1)),
         p\<lparr>task_cache := (task_cache p)(tid := take (length cache - 1) cache)\<rparr>)
      else
        (let current_head = global_pool_head p;
             head_idx = unpack_index current_head
         in if head_idx = POOL_EMPTY_INDEX then (None, p)
            else
              (let next_idx = next_free_idx (global_task_array p (unat head_idx));
                   current_tag = unpack_tag current_head;
                   new_head = pack_aba next_idx (current_tag + 1)
               in (Some (unat head_idx), p\<lparr>global_pool_head := new_head\<rparr>))))"

text \<open>The loop that links the evicted half of a full cache, \<open>i\<close> from \<open>start_evict + 1\<close> on.\<close>

definition link_evicted :: "task_ref list \<Rightarrow> nat \<Rightarrow> (task_ref \<Rightarrow> sc_task) \<Rightarrow> (task_ref \<Rightarrow> sc_task)" where
  "link_evicted cache start_evict a =
     fold (\<lambda>i a. set_next (cache ! i) (word_of_nat (cache ! (i - 1))) a)
       [start_evict + 1..<TASK_CACHE_CAPACITY] a"

definition memory_pool_release :: "nat \<Rightarrow> task_ref \<Rightarrow> task_pool \<Rightarrow> task_pool" where
  "memory_pool_release tid task p =
     (let cache = task_cache p tid in
      if length cache < TASK_CACHE_CAPACITY then
        p\<lparr>task_cache := (task_cache p)(tid := cache @ [task])\<rparr>
      else
        (let start_evict = TASK_CACHE_CAPACITY - TASK_EVICT_COUNT;
             a = link_evicted cache start_evict (global_task_array p);
             a = set_next task (word_of_nat (cache ! (TASK_CACHE_CAPACITY - 1))) a;
             tail_idx = cache ! start_evict;
             current_head = global_pool_head p;
             a = set_next tail_idx (unpack_index current_head) a;
             current_tag = unpack_tag current_head;
             new_head = pack_aba (word_of_nat task) (current_tag + 1)
         in p\<lparr>global_task_array := a, global_pool_head := new_head,
              task_cache := (task_cache p)(tid := take start_evict cache)\<rparr>))"

section \<open>The free list\<close>

text \<open>
  Walking the free list from a head index; \<open>cap\<close> steps are enough, since a well-formed list holds
  every task at most once.
\<close>

fun walk :: "nat \<Rightarrow> (task_ref \<Rightarrow> sc_task) \<Rightarrow> uint32 \<Rightarrow> task_ref list" where
  "walk 0 a h = []"
| "walk (Suc n) a h =
     (if h = POOL_EMPTY_INDEX then [] else unat h # walk n a (next_free_idx (a (unat h))))"

fun free_chain :: "(task_ref \<Rightarrow> sc_task) \<Rightarrow> uint32 \<Rightarrow> task_ref list \<Rightarrow> bool" where
  "free_chain a h [] \<longleftrightarrow> h = POOL_EMPTY_INDEX"
| "free_chain a h (t # ts) \<longleftrightarrow>
     h = word_of_nat t \<and> h \<noteq> POOL_EMPTY_INDEX \<and> free_chain a (next_free_idx (a t)) ts"

text \<open>Index arithmetic: an array index below the empty marker survives the 32-bit round trip.\<close>

lemma unat_index: "t < 2 ^ 32 - 1 \<Longrightarrow> unat (word_of_nat t :: uint32) = t"
  by (simp add: unat_of_nat)

lemma index_not_empty: "t < 2 ^ 32 - 1 \<Longrightarrow> (word_of_nat t :: uint32) \<noteq> POOL_EMPTY_INDEX"
  using unat_index [of t] by (auto simp: POOL_EMPTY_INDEX_def)

lemma walk_chain:
  assumes "free_chain a h ts" and "length ts \<le> n" and "set ts \<subseteq> {..<2 ^ 32 - 1}"
  shows "walk n a h = ts"
  using assms
proof (induction ts arbitrary: n h)
  case Nil
  then show ?case by (cases n) auto
next
  case (Cons t ts)
  then obtain m where "n = Suc m" by (cases n) auto
  with Cons show ?case using unat_index [of t] by auto
qed

lemma free_chain_set_next_other: "t \<notin> set ts \<Longrightarrow> free_chain (set_next t n a) h ts = free_chain a h ts"
  by (induction ts arbitrary: h) (auto simp: set_next_def)

lemma free_chain_cong:
  "(\<And>t. t \<in> set ts \<Longrightarrow> next_free_idx (a t) = next_free_idx (b t)) \<Longrightarrow> free_chain a h ts = free_chain b h ts"
  by (induction ts arbitrary: h) auto

text \<open>The free list that the head reaches, and every task that is free: on the list or in a cache.\<close>

definition pool_free :: "nat \<Rightarrow> task_pool \<Rightarrow> task_ref list" where
  "pool_free cap p = walk cap (global_task_array p) (unpack_index (global_pool_head p))"

definition pool_avail :: "nat \<Rightarrow> task_pool \<Rightarrow> task_ref set" where
  "pool_avail cap p = set (pool_free cap p) \<union> (\<Union>tid. set (task_cache p tid))"

definition cache_ok :: "nat \<Rightarrow> task_ref list \<Rightarrow> bool" where
  "cache_ok cap c \<longleftrightarrow> length c \<le> TASK_CACHE_CAPACITY \<and> distinct c \<and> set c \<subseteq> {..<cap}"

definition free_ok :: "nat \<Rightarrow> task_pool \<Rightarrow> task_ref list \<Rightarrow> bool" where
  "free_ok cap p ts \<longleftrightarrow> free_chain (global_task_array p) (unpack_index (global_pool_head p)) ts
     \<and> distinct ts \<and> set ts \<subseteq> {..<cap}"

definition pool_wf :: "nat \<Rightarrow> task_pool \<Rightarrow> bool" where
  "pool_wf cap p \<longleftrightarrow> cap < 2 ^ 32 \<and> free_ok cap p (pool_free cap p)
     \<and> (\<forall>tid. cache_ok cap (task_cache p tid) \<and> set (task_cache p tid) \<inter> set (pool_free cap p) = {})
     \<and> (\<forall>tid tid'. tid \<noteq> tid' \<longrightarrow> set (task_cache p tid) \<inter> set (task_cache p tid') = {})"

lemma free_ok_walk:
  assumes "free_ok cap p ts" and "cap < 2 ^ 32"
  shows "pool_free cap p = ts"
  unfolding pool_free_def
proof (rule walk_chain)
  show "free_chain (global_task_array p) (unpack_index (global_pool_head p)) ts"
    using assms(1) by (simp add: free_ok_def)
  have "card (set ts) \<le> card {..<cap}"
    using assms(1) by (intro card_mono) (auto simp: free_ok_def)
  then show "length ts \<le> cap"
    using assms(1) by (simp add: free_ok_def distinct_card)
  show "set ts \<subseteq> {..<2 ^ 32 - 1}"
    using assms by (auto simp: free_ok_def)
qed

lemma pool_wfI:
  assumes "cap < 2 ^ 32" and "free_ok cap p ts"
    and "\<And>tid. cache_ok cap (task_cache p tid)" and "\<And>tid. set (task_cache p tid) \<inter> set ts = {}"
    and "\<And>tid tid'. tid \<noteq> tid' \<Longrightarrow> set (task_cache p tid) \<inter> set (task_cache p tid') = {}"
  shows "pool_wf cap p" and "pool_avail cap p = set ts \<union> (\<Union>tid. set (task_cache p tid))"
  using assms by (auto simp: pool_wf_def pool_avail_def free_ok_walk [OF assms(2,1)])

section \<open>Acquiring\<close>

text \<open>One thread's cache among all of them, before and after an update of it.\<close>

lemma caches_split: "(\<Union>i. set (f i)) = set (f tid) \<union> (\<Union>i \<in> - {tid}. set (f i))"
  by auto

lemma caches_upd: "(\<Union>i. set ((f(tid := c)) i)) = set c \<union> (\<Union>i \<in> - {tid}. set (f i))"
  by (subst caches_split [of _ tid]) auto

lemma cache_avail: "t \<in> set (task_cache p tid) \<Longrightarrow> t \<in> pool_avail cap p"
  by (auto simp: pool_avail_def)

lemma acquire_from_cache:
  assumes wf: "pool_wf cap p" and c: "task_cache p tid = c @ [t]"
  shows "memory_pool_acquire tid p = (Some t, p\<lparr>task_cache := (task_cache p)(tid := c)\<rparr>)"
    and "pool_wf cap (p\<lparr>task_cache := (task_cache p)(tid := c)\<rparr>)"
    and "pool_avail cap (p\<lparr>task_cache := (task_cache p)(tid := c)\<rparr>) = pool_avail cap p - {t}"
proof -
  let ?p = "p\<lparr>task_cache := (task_cache p)(tid := c)\<rparr>"
  show "memory_pool_acquire tid p = (Some t, ?p)"
    by (simp add: memory_pool_acquire_def c)
  have free: "free_ok cap ?p (pool_free cap p)"
    using wf by (simp add: pool_wf_def free_ok_def)
  have ok: "cache_ok cap (c @ [t])" and dj: "set (c @ [t]) \<inter> set (pool_free cap p) = {}"
    and other: "\<And>tid'. tid' \<noteq> tid \<Longrightarrow> set (c @ [t]) \<inter> set (task_cache p tid') = {}"
    using wf unfolding pool_wf_def by (metis c)+
  have I: "cap < 2 ^ 32" "\<And>tid. cache_ok cap (task_cache ?p tid)"
    "\<And>tid. set (task_cache ?p tid) \<inter> set (pool_free cap p) = {}"
    "\<And>tid tid'. tid \<noteq> tid' \<Longrightarrow> set (task_cache ?p tid) \<inter> set (task_cache ?p tid') = {}"
    using wf ok dj other by (auto simp: pool_wf_def cache_ok_def)
  show "pool_wf cap ?p" by (rule pool_wfI(1) [OF I(1) free I(2,3,4)])
  have "pool_avail cap ?p = set (pool_free cap p) \<union> (\<Union>tid. set (task_cache ?p tid))"
    by (rule pool_wfI(2) [OF I(1) free I(2,3,4)])
  also have "\<dots> = pool_avail cap p - {t}"
  proof -
    have "(\<Union>i. set (task_cache ?p i)) = set c \<union> (\<Union>i \<in> - {tid}. set (task_cache p i))"
      using caches_upd [of "task_cache p" tid c] by simp
    moreover have "(\<Union>i. set (task_cache p i)) = set (c @ [t]) \<union> (\<Union>i \<in> - {tid}. set (task_cache p i))"
      using caches_split [of "task_cache p" tid] c by simp
    ultimately show ?thesis
      using ok dj other by (auto simp: pool_avail_def cache_ok_def)
  qed
  finally show "pool_avail cap ?p = pool_avail cap p - {t}" .
qed

lemma acquire_from_list:
  assumes wf: "pool_wf cap p" and c: "task_cache p tid = []" and ts: "pool_free cap p = t # ts"
  defines "p' \<equiv> p\<lparr>global_pool_head := pack_aba (next_free_idx (global_task_array p t))
                                         (unpack_tag (global_pool_head p) + 1)\<rparr>"
  shows "memory_pool_acquire tid p = (Some t, p')" and "pool_wf cap p'"
    and "pool_avail cap p' = pool_avail cap p - {t}" and "pool_free cap p' = ts"
proof -
  have chain: "free_chain (global_task_array p) (unpack_index (global_pool_head p)) (t # ts)"
    and t: "t < cap" and cap: "cap < 2 ^ 32"
    using wf ts by (auto simp: pool_wf_def free_ok_def)
  have idx: "unat (word_of_nat t :: uint32) = t" using t cap by (intro unat_index) simp
  then show "memory_pool_acquire tid p = (Some t, p')"
    using chain by (auto simp: memory_pool_acquire_def c p'_def Let_def)
  have free: "free_ok cap p' ts"
    using wf ts by (simp add: pool_wf_def free_ok_def p'_def)
  have I: "\<And>tid. cache_ok cap (task_cache p' tid)" "\<And>tid. set (task_cache p' tid) \<inter> set ts = {}"
    "\<And>tid tid'. tid \<noteq> tid' \<Longrightarrow> set (task_cache p' tid) \<inter> set (task_cache p' tid') = {}"
    using wf by (auto simp: pool_wf_def ts p'_def)
  show "pool_wf cap p'" by (rule pool_wfI(1) [OF cap free I])
  show "pool_free cap p' = ts" by (rule free_ok_walk [OF free cap])
  show "pool_avail cap p' = pool_avail cap p - {t}"
    using wf pool_wfI(2) [OF cap free I]
    by (auto simp: pool_avail_def ts p'_def pool_wf_def free_ok_def)
qed

lemma acquire_none:
  assumes wf: "pool_wf cap p" and c: "task_cache p tid = []" and ts: "pool_free cap p = []"
  shows "memory_pool_acquire tid p = (None, p)"
  using wf by (simp add: memory_pool_acquire_def c ts Let_def pool_wf_def free_ok_def)

text \<open>How many tasks a thread can still acquire: those in its own cache and those on the free list.\<close>

definition acquirable :: "nat \<Rightarrow> nat \<Rightarrow> task_pool \<Rightarrow> nat" where
  "acquirable cap tid p = length (task_cache p tid) + length (pool_free cap p)"

lemma acquire_acquirable:
  assumes "pool_wf cap p" and "memory_pool_acquire tid p = (r, p')"
  shows "r = None \<longleftrightarrow> acquirable cap tid p = 0" and "acquirable cap tid p' = acquirable cap tid p - 1"
proof -
  have "(r = None \<longleftrightarrow> acquirable cap tid p = 0) \<and> acquirable cap tid p' = acquirable cap tid p - 1"
  proof (cases "task_cache p tid" rule: rev_cases)
    case (snoc c t)
    then show ?thesis using acquire_from_cache(1) [OF assms(1) snoc] assms(2)
      by (auto simp: acquirable_def pool_free_def)
  next
    case Nil
    show ?thesis
    proof (cases "pool_free cap p")
      case list: (Cons t ts)
      then show ?thesis using acquire_from_list(1,4) [OF assms(1) Nil list] assms(2) Nil
        by (auto simp: acquirable_def)
    next
      case empty: Nil
      then show ?thesis using acquire_none [OF assms(1) Nil] assms Nil by (auto simp: acquirable_def)
    qed
  qed
  then show "r = None \<longleftrightarrow> acquirable cap tid p = 0" "acquirable cap tid p' = acquirable cap tid p - 1" by simp_all
qed

lemma acquire_result:
  assumes "pool_wf cap p" and "memory_pool_acquire tid p = (r, p')"
  shows "pool_wf cap p' \<and> global_task_array p' = global_task_array p
    \<and> (case r of
         None \<Rightarrow> p' = p \<and> task_cache p tid = [] \<and> pool_free cap p = []
       | Some t \<Rightarrow> t < cap \<and> t \<in> pool_avail cap p \<and> pool_avail cap p' = pool_avail cap p - {t})"
proof (cases "task_cache p tid" rule: rev_cases)
  case (snoc c t)
  have "t < cap" using assms(1) snoc unfolding pool_wf_def cache_ok_def
    by (metis in_set_conv_decomp lessThan_iff subset_iff)
  moreover have "t \<in> pool_avail cap p" using snoc by (intro cache_avail [where tid = tid]) simp
  ultimately show ?thesis using acquire_from_cache [OF assms(1) snoc] assms(2) by auto
next
  case Nil
  show ?thesis
  proof (cases "pool_free cap p")
    case list: (Cons t ts)
    then have "t < cap" "t \<in> pool_avail cap p"
      using assms(1) by (auto simp: pool_wf_def free_ok_def pool_avail_def)
    then show ?thesis using acquire_from_list [OF assms(1) Nil list] assms(2) by auto
  next
    case empty: Nil
    then show ?thesis using acquire_none [OF assms(1) Nil] assms Nil by auto
  qed
qed

text \<open>
  \<open>memory_pool_acquire\<close> hands out a free task and removes it from the free tasks, keeps the pool
  well formed and the task records untouched; it fails only when the thread's own cache and the shared
  free list are both empty.
\<close>

theorem memory_pool_acquire_correct:
  assumes "pool_wf cap p" and "memory_pool_acquire tid p = (r, p')"
  shows "pool_wf cap p' \<and> global_task_array p' = global_task_array p
    \<and> (case r of
         None \<Rightarrow> p' = p \<and> task_cache p tid = [] \<and> pool_free cap p = []
       | Some t \<Rightarrow> t < cap \<and> t \<in> pool_avail cap p \<and> pool_avail cap p' = pool_avail cap p - {t})"
  by (rule acquire_result [OF assms])

section \<open>Releasing\<close>

text \<open>Writing the links of a list, one slot after the other, leaves a chain that runs backwards.\<close>

lemma link_fold_other:
  "x \<notin> set xs \<Longrightarrow> n \<le> length xs \<Longrightarrow>
     fold (\<lambda>i a. set_next (xs ! i) (w i) a) [k..<n] a x = a x"
  by (induction n arbitrary: a) (auto simp: set_next_def)

lemma link_fold_same:
  assumes "distinct xs" and "k \<le> i" and "i < n" and "n \<le> length xs"
  shows "next_free_idx (fold (\<lambda>i a. set_next (xs ! i) (w i) a) [k..<n] a (xs ! i)) = w i"
  using assms
proof (induction n)
  case (Suc n)
  show ?case
  proof (cases "i = n")
    case False
    then have "xs ! i \<noteq> xs ! n" using Suc.prems by (simp add: nth_eq_iff_index_eq)
    with False Suc show ?thesis by (auto simp: set_next_def)
  qed (use Suc.prems in \<open>auto simp: set_next_def\<close>)
qed simp

lemma link_fold_first:
  assumes "distinct xs" and "n \<le> length xs" and "j < k" and "j < length xs"
  shows "fold (\<lambda>i a. set_next (xs ! i) (w i) a) [k..<n] a (xs ! j) = a (xs ! j)"
  using assms by (induction n arbitrary: a) (auto simp: set_next_def nth_eq_iff_index_eq)

lemma free_chain_backwards:
  assumes "\<And>i. k < i \<Longrightarrow> i \<le> m \<Longrightarrow> next_free_idx (a (xs ! i)) = word_of_nat (xs ! (i - 1))"
    and "\<And>i. k \<le> i \<Longrightarrow> i \<le> m \<Longrightarrow> (word_of_nat (xs ! i) :: uint32) \<noteq> POOL_EMPTY_INDEX"
    and "free_chain a (next_free_idx (a (xs ! k))) ts" and "k \<le> m"
  shows "free_chain a (word_of_nat (xs ! m)) (map ((!) xs) (rev [k..<Suc m]) @ ts)"
  using \<open>k \<le> m\<close> assms(1,2)
proof (induction m rule: dec_induct)
  case base
  with assms(3) show ?case by simp
next
  case (step m)
  have "free_chain a (word_of_nat (xs ! m)) (map ((!) xs) (rev [k..<Suc m]) @ ts)"
    using step by simp
  with step.hyps step.prems show ?case by simp
qed

lemma rev_drop_nth: "k \<le> length xs \<Longrightarrow> map ((!) xs) (rev [k..<length xs]) = rev (drop k xs)"
  by (rule nth_equalityI) (auto simp: rev_nth)

lemmas pool_consts = TASK_CACHE_CAPACITY_def TASK_EVICT_COUNT_def

text \<open>A full cache: the array and the head after the eviction.\<close>

definition evict_array :: "task_pool \<Rightarrow> task_ref list \<Rightarrow> task_ref \<Rightarrow> (task_ref \<Rightarrow> sc_task)" where
  "evict_array p c t = set_next (c ! 32) (unpack_index (global_pool_head p))
     (set_next t (word_of_nat (c ! 63)) (link_evicted c 32 (global_task_array p)))"

lemma release_full:
  assumes "length (task_cache p tid) = 64"
  shows "memory_pool_release tid t p =
     p\<lparr>global_task_array := evict_array p (task_cache p tid) t,
       global_pool_head := pack_aba (word_of_nat t) (unpack_tag (global_pool_head p) + 1),
       task_cache := (task_cache p)(tid := take 32 (task_cache p tid))\<rparr>"
  using assms by (simp add: memory_pool_release_def evict_array_def pool_consts Let_def)

lemma link_evicted_other: "x \<notin> set c \<Longrightarrow> length c = 64 \<Longrightarrow> link_evicted c k a x = a x"
  unfolding link_evicted_def pool_consts by (rule link_fold_other) simp_all

lemma link_evicted_next:
  assumes "distinct c" and "length c = 64" and "k < i" and "i < 64"
  shows "next_free_idx (link_evicted c k a (c ! i)) = word_of_nat (c ! (i - 1))"
  unfolding link_evicted_def pool_consts by (rule link_fold_same) (use assms in auto)

lemma nth_in_cache: "length c = 64 \<Longrightarrow> i < 64 \<Longrightarrow> x \<notin> set c \<Longrightarrow> x \<noteq> c ! i"
  by (metis nth_mem)

lemma evict_array_other:
  assumes "x \<noteq> t" and "x \<notin> set c" and "length c = 64"
  shows "evict_array p c t x = global_task_array p x"
  using assms nth_in_cache [OF assms(3) _ assms(2), of 32]
  by (simp add: evict_array_def set_next_def link_evicted_other)

lemma evict_array_next:
  assumes "distinct c" and "length c = 64" and "t \<notin> set c" and "32 < i" and "i < 64"
  shows "next_free_idx (evict_array p c t (c ! i)) = word_of_nat (c ! (i - 1))"
proof -
  have "c ! i \<noteq> c ! 32" and "c ! i \<noteq> t"
    using assms nth_in_cache [of c i t] by (auto simp: nth_eq_iff_index_eq)
  then show ?thesis
    using link_evicted_next [OF assms(1,2,4,5)] by (simp add: evict_array_def set_next_def)
qed

lemma evict_array_ends:
  assumes "t \<notin> set c" and "length c = 64"
  shows "next_free_idx (evict_array p c t t) = word_of_nat (c ! 63)"
    and "next_free_idx (evict_array p c t (c ! 32)) = unpack_index (global_pool_head p)"
proof -
  have "t \<noteq> c ! 32" using nth_in_cache [OF assms(2) _ assms(1)] by simp
  then show "next_free_idx (evict_array p c t t) = word_of_nat (c ! 63)"
    by (simp add: evict_array_def set_next_def)
  show "next_free_idx (evict_array p c t (c ! 32)) = unpack_index (global_pool_head p)"
    by (simp add: evict_array_def set_next_def)
qed

lemma evict_chain:
  assumes "distinct c" and "length c = 64" and "t \<notin> set c" and "set c \<subseteq> {..<2 ^ 32 - 1}" and "t < 2 ^ 32 - 1"
    and "free_chain (global_task_array p) (unpack_index (global_pool_head p)) ts"
    and "t \<notin> set ts" and "set c \<inter> set ts = {}"
  shows "free_chain (evict_array p c t) (word_of_nat t) (t # rev (drop 32 c) @ ts)"
proof -
  have "free_chain (evict_array p c t) (unpack_index (global_pool_head p)) ts"
  proof (rule free_chain_cong [THEN iffD1, OF _ assms(6)])
    fix x assume "x \<in> set ts"
    then have "x \<noteq> t" "x \<notin> set c" using assms(7,8) by auto
    then show "next_free_idx (global_task_array p x) = next_free_idx (evict_array p c t x)"
      by (simp add: evict_array_other [OF _ _ assms(2)])
  qed
  moreover have eq: "rev (drop 32 c) = map ((!) c) (rev [32..<Suc 63])"
    using rev_drop_nth [of 32 c] assms(2) by simp
  ultimately have "free_chain (evict_array p c t) (word_of_nat (c ! 63)) (rev (drop 32 c) @ ts)"
    unfolding eq
  proof (intro free_chain_backwards)
    fix i :: nat assume "32 \<le> i" "i \<le> 63"
    then have "c ! i < 2 ^ 32 - 1" using assms(2,4) by (auto simp: subset_iff)
    then show "(word_of_nat (c ! i) :: uint32) \<noteq> POOL_EMPTY_INDEX" by (rule index_not_empty)
  qed (use assms in \<open>auto simp: evict_array_ends evict_array_next\<close>)
  then show ?thesis
    using index_not_empty [OF assms(5)] evict_array_ends(1) [OF assms(3,2)] by simp
qed

lemma release_to_cache:
  assumes wf: "pool_wf cap p" and t: "t < cap" "t \<notin> pool_avail cap p"
    and room: "length (task_cache p tid) < TASK_CACHE_CAPACITY"
  defines "p' \<equiv> p\<lparr>task_cache := (task_cache p)(tid := task_cache p tid @ [t])\<rparr>"
  shows "memory_pool_release tid t p = p'" and "pool_wf cap p'"
    and "pool_avail cap p' = insert t (pool_avail cap p)"
proof -
  show "memory_pool_release tid t p = p'"
    using room by (simp add: memory_pool_release_def p'_def Let_def)
  have new: "t \<notin> set (pool_free cap p)" "\<And>i. t \<notin> set (task_cache p i)"
    using t(2) by (auto simp: pool_avail_def)
  have cap: "cap < 2 ^ 32" and free: "free_ok cap p' (pool_free cap p)"
    using wf by (simp_all add: pool_wf_def free_ok_def p'_def)
  have I: "\<And>tid. cache_ok cap (task_cache p' tid)" "\<And>tid. set (task_cache p' tid) \<inter> set (pool_free cap p) = {}"
    "\<And>tid tid'. tid \<noteq> tid' \<Longrightarrow> set (task_cache p' tid) \<inter> set (task_cache p' tid') = {}"
    using wf new t(1) room by (auto simp: pool_wf_def p'_def cache_ok_def)
  show "pool_wf cap p'" by (rule pool_wfI(1) [OF cap free I])
  have "pool_avail cap p' = set (pool_free cap p) \<union> (\<Union>tid. set (task_cache p' tid))"
    by (rule pool_wfI(2) [OF cap free I])
  then show "pool_avail cap p' = insert t (pool_avail cap p)"
    unfolding pool_avail_def [of cap p]
    using caches_split [of "task_cache p" tid] caches_upd [of "task_cache p" tid "task_cache p tid @ [t]"]
    by (auto simp: p'_def)
qed

lemma release_evicts:
  assumes wf: "pool_wf cap p" and t: "t < cap" "t \<notin> pool_avail cap p"
    and full: "length (task_cache p tid) = 64"
  defines "p' \<equiv> memory_pool_release tid t p"
  shows "pool_wf cap p'" and "pool_avail cap p' = insert t (pool_avail cap p)"
    and "pool_free cap p' = t # rev (drop 32 (task_cache p tid)) @ pool_free cap p"
proof -
  let ?c = "task_cache p tid" and ?ts = "pool_free cap p"
  let ?ts' = "t # rev (drop 32 ?c) @ ?ts"
  note p' = p'_def [unfolded release_full [OF full]]
  have new: "t \<notin> set ?ts" "\<And>i. t \<notin> set (task_cache p i)"
    using t(2) by (auto simp: pool_avail_def)
  have cap: "cap < 2 ^ 32" and c: "distinct ?c" "set ?c \<subseteq> {..<cap}" "set ?c \<inter> set ?ts = {}"
    and ts: "free_chain (global_task_array p) (unpack_index (global_pool_head p)) ?ts"
      "distinct ?ts" "set ?ts \<subseteq> {..<cap}"
    using wf by (auto simp: pool_wf_def free_ok_def cache_ok_def)
  have "free_chain (evict_array p ?c t) (word_of_nat t) ?ts'"
    using cap c t(1) new by (intro evict_chain [OF _ full _ _ _ ts(1)]) auto
  then have free: "free_ok cap p' ?ts'"
    using c ts t(1) new set_drop_subset [of 32 ?c] by (auto simp: free_ok_def p' distinct_drop)
  have split: "set ?c = set (take 32 ?c) \<union> set (drop 32 ?c)"
    by (metis append_take_drop_id set_append)
  have apart: "set (take 32 ?c) \<inter> set (drop 32 ?c) = {}"
    using c(1) by (metis append_take_drop_id distinct_append)
  have other: "set (task_cache p i) \<inter> set ?c = {}" if "i \<noteq> tid" for i
    using wf that by (auto simp: pool_wf_def)
  have each: "cache_ok cap (task_cache p i)" "set (task_cache p i) \<inter> set ?ts = {}" for i
    using wf by (simp_all add: pool_wf_def)
  have caches: "task_cache p' i = (if i = tid then take 32 ?c else task_cache p i)" for i
    by (simp add: p')
  have I: "cache_ok cap (task_cache p' i)" "set (task_cache p' i) \<inter> set ?ts' = {}" for i
    subgoal using each [of i] set_take_subset [of 32 ?c] c by (auto simp: caches cache_ok_def pool_consts)
    subgoal using each(2) [of i] each(2) [of tid] other [of i] split apart new(1) new(2) [of tid] new(2) [of i]
      by (auto simp: caches)
    done
  have J: "set (task_cache p' i) \<inter> set (task_cache p' j) = {}" if "i \<noteq> j" for i j
  proof -
    have "set (task_cache p' n) \<subseteq> set (task_cache p n)" for n
      using set_take_subset [of 32 ?c] by (simp add: caches)
    moreover have "set (task_cache p i) \<inter> set (task_cache p j) = {}"
      using wf that by (simp add: pool_wf_def)
    ultimately show ?thesis by blast
  qed
  show "pool_wf cap p'" by (rule pool_wfI(1) [OF cap free I J])
  show "pool_free cap p' = ?ts'" by (rule free_ok_walk [OF free cap])
  have "pool_avail cap p' = set ?ts' \<union> (\<Union>i. set (task_cache p' i))"
    by (rule pool_wfI(2) [OF cap free I J])
  then show "pool_avail cap p' = insert t (pool_avail cap p)"
    unfolding pool_avail_def [of cap p]
    using caches_split [of "task_cache p" tid] caches_upd [of "task_cache p" tid "take 32 ?c"] split
    by (auto simp: p')
qed

lemma evict_array_same_record:
  "(evict_array p c t x)\<lparr>next_free_idx := 0\<rparr> = (global_task_array p x)\<lparr>next_free_idx := 0\<rparr>"
proof -
  have "(fold (\<lambda>i a. set_next (c ! i) (w i) a) is a x)\<lparr>next_free_idx := 0\<rparr> = (a x)\<lparr>next_free_idx := 0\<rparr>"
    for "is" w and a :: "task_ref \<Rightarrow> sc_task"
    by (induction "is" arbitrary: a) (auto simp: set_next_def)
  then have "(link_evicted c 32 a x)\<lparr>next_free_idx := 0\<rparr> = (a x)\<lparr>next_free_idx := 0\<rparr>" for a
    unfolding link_evicted_def .
  then show ?thesis by (auto simp: evict_array_def set_next_def)
qed

lemma release_result:
  assumes "pool_wf cap p" and "t < cap" and "t \<notin> pool_avail cap p" and "memory_pool_release tid t p = p'"
  shows "pool_wf cap p' \<and> pool_avail cap p' = insert t (pool_avail cap p)
    \<and> (\<forall>x. (global_task_array p' x)\<lparr>next_free_idx := 0\<rparr> = (global_task_array p x)\<lparr>next_free_idx := 0\<rparr>)
    \<and> (length (task_cache p tid) = TASK_CACHE_CAPACITY \<longrightarrow>
         task_cache p' tid = take 32 (task_cache p tid)
         \<and> pool_free cap p' = t # rev (drop 32 (task_cache p tid)) @ pool_free cap p)"
proof (cases "length (task_cache p tid) < TASK_CACHE_CAPACITY")
  case True
  with release_to_cache [OF assms(1-3) True] show ?thesis by (simp add: assms(4) [symmetric])
next
  case False
  then have full: "length (task_cache p tid) = 64"
    using assms(1) unfolding pool_wf_def cache_ok_def pool_consts by (metis le_neq_implies_less)
  with release_evicts [OF assms(1-3) full] show ?thesis
    by (simp add: assms(4) [symmetric] release_full [OF full] evict_array_same_record pool_consts)
qed

text \<open>
  \<open>memory_pool_release\<close> makes exactly the given task free again and keeps the pool well formed,
  whether the thread's cache has room or half of it must be evicted to the shared free list; of the
  task records it changes the links only, and in a full cache the evicted half comes off newest first
  behind the released task, in front of the old free list.
\<close>

theorem memory_pool_release_correct:
  assumes "pool_wf cap p" and "t < cap" and "t \<notin> pool_avail cap p" and "memory_pool_release tid t p = p'"
  shows "pool_wf cap p' \<and> pool_avail cap p' = insert t (pool_avail cap p)
    \<and> (\<forall>x. (global_task_array p' x)\<lparr>next_free_idx := 0\<rparr> = (global_task_array p x)\<lparr>next_free_idx := 0\<rparr>)
    \<and> (length (task_cache p tid) = TASK_CACHE_CAPACITY \<longrightarrow>
         task_cache p' tid = take 32 (task_cache p tid)
         \<and> pool_free cap p' = t # rev (drop 32 (task_cache p tid)) @ pool_free cap p)"
  by (rule release_result [OF assms])

section \<open>Booting the pool\<close>

text \<open>A pool with nothing cached, before boot.\<close>

definition empty_pool :: task_pool where
  "empty_pool = \<lparr>global_pool_head = 0,
     global_task_array = (\<lambda>_. \<lparr>task_payload = Null, start_inx = 0, end_inx = 0, task_fn = None,
       unfinished_dependencies = 0, parent_task = None, next_free_idx = 0\<rparr>), task_cache = (\<lambda>_. [])\<rparr>"

lemma fold_init_task:
  "fold (init_task cap) [0..<n] a t = (if t < n then init_task cap t a t else a t)"
  by (induction n) (auto simp: init_task_def)

lemma fold_init_next:
  "t < cap \<Longrightarrow> next_free_idx (fold (init_task cap) [0..<cap] a t) =
     (if Suc t = cap then POOL_EMPTY_INDEX else word_of_nat (Suc t))"
  by (auto simp: fold_init_task init_task_def)

lemma fold_init_chain:
  assumes "cap < 2 ^ 32" and "k < cap"
  shows "free_chain (fold (init_task cap) [0..<cap] a) (word_of_nat k) [k..<cap]"
  using \<open>k < cap\<close>
proof (induction "cap - k" arbitrary: k)
  case (Suc n)
  have k: "(word_of_nat k :: uint32) \<noteq> POOL_EMPTY_INDEX"
    using Suc.prems assms(1) by (intro index_not_empty) simp
  have "free_chain (fold (init_task cap) [0..<cap] a)
          (next_free_idx (fold (init_task cap) [0..<cap] a k)) [Suc k..<cap]"
  proof (cases "Suc k = cap")
    case True
    with Suc.prems show ?thesis by (simp only: fold_init_next) simp
  next
    case False
    then have "free_chain (fold (init_task cap) [0..<cap] a) (word_of_nat (Suc k)) [Suc k..<cap]"
      using Suc by (intro Suc.hyps) auto
    with False Suc.prems show ?thesis by (simp only: fold_init_next) simp
  qed
  with k have "free_chain (fold (init_task cap) [0..<cap] a) (word_of_nat k) (k # [Suc k..<cap])"
    by (simp only: free_chain.simps) simp
  with Suc.prems show ?case by (simp only: upt_conv_Cons [of k cap])
qed simp

lemma init_result:
  assumes "0 < cap" and "cap < 2 ^ 32" and "\<And>tid. task_cache p tid = []"
  defines "p' \<equiv> init_task_pool cap p"
  shows "pool_wf cap p' \<and> pool_free cap p' = [0..<cap] \<and> pool_avail cap p' = {..<cap}
    \<and> (\<forall>t<cap. unfinished_dependencies (global_task_array p' t) = 0 \<and> parent_task (global_task_array p' t) = None)"
proof -
  have free: "free_ok cap p' [0..<cap]"
    using fold_init_chain [OF assms(2,1), of "global_task_array p"]
    by (auto simp: free_ok_def p'_def init_task_pool_def)
  have I: "cache_ok cap (task_cache p' tid)" "set (task_cache p' tid) \<inter> set [0..<cap] = {}" for tid
    using assms(3) by (simp_all add: p'_def init_task_pool_def cache_ok_def)
  have J: "set (task_cache p' i) \<inter> set (task_cache p' j) = {}" if "i \<noteq> j" for i j
    using assms(3) by (simp add: p'_def init_task_pool_def)
  have "pool_avail cap p' = set [0..<cap] \<union> (\<Union>i. set (task_cache p' i))"
    by (rule pool_wfI(2) [OF assms(2) free I J])
  then have "pool_avail cap p' = {..<cap}"
    using assms(3) by (auto simp: p'_def init_task_pool_def)
  moreover have "pool_wf cap p'" by (rule pool_wfI(1) [OF assms(2) free I J])
  moreover have "pool_free cap p' = [0..<cap]" by (rule free_ok_walk [OF free assms(2)])
  ultimately show ?thesis
    by (simp add: p'_def init_task_pool_def fold_init_task) (simp add: init_task_def)
qed

text \<open>
  \<open>scheduler_boot\<close> links the whole array into one free list in index order, so with no stale
  pointers cached every one of the \<open>global_task_capacity\<close> tasks is free, with no dependencies and no
  parent.
\<close>

theorem init_task_pool_correct:
  assumes "0 < cap" and "cap < 2 ^ 32" and "\<And>tid. task_cache p tid = []"
  defines "p' \<equiv> init_task_pool cap p"
  shows "pool_wf cap p' \<and> pool_free cap p' = [0..<cap] \<and> pool_avail cap p' = {..<cap}
    \<and> (\<forall>t<cap. unfinished_dependencies (global_task_array p' t) = 0 \<and> parent_task (global_task_array p' t) = None)"
  unfolding p'_def by (rule init_result [OF assms(1-3)])

theorem init_task_pool_correct_witness:
  "pool_free 65536 (init_task_pool 65536 empty_pool) = [0..<65536]"
  using init_task_pool_correct [of 65536 empty_pool] by (simp add: empty_pool_def)

lemma boot3:
  "pool_wf 3 (init_task_pool 3 empty_pool)" "pool_avail 3 (init_task_pool 3 empty_pool) = {..<3}"
  "memory_pool_acquire 0 (init_task_pool 3 empty_pool) = (Some 0, snd (memory_pool_acquire 0 (init_task_pool 3 empty_pool)))"
proof -
  show wf: "pool_wf 3 (init_task_pool 3 empty_pool)" and "pool_avail 3 (init_task_pool 3 empty_pool) = {..<3}"
    using init_result [of 3 empty_pool] by (simp_all add: empty_pool_def)
  have "pool_free 3 (init_task_pool 3 empty_pool) = 0 # [1, 2]"
    using init_result [of 3 empty_pool] by (simp add: empty_pool_def upt_rec)
  moreover have "task_cache (init_task_pool 3 empty_pool) 0 = []"
    by (simp add: init_task_pool_def empty_pool_def)
  ultimately have "fst (memory_pool_acquire 0 (init_task_pool 3 empty_pool)) = Some 0"
    using acquire_from_list(1) [of 3 "init_task_pool 3 empty_pool" 0 0 "[1, 2]"] wf by simp
  then show "memory_pool_acquire 0 (init_task_pool 3 empty_pool) = (Some 0, snd (memory_pool_acquire 0 (init_task_pool 3 empty_pool)))"
    by (metis prod.collapse)
qed

lemma without_0: "{..<3} - {0} = {1, 2 :: nat}" "insert 0 {1, 2} = {0, 1, 2 :: nat}"
  by auto

theorem memory_pool_acquire_correct_witness:
  "pool_avail 3 (snd (memory_pool_acquire 0 (init_task_pool 3 empty_pool))) = {1, 2}"
  using memory_pool_acquire_correct [OF boot3(1,3)] by (simp add: boot3(2) without_0)

theorem memory_pool_release_correct_witness:
  "pool_avail 3 (memory_pool_release 1 0 (snd (memory_pool_acquire 0 (init_task_pool 3 empty_pool)))) = {0, 1, 2}"
proof -
  let ?q = "snd (memory_pool_acquire 0 (init_task_pool 3 empty_pool))"
  have "pool_wf 3 ?q" and avail: "pool_avail 3 ?q = {1, 2}"
    using acquire_result [OF boot3(1,3)] by (simp_all add: boot3(2) without_0)
  with memory_pool_release_correct [OF this(1) _ _ refl, of 0 1] show ?thesis by (simp add: without_0)
qed

section \<open>The pool as an allocator\<close>

text \<open>What the scheduler relies on: tasks come from a fixed universe and are free or held.\<close>

locale task_allocator =
  fixes acquire :: "'tid \<Rightarrow> 'p \<Rightarrow> 'a option \<times> 'p"
    and release :: "'tid \<Rightarrow> 'a \<Rightarrow> 'p \<Rightarrow> 'p"
    and avail :: "'p \<Rightarrow> 'a set"
    and wf :: "'p \<Rightarrow> bool"
    and universe :: "'a set"
  assumes avail_universe: "wf p \<Longrightarrow> avail p \<subseteq> universe"
    and acquire_some: "wf p \<Longrightarrow> acquire i p = (Some t, p') \<Longrightarrow> wf p' \<and> t \<in> avail p \<and> avail p' = avail p - {t}"
    and acquire_none: "wf p \<Longrightarrow> acquire i p = (None, p') \<Longrightarrow> p' = p"
    and release_law: "wf p \<Longrightarrow> t \<in> universe \<Longrightarrow> t \<notin> avail p \<Longrightarrow>
      wf (release i t p) \<and> avail (release i t p) = insert t (avail p)"

text \<open>
  Any sequence of acquisitions and releases by the threads; a release of a task that nobody holds is
  not a use of the interface and is skipped. The second component is the set of tasks held.
\<close>

datatype ('tid, 'a) alloc_op = Acquire 'tid | Release 'tid 'a

fun alloc_run ::
  "('tid \<Rightarrow> 'p \<Rightarrow> 'a option \<times> 'p) \<Rightarrow> ('tid \<Rightarrow> 'a \<Rightarrow> 'p \<Rightarrow> 'p) \<Rightarrow> ('tid, 'a) alloc_op list \<Rightarrow> 'p \<Rightarrow> 'a list \<Rightarrow> 'p \<times> 'a list" where
  "alloc_run acq rel [] p held = (p, held)"
| "alloc_run acq rel (Acquire i # ops) p held =
     (case acq i p of (None, p') \<Rightarrow> alloc_run acq rel ops p' held
                    | (Some t, p') \<Rightarrow> alloc_run acq rel ops p' (t # held))"
| "alloc_run acq rel (Release i t # ops) p held =
     (if t \<in> set held then alloc_run acq rel ops (rel i t p) (remove1 t held)
      else alloc_run acq rel ops p held)"

context task_allocator
begin

definition partitioned :: "'p \<Rightarrow> 'a list \<Rightarrow> bool" where
  "partitioned p held \<longleftrightarrow> wf p \<and> distinct held \<and> set held \<inter> avail p = {} \<and> set held \<union> avail p = universe"

lemma partitioned_acquire:
  "partitioned p held \<Longrightarrow> acquire i p = (Some t, p') \<Longrightarrow> partitioned p' (t # held)"
  using acquire_some [of p i t p'] by (auto simp: partitioned_def)

lemma partitioned_release:
  "partitioned p held \<Longrightarrow> t \<in> set held \<Longrightarrow> partitioned (release i t p) (remove1 t held)"
proof -
  assume P: "partitioned p held" "t \<in> set held"
  then have "wf (release i t p) \<and> avail (release i t p) = insert t (avail p)"
    by (intro release_law) (auto simp: partitioned_def)
  with P show "partitioned (release i t p) (remove1 t held)"
    by (auto simp: partitioned_def)
qed

lemma run_partitioned:
  "partitioned p held \<Longrightarrow> alloc_run acquire release ops p held = (p', held') \<Longrightarrow> partitioned p' held'"
proof (induction ops arbitrary: p held)
  case (Cons op ops)
  show ?case
  proof (cases op)
    case (Acquire i)
    obtain r q where eq: "acquire i p = (r, q)" by (cases "acquire i p")
    show ?thesis
    proof (cases r)
      case None
      then have "q = p" using acquire_none [of p i q] eq Cons.prems by (simp add: partitioned_def)
      with None show ?thesis using Cons eq Acquire by simp
    next
      case (Some t)
      then have "partitioned q (t # held)" using partitioned_acquire [of p held i t q] eq Cons.prems by simp
      with Some show ?thesis using Cons.IH [of q "t # held"] Cons.prems eq Acquire by simp
    qed
  next
    case (Release i t)
    with Cons show ?thesis
      using partitioned_release [of p held t i] by (auto split: if_splits)
  qed
qed simp

end

interpretation pool: task_allocator memory_pool_acquire memory_pool_release "pool_avail cap" "pool_wf cap" "{..<cap}"
  for cap
proof unfold_locales
  fix p assume "pool_wf cap p"
  then show "pool_avail cap p \<subseteq> {..<cap}" by (auto simp: pool_wf_def pool_avail_def free_ok_def cache_ok_def)
next
  fix p i t p' assume "pool_wf cap p" "memory_pool_acquire i p = (Some t, p')"
  from acquire_result [OF this] show "pool_wf cap p' \<and> t \<in> pool_avail cap p \<and> pool_avail cap p' = pool_avail cap p - {t}"
    by simp
next
  fix p i p' assume "pool_wf cap p" "memory_pool_acquire i p = (None, p')"
  from acquire_result [OF this] show "p' = p" by simp
next
  fix p t i assume "pool_wf cap p" "t \<in> {..<cap}" "t \<notin> pool_avail cap p"
  with release_result [of cap p t i "memory_pool_release i t p"]
  show "pool_wf cap (memory_pool_release i t p) \<and> pool_avail cap (memory_pool_release i t p) = insert t (pool_avail cap p)"
    by simp
qed

text \<open>
  From boot on, whatever the threads acquire and release, in any order and across any number of
  evictions, no task is held twice, no held task is free, and every task is held or free.
\<close>

theorem task_pool_conserves:
  assumes "0 < cap" and "cap < 2 ^ 32" and "\<And>tid. task_cache p tid = []"
    and "alloc_run memory_pool_acquire memory_pool_release ops (init_task_pool cap p) [] = (p', held)"
  shows "pool_wf cap p' \<and> distinct held \<and> set held \<inter> pool_avail cap p' = {}
       \<and> set held \<union> pool_avail cap p' = {..<cap}"
proof -
  have "pool.partitioned cap (init_task_pool cap p) []"
    using init_result [OF assms(1-3)] by (simp add: pool.partitioned_def)
  from pool.run_partitioned [OF this assms(4)] show ?thesis by (simp add: pool.partitioned_def)
qed

theorem task_pool_conserves_witness:
  "set (snd (alloc_run memory_pool_acquire memory_pool_release [Acquire 0, Acquire 1] (init_task_pool 65536 empty_pool) []))
   \<union> pool_avail 65536 (fst (alloc_run memory_pool_acquire memory_pool_release [Acquire 0, Acquire 1] (init_task_pool 65536 empty_pool) []))
   = {..<65536}"
  using task_pool_conserves [of 65536 empty_pool "[Acquire 0, Acquire 1]" _ _, OF _ _ _ prod.collapse [symmetric]]
  by (simp add: empty_pool_def)

end
