(* ===== verification/TaskPoolConc.thy ===== *)
theory TaskPoolConc
  imports TaskPool
begin

text \<open>
  The task pool under interleaving: any number of threads run \<open>memory_pool_acquire\<close> and
  \<open>memory_pool_release\<close> of \<open>src/sk_scheduler.c\<close>, one access to shared memory per step, in any order.
  The caches are thread-local, so an operation that stays inside its cache is one step. A weak
  compare-and-swap may fail for no reason and loads the head when it fails. Ghost state: the tasks held
  by the clients, the number of successful exchanges of the head, and in the program counter of an
  acquirer that number as it was when the head was loaded.
\<close>

section \<open>Steps\<close>

datatype pool_pc =
    PIdle
  | AcqHead uint64 nat              \<comment> \<open>\<open>current_head\<close> loaded\<close>
  | AcqNext uint64 uint32 nat       \<comment> \<open>\<open>next_idx\<close> loaded: about to compare-and-swap\<close>
  | RelLink task_ref nat            \<comment> \<open>linking the evicted half of the cache, slot \<open>i\<close>\<close>
  | RelLoad task_ref                \<comment> \<open>about to load \<open>current_head\<close>\<close>
  | RelTail task_ref uint64         \<comment> \<open>about to link the tail to the old head\<close>
  | RelCas task_ref uint64          \<comment> \<open>about to compare-and-swap\<close>

record tp_sys =
  pl :: task_pool
  tpc :: "nat \<Rightarrow> pool_pc"
  held :: "task_ref list"
  exchanges :: nat

definition tp_start :: "nat \<Rightarrow> task_pool \<Rightarrow> tp_sys" where
  "tp_start cap p = \<lparr>pl = init_task_pool cap p, tpc = (\<lambda>_. PIdle), held = [], exchanges = 0\<rparr>"

abbreviation set_cache :: "nat \<Rightarrow> task_ref list \<Rightarrow> task_pool \<Rightarrow> task_pool" where
  "set_cache i c p \<equiv> p\<lparr>task_cache := (task_cache p)(i := c)\<rparr>"

abbreviation set_link :: "task_ref \<Rightarrow> uint32 \<Rightarrow> task_pool \<Rightarrow> task_pool" where
  "set_link t n p \<equiv> p\<lparr>global_task_array := set_next t n (global_task_array p)\<rparr>"

inductive tp_step :: "tp_sys \<Rightarrow> tp_sys \<Rightarrow> bool" where
  acq_cache: "tpc s i = PIdle \<Longrightarrow> task_cache (pl s) i = c @ [t] \<Longrightarrow>
    tp_step s (s\<lparr>pl := set_cache i c (pl s), held := t # held s\<rparr>)"
| acq_load: "tpc s i = PIdle \<Longrightarrow> task_cache (pl s) i = [] \<Longrightarrow>
    tp_step s (s\<lparr>tpc := (tpc s)(i := AcqHead (global_pool_head (pl s)) (exchanges s))\<rparr>)"
| acq_empty: "tpc s i = AcqHead w k \<Longrightarrow> unpack_index w = POOL_EMPTY_INDEX \<Longrightarrow>
    tp_step s (s\<lparr>tpc := (tpc s)(i := PIdle)\<rparr>)"
| acq_next: "tpc s i = AcqHead w k \<Longrightarrow> unpack_index w \<noteq> POOL_EMPTY_INDEX \<Longrightarrow>
    tp_step s (s\<lparr>tpc := (tpc s)(i :=
      AcqNext w (next_free_idx (global_task_array (pl s) (unat (unpack_index w)))) k)\<rparr>)"
| acq_win: "tpc s i = AcqNext w n k \<Longrightarrow> global_pool_head (pl s) = w \<Longrightarrow>
    tp_step s (s\<lparr>pl := (pl s)\<lparr>global_pool_head := pack_aba n (unpack_tag w + 1)\<rparr>,
                 tpc := (tpc s)(i := PIdle), held := unat (unpack_index w) # held s,
                 exchanges := exchanges s + 1\<rparr>)"
| acq_retry: "tpc s i = AcqNext w n k \<Longrightarrow>
    tp_step s (s\<lparr>tpc := (tpc s)(i := AcqHead (global_pool_head (pl s)) (exchanges s))\<rparr>)"
| rel_cache: "tpc s i = PIdle \<Longrightarrow> t \<in> set (held s) \<Longrightarrow> length (task_cache (pl s) i) < TASK_CACHE_CAPACITY \<Longrightarrow>
    tp_step s (s\<lparr>pl := set_cache i (task_cache (pl s) i @ [t]) (pl s), held := remove1 t (held s)\<rparr>)"
| rel_start: "tpc s i = PIdle \<Longrightarrow> t \<in> set (held s) \<Longrightarrow> \<not> length (task_cache (pl s) i) < TASK_CACHE_CAPACITY \<Longrightarrow>
    tp_step s (s\<lparr>tpc := (tpc s)(i := RelLink t (TASK_CACHE_CAPACITY - TASK_EVICT_COUNT + 1)),
                 held := remove1 t (held s)\<rparr>)"
| rel_link: "tpc s i = RelLink t j \<Longrightarrow> j < TASK_CACHE_CAPACITY \<Longrightarrow>
    tp_step s (s\<lparr>pl := set_link (task_cache (pl s) i ! j) (word_of_nat (task_cache (pl s) i ! (j - 1))) (pl s),
                 tpc := (tpc s)(i := RelLink t (j + 1))\<rparr>)"
| rel_link_task: "tpc s i = RelLink t j \<Longrightarrow> \<not> j < TASK_CACHE_CAPACITY \<Longrightarrow>
    tp_step s (s\<lparr>pl := set_link t (word_of_nat (task_cache (pl s) i ! (TASK_CACHE_CAPACITY - 1))) (pl s),
                 tpc := (tpc s)(i := RelLoad t)\<rparr>)"
| rel_load: "tpc s i = RelLoad t \<Longrightarrow>
    tp_step s (s\<lparr>tpc := (tpc s)(i := RelTail t (global_pool_head (pl s)))\<rparr>)"
| rel_tail: "tpc s i = RelTail t w \<Longrightarrow>
    tp_step s (s\<lparr>pl := set_link (task_cache (pl s) i ! (TASK_CACHE_CAPACITY - TASK_EVICT_COUNT)) (unpack_index w) (pl s),
                 tpc := (tpc s)(i := RelCas t w)\<rparr>)"
| rel_win: "tpc s i = RelCas t w \<Longrightarrow> global_pool_head (pl s) = w \<Longrightarrow>
    tp_step s (s\<lparr>pl := (pl s)\<lparr>global_pool_head := pack_aba (word_of_nat t) (unpack_tag w + 1),
                   task_cache := (task_cache (pl s))(i := take (TASK_CACHE_CAPACITY - TASK_EVICT_COUNT) (task_cache (pl s) i))\<rparr>,
                 tpc := (tpc s)(i := PIdle), exchanges := exchanges s + 1\<rparr>)"
| rel_retry: "tpc s i = RelCas t w \<Longrightarrow>
    tp_step s (s\<lparr>tpc := (tpc s)(i := RelTail t (global_pool_head (pl s)))\<rparr>)"

text \<open>
  The assumption the 32-bit tag rests on: between an acquirer's load of the head and its
  compare-and-swap fewer than \<open>2 ^ 32\<close> exchanges succeed. A guarded step is a step from a state in
  which it holds.
\<close>

definition tag_fresh :: "tp_sys \<Rightarrow> bool" where
  "tag_fresh s \<longleftrightarrow> (\<forall>i w n k. tpc s i = AcqNext w n k \<longrightarrow> exchanges s < k + 2 ^ 32)"

definition tp_fresh_step :: "tp_sys \<Rightarrow> tp_sys \<Rightarrow> bool" where
  "tp_fresh_step s t \<longleftrightarrow> tag_fresh s \<and> tp_step s t"

section \<open>The invariant\<close>

text \<open>The tasks that a thread owns while it releases one, beside its cache.\<close>

fun pc_task :: "pool_pc \<Rightarrow> task_ref set" where
  "pc_task (RelLink t i) = {t}"
| "pc_task (RelLoad t) = {t}"
| "pc_task (RelTail t w) = {t}"
| "pc_task (RelCas t w) = {t}"
| "pc_task _ = {}"

text \<open>The links of the evicted half up to slot \<open>i\<close> are written.\<close>

definition linked :: "(task_ref \<Rightarrow> sc_task) \<Rightarrow> task_ref list \<Rightarrow> nat \<Rightarrow> bool" where
  "linked a c i \<longleftrightarrow> (\<forall>j. 32 < j \<longrightarrow> j < i \<longrightarrow> next_free_idx (a (c ! j)) = word_of_nat (c ! (j - 1)))"

definition rel_ready :: "(task_ref \<Rightarrow> sc_task) \<Rightarrow> task_ref list \<Rightarrow> task_ref \<Rightarrow> bool" where
  "rel_ready a c t \<longleftrightarrow> length c = 64 \<and> t \<notin> set c \<and> linked a c 64 \<and> next_free_idx (a t) = word_of_nat (c ! 63)"

fun pc_ok :: "(task_ref \<Rightarrow> sc_task) \<Rightarrow> uint64 \<Rightarrow> nat \<Rightarrow> task_ref list \<Rightarrow> pool_pc \<Rightarrow> bool" where
  "pc_ok a h n c PIdle \<longleftrightarrow> True"
| "pc_ok a h n c (AcqHead w k) \<longleftrightarrow> k \<le> n \<and> unpack_tag w = word_of_nat k \<and> (k = n \<longrightarrow> w = h)"
| "pc_ok a h n c (AcqNext w x k) \<longleftrightarrow> k \<le> n \<and> unpack_tag w = word_of_nat k \<and> (k = n \<longrightarrow> w = h)
     \<and> unpack_index w \<noteq> POOL_EMPTY_INDEX \<and> (k = n \<longrightarrow> x = next_free_idx (a (unat (unpack_index w))))"
| "pc_ok a h n c (RelLink t i) \<longleftrightarrow> length c = 64 \<and> t \<notin> set c \<and> 33 \<le> i \<and> i \<le> 64 \<and> linked a c i"
| "pc_ok a h n c (RelLoad t) \<longleftrightarrow> rel_ready a c t"
| "pc_ok a h n c (RelTail t w) \<longleftrightarrow> rel_ready a c t"
| "pc_ok a h n c (RelCas t w) \<longleftrightarrow> rel_ready a c t \<and> next_free_idx (a (c ! 32)) = unpack_index w"

definition owned :: "tp_sys \<Rightarrow> nat \<Rightarrow> task_ref set" where
  "owned s i = set (task_cache (pl s) i) \<union> pc_task (tpc s i)"

definition threads_ok :: "nat \<Rightarrow> tp_sys \<Rightarrow> bool" where
  "threads_ok cap s \<longleftrightarrow> (\<forall>i. cache_ok cap (task_cache (pl s) i)
     \<and> pc_ok (global_task_array (pl s)) (global_pool_head (pl s)) (exchanges s) (task_cache (pl s) i) (tpc s i))"

definition tasks_split :: "nat \<Rightarrow> (nat \<Rightarrow> task_ref set) \<Rightarrow> task_ref list \<Rightarrow> task_ref list \<Rightarrow> bool" where
  "tasks_split cap own hs ts \<longleftrightarrow> distinct hs \<and> (\<forall>t. t \<in> set hs \<longrightarrow> t \<notin> set ts)
     \<and> (\<forall>i t. t \<in> own i \<longrightarrow> t \<notin> set hs \<and> t \<notin> set ts \<and> (\<forall>j. t \<in> own j \<longrightarrow> j = i))
     \<and> set hs \<union> set ts \<union> (\<Union>i. own i) = {..<cap}"

definition tp_rep :: "nat \<Rightarrow> tp_sys \<Rightarrow> task_ref list \<Rightarrow> bool" where
  "tp_rep cap s ts \<longleftrightarrow> cap < 2 ^ 32 \<and> free_ok cap (pl s) ts
     \<and> unpack_tag (global_pool_head (pl s)) = word_of_nat (exchanges s)
     \<and> threads_ok cap s \<and> tasks_split cap (owned s) (held s) ts"

text \<open>How one thread's knowledge survives a link that another thread writes, and an exchange.\<close>

lemma linked_upd: "\<forall>j. 32 < j \<longrightarrow> j < i \<longrightarrow> c ! j \<noteq> x \<Longrightarrow> linked (set_next x n a) c i = linked a c i"
  by (auto simp: linked_def set_next_def)

lemma pc_ok_link_other:
  assumes "pc_ok a h n c pc" and "x \<notin> set c" and "x \<notin> pc_task pc"
    and "unpack_index h \<noteq> POOL_EMPTY_INDEX \<Longrightarrow> x \<noteq> unat (unpack_index h)"
  shows "pc_ok (set_next x y a) h n c pc"
proof (cases pc)
  case (RelLink t i)
  then have "linked (set_next x y a) c i = linked a c i"
    using assms(1,2) by (intro linked_upd) (auto simp: in_set_conv_nth)
  with assms RelLink show ?thesis by simp
next
  case (AcqNext w m k)
  with assms show ?thesis by (auto simp: set_next_def)
qed (use assms nth_in_cache [of c _ x] in
      \<open>auto simp: rel_ready_def set_next_def linked_def dest: nth_in_cache [of c _ x]\<close>)

lemma pc_ok_exchange: "pc_ok a h n c pc \<Longrightarrow> pc_ok a h' (Suc n) c pc"
  by (cases pc) auto

text \<open>How the division of the tasks changes when one of them, or a group, moves.\<close>

lemma Union_upd: "(\<Union>j. (own(i := X)) j) = X \<union> (\<Union>j \<in> - {i}. own j)" and Union_at: "(\<Union>j. own j) = own i \<union> (\<Union>j \<in> - {i}. own j)"
  by (auto split: if_splits)

lemma tasks_split_own:
  assumes "tasks_split cap own hs ts"
  shows "own i \<inter> set hs = {}" "own i \<inter> set ts = {}" "i \<noteq> j \<Longrightarrow> own i \<inter> own j = {}"
  using assms by (auto simp: tasks_split_def)

lemma split_own_to_held:
  assumes "tasks_split cap own hs ts" and "own i = insert t X" and "t \<notin> X"
  shows "tasks_split cap (own(i := X)) (t # hs) ts"
proof -
  have "set (t # hs) \<union> set ts \<union> (\<Union>j. (own(i := X)) j) = {..<cap}"
    using assms Union_at [of own i] unfolding Union_upd tasks_split_def by auto
  moreover have "j \<noteq> i \<Longrightarrow> t \<notin> own j" for j using tasks_split_own(3) [OF assms(1), of j i] assms(2) by auto
  moreover have "t \<notin> set hs" "t \<notin> set ts" using tasks_split_own(1,2) [OF assms(1), of i] assms(2) by auto
  moreover have "x \<in> X \<Longrightarrow> x \<notin> set hs \<and> x \<notin> set ts \<and> (\<forall>j. x \<in> own j \<longrightarrow> j = i)" for x
    using assms(1,2) unfolding tasks_split_def by blast
  ultimately show ?thesis
    using assms unfolding tasks_split_def by (simp only: fun_upd_apply split: if_splits) (auto simp: fun_upd_apply)
qed

lemma split_held_to_own:
  assumes "tasks_split cap own hs ts" and "t \<in> set hs"
  shows "tasks_split cap (own(i := insert t (own i))) (remove1 t hs) ts"
proof -
  have "set (remove1 t hs) \<union> set ts \<union> (\<Union>j. (own(i := insert t (own i))) j) = {..<cap}"
    using assms Union_at [of own i] unfolding Union_upd tasks_split_def by auto
  then show ?thesis
    using assms unfolding tasks_split_def by (simp only: fun_upd_apply split: if_splits) (auto simp: fun_upd_apply)
qed

lemma split_list_to_held:
  assumes "tasks_split cap own hs (t # ts)" and "t \<notin> set ts"
  shows "tasks_split cap own (t # hs) ts"
  using assms by (auto simp: tasks_split_def)

lemma split_own_to_list:
  assumes "tasks_split cap own hs ts" and "own i = X \<union> set xs" and "X \<inter> set xs = {}" and "set ts' = set xs \<union> set ts"
  shows "tasks_split cap (own(i := X)) hs ts'"
proof -
  have "set hs \<union> set ts' \<union> (\<Union>j. (own(i := X)) j) = {..<cap}"
    using assms Union_at [of own i] unfolding Union_upd tasks_split_def by auto
  moreover have "j \<noteq> i \<Longrightarrow> own j \<inter> set xs = {}" for j using tasks_split_own(3) [OF assms(1), of j i] assms(2) by auto
  moreover have "x \<in> X \<Longrightarrow> x \<notin> set hs \<and> x \<notin> set ts \<and> (\<forall>j. x \<in> own j \<longrightarrow> j = i)" for x
    using assms(1,2) unfolding tasks_split_def by blast
  ultimately show ?thesis
    using assms unfolding tasks_split_def by (simp only: fun_upd_apply split: if_splits) (auto simp: fun_upd_apply)
qed

text \<open>One thread's step as seen by all threads.\<close>

lemma threads_ok_upd:
  assumes "threads_ok cap s"
    and "cache_ok cap c" and "pc_ok (global_task_array (pl s')) (global_pool_head (pl s')) (exchanges s') c pc"
    and "\<And>j. task_cache (pl s') j = (if j = i then c else task_cache (pl s) j)"
    and "\<And>j. tpc s' j = (if j = i then pc else tpc s j)"
    and "\<And>j. j \<noteq> i \<Longrightarrow> pc_ok (global_task_array (pl s)) (global_pool_head (pl s)) (exchanges s) (task_cache (pl s) j) (tpc s j)
           \<Longrightarrow> pc_ok (global_task_array (pl s')) (global_pool_head (pl s')) (exchanges s') (task_cache (pl s) j) (tpc s j)"
  shows "threads_ok cap s'"
  using assms by (auto simp: threads_ok_def)

lemma tp_rep_thread:
  assumes "tp_rep cap s ts"
  shows "cache_ok cap (task_cache (pl s) i)"
    and "pc_ok (global_task_array (pl s)) (global_pool_head (pl s)) (exchanges s) (task_cache (pl s) i) (tpc s i)"
  using assms by (auto simp: tp_rep_def threads_ok_def)

lemma tp_rep_own:
  assumes "tp_rep cap s ts"
  shows "owned s i \<inter> set (held s) = {}" "owned s i \<inter> set ts = {}" "i \<noteq> j \<Longrightarrow> owned s i \<inter> owned s j = {}"
    "owned s i \<subseteq> {..<cap}" "set (held s) \<subseteq> {..<cap}"
  using assms by (auto simp: tp_rep_def tasks_split_def)

text \<open>A step that changes nothing but the thread's program counter.\<close>

lemma tp_rep_pc:
  assumes "tp_rep cap s ts" and "pc_task pc = pc_task (tpc s i)"
    and "pc_ok (global_task_array (pl s)) (global_pool_head (pl s)) (exchanges s) (task_cache (pl s) i) pc"
  shows "tp_rep cap (s\<lparr>tpc := (tpc s)(i := pc)\<rparr>) ts"
proof -
  have "owned (s\<lparr>tpc := (tpc s)(i := pc)\<rparr>) = owned s" using assms(2) by (intro ext) (simp add: owned_def)
  then show ?thesis using assms by (auto simp: tp_rep_def threads_ok_def)
qed

text \<open>A step that writes the link of a task that the thread owns.\<close>

lemma tp_rep_link:
  assumes rep: "tp_rep cap s ts" and own: "x \<in> owned s i" and pc: "pc_task pc = pc_task (tpc s i)"
    and ok: "pc_ok (set_next x y (global_task_array (pl s))) (global_pool_head (pl s)) (exchanges s) (task_cache (pl s) i) pc"
  shows "tp_rep cap (s\<lparr>pl := set_link x y (pl s), tpc := (tpc s)(i := pc)\<rparr>) ts"
proof -
  let ?s = "s\<lparr>pl := set_link x y (pl s), tpc := (tpc s)(i := pc)\<rparr>"
  have x: "x \<notin> set ts" using own tp_rep_own(2) [OF rep, of i] by auto
  have head: "x \<noteq> unat (unpack_index (global_pool_head (pl s)))" if "unpack_index (global_pool_head (pl s)) \<noteq> POOL_EMPTY_INDEX"
  proof (cases ts)
    case Nil
    with rep that show ?thesis by (simp add: tp_rep_def free_ok_def)
  next
    case (Cons t us)
    with rep have "unat (unpack_index (global_pool_head (pl s))) = t"
      using unat_index [of t] by (auto simp: tp_rep_def free_ok_def)
    with x Cons show ?thesis by auto
  qed
  have "owned ?s = owned s" using pc by (intro ext) (simp add: owned_def)
  moreover have "free_ok cap (pl ?s) ts"
    using rep x by (simp add: tp_rep_def free_ok_def free_chain_set_next_other)
  moreover have "threads_ok cap ?s"
  proof (rule threads_ok_upd [where s = s and i = i and c = "task_cache (pl s) i" and pc = pc])
    fix j assume "j \<noteq> i"
    then have "x \<notin> owned s j" using own tp_rep_own(3) [OF rep, of i j] by auto
    then show "pc_ok (global_task_array (pl s)) (global_pool_head (pl s)) (exchanges s) (task_cache (pl s) j) (tpc s j) \<Longrightarrow>
        pc_ok (global_task_array (pl ?s)) (global_pool_head (pl ?s)) (exchanges ?s) (task_cache (pl s) j) (tpc s j)"
      using head by (auto intro!: pc_ok_link_other simp: owned_def)
  qed (use rep ok in \<open>auto simp: tp_rep_def threads_ok_def\<close>)
  ultimately show ?thesis using rep by (simp add: tp_rep_def)
qed

lemma stamp_unique:
  assumes "(word_of_nat k :: uint32) = word_of_nat n" and "k \<le> n" and "n < k + 2 ^ 32"
  shows "k = n"
proof -
  have "n mod 2 ^ 32 = k mod 2 ^ 32"
    using arg_cong [OF assms(1), of unat] by (simp add: unat_of_nat)
  then have "2 ^ 32 dvd n - k" using assms(2) by (metis mod_eq_dvd_iff_nat)
  moreover have "n - k < 2 ^ 32" using assms(2,3) by simp
  ultimately have "n - k = 0" using nat_dvd_not_less by blast
  with assms(2) show ?thesis by simp
qed

text \<open>The two operations that stay inside the thread's cache.\<close>

lemma tp_rep_acq_cache:
  assumes rep: "tp_rep cap s ts" and pc: "tpc s i = PIdle" and c: "task_cache (pl s) i = c @ [t]"
  shows "tp_rep cap (s\<lparr>pl := set_cache i c (pl s), held := t # held s\<rparr>) ts"
proof -
  let ?s = "s\<lparr>pl := set_cache i c (pl s), held := t # held s\<rparr>"
  have cok: "cache_ok cap (c @ [t])" using tp_rep_thread(1) [OF rep, of i] c by simp
  have "owned ?s = (owned s)(i := set c)" using pc by (intro ext) (simp add: owned_def)
  moreover have "tasks_split cap ((owned s)(i := set c)) (t # held s) ts"
    using rep pc c cok by (intro split_own_to_held) (auto simp: tp_rep_def owned_def cache_ok_def)
  moreover have "threads_ok cap ?s"
    by (rule threads_ok_upd [where s = s and i = i and c = c and pc = PIdle])
      (use rep pc cok in \<open>simp_all add: tp_rep_def cache_ok_def\<close>)
  ultimately show ?thesis using rep by (simp add: tp_rep_def free_ok_def)
qed

lemma tp_rep_rel_cache:
  assumes rep: "tp_rep cap s ts" and pc: "tpc s i = PIdle" and t: "t \<in> set (held s)"
    and room: "length (task_cache (pl s) i) < TASK_CACHE_CAPACITY"
  shows "tp_rep cap (s\<lparr>pl := set_cache i (task_cache (pl s) i @ [t]) (pl s), held := remove1 t (held s)\<rparr>) ts"
proof -
  let ?c = "task_cache (pl s) i @ [t]"
  let ?s = "s\<lparr>pl := set_cache i ?c (pl s), held := remove1 t (held s)\<rparr>"
  have "t \<notin> owned s i" using tp_rep_own(1) [OF rep, of i] t by auto
  then have cok: "cache_ok cap ?c"
    using tp_rep_thread(1) [OF rep, of i] room t tp_rep_own(5) [OF rep] by (auto simp: cache_ok_def owned_def)
  have "owned ?s = (owned s)(i := insert t (owned s i))" using pc by (intro ext) (simp add: owned_def)
  moreover have "tasks_split cap ((owned s)(i := insert t (owned s i))) (remove1 t (held s)) ts"
    using rep t by (intro split_held_to_own) (auto simp: tp_rep_def)
  moreover have "threads_ok cap ?s"
    by (rule threads_ok_upd [where s = s and i = i and c = ?c and pc = PIdle])
      (use rep pc cok in \<open>simp_all add: tp_rep_def\<close>)
  ultimately show ?thesis using rep by (simp add: tp_rep_def free_ok_def)
qed

lemma tp_rep_rel_start:
  assumes rep: "tp_rep cap s ts" and pc: "tpc s i = PIdle" and t: "t \<in> set (held s)"
    and full: "\<not> length (task_cache (pl s) i) < TASK_CACHE_CAPACITY"
  shows "tp_rep cap (s\<lparr>tpc := (tpc s)(i := RelLink t (TASK_CACHE_CAPACITY - TASK_EVICT_COUNT + 1)), held := remove1 t (held s)\<rparr>) ts"
proof -
  let ?pc = "RelLink t (TASK_CACHE_CAPACITY - TASK_EVICT_COUNT + 1)"
  let ?s = "s\<lparr>tpc := (tpc s)(i := ?pc), held := remove1 t (held s)\<rparr>"
  have new: "t \<notin> owned s i" using tp_rep_own(1) [OF rep, of i] t by auto
  have len: "length (task_cache (pl s) i) = 64"
    using full tp_rep_thread(1) [OF rep, of i] by (simp add: cache_ok_def pool_consts)
  have "owned ?s = (owned s)(i := insert t (owned s i))" using pc by (intro ext) (simp add: owned_def)
  moreover have "tasks_split cap ((owned s)(i := insert t (owned s i))) (remove1 t (held s)) ts"
    using rep t by (intro split_held_to_own) (auto simp: tp_rep_def)
  moreover have "threads_ok cap ?s"
  proof (rule threads_ok_upd [where s = s and i = i and c = "task_cache (pl s) i" and pc = ?pc])
    show "pc_ok (global_task_array (pl ?s)) (global_pool_head (pl ?s)) (exchanges ?s) (task_cache (pl s) i) ?pc"
      using new len by (simp add: owned_def pool_consts linked_def)
  qed (use rep tp_rep_thread(1) [OF rep] in \<open>auto simp: tp_rep_def\<close>)
  ultimately show ?thesis using rep by (simp add: tp_rep_def)
qed

text \<open>A successful exchange by an acquirer: with a fresh tag the link it read is still the link.\<close>

lemma tp_rep_acq_win:
  assumes rep: "tp_rep cap s ts" and pc: "tpc s i = AcqNext w n k" and w: "global_pool_head (pl s) = w"
    and fresh: "tag_fresh s"
  shows "tp_rep cap (s\<lparr>pl := (pl s)\<lparr>global_pool_head := pack_aba n (unpack_tag w + 1)\<rparr>,
       tpc := (tpc s)(i := PIdle), held := unat (unpack_index w) # held s, exchanges := exchanges s + 1\<rparr>) (tl ts)"
    and "ts = unat (unpack_index w) # tl ts"
proof -
  let ?s = "s\<lparr>pl := (pl s)\<lparr>global_pool_head := pack_aba n (unpack_tag w + 1)\<rparr>,
       tpc := (tpc s)(i := PIdle), held := unat (unpack_index w) # held s, exchanges := exchanges s + 1\<rparr>"
  have tag: "unpack_tag w = word_of_nat (exchanges s)" and cap: "cap < 2 ^ 32" and free: "free_ok cap (pl s) ts"
    using rep w by (simp_all add: tp_rep_def)
  have ok: "k \<le> exchanges s" "unpack_tag w = word_of_nat k" "unpack_index w \<noteq> POOL_EMPTY_INDEX"
    "k = exchanges s \<Longrightarrow> n = next_free_idx (global_task_array (pl s) (unat (unpack_index w)))"
    using tp_rep_thread(2) [OF rep, of i] pc by simp_all
  have "k = exchanges s"
    using ok(1,2) tag fresh pc by (intro stamp_unique) (auto simp: tag_fresh_def)
  then have n: "n = next_free_idx (global_task_array (pl s) (unat (unpack_index w)))" by (rule ok(4))
  from free ok(3) w obtain t us where ts: "ts = t # us" by (cases ts) (auto simp: free_ok_def)
  with free w cap have t: "unat (unpack_index w) = t" "t \<notin> set us"
    using unat_index [of t] by (auto simp: free_ok_def)
  show "ts = unat (unpack_index w) # tl ts" using ts t by simp
  have "owned ?s = owned s" using pc by (intro ext) (simp add: owned_def)
  moreover have "tasks_split cap (owned s) (t # held s) us"
    using rep ts t(2) by (intro split_list_to_held) (auto simp: tp_rep_def)
  moreover have "free_ok cap (pl ?s) us" using free ts t n by (simp add: free_ok_def)
  moreover have "threads_ok cap ?s"
    by (rule threads_ok_upd [where s = s and i = i and c = "task_cache (pl s) i" and pc = PIdle])
      (use rep tp_rep_thread(1) [OF rep] in \<open>simp_all add: tp_rep_def pc_ok_exchange\<close>)
  ultimately show "tp_rep cap ?s (tl ts)" using cap tag ts t by (simp add: tp_rep_def)
qed

text \<open>A successful exchange by a releaser: the evicted half and the task join the free list.\<close>

lemma tp_rep_rel_win:
  assumes rep: "tp_rep cap s ts" and pc: "tpc s i = RelCas t w" and w: "global_pool_head (pl s) = w"
  shows "tp_rep cap (s\<lparr>pl := (pl s)\<lparr>global_pool_head := pack_aba (word_of_nat t) (unpack_tag w + 1),
                   task_cache := (task_cache (pl s))(i := take (TASK_CACHE_CAPACITY - TASK_EVICT_COUNT) (task_cache (pl s) i))\<rparr>,
                 tpc := (tpc s)(i := PIdle), exchanges := exchanges s + 1\<rparr>) (t # rev (drop 32 (task_cache (pl s) i)) @ ts)"
proof -
  let ?c = "task_cache (pl s) i" and ?a = "global_task_array (pl s)"
  let ?ts = "t # rev (drop 32 ?c) @ ts"
  let ?s = "s\<lparr>pl := (pl s)\<lparr>global_pool_head := pack_aba (word_of_nat t) (unpack_tag w + 1),
                   task_cache := (task_cache (pl s))(i := take (TASK_CACHE_CAPACITY - TASK_EVICT_COUNT) ?c)\<rparr>,
                 tpc := (tpc s)(i := PIdle), exchanges := exchanges s + 1\<rparr>"
  have tag: "unpack_tag w = word_of_nat (exchanges s)" and cap: "cap < 2 ^ 32" and free: "free_ok cap (pl s) ts"
    using rep w by (simp_all add: tp_rep_def)
  have ready: "rel_ready ?a ?c t" and tail: "next_free_idx (?a (?c ! 32)) = unpack_index w"
    using tp_rep_thread(2) [OF rep, of i] pc by simp_all
  then have len: "length ?c = 64" and tc: "t \<notin> set ?c" by (simp_all add: rel_ready_def)
  have own: "owned s i = set ?c \<union> {t}" using pc by (simp add: owned_def)
  have cok: "cache_ok cap ?c" by (rule tp_rep_thread(1) [OF rep])
  have range: "x < 2 ^ 32 - 1" if "x \<in> set ?c \<union> {t}" for x
    using tp_rep_own(4) [OF rep, of i] own that cap by fastforce
  have "free_chain ?a (word_of_nat (?c ! 63)) (map ((!) ?c) (rev [32..<Suc 63]) @ ts)"
  proof (intro free_chain_backwards)
    fix j :: nat assume "32 \<le> j" "j \<le> 63"
    then show "(word_of_nat (?c ! j) :: uint32) \<noteq> POOL_EMPTY_INDEX" using len by (intro index_not_empty range) simp
  qed (use ready free w tail in \<open>auto simp: rel_ready_def linked_def free_ok_def\<close>)
  moreover have "map ((!) ?c) (rev [32..<Suc 63]) = rev (drop 32 ?c)"
    using rev_drop_nth [of 32 ?c] len by simp
  ultimately have "free_chain ?a (word_of_nat (?c ! 63)) (rev (drop 32 ?c) @ ts)" by metis
  then have chain: "free_chain ?a (word_of_nat t) ?ts"
    using ready index_not_empty [OF range [of t]] by (simp add: rel_ready_def)
  have split: "set ?c = set (take 32 ?c) \<union> set (drop 32 ?c)" and apart: "set (take 32 ?c) \<inter> set (drop 32 ?c) = {}"
    using cok unfolding cache_ok_def by (metis append_take_drop_id set_append, metis append_take_drop_id distinct_append)
  have free': "free_ok cap (pl ?s) ?ts"
    using chain free cok tc own tp_rep_own(2,4) [OF rep, of i] set_drop_subset [of 32 ?c]
    by (auto simp: free_ok_def cache_ok_def distinct_drop)
  have "owned ?s = (owned s)(i := set (take 32 ?c))" using pc by (intro ext) (simp add: owned_def pool_consts)
  moreover have "tasks_split cap ((owned s)(i := set (take 32 ?c))) (held s) ?ts"
  proof (rule split_own_to_list [where xs = "t # drop 32 ?c"])
    show "tasks_split cap (owned s) (held s) ts" using rep by (simp add: tp_rep_def)
    show "owned s i = set (take 32 ?c) \<union> set (t # drop 32 ?c)" using own split by auto
    show "set (take 32 ?c) \<inter> set (t # drop 32 ?c) = {}" using apart tc split by auto
  qed auto
  moreover have "threads_ok cap ?s"
    by (rule threads_ok_upd [where s = s and i = i and c = "take 32 ?c" and pc = PIdle])
      (use rep cok set_take_subset [of 32 ?c] in \<open>auto simp: tp_rep_def pc_ok_exchange cache_ok_def pool_consts\<close>)
  ultimately show ?thesis using cap tag free' by (simp add: tp_rep_def)
qed

lemma linked_Suc:
  "linked a c j \<Longrightarrow> distinct c \<Longrightarrow> length c = 64 \<Longrightarrow> j < 64 \<Longrightarrow>
     linked (set_next (c ! j) (word_of_nat (c ! (j - 1))) a) c (Suc j)"
  by (auto simp: linked_def set_next_def less_Suc_eq nth_eq_iff_index_eq)

lemma tp_step_rep:
  assumes "tp_step s s'" and "tag_fresh s" and "tp_rep cap s ts"
  obtains ts' where "tp_rep cap s' ts'"
proof -
  have tag: "unpack_tag (global_pool_head (pl s)) = word_of_nat (exchanges s)"
    using assms(3) by (simp add: tp_rep_def)
  show thesis
  using assms(1)
proof (cases rule: tp_step.cases)
  case (acq_cache i c t)
  then show ?thesis using that tp_rep_acq_cache [OF assms(3) acq_cache(2,3)] by simp
next
  case (acq_load i)
  with assms(3) tag show ?thesis by (intro that [of ts]) (auto intro!: tp_rep_pc)
next
  case (acq_empty i w k)
  with assms(3) show ?thesis by (intro that [of ts]) (auto intro!: tp_rep_pc)
next
  case (acq_next i w k)
  with assms(3) tp_rep_thread(2) [OF assms(3), of i] show ?thesis
    by (intro that [of ts]) (auto intro!: tp_rep_pc)
next
  case (acq_win i w n k)
  then show ?thesis using that tp_rep_acq_win(1) [OF assms(3) acq_win(2,3) assms(2)] by simp
next
  case (acq_retry i w n k)
  with assms(3) tag show ?thesis by (intro that [of ts]) (auto intro!: tp_rep_pc)
next
  case (rel_cache i t)
  then show ?thesis using that tp_rep_rel_cache [OF assms(3) rel_cache(2,3,4)] by simp
next
  case (rel_start i t)
  then show ?thesis using that tp_rep_rel_start [OF assms(3) rel_start(2,3,4)] by simp
next
  case (rel_link i t j)
  let ?c = "task_cache (pl s) i"
  have ok: "length ?c = 64" "t \<notin> set ?c" "33 \<le> j" "linked (global_task_array (pl s)) ?c j"
    using tp_rep_thread(2) [OF assms(3), of i] rel_link by simp_all
  moreover have "distinct ?c" using tp_rep_thread(1) [OF assms(3)] by (simp add: cache_ok_def)
  moreover have "?c ! j \<in> owned s i" using ok rel_link by (simp add: owned_def pool_consts)
  ultimately show ?thesis using rel_link linked_Suc [of "global_task_array (pl s)" ?c j]
    by (intro that [of ts]) (auto intro!: tp_rep_link [OF assms(3)] simp: pool_consts)
next
  case (rel_link_task i t j)
  let ?c = "task_cache (pl s) i"
  have ok: "length ?c = 64" "t \<notin> set ?c" "linked (global_task_array (pl s)) ?c 64"
    using tp_rep_thread(2) [OF assms(3), of i] rel_link_task by (auto simp: pool_consts)
  then have "rel_ready (set_next t (word_of_nat (?c ! 63)) (global_task_array (pl s))) ?c t"
    using linked_upd [of 64 ?c t] nth_in_cache [OF ok(1) _ ok(2)] by (auto simp: rel_ready_def set_next_def)
  moreover have "t \<in> owned s i" using rel_link_task by (simp add: owned_def)
  ultimately show ?thesis using rel_link_task
    by (intro that [of ts]) (auto intro!: tp_rep_link [OF assms(3)] simp: pool_consts)
next
  case (rel_load i t)
  with assms(3) tp_rep_thread(2) [OF assms(3), of i] show ?thesis
    by (intro that [of ts]) (auto intro!: tp_rep_pc)
next
  case (rel_tail i t w)
  let ?c = "task_cache (pl s) i" and ?a = "global_task_array (pl s)"
  have ok: "rel_ready ?a ?c t" using tp_rep_thread(2) [OF assms(3), of i] rel_tail by simp
  then have len: "length ?c = 64" and tc: "t \<notin> set ?c" by (simp_all add: rel_ready_def)
  have "distinct ?c" using tp_rep_thread(1) [OF assms(3)] by (simp add: cache_ok_def)
  then have "rel_ready (set_next (?c ! 32) (unpack_index w) ?a) ?c t"
    using ok len nth_in_cache [OF len _ tc, of 32] linked_upd [of 64 ?c "?c ! 32"]
    by (auto simp: rel_ready_def set_next_def nth_eq_iff_index_eq)
  moreover have "next_free_idx (set_next (?c ! 32) (unpack_index w) ?a (?c ! 32)) = unpack_index w"
    by (simp add: set_next_def)
  moreover have "?c ! 32 \<in> owned s i" using len by (simp add: owned_def)
  ultimately show ?thesis using rel_tail
    by (intro that [of ts]) (auto intro!: tp_rep_link [OF assms(3)] simp: pool_consts)
next
  case (rel_win i t w)
  then show ?thesis using that tp_rep_rel_win [OF assms(3) rel_win(2,3)] by simp
next
  case (rel_retry i t w)
  with assms(3) tp_rep_thread(2) [OF assms(3), of i] show ?thesis
    by (intro that [of ts]) (auto intro!: tp_rep_pc)
qed
qed

lemma tp_rep_start:
  assumes "0 < cap" and "cap < 2 ^ 32" and "\<And>tid. task_cache p tid = []"
  shows "tp_rep cap (tp_start cap p) [0..<cap]"
proof -
  have "task_cache (init_task_pool cap p) i = []" for i using assms(3) by (simp add: init_task_pool_def)
  moreover have "free_ok cap (init_task_pool cap p) [0..<cap]"
    using init_result [OF assms] by (auto simp: pool_wf_def)
  moreover have "unpack_tag (global_pool_head (init_task_pool cap p)) = 0" by (simp add: init_task_pool_def)
  ultimately show ?thesis using assms(2)
    by (auto simp: tp_rep_def tp_start_def threads_ok_def tasks_split_def owned_def cache_ok_def)
qed

lemma tp_reaches_rep:
  assumes "reaches tp_fresh_step (tp_start cap p) s" and "0 < cap" and "cap < 2 ^ 32" and "\<And>tid. task_cache p tid = []"
  shows "\<exists>ts. tp_rep cap s ts"
  using assms(1)
  by (rule reaches_invariant) (use tp_rep_start [OF assms(2-4)] in \<open>auto simp: tp_fresh_step_def elim: tp_step_rep\<close>)

section \<open>No task is lost or handed out twice\<close>

text \<open>
  C11: however the threads interleave, as long as no acquirer is overtaken by \<open>2 ^ 32\<close> exchanges
  between its load and its compare-and-swap, no task is held by two clients and no held task is free;
  and whenever no operation is in progress the pool is well formed and every task is held or free.
\<close>

theorem tp_no_loss_no_duplicate:
  assumes "0 < cap" and "cap < 2 ^ 32" and "\<And>tid. task_cache p tid = []"
    and "reaches tp_fresh_step (tp_start cap p) s"
  shows "distinct (held s) \<and> set (held s) \<subseteq> {..<cap} \<and> set (held s) \<inter> pool_avail cap (pl s) = {}
    \<and> ((\<forall>i. tpc s i = PIdle) \<longrightarrow> pool_wf cap (pl s) \<and> set (held s) \<union> pool_avail cap (pl s) = {..<cap})"
proof -
  obtain ts where rep: "tp_rep cap s ts" using tp_reaches_rep [OF assms(4,1-3)] by blast
  then have free: "pool_free cap (pl s) = ts" and ok: "free_ok cap (pl s) ts"
    using assms(2) free_ok_walk [of cap "pl s" ts] by (auto simp: tp_rep_def)
  have caches: "set (held s) \<inter> set (task_cache (pl s) i) = {}" "set ts \<inter> set (task_cache (pl s) i) = {}"
      "i \<noteq> j \<Longrightarrow> set (task_cache (pl s) i) \<inter> set (task_cache (pl s) j) = {}" for i j
    using tp_rep_own(1,2) [OF rep, of i] tp_rep_own(3) [OF rep, of i j] by (auto simp: owned_def)
  have "pool_wf cap (pl s)"
    using ok caches assms(2) tp_rep_thread(1) [OF rep] by (auto simp: pool_wf_def free)
  moreover have "distinct (held s)" "set (held s) \<inter> set ts = {}" using rep by (auto simp: tp_rep_def tasks_split_def)
  moreover have "set (held s) \<union> pool_avail cap (pl s) = {..<cap}" if "\<forall>i. tpc s i = PIdle"
    using rep that by (auto simp: tp_rep_def tasks_split_def owned_def pool_avail_def free)
  ultimately show ?thesis using caches(1) tp_rep_own(5) [OF rep] by (auto simp: pool_avail_def free)
qed

text \<open>
  The pool is lock-free: an acquirer whose compare-and-swap finds another head has been overtaken
  by an exchange of another thread that succeeded since its load.
\<close>

theorem tp_cas_failure_is_progress:
  assumes "0 < cap" and "cap < 2 ^ 32" and "\<And>tid. task_cache p tid = []"
    and "reaches tp_fresh_step (tp_start cap p) s"
    and "tpc s i = AcqNext w n k" and "global_pool_head (pl s) \<noteq> w"
  shows "k < exchanges s"
proof -
  obtain ts where rep: "tp_rep cap s ts" using tp_reaches_rep [OF assms(4,1-3)] by blast
  from tp_rep_thread(2) [OF this, of i] assms(5,6) show ?thesis by auto
qed

section \<open>Runs of one operation\<close>

abbreviation tp_at :: "task_pool \<Rightarrow> (nat \<Rightarrow> pool_pc) \<Rightarrow> task_ref list \<Rightarrow> nat \<Rightarrow> tp_sys" where
  "tp_at p f h n \<equiv> \<lparr>pl = p, tpc = f, held = h, exchanges = n\<rparr>"

lemmas tp_then = reaches_then [where r = tp_step]
lemmas tp_one = reaches_step1 [where r = tp_step]

definition cas_next :: "task_pool \<Rightarrow> nat \<Rightarrow> pool_pc" where
  "cas_next p n = AcqNext (global_pool_head p)
     (next_free_idx (global_task_array p (unat (unpack_index (global_pool_head p))))) n"

lemma acquire_to_cas:
  assumes "f i = PIdle" and "task_cache p i = []" and "unpack_index (global_pool_head p) \<noteq> POOL_EMPTY_INDEX"
  shows "tp_step (tp_at p f h n) (tp_at p (f(i := AcqHead (global_pool_head p) n)) h n)"
    and "tp_step (tp_at p (f(i := AcqHead (global_pool_head p) n)) h n) (tp_at p (f(i := cas_next p n)) h n)"
  using acq_load [of "tp_at p f h n" i] acq_next [of "tp_at p (f(i := AcqHead (global_pool_head p) n)) h n" i] assms
  by (simp_all add: cas_next_def)

lemma acquire_cas:
  assumes "f i = cas_next p n"
  shows "tp_step (tp_at p f h m) (tp_at (p\<lparr>global_pool_head := pack_aba
       (next_free_idx (global_task_array p (unat (unpack_index (global_pool_head p))))) (unpack_tag (global_pool_head p) + 1)\<rparr>)
       (f(i := PIdle)) (unat (unpack_index (global_pool_head p)) # h) (Suc m))"
  using acq_win [of "tp_at p f h m" i] assms by (simp add: cas_next_def)

text \<open>The loop that links the evicted half.\<close>

lemma solo_links:
  assumes "33 \<le> j" and "j \<le> 64"
  shows "reaches tp_step (tp_at p (f(i := RelLink t j)) h n)
     (tp_at (p\<lparr>global_task_array := fold (\<lambda>k. set_next (task_cache p i ! k) (word_of_nat (task_cache p i ! (k - 1))))
        [j..<64] (global_task_array p)\<rparr>) (f(i := RelLink t 64)) h n)"
  using assms
proof (induction "64 - j" arbitrary: j p)
  case (Suc m)
  let ?p = "set_link (task_cache p i ! j) (word_of_nat (task_cache p i ! (j - 1))) p"
  have "tp_step (tp_at p (f(i := RelLink t j)) h n) (tp_at ?p (f(i := RelLink t (Suc j))) h n)"
    using rel_link [of "tp_at p (f(i := RelLink t j)) h n" i t j] Suc.hyps(2) by (simp add: pool_consts)
  moreover have "reaches tp_step (tp_at ?p (f(i := RelLink t (Suc j))) h n)
     (tp_at (?p\<lparr>global_task_array := fold (\<lambda>k. set_next (task_cache ?p i ! k) (word_of_nat (task_cache ?p i ! (k - 1))))
        [Suc j..<64] (global_task_array ?p)\<rparr>) (f(i := RelLink t 64)) h n)"
    using Suc by (intro Suc.hyps(1)) auto
  moreover have "[j..<64] = j # [Suc j..<64]" using Suc.hyps(2) by (intro upt_conv_Cons) simp
  ultimately show ?case by (auto intro: tp_then)
qed (auto intro: reaches.start)

lemma solo_release:
  assumes "f i = PIdle" and "t \<in> set h" and "length (task_cache p i) \<le> TASK_CACHE_CAPACITY"
  shows "\<exists>m. reaches tp_step (tp_at p f h n) (tp_at (memory_pool_release i t p) f (remove1 t h) m)"
proof (cases "length (task_cache p i) < TASK_CACHE_CAPACITY")
  case True
  then show ?thesis using rel_cache [of "tp_at p f h n" i t] assms(1,2)
    by (intro exI [of _ n] tp_one) (simp add: memory_pool_release_def Let_def)
next
  case False
  let ?h = "remove1 t h" and ?c = "task_cache p i" and ?w = "global_pool_head p"
  let ?a1 = "link_evicted ?c 32 (global_task_array p)"
  let ?a2 = "set_next t (word_of_nat (?c ! 63)) ?a1"
  let ?a3 = "set_next (?c ! 32) (unpack_index ?w) ?a2"
  have len: "length ?c = 64" using False assms(3) by (simp add: pool_consts)
  have 1: "tp_step (tp_at p f h n) (tp_at p (f(i := RelLink t 33)) ?h n)"
    using rel_start [of "tp_at p f h n" i t] assms False by (simp add: pool_consts)
  have 2: "reaches tp_step (tp_at p (f(i := RelLink t 33)) ?h n) (tp_at (p\<lparr>global_task_array := ?a1\<rparr>) (f(i := RelLink t 64)) ?h n)"
    using solo_links [of 33 p f i t ?h n] unfolding link_evicted_def pool_consts by simp
  have 3: "tp_step (tp_at (p\<lparr>global_task_array := ?a1\<rparr>) (f(i := RelLink t 64)) ?h n)
      (tp_at (p\<lparr>global_task_array := ?a2\<rparr>) (f(i := RelLoad t)) ?h n)"
    using rel_link_task [of "tp_at (p\<lparr>global_task_array := ?a1\<rparr>) (f(i := RelLink t 64)) ?h n" i t 64] by (simp add: pool_consts)
  have 4: "tp_step (tp_at (p\<lparr>global_task_array := ?a2\<rparr>) (f(i := RelLoad t)) ?h n)
      (tp_at (p\<lparr>global_task_array := ?a2\<rparr>) (f(i := RelTail t ?w)) ?h n)"
    using rel_load [of "tp_at (p\<lparr>global_task_array := ?a2\<rparr>) (f(i := RelLoad t)) ?h n" i t] by simp
  have 5: "tp_step (tp_at (p\<lparr>global_task_array := ?a2\<rparr>) (f(i := RelTail t ?w)) ?h n)
      (tp_at (p\<lparr>global_task_array := ?a3\<rparr>) (f(i := RelCas t ?w)) ?h n)"
    using rel_tail [of "tp_at (p\<lparr>global_task_array := ?a2\<rparr>) (f(i := RelTail t ?w)) ?h n" i t ?w] by (simp add: pool_consts)
  have 6: "tp_step (tp_at (p\<lparr>global_task_array := ?a3\<rparr>) (f(i := RelCas t ?w)) ?h n)
      (tp_at (memory_pool_release i t p) f ?h (Suc n))"
    using rel_win [of "tp_at (p\<lparr>global_task_array := ?a3\<rparr>) (f(i := RelCas t ?w)) ?h n" i t ?w] assms(1) len
    by (simp add: release_full evict_array_def pool_consts fun_upd_idem)
  have "reaches tp_step (tp_at p f h n) (tp_at (memory_pool_release i t p) f ?h (Suc n))"
    by (rule tp_then [OF 1 reaches_trans [OF tp_then [OF 3 tp_then [OF 4 tp_then [OF 5 tp_one [OF 6]]]] 2]])
  then show ?thesis by blast
qed

lemma solo_acquire:
  assumes "f i = PIdle"
  shows "\<exists>m. reaches tp_step (tp_at p f h n)
     (tp_at (snd (memory_pool_acquire i p)) f (case fst (memory_pool_acquire i p) of None \<Rightarrow> h | Some t \<Rightarrow> t # h) m)"
proof (cases "task_cache p i" rule: rev_cases)
  case (snoc c t)
  with acq_cache [of "tp_at p f h n" i c t] assms show ?thesis
    by (intro exI [of _ n] tp_one) (simp add: memory_pool_acquire_def)
next
  case Nil
  show ?thesis
  proof (cases "unpack_index (global_pool_head p) = POOL_EMPTY_INDEX")
    case True
    have "tp_step (tp_at p f h n) (tp_at p (f(i := AcqHead (global_pool_head p) n)) h n)"
      using acq_load [of "tp_at p f h n" i] assms Nil by simp
    moreover have "tp_step (tp_at p (f(i := AcqHead (global_pool_head p) n)) h n) (tp_at p f h n)"
      using acq_empty [of "tp_at p (f(i := AcqHead (global_pool_head p) n)) h n" i] True assms
      by (simp add: fun_upd_idem)
    ultimately show ?thesis using True Nil
      by (intro exI [of _ n]) (auto intro: tp_then tp_one simp: memory_pool_acquire_def Let_def)
  next
    case False
    note two = acquire_to_cas [where f = f and i = i and p = p and h = h and n = n, OF assms Nil False]
  note run = tp_then [OF two(1) tp_then [OF two(2) tp_one [OF acquire_cas [where f = "f(i := cas_next p n)" and i = i]]]]
    show ?thesis using run False Nil assms
      by (intro exI [of _ "Suc n"]) (simp add: memory_pool_acquire_def Let_def fun_upd_idem)
  qed
qed

text \<open>
  The interleaved model and the sequential functions are the same code: an acquisition and a
  release that run without interference take the system to exactly the pool that
  \<open>memory_pool_acquire\<close> and \<open>memory_pool_release\<close> compute, and hand out exactly the same task.
\<close>

theorem tp_solo_runs_agree:
  assumes "f i = PIdle" and "t \<in> set h" and "length (task_cache p i) \<le> TASK_CACHE_CAPACITY"
  shows "(\<exists>m. reaches tp_step (tp_at p f h n) (tp_at (snd (memory_pool_acquire i p)) f
            (case fst (memory_pool_acquire i p) of None \<Rightarrow> h | Some t \<Rightarrow> t # h) m))
       \<and> (\<exists>m. reaches tp_step (tp_at p f h n) (tp_at (memory_pool_release i t p) f (remove1 t h) m))"
  using solo_acquire [of f i p h n, OF assms(1)] solo_release [of f i t h p n, OF assms] by blast

theorem tp_solo_runs_agree_witness:
  "\<exists>m. reaches tp_step (tp_at empty_pool (\<lambda>_. PIdle) [7, 5] 0)
     (tp_at (memory_pool_release 1 5 empty_pool) (\<lambda>_. PIdle) [7] m)"
  using tp_solo_runs_agree [of "\<lambda>_. PIdle" 1 5 "[7, 5]" empty_pool 0] by (simp add: empty_pool_def pool_consts)

text \<open>A concrete run: two threads read the head of a pool of three tasks and the first one wins.\<close>

definition race_won :: tp_sys where
  "race_won = (let p = init_task_pool 3 empty_pool in
     tp_at (p\<lparr>global_pool_head := pack_aba (next_free_idx (global_task_array p (unat (unpack_index (global_pool_head p)))))
       (unpack_tag (global_pool_head p) + 1)\<rparr>) ((\<lambda>_. PIdle)(1 := cas_next p 0)) [0] 1)"

lemma fresh_at: "(\<And>i w x k. f i = AcqNext w x k \<Longrightarrow> n < k + 2 ^ 32) \<Longrightarrow> tp_step (tp_at p f h n) s \<Longrightarrow> tp_fresh_step (tp_at p f h n) s"
  by (auto simp: tp_fresh_step_def tag_fresh_def)

lemma boot3_head:
  "unpack_index (global_pool_head (init_task_pool 3 empty_pool)) = 0"
  "unpack_tag (global_pool_head (init_task_pool 3 empty_pool)) = 0"
  "task_cache (init_task_pool 3 empty_pool) i = []"
  by (simp_all add: init_task_pool_def empty_pool_def)

lemma race_won_reached: "reaches tp_fresh_step (tp_start 3 empty_pool) race_won"
proof -
  let ?p = "init_task_pool 3 empty_pool" and ?f = "\<lambda>_. PIdle"
  let ?w = "global_pool_head ?p"
  have ne: "unpack_index ?w \<noteq> POOL_EMPTY_INDEX" by (simp add: boot3_head POOL_EMPTY_INDEX_def)
  have to_cas: "reaches tp_fresh_step (tp_at ?p f [] 0) (tp_at ?p (f(i := cas_next ?p 0)) [] 0)"
    if "f i = PIdle" for f i
  proof (rule reaches_then [where r = tp_fresh_step])
    note two = acquire_to_cas [where f = f and i = i and p = ?p and h = "[]" and n = 0, OF that boot3_head(3) ne]
    show "tp_fresh_step (tp_at ?p f [] 0) (tp_at ?p (f(i := AcqHead ?w 0)) [] 0)"
      using two(1) by (intro fresh_at) auto
    show "reaches tp_fresh_step (tp_at ?p (f(i := AcqHead ?w 0)) [] 0) (tp_at ?p (f(i := cas_next ?p 0)) [] 0)"
      using two(2) by (intro reaches_step1 [where r = tp_fresh_step] fresh_at) auto
  qed
  have "reaches tp_fresh_step (tp_at ?p ?f [] 0) (tp_at ?p ((?f(1 := cas_next ?p 0))(0 := cas_next ?p 0)) [] 0)"
    by (rule reaches_trans [OF to_cas to_cas]) simp_all
  moreover have "tp_fresh_step (tp_at ?p ((?f(1 := cas_next ?p 0))(0 := cas_next ?p 0)) [] 0) race_won"
    using acquire_cas [where f = "(?f(1 := cas_next ?p 0))(0 := cas_next ?p 0)" and i = 0 and p = ?p and n = 0 and h = "[]" and m = 0]
    by (intro fresh_at) (auto simp: race_won_def boot3_head fun_upd_twist fun_upd_idem Let_def)
  ultimately show ?thesis unfolding tp_start_def by (rule reaches.step)
qed

lemma race_won_state: "tpc race_won 1 = cas_next (init_task_pool 3 empty_pool) 0" "held race_won = [0]" "exchanges race_won = 1"
  "global_pool_head (pl race_won) \<noteq> global_pool_head (init_task_pool 3 empty_pool)"
proof -
  have "unpack_tag (global_pool_head (pl race_won)) \<noteq> unpack_tag (global_pool_head (init_task_pool 3 empty_pool))"
    by (simp add: race_won_def boot3_head Let_def)
  then show "global_pool_head (pl race_won) \<noteq> global_pool_head (init_task_pool 3 empty_pool)" by auto
qed (simp_all add: race_won_def Let_def)

theorem tp_no_loss_no_duplicate_witness:
  "held race_won = [0] \<and> 0 \<notin> pool_avail 3 (pl race_won)"
  using tp_no_loss_no_duplicate [OF _ _ _ race_won_reached] by (simp add: empty_pool_def race_won_state)

theorem tp_cas_failure_is_progress_witness: "(0 :: nat) < exchanges race_won"
  using tp_cas_failure_is_progress [OF _ _ _ race_won_reached, of 1 "global_pool_head (init_task_pool 3 empty_pool)" _ 0]
    race_won_state by (simp add: empty_pool_def cas_next_def)

end
