(* ===== verification/RingBuffer.thy ===== *)
theory RingBuffer
  imports ClDeque
begin

text \<open>
  The worker record of \<open>include/sk_worker.h\<close>, its submission ring (\<open>spmc_producer_push\<close> of
  \<open>src/sk_scheduler.c\<close>, \<open>spmc_consumer_pop\<close> of \<open>src/sk_worker.c\<close>) and \<open>allocate_worker_pool\<close>. The
  ring's counters are \<open>size_t\<close> words, as in the code. Every operation here runs without interference;
  \<open>RingConc\<close> interleaves them. The platform's thread handle is left out of the record.
\<close>

section \<open>State and operations\<close>

record 'a sc_worker =
  core_id :: size_t
  termination_flag :: bool
  cl_deque :: "'a sc_cl_deque"
  rb_head :: size_t
  rb_tail :: size_t
  rb_head_cache :: size_t
  rb_capacity_mask :: size_t
  rb_buffer :: "size_t \<Rightarrow> 'a"

definition spmc_producer_push :: "'a sc_worker \<Rightarrow> 'a \<Rightarrow> bool \<times> 'a sc_worker" where
  "spmc_producer_push worker task =
     (let current_tail = rb_tail worker;
          capacity = rb_capacity_mask worker + 1;
          worker = (if capacity \<le> current_tail - rb_head_cache worker
                    then worker\<lparr>rb_head_cache := rb_head worker\<rparr> else worker)
      in if capacity \<le> current_tail - rb_head_cache worker then (False, worker)
         else (True, worker\<lparr>rb_buffer := (rb_buffer worker)(current_tail AND rb_capacity_mask worker := task),
                            rb_tail := current_tail + 1\<rparr>))"

definition spmc_consumer_pop :: "'a sc_worker \<Rightarrow> 'a option \<times> 'a sc_worker" where
  "spmc_consumer_pop worker =
     (let current_head = rb_head worker;
          current_tail = rb_tail worker
      in if current_tail \<le> current_head then (None, worker)
         else (Some (rb_buffer worker (current_head AND rb_capacity_mask worker)),
               worker\<lparr>rb_head := current_head + 1\<rparr>))"

text \<open>
  \<open>allocate_worker_pool\<close>: the block of workers, then for each worker its deque and its ring; any
  failure exits the program (\<open>None\<close>). The allocators are parameters: they return the fresh block, with
  whatever it holds, or fail. \<open>sizeof (sc_worker)\<close> is six cache lines.
\<close>

definition init_worker ::
  "(size_t \<Rightarrow> (int \<Rightarrow> 'a) option) \<Rightarrow> (size_t \<Rightarrow> (size_t \<Rightarrow> 'a) option) \<Rightarrow> size_t \<Rightarrow> size_t \<Rightarrow> nat
     \<Rightarrow> 'a sc_worker \<Rightarrow> 'a sc_worker option" where
  "init_worker alloc_deque alloc_ring spsc_queue_size cl_deque_size i w =
     (let w = w\<lparr>core_id := word_of_nat i, termination_flag := False\<rparr>;
          actual_size = next_power_of_two cl_deque_size
      in case chase_lev_init alloc_deque actual_size of
           None \<Rightarrow> None
         | Some d \<Rightarrow>
             (let w = w\<lparr>cl_deque := d\<rparr>;
                  actual_size = next_power_of_two spsc_queue_size;
                  w = w\<lparr>rb_capacity_mask := actual_size - 1, rb_head := 0, rb_tail := 0, rb_head_cache := 0\<rparr>
              in case alloc_ring (actual_size * 8) of
                   None \<Rightarrow> None
                 | Some b \<Rightarrow> Some (w\<lparr>rb_buffer := b\<rparr>)))"

fun init_workers ::
  "(nat \<Rightarrow> size_t \<Rightarrow> (int \<Rightarrow> 'a) option) \<Rightarrow> (nat \<Rightarrow> size_t \<Rightarrow> (size_t \<Rightarrow> 'a) option) \<Rightarrow> size_t \<Rightarrow> size_t \<Rightarrow> nat
     \<Rightarrow> 'a sc_worker list \<Rightarrow> 'a sc_worker list option" where
  "init_workers alloc_deque alloc_ring sq dq i [] = Some []"
| "init_workers alloc_deque alloc_ring sq dq i (w # ws) =
     (case init_worker (alloc_deque i) (alloc_ring i) sq dq i w of
        None \<Rightarrow> None
      | Some w' \<Rightarrow> map_option ((#) w') (init_workers alloc_deque alloc_ring sq dq (Suc i) ws))"

definition allocate_worker_pool ::
  "(size_t \<Rightarrow> 'a sc_worker list option) \<Rightarrow> (nat \<Rightarrow> size_t \<Rightarrow> (int \<Rightarrow> 'a) option) \<Rightarrow> (nat \<Rightarrow> size_t \<Rightarrow> (size_t \<Rightarrow> 'a) option)
     \<Rightarrow> size_t \<Rightarrow> size_t \<Rightarrow> size_t \<Rightarrow> 'a sc_worker list option" where
  "allocate_worker_pool alloc_pool alloc_deque alloc_ring logical_proccessors_amount spsc_queue_size cl_deque_size =
     (case alloc_pool (logical_proccessors_amount * 384) of
        None \<Rightarrow> None
      | Some pool \<Rightarrow> init_workers alloc_deque alloc_ring spsc_queue_size cl_deque_size 0
                       (take (unat logical_proccessors_amount) pool))"

section \<open>The ring as a queue\<close>

definition rb_capacity :: "'a sc_worker \<Rightarrow> nat" where
  "rb_capacity w = unat (rb_capacity_mask w) + 1"

definition rb_slots :: "'a sc_worker \<Rightarrow> nat \<Rightarrow> nat \<Rightarrow> 'a list" where
  "rb_slots w i j = map (\<lambda>n. rb_buffer w (word_of_nat n AND rb_capacity_mask w)) [i..<j]"

definition rb_items :: "'a sc_worker \<Rightarrow> 'a list" where
  "rb_items w = rb_slots w (unat (rb_head w)) (unat (rb_tail w))"

definition rb_shape :: "'a sc_worker \<Rightarrow> bool" where
  "rb_shape w \<longleftrightarrow> (\<exists>k<64. rb_capacity_mask w = 2 ^ k - 1)"

definition rb_inv :: "'a sc_worker \<Rightarrow> bool" where
  "rb_inv w \<longleftrightarrow> rb_shape w \<and> rb_head_cache w \<le> rb_head w \<and> rb_head w \<le> rb_tail w
     \<and> unat (rb_tail w) - unat (rb_head w) \<le> rb_capacity w"

lemma rb_shape_mask:
  assumes "rb_shape w"
  shows "unat (word_of_nat n AND rb_capacity_mask w) = n mod 2 ^ 64 mod rb_capacity w"
    and "unat (rb_capacity_mask w + 1) = rb_capacity w" and "rb_capacity w < 2 ^ 64"
proof -
  obtain k where k: "k < 64" "rb_capacity_mask w = 2 ^ k - 1" using assms by (auto simp: rb_shape_def)
  have le: "(1 :: size_t) \<le> 2 ^ k" using unat_pow2_64 [OF k(1)] by (simp add: word_le_nat_alt)
  then have cap: "rb_capacity w = 2 ^ k"
    using unat_pow2_64 [OF k(1)] by (simp add: rb_capacity_def k(2) unat_sub)
  then show "unat (word_of_nat n AND rb_capacity_mask w) = n mod 2 ^ 64 mod rb_capacity w"
    by (simp add: k(2) unat_and_pow2_minus_1 unat_of_nat)
  show "unat (rb_capacity_mask w + 1) = rb_capacity w" using unat_pow2_64 [OF k(1)] cap by (simp add: k(2))
  show "rb_capacity w < 2 ^ 64" unfolding cap using k(1) by (intro power_strict_increasing) simp_all
qed

lemma rb_slot_neq:
  assumes "rb_shape w" and "i < j" and "j < i + rb_capacity w" and "j < 2 ^ 64"
  shows "(word_of_nat i :: size_t) AND rb_capacity_mask w \<noteq> word_of_nat j AND rb_capacity_mask w"
proof
  assume "(word_of_nat i :: size_t) AND rb_capacity_mask w = word_of_nat j AND rb_capacity_mask w"
  then have "unat ((word_of_nat i :: size_t) AND rb_capacity_mask w) = unat (word_of_nat j AND rb_capacity_mask w)" by simp
  then have "i mod rb_capacity w = j mod rb_capacity w"
    using assms(2,4) by (simp only: rb_shape_mask [OF assms(1)]) simp
  with mod_slot_neq_nat [OF assms(2,3)] show False by simp
qed

lemma rb_slots_write_end:
  assumes "rb_shape w" and "i \<le> j" and "j < i + rb_capacity w" and "j < 2 ^ 64"
  shows "rb_slots (w\<lparr>rb_buffer := (rb_buffer w)(word_of_nat j AND rb_capacity_mask w := x)\<rparr>) i (Suc j) = rb_slots w i j @ [x]"
  using assms rb_slot_neq [OF assms(1) _ _ assms(4)] by (auto simp: rb_slots_def)

lemma length_rb_slots [simp]: "length (rb_slots w i j) = j - i"
  by (simp add: rb_slots_def)

lemma rb_slots_Cons: "i < j \<Longrightarrow> rb_slots w i j = rb_buffer w (word_of_nat i AND rb_capacity_mask w) # rb_slots w (Suc i) j"
  by (simp add: rb_slots_def upt_conv_Cons)

lemma rb_slots_upd [simp]:
  "rb_slots (w\<lparr>rb_head := a\<rparr>) i j = rb_slots w i j" "rb_slots (w\<lparr>rb_tail := a\<rparr>) i j = rb_slots w i j"
  "rb_slots (w\<lparr>rb_head_cache := a\<rparr>) i j = rb_slots w i j"
  by (simp_all add: rb_slots_def)

lemma rb_shape_upd [simp]:
  "rb_shape (w\<lparr>rb_head := a\<rparr>) = rb_shape w" "rb_shape (w\<lparr>rb_tail := a\<rparr>) = rb_shape w"
  "rb_shape (w\<lparr>rb_head_cache := a\<rparr>) = rb_shape w" "rb_shape (w\<lparr>rb_buffer := b\<rparr>) = rb_shape w"
  "rb_capacity (w\<lparr>rb_head := a\<rparr>) = rb_capacity w" "rb_capacity (w\<lparr>rb_tail := a\<rparr>) = rb_capacity w"
  "rb_capacity (w\<lparr>rb_head_cache := a\<rparr>) = rb_capacity w" "rb_capacity (w\<lparr>rb_buffer := b\<rparr>) = rb_capacity w"
  by (simp_all add: rb_shape_def rb_capacity_def)

text \<open>The producer's test: a lower bound for the head never lets it overrun the ring.\<close>

lemma rb_full_test:
  assumes "rb_shape w" and "c \<le> rb_tail w"
  shows "rb_capacity_mask w + 1 \<le> rb_tail w - c \<longleftrightarrow> rb_capacity w \<le> unat (rb_tail w) - unat c"
  using assms by (simp add: word_le_nat_alt rb_shape_mask unat_sub)

lemma rb_push:
  assumes "rb_inv w" and "unat (rb_tail w) < 2 ^ 64 - 1"
    and "snd (spmc_producer_push w x) = w'"
  shows "fst (spmc_producer_push w x) \<longleftrightarrow> length (rb_items w) < rb_capacity w"
    and "rb_items w' = (if length (rb_items w) < rb_capacity w then rb_items w @ [x] else rb_items w)"
    and "rb_inv w'" and "rb_capacity w' = rb_capacity w"
    and "rb_head w' = rb_head w" and "unat (rb_tail w') \<le> Suc (unat (rb_tail w))"
proof -
  let ?v = "if rb_capacity_mask w + 1 \<le> rb_tail w - rb_head_cache w then w\<lparr>rb_head_cache := rb_head w\<rparr> else w"
  have shape: "rb_shape w" and le: "rb_head_cache w \<le> rb_head w" "rb_head w \<le> rb_tail w"
    and fit: "unat (rb_tail w) - unat (rb_head w) \<le> rb_capacity w"
    using assms(1) by (simp_all add: rb_inv_def)
  have nat: "unat (rb_head_cache w) \<le> unat (rb_head w)" "unat (rb_head w) \<le> unat (rb_tail w)"
    using le by (simp_all add: word_le_nat_alt)
  have len: "length (rb_items w) = unat (rb_tail w) - unat (rb_head w)" by (simp add: rb_items_def)
  have test: "rb_capacity_mask w + 1 \<le> rb_tail w - rb_head_cache ?v \<longleftrightarrow> rb_capacity w \<le> length (rb_items w)"
    using rb_full_test [OF shape le(2)] rb_full_test [OF shape order_trans [OF le]] nat len by auto
  have v: "rb_capacity_mask ?v = rb_capacity_mask w" "rb_tail ?v = rb_tail w" by simp_all
  have push: "spmc_producer_push w x = (if length (rb_items w) < rb_capacity w
      then (True, ?v\<lparr>rb_buffer := (rb_buffer ?v)(rb_tail w AND rb_capacity_mask w := x), rb_tail := rb_tail w + 1\<rparr>)
      else (False, ?v))"
    using test unfolding spmc_producer_push_def Let_def by (simp add: v not_le)
  have tail: "unat (rb_tail w + 1) = Suc (unat (rb_tail w))" using assms(2) by (intro unat_Suc_no_wrap) simp
  have slots: "rb_slots u (unat (rb_head w)) (Suc (unat (rb_tail w))) = rb_items w @ [x]"
    if "length (rb_items w) < rb_capacity w" and "rb_capacity_mask u = rb_capacity_mask w"
      and "rb_buffer u = (rb_buffer w)(rb_tail w AND rb_capacity_mask w := x)" for u
  proof -
    have "rb_slots u (unat (rb_head w)) (Suc (unat (rb_tail w))) =
        rb_slots (w\<lparr>rb_buffer := (rb_buffer w)(word_of_nat (unat (rb_tail w)) AND rb_capacity_mask w := x)\<rparr>)
          (unat (rb_head w)) (Suc (unat (rb_tail w)))"
      using that(2,3) by (simp add: rb_slots_def)
    also have "\<dots> = rb_items w @ [x]"
      unfolding rb_items_def by (rule rb_slots_write_end [OF shape nat(2)]) (use that(1) len assms(2) in simp_all)
    finally show ?thesis .
  qed
  show "fst (spmc_producer_push w x) \<longleftrightarrow> length (rb_items w) < rb_capacity w" by (simp add: push)
  show "rb_items w' = (if length (rb_items w) < rb_capacity w then rb_items w @ [x] else rb_items w)"
  proof (cases "length (rb_items w) < rb_capacity w")
    case True
    then have "rb_head w' = rb_head w" "rb_tail w' = rb_tail w + 1" "rb_capacity_mask w' = rb_capacity_mask w"
        "rb_buffer w' = (rb_buffer w)(rb_tail w AND rb_capacity_mask w := x)"
      by (simp_all add: assms(3) [symmetric] push)
    with slots [OF True, of w'] True show ?thesis by (simp add: rb_items_def tail)
  next
    case False
    then show ?thesis by (simp add: assms(3) [symmetric] push rb_items_def)
  qed
  show "rb_capacity w' = rb_capacity w" "rb_head w' = rb_head w" "unat (rb_tail w') \<le> Suc (unat (rb_tail w))"
    by (auto simp: assms(3) [symmetric] push tail)
  have "rb_tail w \<le> rb_tail w + 1" using tail by (simp add: word_le_nat_alt)
  then show "rb_inv w'"
    using shape le fit tail len nat by (auto simp: assms(3) [symmetric] push rb_inv_def)
qed

lemma rb_pop:
  assumes "rb_inv w"
  defines "w' \<equiv> snd (spmc_consumer_pop w)"
  shows "fst (spmc_consumer_pop w) = (if rb_items w = [] then None else Some (hd (rb_items w)))"
    and "rb_items w' = tl (rb_items w)" and "rb_inv w'" and "rb_capacity w' = rb_capacity w"
    and "rb_tail w' = rb_tail w"
proof -
  have le: "rb_head w \<le> rb_tail w" using assms(1) by (simp add: rb_inv_def)
  have empty: "rb_items w = [] \<longleftrightarrow> rb_tail w \<le> rb_head w"
    using le by (auto simp: rb_items_def rb_slots_def word_le_nat_alt)
  have head: "unat (rb_head w + 1) = Suc (unat (rb_head w))" if "\<not> rb_tail w \<le> rb_head w"
    using that unat_bound_64 [of "rb_tail w"] by (intro unat_Suc_no_wrap) (simp add: word_le_nat_alt)
  have split: "rb_items w = rb_buffer w (rb_head w AND rb_capacity_mask w) # rb_slots w (Suc (unat (rb_head w))) (unat (rb_tail w))"
    if "\<not> rb_tail w \<le> rb_head w"
    using that rb_slots_Cons [of "unat (rb_head w)" "unat (rb_tail w)" w] by (simp add: rb_items_def word_le_nat_alt)
  show "fst (spmc_consumer_pop w) = (if rb_items w = [] then None else Some (hd (rb_items w)))"
    using split by (auto simp: spmc_consumer_pop_def empty Let_def)
  show "rb_items w' = tl (rb_items w)"
    using split empty head by (cases "rb_tail w \<le> rb_head w")
      (auto simp: w'_def spmc_consumer_pop_def Let_def, simp add: rb_items_def)
  show "rb_capacity w' = rb_capacity w" "rb_tail w' = rb_tail w" by (auto simp: w'_def spmc_consumer_pop_def Let_def)
  show "rb_inv w'"
    using assms(1) head by (auto simp: w'_def spmc_consumer_pop_def Let_def rb_inv_def word_le_nat_alt)
qed

section \<open>The queue interface\<close>

text \<open>
  A bounded first-in-first-out queue whose position counter must not pass a limit: the words that
  count the pushes of the ring are 64 bits wide.
\<close>

locale bounded_fifo =
  fixes inv :: "'q \<Rightarrow> bool" and items :: "'q \<Rightarrow> 'a list" and cap :: "'q \<Rightarrow> nat"
    and pos :: "'q \<Rightarrow> nat" and lim :: nat
    and enq :: "'q \<Rightarrow> 'a \<Rightarrow> bool \<times> 'q" and deq :: "'q \<Rightarrow> 'a option \<times> 'q"
  assumes enq_result: "inv q \<Longrightarrow> pos q < lim \<Longrightarrow> fst (enq q x) \<longleftrightarrow> length (items q) < cap q"
    and enq_items: "inv q \<Longrightarrow> pos q < lim \<Longrightarrow>
      items (snd (enq q x)) = (if length (items q) < cap q then items q @ [x] else items q)"
    and enq_keeps: "inv q \<Longrightarrow> pos q < lim \<Longrightarrow>
      inv (snd (enq q x)) \<and> cap (snd (enq q x)) = cap q \<and> pos (snd (enq q x)) \<le> pos q + 1"
    and deq_result: "inv q \<Longrightarrow> fst (deq q) = (if items q = [] then None else Some (hd (items q)))"
    and deq_items: "inv q \<Longrightarrow> items (snd (deq q)) = tl (items q)"
    and deq_keeps: "inv q \<Longrightarrow> inv (snd (deq q)) \<and> cap (snd (deq q)) = cap q \<and> pos (snd (deq q)) = pos q"

datatype 'a fifo_op = Enq 'a | Deq

text \<open>A run: the values accepted in order, the values handed out in order, and the final queue.\<close>

fun fifo_run ::
  "('q \<Rightarrow> 'a \<Rightarrow> bool \<times> 'q) \<Rightarrow> ('q \<Rightarrow> 'a option \<times> 'q) \<Rightarrow> 'q \<Rightarrow> 'a fifo_op list \<Rightarrow> 'a list \<times> 'a list \<times> 'q" where
  "fifo_run enq deq q [] = ([], [], q)"
| "fifo_run enq deq q (Enq x # os) =
     (let (ok, q') = enq q x; (ins, outs, q'') = fifo_run enq deq q' os
      in (if ok then x # ins else ins, outs, q''))"
| "fifo_run enq deq q (Deq # os) =
     (let (r, q') = deq q; (ins, outs, q'') = fifo_run enq deq q' os
      in (ins, (case r of None \<Rightarrow> outs | Some x \<Rightarrow> x # outs), q''))"

context bounded_fifo
begin

lemma run_fifo:
  "inv q \<Longrightarrow> pos q + length os \<le> lim \<Longrightarrow> fifo_run enq deq q os = (ins, outs, q') \<Longrightarrow>
     inv q' \<and> cap q' = cap q \<and> items q @ ins = outs @ items q'"
proof (induction os arbitrary: q ins outs q')
  case (Cons a os)
  show ?case
  proof (cases a)
    case (Enq x)
    obtain ok r where e: "enq q x = (ok, r)" by (cases "enq q x")
    obtain ins' outs' q'' where f: "fifo_run enq deq r os = (ins', outs', q'')" by (cases "fifo_run enq deq r os")
    have "pos q < lim" using Cons.prems(2) by simp
    note laws = enq_result [OF Cons.prems(1) this, of x] enq_items [OF Cons.prems(1) this, of x]
      enq_keeps [OF Cons.prems(1) this, of x]
    have "inv q'' \<and> cap q'' = cap r \<and> items r @ ins' = outs' @ items q''"
      using laws Cons.prems(2) e by (intro Cons.IH [OF _ _ f]) auto
    with laws e f Cons.prems(3) Enq show ?thesis by (auto split: if_splits)
  next
    case Deq
    obtain x r where e: "deq q = (x, r)" by (cases "deq q")
    obtain ins' outs' q'' where f: "fifo_run enq deq r os = (ins', outs', q'')" by (cases "fifo_run enq deq r os")
    note laws = deq_result [OF Cons.prems(1)] deq_items [OF Cons.prems(1)] deq_keeps [OF Cons.prems(1)]
    have "inv q'' \<and> cap q'' = cap r \<and> items r @ ins' = outs' @ items q''"
      using laws Cons.prems(2) e by (intro Cons.IH [OF _ _ f]) auto
    with laws e f Cons.prems(3) Deq show ?thesis by (cases "items q") auto
  qed
qed simp

end

interpretation rb: bounded_fifo rb_inv rb_items rb_capacity "\<lambda>w. unat (rb_tail w)" "2 ^ 64 - 1"
  spmc_producer_push spmc_consumer_pop
  by unfold_locales (simp_all add: rb_push [OF _ _ refl] rb_pop)

text \<open>
  Run without interference, the submission ring is the bounded first-in-first-out queue it
  promises to be: a push succeeds exactly when fewer than the capacity are queued, whatever the stale
  \<open>rb_head_cache\<close> says, and appends its task; a pop takes the oldest task; both keep the ring well
  formed.
\<close>

theorem spmc_refines_queue:
  assumes "rb_inv w" and "unat (rb_tail w) + 1 < 2 ^ 64"
  shows "(fst (spmc_producer_push w x) \<longleftrightarrow> length (rb_items w) < rb_capacity w)
    \<and> rb_items (snd (spmc_producer_push w x)) = (if length (rb_items w) < rb_capacity w then rb_items w @ [x] else rb_items w)
    \<and> fst (spmc_consumer_pop w) = (if rb_items w = [] then None else Some (hd (rb_items w)))
    \<and> rb_items (snd (spmc_consumer_pop w)) = tl (rb_items w)
    \<and> rb_inv (snd (spmc_producer_push w x)) \<and> rb_inv (snd (spmc_consumer_pop w))"
  using rb.enq_result [OF assms(1), of x] rb.enq_items [OF assms(1), of x] rb.enq_keeps [OF assms(1), of x]
    rb.deq_result [OF assms(1)] rb.deq_items [OF assms(1)] rb.deq_keeps [OF assms(1)] assms(2)
  by simp

text \<open>
  Over any sequence of pushes and pops, short enough that the 64-bit tail does not wrap, tasks
  leave the ring in exactly the order in which they were accepted, none lost and none repeated.
\<close>

theorem spmc_run_fifo:
  assumes "rb_inv w" and "unat (rb_tail w) + length os < 2 ^ 64"
    and "fifo_run spmc_producer_push spmc_consumer_pop w os = (ins, outs, w')"
  shows "rb_inv w' \<and> rb_items w @ ins = outs @ rb_items w'"
  using rb.run_fifo [OF assms(1) _ assms(3)] assms(2) by simp

definition sample_ring :: "nat sc_worker" where
  "sample_ring = \<lparr>core_id = 0, termination_flag = False,
     cl_deque = \<lparr>cl_top = 0, cl_bottom = 0, cl_top_cache = 0, cl_buffer = (\<lambda>_. 0), cl_capacity_mask = 1\<rparr>,
     rb_head = 5, rb_tail = 6, rb_head_cache = 4, rb_capacity_mask = 1, rb_buffer = (\<lambda>i. if i = 1 then 42 else 0)\<rparr>"

lemma sample_ring_inv: "rb_inv sample_ring" "rb_items sample_ring = [42]" "rb_capacity sample_ring = 2"
  "rb_tail sample_ring = 6"
proof -
  have "rb_capacity_mask sample_ring = 2 ^ 1 - 1" by (simp add: sample_ring_def)
  then have "rb_shape sample_ring" unfolding rb_shape_def by (intro exI [of _ 1]) simp
  then show "rb_inv sample_ring" by (simp add: rb_inv_def rb_capacity_def) (simp add: sample_ring_def)
  show "rb_items sample_ring = [42]" by (simp add: rb_items_def rb_slots_def sample_ring_def)
qed (simp_all add: rb_capacity_def sample_ring_def)

theorem spmc_refines_queue_witness:
  "rb_items (snd (spmc_producer_push sample_ring 7)) = [42, 7]"
  using spmc_refines_queue [of sample_ring 7] by (simp add: sample_ring_inv)

theorem spmc_run_fifo_witness:
  "fifo_run spmc_producer_push spmc_consumer_pop sample_ring [Enq 7, Enq 8, Deq, Enq 9, Deq]
     = ([7, 9], [42, 7], snd (snd (fifo_run spmc_producer_push spmc_consumer_pop sample_ring [Enq 7, Enq 8, Deq, Enq 9, Deq])))
   \<and> rb_items (snd (snd (fifo_run spmc_producer_push spmc_consumer_pop sample_ring [Enq 7, Enq 8, Deq, Enq 9, Deq]))) = [9]"
proof -
  let ?r = "fifo_run spmc_producer_push spmc_consumer_pop sample_ring [Enq 7, Enq 8, Deq, Enq 9, Deq]"
  have run: "?r = ([7, 9], [42, 7], snd (snd ?r))"
    by (simp add: spmc_producer_push_def spmc_consumer_pop_def sample_ring_def Let_def word_le_nat_alt)
  from spmc_run_fifo [OF sample_ring_inv(1) _ this] have "rb_items sample_ring @ [7, 9] = [42, 7] @ rb_items (snd (snd ?r))"
    by (simp add: sample_ring_inv)
  with run show ?thesis by (simp add: sample_ring_inv)
qed

text \<open>
  The limit on the tail is needed. When the 64-bit tail wraps around, a push still succeeds, but
  the consumer compares head and tail as plain unsigned numbers and finds the ring empty.
\<close>

theorem spmc_tail_wrap_hides_task:
  "let w = sample_ring\<lparr>rb_head := 0xFFFFFFFFFFFFFFFF, rb_tail := 0xFFFFFFFFFFFFFFFF, rb_head_cache := 0xFFFFFFFFFFFFFFFF\<rparr>
   in rb_inv w \<and> rb_items w = [] \<and> fst (spmc_producer_push w 7)
      \<and> fst (spmc_consumer_pop (snd (spmc_producer_push w 7))) = None"
proof -
  let ?w = "sample_ring\<lparr>rb_head := 0xFFFFFFFFFFFFFFFF, rb_tail := 0xFFFFFFFFFFFFFFFF, rb_head_cache := 0xFFFFFFFFFFFFFFFF\<rparr>"
  have "rb_inv ?w" using sample_ring_inv(1) by (simp add: rb_inv_def)
  moreover have "rb_items ?w = []" by (simp add: rb_items_def rb_slots_def)
  moreover have "fst (spmc_producer_push ?w 7) \<and> fst (spmc_consumer_pop (snd (spmc_producer_push ?w 7))) = None"
    by (simp add: spmc_producer_push_def spmc_consumer_pop_def sample_ring_def Let_def word_le_nat_alt)
  ultimately show ?thesis by (simp only: Let_def)
qed

section \<open>Allocating the workers\<close>

text \<open>What a fresh worker looks like: an empty deque and an empty ring, of at least the sizes asked for.\<close>

definition fresh_worker :: "size_t \<Rightarrow> size_t \<Rightarrow> nat \<Rightarrow> 'a sc_worker \<Rightarrow> bool" where
  "fresh_worker sq dq i w \<longleftrightarrow> core_id w = word_of_nat i \<and> \<not> termination_flag w
     \<and> deque_inv (cl_deque w) \<and> deque_items (cl_deque w) = [] \<and> unat dq \<le> deque_capacity (cl_deque w)
     \<and> rb_inv w \<and> rb_items w = [] \<and> rb_tail w = 0 \<and> unat sq \<le> rb_capacity w"

lemma init_worker_fresh:
  assumes "unat sq \<le> 2 ^ 60" and "unat dq \<le> 2 ^ 60" and "\<And>b. ad b \<noteq> None" and "\<And>b. ar b \<noteq> None"
  shows "\<exists>w'. init_worker ad ar sq dq i w = Some w' \<and> fresh_worker sq dq i w'"
proof -
  obtain k where k: "0 < k" "next_power_of_two dq = 2 ^ k" "unat dq \<le> 2 ^ k" "k = 1 \<or> 2 ^ (k - 1) < unat dq"
    using next_power_of_two_pow2 [of dq] assms(2) by auto
  obtain m where m: "0 < m" "next_power_of_two sq = 2 ^ m" "unat sq \<le> 2 ^ m" "m = 1 \<or> 2 ^ (m - 1) < unat sq"
    using next_power_of_two_pow2 [of sq] assms(1) by auto
  have bound: "l \<le> 60" if "l = 1 \<or> 2 ^ (l - 1) < n" "n \<le> 2 ^ 60" for l n :: nat
  proof (cases "l = 1")
    case False
    with that have "(2::nat) ^ (l - 1) < 2 ^ 60" by linarith
    then have "l - 1 < 60" by (rule power_less_imp_less_exp [rotated]) simp
    then show ?thesis by simp
  qed simp
  have "k \<le> 60" "m \<le> 60" using bound k(4) m(4) assms(1,2) by blast+
  then have size: "unat (next_power_of_two dq) = 2 ^ k" "(2::nat) ^ k \<le> 2 ^ 60"
    using unat_pow2_64 [of k] k(2) power_increasing [of k 60 "2 :: nat"] by simp_all
  obtain bd where "ad (word_of_int (sint (next_power_of_two (next_power_of_two dq))) * 8) = Some bd"
    using assms(3) by blast
  then obtain d where d: "chase_lev_init ad (next_power_of_two dq) = Some d"
    by (simp add: chase_lev_init_def Let_def)
  have "chase_lev_init (\<lambda>_. Some bd) (next_power_of_two dq) = Some d"
    using d \<open>ad _ = Some bd\<close> by (simp add: chase_lev_init_def Let_def)
  with chase_lev_init_ok [of "next_power_of_two dq" "\<lambda>_. Some bd" bd] size
  have dok: "deque_inv d" "deque_items d = []" "2 ^ k \<le> deque_capacity d" by auto
  obtain br where r: "ar (next_power_of_two sq * 8) = Some br" using assms(4) by blast
  define w' where "w' = w\<lparr>core_id := word_of_nat i, termination_flag := False, cl_deque := d,
      rb_capacity_mask := 2 ^ m - 1, rb_head := 0, rb_tail := 0, rb_head_cache := 0, rb_buffer := br\<rparr>"
  have "init_worker ad ar sq dq i w = Some w'"
    by (simp add: init_worker_def d r m(2) [symmetric] w'_def Let_def)
  moreover have "rb_shape w'" using \<open>m \<le> 60\<close> unfolding rb_shape_def by (intro exI [of _ m]) (simp add: w'_def)
  moreover have "rb_capacity w' = 2 ^ m"
    using unat_pow2_64 [of m] \<open>m \<le> 60\<close> by (simp add: rb_capacity_def w'_def unat_sub word_le_nat_alt)
  ultimately show ?thesis using k m dok
    by (intro exI [of _ w']) (auto simp: fresh_worker_def rb_inv_def rb_items_def rb_slots_def w'_def)
qed

lemma init_workers_fresh:
  assumes "unat sq \<le> 2 ^ 60" and "unat dq \<le> 2 ^ 60" and "\<And>i b. ad i b \<noteq> None" and "\<And>i b. ar i b \<noteq> None"
  shows "\<exists>ws'. init_workers ad ar sq dq i ws = Some ws' \<and> length ws' = length ws
    \<and> (\<forall>j<length ws. fresh_worker sq dq (i + j) (ws' ! j))"
proof (induction ws arbitrary: i)
  case (Cons w ws)
  obtain w' where w': "init_worker (ad i) (ar i) sq dq i w = Some w'" "fresh_worker sq dq i w'"
    using init_worker_fresh [OF assms(1,2), of "ad i" "ar i" i w] assms(3,4) by blast
  obtain ws' where ws': "init_workers ad ar sq dq (Suc i) ws = Some ws'" "length ws' = length ws"
    "\<And>j. j < length ws \<Longrightarrow> fresh_worker sq dq (Suc i + j) (ws' ! j)"
    using Cons.IH [of "Suc i"] by blast
  have "fresh_worker sq dq (i + j) ((w' # ws') ! j)" if "j < Suc (length ws)" for j
    using that w'(2) ws'(3) by (cases j) auto
  with w' ws' show ?case by (intro exI [of _ "w' # ws'"]) auto
qed simp

text \<open>
  When no allocation fails, \<open>allocate_worker_pool\<close> returns one worker per processor, each with its
  own index as \<open>core_id\<close>, not asked to terminate, and with an empty well-formed deque and ring of at
  least the requested sizes.
\<close>

theorem allocate_worker_pool_correct:
  assumes "unat sq \<le> 2 ^ 60" and "unat dq \<le> 2 ^ 60" and "\<And>i b. ad i b \<noteq> None" and "\<And>i b. ar i b \<noteq> None"
    and "ap (n * 384) = Some pool" and "length pool = unat n"
  shows "\<exists>ws. allocate_worker_pool ap ad ar n sq dq = Some ws \<and> length ws = unat n
    \<and> (\<forall>i<unat n. fresh_worker sq dq i (ws ! i))"
  using init_workers_fresh [OF assms(1-4), where i = 0 and ws = pool] assms(5,6) by (simp add: allocate_worker_pool_def)

theorem allocate_worker_pool_correct_witness:
  "\<exists>ws. allocate_worker_pool (\<lambda>_. Some [sample_ring, sample_ring]) (\<lambda>_ _. Some (\<lambda>_. 0)) (\<lambda>_ _. Some (\<lambda>_. 0)) 2 1000 4000 = Some ws
     \<and> length ws = unat (2 :: size_t) \<and> (\<forall>i<unat (2 :: size_t). fresh_worker 1000 4000 i (ws ! i))"
  by (rule allocate_worker_pool_correct [where pool = "[sample_ring, sample_ring]"]) simp_all

end
