(* ===== verification/RingConc.thy ===== *)
theory RingConc
  imports RingBuffer
begin

text \<open>
  The submission ring under interleaving: one producer in \<open>spmc_producer_push\<close> and any number of
  consumers (the worker itself and thieves) in \<open>spmc_consumer_pop\<close>, one access to shared memory per
  step, in any order, on sequentially consistent memory. \<open>rb_head_cache\<close> is written by the producer
  only. Ghost lists record the tasks published and the tasks handed out, both in order.
\<close>

section \<open>Steps\<close>

datatype 'a producer_pc =
    ProdIdle
  | ProdRefresh 'a size_t      \<comment> \<open>looks full: about to load \<open>rb_head\<close>\<close>
  | ProdWrite 'a size_t        \<comment> \<open>about to write the slot of \<open>current_tail\<close>\<close>
  | ProdPublish 'a size_t      \<comment> \<open>about to store \<open>rb_tail\<close>\<close>

datatype 'a consumer_pc =
    ConsIdle
  | ConsTail size_t            \<comment> \<open>\<open>current_head\<close> loaded: about to load \<open>rb_tail\<close>\<close>
  | ConsRead size_t            \<comment> \<open>not empty: about to read the slot\<close>
  | ConsCas size_t 'a          \<comment> \<open>about to compare-and-swap \<open>rb_head\<close>\<close>

record 'a rb_sys =
  rb :: "'a sc_worker"
  producer :: "'a producer_pc"
  consumer :: "nat \<Rightarrow> 'a consumer_pc"
  ins :: "'a list"
  outs :: "'a list"

definition rb_start :: "'a sc_worker \<Rightarrow> 'a rb_sys" where
  "rb_start w = \<lparr>rb = w, producer = ProdIdle, consumer = (\<lambda>_. ConsIdle), ins = rb_items w, outs = []\<rparr>"

definition looks_full :: "'a sc_worker \<Rightarrow> size_t \<Rightarrow> bool" where
  "looks_full w current_tail \<longleftrightarrow> rb_capacity_mask w + 1 \<le> current_tail - rb_head_cache w"

inductive rb_step :: "'a rb_sys \<Rightarrow> 'a rb_sys \<Rightarrow> bool" where
  prod_start: "producer s = ProdIdle \<Longrightarrow> ct = rb_tail (rb s) \<Longrightarrow>
    rb_step s (s\<lparr>producer := (if looks_full (rb s) ct then ProdRefresh x ct else ProdWrite x ct)\<rparr>)"
| prod_refresh: "producer s = ProdRefresh x ct \<Longrightarrow> w = (rb s)\<lparr>rb_head_cache := rb_head (rb s)\<rparr> \<Longrightarrow>
    rb_step s (s\<lparr>rb := w, producer := (if looks_full w ct then ProdIdle else ProdWrite x ct)\<rparr>)"
| prod_write: "producer s = ProdWrite x ct \<Longrightarrow>
    rb_step s (s\<lparr>rb := (rb s)\<lparr>rb_buffer := (rb_buffer (rb s))(ct AND rb_capacity_mask (rb s) := x)\<rparr>, producer := ProdPublish x ct\<rparr>)"
| prod_publish: "producer s = ProdPublish x ct \<Longrightarrow>
    rb_step s (s\<lparr>rb := (rb s)\<lparr>rb_tail := ct + 1\<rparr>, producer := ProdIdle, ins := ins s @ [x]\<rparr>)"
| cons_start: "consumer s i = ConsIdle \<Longrightarrow> rb_step s (s\<lparr>consumer := (consumer s)(i := ConsTail (rb_head (rb s)))\<rparr>)"
| cons_tail: "consumer s i = ConsTail h \<Longrightarrow>
    rb_step s (s\<lparr>consumer := (consumer s)(i := (if rb_tail (rb s) \<le> h then ConsIdle else ConsRead h))\<rparr>)"
| cons_read: "consumer s i = ConsRead h \<Longrightarrow>
    rb_step s (s\<lparr>consumer := (consumer s)(i := ConsCas h (rb_buffer (rb s) (h AND rb_capacity_mask (rb s))))\<rparr>)"
| cons_win: "consumer s i = ConsCas h x \<Longrightarrow> rb_head (rb s) = h \<Longrightarrow>
    rb_step s (s\<lparr>rb := (rb s)\<lparr>rb_head := h + 1\<rparr>, consumer := (consumer s)(i := ConsIdle), outs := outs s @ [x]\<rparr>)"
| cons_lose: "consumer s i = ConsCas h x \<Longrightarrow> rb_head (rb s) \<noteq> h \<Longrightarrow> rb_step s (s\<lparr>consumer := (consumer s)(i := ConsIdle)\<rparr>)"

text \<open>The states before the 64-bit tail wraps around; a guarded step starts in one.\<close>

definition rb_bounded_step :: "'a rb_sys \<Rightarrow> 'a rb_sys \<Rightarrow> bool" where
  "rb_bounded_step s t \<longleftrightarrow> unat (rb_tail (rb s)) < 2 ^ 64 - 1 \<and> rb_step s t"

section \<open>The invariant\<close>

fun prod_ok :: "'a sc_worker \<Rightarrow> 'a producer_pc \<Rightarrow> bool" where
  "prod_ok w ProdIdle \<longleftrightarrow> True"
| "prod_ok w (ProdRefresh x ct) \<longleftrightarrow> ct = rb_tail w"
| "prod_ok w (ProdWrite x ct) \<longleftrightarrow> ct = rb_tail w \<and> \<not> looks_full w ct"
| "prod_ok w (ProdPublish x ct) \<longleftrightarrow> ct = rb_tail w \<and> \<not> looks_full w ct \<and> rb_buffer w (ct AND rb_capacity_mask w) = x"

fun cons_ok :: "'a sc_worker \<Rightarrow> 'a consumer_pc \<Rightarrow> bool" where
  "cons_ok w ConsIdle \<longleftrightarrow> True"
| "cons_ok w (ConsTail h) \<longleftrightarrow> h \<le> rb_head w"
| "cons_ok w (ConsRead h) \<longleftrightarrow> h \<le> rb_head w \<and> h < rb_tail w"
| "cons_ok w (ConsCas h x) \<longleftrightarrow> h \<le> rb_head w \<and> h < rb_tail w
     \<and> (h = rb_head w \<longrightarrow> x = rb_buffer w (h AND rb_capacity_mask w))"

definition rb_sys_inv :: "'a rb_sys \<Rightarrow> bool" where
  "rb_sys_inv s \<longleftrightarrow> rb_inv (rb s) \<and> prod_ok (rb s) (producer s) \<and> (\<forall>i. cons_ok (rb s) (consumer s i))
     \<and> ins s = outs s @ rb_items (rb s)"

lemma rb_sys_inv_start: "rb_inv w \<Longrightarrow> rb_sys_inv (rb_start w)"
  by (simp add: rb_sys_inv_def rb_start_def)

lemma rb_inv_cache: "rb_inv w \<Longrightarrow> rb_inv (w\<lparr>rb_head_cache := rb_head w\<rparr>)"
  by (simp add: rb_inv_def)

lemma rb_items_cache [simp]: "rb_items (w\<lparr>rb_head_cache := c\<rparr>) = rb_items w"
  by (simp add: rb_items_def)

lemma cons_ok_cache [simp]: "cons_ok (w\<lparr>rb_head_cache := c\<rparr>) p = cons_ok w p"
  by (cases p) auto

text \<open>Room behind the cached head is room behind the head.\<close>

lemma not_full_room:
  assumes "rb_inv w" and "\<not> looks_full w (rb_tail w)"
  shows "unat (rb_tail w) < unat (rb_head w) + rb_capacity w"
proof -
  have c: "rb_head_cache w \<le> rb_head w" "rb_head w \<le> rb_tail w" and shape: "rb_shape w"
    using assms(1) by (simp_all add: rb_inv_def)
  then have "unat (rb_tail w) - unat (rb_head_cache w) < rb_capacity w"
    using assms(2) rb_full_test [OF shape order_trans [OF c]] by (simp add: looks_full_def)
  with c show ?thesis by (simp add: word_le_nat_alt)
qed

text \<open>The producer's write changes no slot that a consumer may still hand out.\<close>

lemma write_keeps:
  fixes x :: 'a
  assumes inv: "rb_inv w" and room: "\<not> looks_full w (rb_tail w)"
  defines "v \<equiv> w\<lparr>rb_buffer := (rb_buffer w)(rb_tail w AND rb_capacity_mask w := x)\<rparr>"
  shows "rb_inv v" and "rb_items v = rb_items w" and "cons_ok w p \<Longrightarrow> cons_ok v p"
proof -
  have shape: "rb_shape w" and le: "rb_head w \<le> rb_tail w" using inv by (simp_all add: rb_inv_def)
  show "rb_inv v" using inv by (simp add: rb_inv_def v_def)
  have slot: "word_of_nat i AND rb_capacity_mask w \<noteq> rb_tail w AND rb_capacity_mask w"
    if "unat (rb_head w) \<le> i" "i < unat (rb_tail w)" for i
    using rb_slot_neq [OF shape that(2)] that(1) not_full_room [OF inv room] unat_bound_64 [of "rb_tail w"] by simp
  then show "rb_items v = rb_items w" by (auto simp: rb_items_def rb_slots_def v_def)
  have "rb_head w AND rb_capacity_mask w \<noteq> rb_tail w AND rb_capacity_mask w" if "rb_head w < rb_tail w"
    using slot [of "unat (rb_head w)"] that by (simp add: word_less_nat_alt)
  then show "cons_ok w p \<Longrightarrow> cons_ok v p" by (cases p) (auto simp: v_def)
qed

text \<open>Publishing appends the written task.\<close>

lemma publish_keeps:
  assumes inv: "rb_inv w" and room: "\<not> looks_full w (rb_tail w)"
    and x: "rb_buffer w (rb_tail w AND rb_capacity_mask w) = x" and lim: "unat (rb_tail w) < 2 ^ 64 - 1"
  shows "rb_inv (w\<lparr>rb_tail := rb_tail w + 1\<rparr>)" and "rb_items (w\<lparr>rb_tail := rb_tail w + 1\<rparr>) = rb_items w @ [x]"
    and "cons_ok w p \<Longrightarrow> cons_ok (w\<lparr>rb_tail := rb_tail w + 1\<rparr>) p"
proof -
  have tail: "unat (rb_tail w + 1) = Suc (unat (rb_tail w))" using lim by (intro unat_Suc_no_wrap) simp
  have le: "rb_head w \<le> rb_tail w" using inv by (simp add: rb_inv_def)
  then show "rb_inv (w\<lparr>rb_tail := rb_tail w + 1\<rparr>)"
    using inv not_full_room [OF inv room] tail by (auto simp: rb_inv_def word_le_nat_alt)
  show "rb_items (w\<lparr>rb_tail := rb_tail w + 1\<rparr>) = rb_items w @ [x]"
    using le x tail by (simp add: rb_items_def rb_slots_def word_le_nat_alt)
  show "cons_ok w p \<Longrightarrow> cons_ok (w\<lparr>rb_tail := rb_tail w + 1\<rparr>) p"
    using tail by (cases p) (auto simp: word_less_nat_alt)
qed

text \<open>A successful exchange of the head hands out the oldest task.\<close>

lemma head_advance:
  assumes inv: "rb_inv w" and less: "rb_head w < rb_tail w"
  defines "v \<equiv> w\<lparr>rb_head := rb_head w + 1\<rparr>"
  shows "rb_inv v" and "rb_items w = rb_buffer w (rb_head w AND rb_capacity_mask w) # rb_items v"
    and "cons_ok w p \<Longrightarrow> cons_ok v p" and "prod_ok w q \<Longrightarrow> prod_ok v q"
proof -
  have head: "unat (rb_head w + 1) = Suc (unat (rb_head w))"
    using less unat_bound_64 [of "rb_tail w"] by (intro unat_Suc_no_wrap) (simp add: word_less_nat_alt)
  show "rb_inv v" using inv less head by (auto simp: rb_inv_def v_def word_le_nat_alt word_less_nat_alt)
  show "rb_items w = rb_buffer w (rb_head w AND rb_capacity_mask w) # rb_items v"
    using rb_slots_Cons [of "unat (rb_head w)" "unat (rb_tail w)" w] less head
    by (simp add: rb_items_def v_def word_less_nat_alt)
  show "cons_ok w p \<Longrightarrow> cons_ok v p"
    using head by (cases p) (auto simp: v_def word_le_nat_alt word_less_nat_alt)
  show "prod_ok w q \<Longrightarrow> prod_ok v q" by (cases q) (auto simp: v_def looks_full_def)
qed

lemma rb_step_inv:
  assumes "rb_step s t" and "unat (rb_tail (rb s)) < 2 ^ 64 - 1" and "rb_sys_inv s"
  shows "rb_sys_inv t"
  using assms
proof (induction rule: rb_step.induct)
  case (prod_start s ct x)
  then show ?case by (simp add: rb_sys_inv_def)
next
  case (prod_refresh s x ct w)
  then show ?case by (auto simp: rb_sys_inv_def rb_inv_cache)
next
  case (prod_write s x ct)
  then have "rb_inv (rb s)" "ct = rb_tail (rb s)" "\<not> looks_full (rb s) (rb_tail (rb s))"
    by (auto simp: rb_sys_inv_def)
  with prod_write write_keeps [where w = "rb s" and x = x] show ?case by (simp add: rb_sys_inv_def looks_full_def)
next
  case (prod_publish s x ct)
  then have "rb_inv (rb s)" "ct = rb_tail (rb s)" "\<not> looks_full (rb s) (rb_tail (rb s))"
      "rb_buffer (rb s) (rb_tail (rb s) AND rb_capacity_mask (rb s)) = x"
    by (auto simp: rb_sys_inv_def)
  with prod_publish publish_keeps [where w = "rb s" and x = x] show ?case by (simp add: rb_sys_inv_def)
next
  case (cons_start s i)
  then show ?case by (simp add: rb_sys_inv_def)
next
  case (cons_tail s i h)
  then have "cons_ok (rb s) (ConsTail h)" unfolding rb_sys_inv_def by metis
  with cons_tail show ?case by (auto simp: rb_sys_inv_def)
next
  case (cons_read s i h)
  then have "cons_ok (rb s) (ConsRead h)" unfolding rb_sys_inv_def by metis
  with cons_read show ?case by (auto simp: rb_sys_inv_def)
next
  case (cons_win s i h x)
  then have ok: "rb_inv (rb s)" "rb_head (rb s) < rb_tail (rb s)" "x = rb_buffer (rb s) (rb_head (rb s) AND rb_capacity_mask (rb s))"
    unfolding rb_sys_inv_def by (metis cons_ok.simps(4))+
  with cons_win head_advance [OF ok(1,2)] show ?case by (simp add: rb_sys_inv_def)
next
  case (cons_lose s i h x)
  then show ?case by (simp add: rb_sys_inv_def)
qed

lemma rb_reaches_inv: "reaches rb_bounded_step (rb_start w) s \<Longrightarrow> rb_inv w \<Longrightarrow> rb_sys_inv s"
  by (erule reaches_invariant) (auto intro: rb_sys_inv_start rb_step_inv simp: rb_bounded_step_def)

section \<open>Order and conservation\<close>

text \<open>
  C18: however the producer and the consumers interleave, until the 64-bit tail wraps, the tasks handed
  out followed by the tasks still in the ring are exactly the tasks published, in order: consumers
  never receive a task twice, skip one, or overtake one another, and the ring stays well formed.
\<close>

theorem rb_fifo_interleaved:
  assumes "rb_inv w" and "reaches rb_bounded_step (rb_start w) s"
  shows "ins s = outs s @ rb_items (rb s) \<and> rb_inv (rb s)"
  using rb_reaches_inv [OF assms(2,1)] by (simp add: rb_sys_inv_def)

section \<open>Runs of one operation\<close>

abbreviation rb_at :: "'a sc_worker \<Rightarrow> 'a producer_pc \<Rightarrow> (nat \<Rightarrow> 'a consumer_pc) \<Rightarrow> 'a list \<Rightarrow> 'a list \<Rightarrow> 'a rb_sys" where
  "rb_at w p c xs ys \<equiv> \<lparr>rb = w, producer = p, consumer = c, ins = xs, outs = ys\<rparr>"

lemmas rb_then = reaches_then [where r = rb_step]
lemmas rb_one = reaches_step1 [where r = rb_step]

lemma solo_write:
  "reaches rb_step (rb_at w (ProdWrite x (rb_tail w)) c xs ys)
     (rb_at (w\<lparr>rb_buffer := (rb_buffer w)(rb_tail w AND rb_capacity_mask w := x), rb_tail := rb_tail w + 1\<rparr>)
        ProdIdle c (xs @ [x]) ys)"
proof (rule rb_then)
  let ?w = "w\<lparr>rb_buffer := (rb_buffer w)(rb_tail w AND rb_capacity_mask w := x)\<rparr>"
  show "rb_step (rb_at w (ProdWrite x (rb_tail w)) c xs ys) (rb_at ?w (ProdPublish x (rb_tail w)) c xs ys)"
    using prod_write [of "rb_at w (ProdWrite x (rb_tail w)) c xs ys" x "rb_tail w"] by simp
  show "reaches rb_step (rb_at ?w (ProdPublish x (rb_tail w)) c xs ys)
     (rb_at (w\<lparr>rb_buffer := (rb_buffer w)(rb_tail w AND rb_capacity_mask w := x), rb_tail := rb_tail w + 1\<rparr>)
        ProdIdle c (xs @ [x]) ys)"
    using prod_publish [of "rb_at ?w (ProdPublish x (rb_tail w)) c xs ys" x "rb_tail w"] by (intro rb_one) simp
qed

lemma solo_producer:
  "reaches rb_step (rb_at w ProdIdle c xs ys) (rb_at (snd (spmc_producer_push w x)) ProdIdle c
     (if fst (spmc_producer_push w x) then xs @ [x] else xs) ys)"
proof -
  let ?t = "rb_tail w" and ?v = "w\<lparr>rb_head_cache := rb_head w\<rparr>"
  have start: "rb_step (rb_at w ProdIdle c xs ys) (rb_at w (if looks_full w ?t then ProdRefresh x ?t else ProdWrite x ?t) c xs ys)"
    using prod_start [of "rb_at w ProdIdle c xs ys" ?t x] by simp
  have refresh: "rb_step (rb_at w (ProdRefresh x ?t) c xs ys) (rb_at ?v (if looks_full ?v ?t then ProdIdle else ProdWrite x ?t) c xs ys)"
    using prod_refresh [of "rb_at w (ProdRefresh x ?t) c xs ys" x ?t ?v] by simp
  show ?thesis
  proof (cases "looks_full w ?t")
    case False
    with start solo_write [of w x c xs ys] show ?thesis
      by (auto intro: rb_then simp: spmc_producer_push_def looks_full_def Let_def)
  next
    case True
    note to_refresh = start [simplified True if_True]
    show ?thesis
    proof (cases "looks_full ?v ?t")
      case full: True
      with to_refresh refresh True show ?thesis
        by (auto intro: rb_then rb_one simp: spmc_producer_push_def looks_full_def Let_def)
    next
      case False
      with to_refresh refresh True solo_write [of ?v x c xs ys] show ?thesis
        by (auto intro: rb_then simp: spmc_producer_push_def looks_full_def Let_def)
    qed
  qed
qed

lemma solo_consumer:
  assumes "c i = ConsIdle"
  shows "reaches rb_step (rb_at w p c xs ys) (rb_at (snd (spmc_consumer_pop w)) p c xs
     (case fst (spmc_consumer_pop w) of None \<Rightarrow> ys | Some x \<Rightarrow> ys @ [x]))"
proof -
  let ?h = "rb_head w" and ?x = "rb_buffer w (rb_head w AND rb_capacity_mask w)"
  have 1: "rb_step (rb_at w p c xs ys) (rb_at w p (c(i := ConsTail ?h)) xs ys)"
    using cons_start [of "rb_at w p c xs ys" i] assms by simp
  have 2: "rb_step (rb_at w p (c(i := ConsTail ?h)) xs ys) (rb_at w p (if rb_tail w \<le> ?h then c else c(i := ConsRead ?h)) xs ys)"
    using cons_tail [of "rb_at w p (c(i := ConsTail ?h)) xs ys" i ?h] assms by (auto simp: fun_upd_idem)
  have 3: "rb_step (rb_at w p (c(i := ConsRead ?h)) xs ys) (rb_at w p (c(i := ConsCas ?h ?x)) xs ys)"
    using cons_read [of "rb_at w p (c(i := ConsRead ?h)) xs ys" i ?h] by simp
  have 4: "rb_step (rb_at w p (c(i := ConsCas ?h ?x)) xs ys) (rb_at (w\<lparr>rb_head := ?h + 1\<rparr>) p c xs (ys @ [?x]))"
    using cons_win [of "rb_at w p (c(i := ConsCas ?h ?x)) xs ys" i ?h ?x] assms by (simp add: fun_upd_idem)
  show ?thesis
  proof (cases "rb_tail w \<le> ?h")
    case True
    with rb_then [OF 1 rb_one [OF 2]] show ?thesis by (simp add: spmc_consumer_pop_def)
  next
    case False
    with rb_then [OF 1 rb_then [OF 2 [simplified False if_False] rb_then [OF 3 rb_one [OF 4]]]]
    show ?thesis by (simp add: spmc_consumer_pop_def Let_def)
  qed
qed

text \<open>
  The interleaved model and the sequential functions are the same code: a push and a pop that run
  without interference take the system to exactly the ring, and hand out exactly the task, that
  \<open>spmc_producer_push\<close> and \<open>spmc_consumer_pop\<close> compute.
\<close>

theorem rb_solo_runs_agree:
  assumes "c i = ConsIdle"
  shows "reaches rb_step (rb_at w ProdIdle c xs ys) (rb_at (snd (spmc_producer_push w x)) ProdIdle c
           (if fst (spmc_producer_push w x) then xs @ [x] else xs) ys)
       \<and> reaches rb_step (rb_at w p c xs ys) (rb_at (snd (spmc_consumer_pop w)) p c xs
           (case fst (spmc_consumer_pop w) of None \<Rightarrow> ys | Some y \<Rightarrow> ys @ [y]))"
  by (intro conjI solo_producer solo_consumer [where c = c and i = i] assms)

theorem rb_solo_runs_agree_witness:
  "reaches rb_step (rb_at sample_ring ProdIdle (\<lambda>_. ConsIdle) [] [])
     (rb_at (snd (spmc_consumer_pop sample_ring)) ProdIdle (\<lambda>_. ConsIdle) []
       (case fst (spmc_consumer_pop sample_ring) of None \<Rightarrow> [] | Some y \<Rightarrow> [] @ [y]))"
  using rb_solo_runs_agree [of "\<lambda>_. ConsIdle" 0 sample_ring "[]" "[]" 0 ProdIdle] by blast

text \<open>Two consumers race for one task: a concrete run to the state after the first has won.\<close>

lemma cons_race_step:
  "rb_bounded_step (rb_at sample_ring ProdIdle c [42] []) t \<longleftrightarrow> rb_step (rb_at sample_ring ProdIdle c [42] []) t"
  by (simp add: rb_bounded_step_def sample_ring_inv(4))

lemma cons_to_cas:
  assumes "c i = ConsIdle"
  shows "reaches rb_bounded_step (rb_at sample_ring ProdIdle c [42] []) (rb_at sample_ring ProdIdle (c(i := ConsCas 5 42)) [42] [])"
proof -
  have s: "rb_head sample_ring = 5" "rb_tail sample_ring = 6" "rb_buffer sample_ring (5 AND rb_capacity_mask sample_ring) = 42"
    by (simp_all add: sample_ring_def)
  have 1: "rb_step (rb_at sample_ring ProdIdle c [42] []) (rb_at sample_ring ProdIdle (c(i := ConsTail 5)) [42] [])"
    using cons_start [of "rb_at sample_ring ProdIdle c [42] []" i] assms s by simp
  have 2: "rb_step (rb_at sample_ring ProdIdle (c(i := ConsTail 5)) [42] []) (rb_at sample_ring ProdIdle (c(i := ConsRead 5)) [42] [])"
    using cons_tail [of "rb_at sample_ring ProdIdle (c(i := ConsTail 5)) [42] []" i 5] s by (simp add: word_le_nat_alt)
  have 3: "rb_step (rb_at sample_ring ProdIdle (c(i := ConsRead 5)) [42] []) (rb_at sample_ring ProdIdle (c(i := ConsCas 5 42)) [42] [])"
    using cons_read [of "rb_at sample_ring ProdIdle (c(i := ConsRead 5)) [42] []" i 5] s by simp
  note to = reaches_then [where r = rb_bounded_step] and one = reaches_step1 [where r = rb_bounded_step]
  show ?thesis
    by (rule to [OF iffD2 [OF cons_race_step 1] to [OF iffD2 [OF cons_race_step 2] one [OF iffD2 [OF cons_race_step 3]]]])
qed

theorem rb_fifo_interleaved_witness:
  "\<exists>s. reaches rb_bounded_step (rb_start sample_ring) s \<and> consumer s 1 = ConsCas 5 42 \<and> outs s = [42] \<and> rb_items (rb s) = []"
proof -
  let ?c = "(\<lambda>_. ConsIdle)(1 := ConsCas 5 42, 0 := ConsCas 5 42)"
  let ?s = "rb_at (sample_ring\<lparr>rb_head := 6\<rparr>) ProdIdle (?c(0 := ConsIdle)) [42] [42]"
  have "reaches rb_bounded_step (rb_at sample_ring ProdIdle (\<lambda>_. ConsIdle) [42] []) (rb_at sample_ring ProdIdle ?c [42] [])"
    using cons_to_cas [where c = "\<lambda>_. ConsIdle" and i = 1] cons_to_cas [where c = "(\<lambda>_. ConsIdle)(1 := ConsCas 5 42)" and i = 0]
    by (simp add: reaches_trans [where b = "rb_at sample_ring ProdIdle ((\<lambda>_. ConsIdle)(1 := ConsCas 5 42)) [42] []"])
  then have A: "reaches rb_bounded_step (rb_start sample_ring) (rb_at sample_ring ProdIdle ?c [42] [])"
    by (simp only: rb_start_def sample_ring_inv(2))
  have B: "rb_step (rb_at sample_ring ProdIdle ?c [42] []) ?s"
    using cons_win [of "rb_at sample_ring ProdIdle ?c [42] []" 0 5 42] by (simp add: sample_ring_def)
  have run: "reaches rb_bounded_step (rb_start sample_ring) ?s"
    by (rule reaches.step [where r = rb_bounded_step, OF A iffD2 [OF cons_race_step B]])
  from rb_fifo_interleaved [OF sample_ring_inv(1) run] run show ?thesis by (intro exI [of _ ?s]) simp
qed

end
