(* ===== verification/JobWait.thy ===== *)
theory JobWait
  imports Task
begin

text \<open>
  The life of a job: \<open>scheduler_init_job\<close> and \<open>scheduler_is_job_complete\<close> as functions, and the
  protocol between \<open>scheduler_wait_for_job\<close> (any number of threads) and \<open>hooked_job_finish_task\<close> on the
  job's state word, one access per step, in any order. \<open>sk_futex_wait\<close> has the semantics of the futex
  call it wraps: it atomically compares the word with the expected value and goes to sleep only when
  they agree, and it may return for no reason; \<open>sk_futex_wake\<close> wakes every sleeper. A weak
  compare-and-swap may fail for no reason.
\<close>

section \<open>The job record\<close>

definition scheduler_init_job :: "ptr \<Rightarrow> size_t \<Rightarrow> sc_fn \<Rightarrow> sc_job \<Rightarrow> sc_job" where
  "scheduler_init_job payload psize job_fn job =
     job\<lparr>job_state := JOB_STATE_RUNNING, job_payload := payload, payload_size := psize,
         job_function := job_fn, chunk_size := 0\<rparr>"

definition scheduler_is_job_complete :: "uint32 \<Rightarrow> bool" where
  "scheduler_is_job_complete state \<longleftrightarrow> state = JOB_STATE_DONE"

section \<open>Waiting and finishing\<close>

datatype wait_pc =
    WSpin nat             \<comment> \<open>in the spin loop, that many polls made\<close>
  | WLoad                 \<comment> \<open>about to load the state\<close>
  | WTest uint32          \<comment> \<open>the loop test on the value last seen\<close>
  | WFutex                \<comment> \<open>about to call \<open>sk_futex_wait\<close>\<close>
  | WAsleep
  | WReturned

datatype hook_pc =
    HReady
  | HExchanged uint32     \<comment> \<open>state exchanged: about to test the previous value\<close>
  | HReturned

record jw_sys =
  jstate :: uint32
  hook :: hook_pc
  wait :: "nat \<Rightarrow> wait_pc"

definition jw_start :: jw_sys where
  "jw_start = \<lparr>jstate = JOB_STATE_RUNNING, hook = HReady, wait = (\<lambda>_. WSpin 0)\<rparr>"

definition wake_all :: "(nat \<Rightarrow> wait_pc) \<Rightarrow> (nat \<Rightarrow> wait_pc)" where
  "wake_all f = (\<lambda>i. if f i = WAsleep then WLoad else f i)"

inductive jw_step :: "jw_sys \<Rightarrow> jw_sys \<Rightarrow> bool" where
  spin: "wait s i = WSpin n \<Longrightarrow> n < 1000 \<Longrightarrow>
    jw_step s (s\<lparr>wait := (wait s)(i := (if scheduler_is_job_complete (jstate s) then WReturned else WSpin (n + 1)))\<rparr>)"
| spun: "wait s i = WSpin n \<Longrightarrow> \<not> n < 1000 \<Longrightarrow> jw_step s (s\<lparr>wait := (wait s)(i := WLoad)\<rparr>)"
| load: "wait s i = WLoad \<Longrightarrow> jw_step s (s\<lparr>wait := (wait s)(i := WTest (jstate s))\<rparr>)"
| seen_done: "wait s i = WTest v \<Longrightarrow> v = JOB_STATE_DONE \<Longrightarrow> jw_step s (s\<lparr>wait := (wait s)(i := WReturned)\<rparr>)"
| cas_win: "wait s i = WTest v \<Longrightarrow> v = JOB_STATE_RUNNING \<Longrightarrow> jstate s = v \<Longrightarrow>
    jw_step s (s\<lparr>jstate := JOB_STATE_WAITING, wait := (wait s)(i := WFutex)\<rparr>)"
| cas_fail: "wait s i = WTest v \<Longrightarrow> v = JOB_STATE_RUNNING \<Longrightarrow>
    jw_step s (s\<lparr>wait := (wait s)(i := WTest (jstate s))\<rparr>)"
| no_cas: "wait s i = WTest v \<Longrightarrow> v \<noteq> JOB_STATE_DONE \<Longrightarrow> v \<noteq> JOB_STATE_RUNNING \<Longrightarrow>
    jw_step s (s\<lparr>wait := (wait s)(i := WFutex)\<rparr>)"
| futex_wait: "wait s i = WFutex \<Longrightarrow>
    jw_step s (s\<lparr>wait := (wait s)(i := (if jstate s = JOB_STATE_WAITING then WAsleep else WLoad))\<rparr>)"
| spurious: "wait s i = WAsleep \<Longrightarrow> jw_step s (s\<lparr>wait := (wait s)(i := WLoad)\<rparr>)"
| exchange: "hook s = HReady \<Longrightarrow> jw_step s (s\<lparr>jstate := JOB_STATE_DONE, hook := HExchanged (jstate s)\<rparr>)"
| wake: "hook s = HExchanged v \<Longrightarrow>
    jw_step s (s\<lparr>hook := HReturned, wait := (if v = JOB_STATE_WAITING then wake_all (wait s) else wait s)\<rparr>)"

inductive_cases jw_stepE: "jw_step s t"

section \<open>No lost wake-up\<close>

definition jw_inv :: "jw_sys \<Rightarrow> bool" where
  "jw_inv s \<longleftrightarrow> (jstate s = JOB_STATE_DONE \<longleftrightarrow> hook s \<noteq> HReady)
     \<and> (\<forall>i. wait s i = WReturned \<longrightarrow> jstate s = JOB_STATE_DONE)
     \<and> (\<forall>i. wait s i = WTest JOB_STATE_DONE \<longrightarrow> jstate s = JOB_STATE_DONE)
     \<and> (\<forall>i. wait s i = WAsleep \<longrightarrow> jstate s = JOB_STATE_WAITING \<or> hook s = HExchanged JOB_STATE_WAITING)"

lemma job_states_distinct [simp]:
  "JOB_STATE_RUNNING \<noteq> JOB_STATE_DONE" "JOB_STATE_WAITING \<noteq> JOB_STATE_DONE" "JOB_STATE_RUNNING \<noteq> JOB_STATE_WAITING"
  "JOB_STATE_DONE \<noteq> JOB_STATE_RUNNING" "JOB_STATE_DONE \<noteq> JOB_STATE_WAITING" "JOB_STATE_WAITING \<noteq> JOB_STATE_RUNNING"
  by (simp_all add: job_state_defs)

lemma jw_step_inv: "jw_step s t \<Longrightarrow> jw_inv s \<Longrightarrow> jw_inv t"
  by (induction rule: jw_step.induct) (auto simp: jw_inv_def wake_all_def scheduler_is_job_complete_def)

lemma jw_reaches_inv: "reaches jw_step jw_start s \<Longrightarrow> jw_inv s"
  by (erule reaches_invariant [where I = jw_inv]) (simp add: jw_inv_def jw_start_def, rule jw_step_inv)

text \<open>
  C20: no wake-up is lost and no wait returns early. Whatever the interleaving of any number of waiters
  with the finishing hook, a waiter that has returned sees a job that is done, and once the hook has
  returned no waiter is asleep.
\<close>

theorem wait_no_lost_wakeup:
  assumes "reaches jw_step jw_start s"
  shows "(\<forall>i. wait s i = WReturned \<longrightarrow> scheduler_is_job_complete (jstate s))
       \<and> (hook s = HReturned \<longrightarrow> (\<forall>i. wait s i \<noteq> WAsleep))"
  using jw_reaches_inv [OF assms] by (auto simp: jw_inv_def scheduler_is_job_complete_def)

text \<open>How far a waiter is from its return once the job is done.\<close>

fun wait_left :: "wait_pc \<Rightarrow> nat" where
  "wait_left (WSpin n) = 1008 - n"
| "wait_left WAsleep = 6"
| "wait_left WFutex = 5"
| "wait_left WLoad = 4"
| "wait_left (WTest v) = (if v = JOB_STATE_DONE then 2 else if v = JOB_STATE_RUNNING then 3 else 6)"
| "wait_left WReturned = 0"

fun spin_ok :: "wait_pc \<Rightarrow> bool" where
  "spin_ok (WSpin n) \<longleftrightarrow> n \<le> 1000"
| "spin_ok _ \<longleftrightarrow> True"

lemma jw_step_spin: "jw_step s t \<Longrightarrow> spin_ok (wait s i) \<Longrightarrow> spin_ok (wait t i)"
  by (erule jw_stepE) (auto simp: wake_all_def)

lemma jw_spin_ok: "reaches jw_step jw_start s \<Longrightarrow> spin_ok (wait s i)"
  by (erule reaches_invariant [where I = "\<lambda>s. spin_ok (wait s i)"]) (simp add: jw_start_def, rule jw_step_spin)

lemma jw_step_closer:
  assumes "jw_step s t" and "jstate s = JOB_STATE_DONE" and "spin_ok (wait s i)" and "wait t i \<noteq> wait s i"
  shows "wait_left (wait t i) < wait_left (wait s i)"
  using assms by (elim jw_stepE) (auto simp: wake_all_def scheduler_is_job_complete_def split: if_splits)

lemma jw_step_enabled:
  assumes "jstate s = JOB_STATE_DONE" and "wait s i \<noteq> WReturned" and "wait s i \<noteq> WAsleep"
  shows "\<exists>t. jw_step s t \<and> wait t i \<noteq> wait s i"
proof (cases "wait s i")
  case (WSpin n)
  then show ?thesis
  proof (cases "n < 1000")
    case True
    with jw_step.spin [OF WSpin True] WSpin show ?thesis by (intro exI conjI) (auto split: if_splits)
  next
    case False
    with jw_step.spun [OF WSpin False] WSpin show ?thesis by (intro exI conjI) auto
  qed
next
  case WLoad
  with jw_step.load [OF WLoad] show ?thesis by (intro exI conjI) auto
next
  case (WTest v)
  consider "v = JOB_STATE_DONE" | "v = JOB_STATE_RUNNING" | "v \<noteq> JOB_STATE_DONE" "v \<noteq> JOB_STATE_RUNNING" by blast
  then show ?thesis
  proof cases
    case 1
    with jw_step.seen_done [OF WTest 1] WTest show ?thesis by (intro exI conjI) auto
  next
    case 2
    with jw_step.cas_fail [OF WTest 2] WTest assms(1) show ?thesis by (intro exI conjI) auto
  next
    case 3
    with jw_step.no_cas [OF WTest 3] WTest show ?thesis by (intro exI conjI) auto
  qed
next
  case WFutex
  with jw_step.futex_wait [OF WFutex] assms(1) show ?thesis by (intro exI conjI) auto
qed (use assms in auto)

text \<open>
  C21: after the job is done every waiter returns: a waiter that has not returned and is not asleep can
  step, the hook can step until it has returned (and by then nobody is asleep), and every step that
  moves a waiter brings it strictly closer to its return, which is at most 1008 of its steps away.
\<close>

theorem wait_returns:
  assumes "reaches jw_step jw_start s" and "jstate s = JOB_STATE_DONE"
  shows "(\<forall>i. wait s i \<noteq> WReturned \<longrightarrow> wait s i \<noteq> WAsleep \<longrightarrow> (\<exists>t. jw_step s t \<and> wait t i \<noteq> wait s i))
       \<and> (hook s \<noteq> HReturned \<longrightarrow> (\<exists>t. jw_step s t \<and> hook t = HReturned))
       \<and> (\<forall>t i. jw_step s t \<longrightarrow> wait t i \<noteq> wait s i \<longrightarrow> wait_left (wait t i) < wait_left (wait s i))
       \<and> (\<forall>i. wait_left (wait s i) \<le> 1008 \<and> (wait_left (wait s i) = 0 \<longleftrightarrow> wait s i = WReturned))"
proof (intro conjI allI impI)
  have inv: "jw_inv s" by (rule jw_reaches_inv [OF assms(1)])
  have spin: "spin_ok (wait s i)" for i by (rule jw_spin_ok [OF assms(1)])
  show "\<exists>t. jw_step s t \<and> wait t i \<noteq> wait s i" if "wait s i \<noteq> WReturned" "wait s i \<noteq> WAsleep" for i
    by (rule jw_step_enabled [OF assms(2) that])
  show "\<exists>t. jw_step s t \<and> hook t = HReturned" if "hook s \<noteq> HReturned"
  proof (cases "hook s")
    case (HExchanged v)
    with jw_step.wake [OF HExchanged] show ?thesis by (intro exI conjI) auto
  qed (use that inv assms(2) in \<open>auto simp: jw_inv_def\<close>)
  show "wait_left (wait t i) < wait_left (wait s i)" if "jw_step s t" "wait t i \<noteq> wait s i" for t i
    by (rule jw_step_closer [OF that(1) assms(2) spin that(2)])
  show "wait_left (wait s i) \<le> 1008" "wait_left (wait s i) = 0 \<longleftrightarrow> wait s i = WReturned" for i
    using spin [of i] by (cases "wait s i"; simp)+
qed

section \<open>A run in which a waiter sleeps and is woken\<close>

abbreviation jw_at :: "uint32 \<Rightarrow> hook_pc \<Rightarrow> wait_pc \<Rightarrow> jw_sys" where
  "jw_at v h p \<equiv> \<lparr>jstate = v, hook = h, wait = (\<lambda>_. WSpin 0)(0 := p)\<rparr>"

lemma jw_spins: "n \<le> 1000 \<Longrightarrow> reaches jw_step jw_start (jw_at JOB_STATE_RUNNING HReady (WSpin n))"
proof (induction n)
  case 0
  have "jw_start = jw_at JOB_STATE_RUNNING HReady (WSpin 0)" by (simp add: jw_start_def fun_upd_idem)
  then show ?case by (metis reaches.start)
next
  case (Suc n)
  then have "jw_step (jw_at JOB_STATE_RUNNING HReady (WSpin n)) (jw_at JOB_STATE_RUNNING HReady (WSpin (Suc n)))"
    using jw_step.spin [of "jw_at JOB_STATE_RUNNING HReady (WSpin n)" 0 n] by (simp add: scheduler_is_job_complete_def)
  then show ?case by (rule reaches.step [where r = jw_step, OF Suc.IH [OF Suc_leD [OF Suc.prems]]])
qed

definition woken :: jw_sys where
  "woken = jw_at JOB_STATE_DONE HReturned WLoad"

lemma woken_reached: "reaches jw_step jw_start woken"
proof -
  let ?R = JOB_STATE_RUNNING and ?W = JOB_STATE_WAITING and ?D = JOB_STATE_DONE
  note step = reaches.step [where r = jw_step]
  have "reaches jw_step jw_start (jw_at ?R HReady (WSpin 1000))" by (rule jw_spins) simp
  moreover have "jw_step (jw_at ?R HReady (WSpin 1000)) (jw_at ?R HReady WLoad)"
    using jw_step.spun [of "jw_at ?R HReady (WSpin 1000)" 0 1000] by simp
  ultimately have "reaches jw_step jw_start (jw_at ?R HReady WLoad)" by (rule step)
  moreover have "jw_step (jw_at ?R HReady WLoad) (jw_at ?R HReady (WTest ?R))"
    using jw_step.load [of "jw_at ?R HReady WLoad" 0] by simp
  ultimately have "reaches jw_step jw_start (jw_at ?R HReady (WTest ?R))" by (rule step)
  moreover have "jw_step (jw_at ?R HReady (WTest ?R)) (jw_at ?W HReady WFutex)"
    using jw_step.cas_win [of "jw_at ?R HReady (WTest ?R)" 0 ?R] by simp
  ultimately have "reaches jw_step jw_start (jw_at ?W HReady WFutex)" by (rule step)
  moreover have "jw_step (jw_at ?W HReady WFutex) (jw_at ?W HReady WAsleep)"
    using jw_step.futex_wait [of "jw_at ?W HReady WFutex" 0] by simp
  ultimately have "reaches jw_step jw_start (jw_at ?W HReady WAsleep)" by (rule step)
  moreover have "jw_step (jw_at ?W HReady WAsleep) (jw_at ?D (HExchanged ?W) WAsleep)"
    using jw_step.exchange [of "jw_at ?W HReady WAsleep"] by simp
  ultimately have "reaches jw_step jw_start (jw_at ?D (HExchanged ?W) WAsleep)" by (rule step)
  moreover have "wake_all ((\<lambda>_. WSpin 0)(0 := WAsleep)) = (\<lambda>_. WSpin 0)(0 := WLoad)" by (auto simp: wake_all_def)
  then have "jw_step (jw_at ?D (HExchanged ?W) WAsleep) woken"
    using jw_step.wake [of "jw_at ?D (HExchanged ?W) WAsleep" ?W] by (simp add: woken_def)
  ultimately show ?thesis by (rule step)
qed

theorem wait_no_lost_wakeup_witness: "hook woken = HReturned \<and> wait woken 0 = WLoad \<and> wait woken 5 \<noteq> WAsleep"
  using wait_no_lost_wakeup [OF woken_reached] by (simp add: woken_def)

theorem wait_returns_witness: "\<exists>t. jw_step woken t \<and> wait t 0 \<noteq> WLoad"
proof -
  have "jstate woken = JOB_STATE_DONE" "wait woken 0 = WLoad" by (simp_all add: woken_def)
  with wait_returns [OF woken_reached this(1)] show ?thesis by (metis wait_pc.distinct(19,21) wait_pc.distinct wait_pc.simps)
qed

end
