(* ===== verification/Sched.thy ===== *)
theory Sched
  imports TaskPool RingBuffer JobWait
begin

text \<open>
  The scheduler's global state and its public operations of \<open>src/sk_scheduler.c\<close>: boot, job
  submission, continuations and shutdown. A thread is a number: worker \<open>i\<close> of the pool is thread
  \<open>i\<close>, the threads of the application are the numbers from \<open>global_worker_count\<close> on. \<open>None\<close> as the
  result of a whole operation is the end of the program: \<open>exit\<close> in \<open>scheduler_boot\<close>, a null or wild
  pointer dereference elsewhere.
\<close>

section \<open>State\<close>

record sched =
  pool :: task_pool
  task_array_allocated :: bool
  worker_pool :: "task_ref sc_worker list option"
  global_worker_count :: size_t
  rr_worker_index :: size_t
  jobs :: "job_ref \<Rightarrow> sc_job"
  tl_current_task :: "nat \<Rightarrow> task_ref option"
  calls :: "(sc_fn \<times> ptr \<times> size_t \<times> size_t) list"

text \<open>\<open>calls\<close> is a ghost: the calls of developer functions made so far.\<close>

definition task_at :: "sched \<Rightarrow> task_ref \<Rightarrow> sc_task" where
  "task_at s t = global_task_array (pool s) t"

definition upd_task :: "task_ref \<Rightarrow> (sc_task \<Rightarrow> sc_task) \<Rightarrow> sched \<Rightarrow> sched" where
  "upd_task t f s = s\<lparr>pool := (pool s)\<lparr>global_task_array := (global_task_array (pool s))(t := f (task_at s t))\<rparr>\<rparr>"

definition acquire :: "nat \<Rightarrow> sched \<Rightarrow> task_ref option \<times> sched" where
  "acquire tid s = (case memory_pool_acquire tid (pool s) of (r, p) \<Rightarrow> (r, s\<lparr>pool := p\<rparr>))"

definition release :: "nat \<Rightarrow> task_ref \<Rightarrow> sched \<Rightarrow> sched" where
  "release tid t s = s\<lparr>pool := memory_pool_release tid t (pool s)\<rparr>"

section \<open>Boot and shutdown\<close>

definition global_task_capacity :: nat where "global_task_capacity = 65536"

definition boot_worker_count :: "size_t \<Rightarrow> size_t" where
  "boot_worker_count cpus = (if cpus < 1 then 1 else cpus)"

text \<open>
  The parameters are what the platform and the allocator give: the processor count, the block for the
  tasks (of \<open>sizeof (sc_task) = 64\<close> bytes each), and the blocks of \<open>allocate_worker_pool\<close>. Every failed
  allocation exits. The threads that boot starts take no step before it returns.
\<close>

definition scheduler_boot ::
  "size_t \<Rightarrow> (size_t \<Rightarrow> (task_ref \<Rightarrow> sc_task) option) \<Rightarrow> (size_t \<Rightarrow> task_ref sc_worker list option)
     \<Rightarrow> (nat \<Rightarrow> size_t \<Rightarrow> (int \<Rightarrow> task_ref) option) \<Rightarrow> (nat \<Rightarrow> size_t \<Rightarrow> (size_t \<Rightarrow> task_ref) option)
     \<Rightarrow> size_t \<Rightarrow> size_t \<Rightarrow> sched \<Rightarrow> sched option" where
  "scheduler_boot cpus alloc_tasks alloc_pool alloc_deque alloc_ring spsc_queue_size cl_deque_size s =
     (let s = s\<lparr>global_worker_count := boot_worker_count cpus\<rparr> in
      case alloc_tasks (word_of_nat global_task_capacity * 64) of
        None \<Rightarrow> None
      | Some a \<Rightarrow>
          (let s = s\<lparr>task_array_allocated := True,
                     pool := init_task_pool global_task_capacity ((pool s)\<lparr>global_task_array := a\<rparr>)\<rparr>
           in case allocate_worker_pool alloc_pool alloc_deque alloc_ring (global_worker_count s)
                     spsc_queue_size cl_deque_size of
                None \<Rightarrow> None
              | Some ws \<Rightarrow> Some (s\<lparr>worker_pool := Some ws\<rparr>)))"

text \<open>
  Shutdown: the flags are set, the workers return and are joined (their thread-local caches die with
  them), and the blocks are freed. The cache of the calling thread is not touched.
\<close>

definition scheduler_stop_workers :: "sched \<Rightarrow> sched" where
  "scheduler_stop_workers s =
     (case worker_pool s of
        None \<Rightarrow> s
      | Some ws \<Rightarrow>
          s\<lparr>worker_pool := None, task_array_allocated := False,
            pool := (pool s)\<lparr>task_cache := (\<lambda>tid. if tid < unat (global_worker_count s) then [] else task_cache (pool s) tid)\<rparr>\<rparr>)"

section \<open>Submission\<close>

definition DEFAULT_CHUNK_SIZE :: size_t where "DEFAULT_CHUNK_SIZE = 128"

definition normal_chunk :: "sc_job \<Rightarrow> size_t \<Rightarrow> size_t" where
  "normal_chunk job chunk = (if payload_size job < chunk \<or> chunk = 0 then DEFAULT_CHUNK_SIZE else chunk)"

definition root_task :: "job_ref \<Rightarrow> sc_job \<Rightarrow> sc_task \<Rightarrow> sc_task" where
  "root_task j job t = t\<lparr>task_payload := JobPtr j, start_inx := 0, end_inx := payload_size job,
     task_fn := Some HookFn, parent_task := None, unfinished_dependencies := 1\<rparr>"

definition splitter_task :: "job_ref \<Rightarrow> sc_job \<Rightarrow> task_ref \<Rightarrow> sc_task \<Rightarrow> sc_task" where
  "splitter_task j job root t = t\<lparr>task_payload := JobPtr j, start_inx := 0, end_inx := payload_size job,
     task_fn := Some SplitterFn, parent_task := Some root, unfinished_dependencies := 1\<rparr>"

definition ring_push :: "nat \<Rightarrow> task_ref \<Rightarrow> task_ref sc_worker list \<Rightarrow> bool \<times> task_ref sc_worker list" where
  "ring_push i t ws = (case spmc_producer_push (ws ! i) t of (ok, w) \<Rightarrow> (ok, ws[i := w]))"

definition scheduler_submit_job :: "nat \<Rightarrow> job_ref \<Rightarrow> size_t \<Rightarrow> sched \<Rightarrow> bool \<times> sched" where
  "scheduler_submit_job tid j chunk s =
     (let s = s\<lparr>jobs := (jobs s)(j := (jobs s j)\<lparr>chunk_size := normal_chunk (jobs s j) chunk\<rparr>)\<rparr> in
      case worker_pool s of
        None \<Rightarrow> (False, s)
      | Some ws \<Rightarrow>
          (case acquire tid s of
             (None, s) \<Rightarrow> (False, s)
           | (Some root, s) \<Rightarrow>
               (let s = upd_task root (root_task j (jobs s j)) s in
                case acquire tid s of
                  (None, s) \<Rightarrow> (False, release tid root s)
                | (Some child, s) \<Rightarrow>
                    (let s = upd_task child (splitter_task j (jobs s j) root) s;
                         target_idx = rr_worker_index s mod global_worker_count s;
                         s = s\<lparr>rr_worker_index := rr_worker_index s + 1\<rparr>;
                         (success, ws) = ring_push (unat target_idx) child ws;
                         s = s\<lparr>worker_pool := Some ws\<rparr>
                     in if success then (True, s)
                        else (False, release tid child (release tid root s))))))"

definition scheduler_set_continuation :: "nat \<Rightarrow> sc_fn \<Rightarrow> sched \<Rightarrow> sched option" where
  "scheduler_set_continuation tid next_task s =
     (case tl_current_task s tid of None \<Rightarrow> None
      | Some t \<Rightarrow> Some (upd_task t (task_fn_update (\<lambda>_. Some next_task)) s))"

section \<open>Well-formed states\<close>

abbreviation avail :: "sched \<Rightarrow> task_ref set" where
  "avail s \<equiv> pool_avail global_task_capacity (pool s)"

abbreviation obtainable :: "nat \<Rightarrow> sched \<Rightarrow> nat" where
  "obtainable tid s \<equiv> acquirable global_task_capacity tid (pool s)"

definition worker_ok :: "task_ref sc_worker \<Rightarrow> bool" where
  "worker_ok w \<longleftrightarrow> rb_inv w \<and> deque_inv (cl_deque w)"

definition sched_wf :: "sched \<Rightarrow> bool" where
  "sched_wf s \<longleftrightarrow> pool_wf global_task_capacity (pool s)
     \<and> (\<forall>ws. worker_pool s = Some ws \<longrightarrow>
          length ws = unat (global_worker_count s) \<and> ws \<noteq> [] \<and> (\<forall>w\<in>set ws. worker_ok w))"

lemma walk_cong: "(\<And>t. next_free_idx (a t) = next_free_idx (b t)) \<Longrightarrow> walk n a h = walk n b h"
  by (induction n arbitrary: h) auto

lemma pool_links_only:
  assumes "\<And>t. next_free_idx (a t) = next_free_idx (global_task_array p t)"
  shows "pool_free cap (p\<lparr>global_task_array := a\<rparr>) = pool_free cap p"
    and "pool_wf cap (p\<lparr>global_task_array := a\<rparr>) = pool_wf cap p"
    and "pool_avail cap (p\<lparr>global_task_array := a\<rparr>) = pool_avail cap p"
proof -
  show free: "pool_free cap (p\<lparr>global_task_array := a\<rparr>) = pool_free cap p"
    using walk_cong [of a "global_task_array p"] assms by (simp add: pool_free_def)
  have "free_chain a h ts = free_chain (global_task_array p) h ts" for h ts
    by (rule free_chain_cong) (rule assms)
  with free show "pool_wf cap (p\<lparr>global_task_array := a\<rparr>) = pool_wf cap p"
    by (simp add: pool_wf_def free_ok_def)
  show "pool_avail cap (p\<lparr>global_task_array := a\<rparr>) = pool_avail cap p"
    by (simp add: pool_avail_def free)
qed

lemma upd_task_simps [simp]:
  "jobs (upd_task t f s) = jobs s" "worker_pool (upd_task t f s) = worker_pool s"
  "global_worker_count (upd_task t f s) = global_worker_count s" "rr_worker_index (upd_task t f s) = rr_worker_index s"
  "tl_current_task (upd_task t f s) = tl_current_task s" "calls (upd_task t f s) = calls s"
  "task_at (upd_task t f s) u = (if u = t then f (task_at s t) else task_at s u)"
  "task_cache (pool (upd_task t f s)) = task_cache (pool s)"
  by (auto simp: upd_task_def task_at_def)

lemma upd_task_pool:
  assumes "\<And>x. next_free_idx (f x) = next_free_idx x"
  shows "sched_wf (upd_task t f s) = sched_wf s" and "avail (upd_task t f s) = avail s"
    and "pool_wf cap (pool (upd_task t f s)) = pool_wf cap (pool s)"
    and "obtainable tid (upd_task t f s) = obtainable tid s"
proof -
  have "next_free_idx (((global_task_array (pool s))(t := f (task_at s t))) u) = next_free_idx (global_task_array (pool s) u)" for u
    using assms by (simp add: task_at_def)
  note * = pool_links_only [OF this]
  show "sched_wf (upd_task t f s) = sched_wf s" by (simp add: sched_wf_def) (simp add: upd_task_def *)
  show "avail (upd_task t f s) = avail s" "pool_wf cap (pool (upd_task t f s)) = pool_wf cap (pool s)"
    "obtainable tid (upd_task t f s) = obtainable tid s"
    by (simp_all add: upd_task_def acquirable_def *)
qed

lemma acquire_sched:
  assumes "sched_wf s" and "acquire tid s = (r, s')"
  shows "sched_wf s'" and "s' = s\<lparr>pool := pool s'\<rparr>" and "task_at s' = task_at s"
    and "r = None \<Longrightarrow> s' = s"
    and "r = Some t \<Longrightarrow> t \<in> avail s \<and> avail s' = avail s - {t} \<and> t < global_task_capacity"
proof -
  obtain p where p: "memory_pool_acquire tid (pool s) = (r, p)" "s' = s\<lparr>pool := p\<rparr>"
    using assms(2) by (cases "memory_pool_acquire tid (pool s)") (simp add: acquire_def)
  have "pool_wf global_task_capacity (pool s)" using assms(1) by (simp add: sched_wf_def)
  note * = acquire_result [OF this p(1)]
  show "sched_wf s'" using assms(1) * p(2) by (simp add: sched_wf_def)
  show "s' = s\<lparr>pool := pool s'\<rparr>" using p(2) by simp
  show "task_at s' = task_at s" using * p(2) by (intro ext) (simp add: task_at_def)
  show "r = None \<Longrightarrow> s' = s" using * p(2) by simp
  show "r = Some t \<Longrightarrow> t \<in> avail s \<and> avail s' = avail s - {t} \<and> t < global_task_capacity" using * p(2) by simp
qed

lemma acquire_obtainable:
  assumes "sched_wf s" and "acquire tid s = (r, s')"
  shows "r = None \<longleftrightarrow> obtainable tid s = 0" and "obtainable tid s' = obtainable tid s - 1"
proof -
  obtain p where p: "memory_pool_acquire tid (pool s) = (r, p)" "s' = s\<lparr>pool := p\<rparr>"
    using assms(2) by (cases "memory_pool_acquire tid (pool s)") (simp add: acquire_def)
  have "pool_wf global_task_capacity (pool s)" using assms(1) by (simp add: sched_wf_def)
  from acquire_acquirable [OF this p(1)] p(2)
  show "r = None \<longleftrightarrow> obtainable tid s = 0" "obtainable tid s' = obtainable tid s - 1" by simp_all
qed

lemma release_sched:
  assumes "sched_wf s" and "t < global_task_capacity" and "t \<notin> avail s"
  shows "sched_wf (release tid t s)" and "avail (release tid t s) = insert t (avail s)"
    and "release tid t s = s\<lparr>pool := pool (release tid t s)\<rparr>"
    and "(task_at (release tid t s) u)\<lparr>next_free_idx := 0\<rparr> = (task_at s u)\<lparr>next_free_idx := 0\<rparr>"
proof -
  have "pool_wf global_task_capacity (pool s)" using assms(1) by (simp add: sched_wf_def)
  note * = release_result [OF this assms(2,3) refl, of tid]
  show "sched_wf (release tid t s)" using assms(1) * by (simp add: sched_wf_def release_def)
  show "avail (release tid t s) = insert t (avail s)" using * by (simp add: release_def)
  show "release tid t s = s\<lparr>pool := pool (release tid t s)\<rparr>" by (simp add: release_def)
  show "(task_at (release tid t s) u)\<lparr>next_free_idx := 0\<rparr> = (task_at s u)\<lparr>next_free_idx := 0\<rparr>"
    using * by (simp add: release_def task_at_def)
qed

lemma task_makers_link [simp]:
  "next_free_idx (root_task j job t) = next_free_idx t" "next_free_idx (splitter_task j job r t) = next_free_idx t"
  by (simp_all add: root_task_def splitter_task_def)

section \<open>Submission is all or nothing\<close>

definition rings :: "sched \<Rightarrow> task_ref list list" where
  "rings s = (case worker_pool s of None \<Rightarrow> [] | Some ws \<Rightarrow> map rb_items ws)"

definition rings_bounded :: "sched \<Rightarrow> bool" where
  "rings_bounded s \<longleftrightarrow> (\<forall>ws. worker_pool s = Some ws \<longrightarrow> (\<forall>w\<in>set ws. unat (rb_tail w) < 2 ^ 64 - 1))"

lemma push_deque_same: "cl_deque (snd (spmc_producer_push w x)) = cl_deque w"
  by (simp add: spmc_producer_push_def Let_def)

lemma ring_push_ok:
  assumes "i < length ws" and "\<forall>w\<in>set ws. worker_ok w" and "unat (rb_tail (ws ! i)) < 2 ^ 64 - 1"
    and "ring_push i t ws = (ok, ws')"
  shows "length ws' = length ws" and "\<forall>w\<in>set ws'. worker_ok w"
    and "map rb_items ws' = (if ok then (map rb_items ws)[i := rb_items (ws ! i) @ [t]] else map rb_items ws)"
    and "ok \<longleftrightarrow> length (rb_items (ws ! i)) < rb_capacity (ws ! i)"
proof -
  have "worker_ok (ws ! i)" using assms(1,2) by simp
  then have inv: "rb_inv (ws ! i)" and d: "deque_inv (cl_deque (ws ! i))" by (simp_all add: worker_ok_def)
  note push = rb_push [OF inv assms(3) refl, of t]
  have ws': "ws' = ws[i := snd (spmc_producer_push (ws ! i) t)]" and ok: "ok = fst (spmc_producer_push (ws ! i) t)"
    using assms(4) by (auto simp: ring_push_def split: prod.splits)
  show "length ws' = length ws" by (simp add: ws')
  have "worker_ok (snd (spmc_producer_push (ws ! i) t))"
    using push(3) d by (simp add: worker_ok_def push_deque_same)
  then show "\<forall>w\<in>set ws'. worker_ok w" using assms(2) ws' by (auto dest: set_update_subset_insert [THEN subsetD])
  show "ok \<longleftrightarrow> length (rb_items (ws ! i)) < rb_capacity (ws ! i)" using push(1) ok by simp
  then show "map rb_items ws' = (if ok then (map rb_items ws)[i := rb_items (ws ! i) @ [t]] else map rb_items ws)"
    using push(2) assms(1) by (auto simp: ws' map_update list_update_same_conv)
qed

text \<open>What a submission that succeeds and one that fails leave behind.\<close>

definition submitted :: "job_ref \<Rightarrow> sched \<Rightarrow> sched \<Rightarrow> bool" where
  "submitted j s s' \<longleftrightarrow> (\<exists>root child i. root \<noteq> child \<and> {root, child} \<subseteq> avail s \<and> avail s' = avail s - {root, child}
     \<and> (\<exists>t. task_at s' root = root_task j (jobs s' j) t) \<and> (\<exists>t. task_at s' child = splitter_task j (jobs s' j) root t)
     \<and> i < length (rings s) \<and> rings s' = (rings s)[i := rings s ! i @ [child]])"

definition rejected :: "sched \<Rightarrow> sched \<Rightarrow> bool" where
  "rejected s s' \<longleftrightarrow> avail s' = avail s \<and> rings s' = rings s"

lemma submit_no_pool:
  "worker_pool s = None \<Longrightarrow> scheduler_submit_job tid j chunk s =
     (False, s\<lparr>jobs := (jobs s)(j := (jobs s j)\<lparr>chunk_size := normal_chunk (jobs s j) chunk\<rparr>)\<rparr>)"
  by (simp add: scheduler_submit_job_def Let_def)

lemma sched_wf_jobs [simp]: "sched_wf (s\<lparr>jobs := f\<rparr>) = sched_wf s" and sched_wf_rr [simp]: "sched_wf (s\<lparr>rr_worker_index := i\<rparr>) = sched_wf s"
  by (simp_all add: sched_wf_def)

text \<open>The worker whose turn it is, and whether its ring has room.\<close>

definition target_room :: "sched \<Rightarrow> bool" where
  "target_room s \<longleftrightarrow> (case worker_pool s of None \<Rightarrow> False
     | Some ws \<Rightarrow> let w = ws ! unat (rr_worker_index s mod global_worker_count s) in length (rb_items w) < rb_capacity w)"

lemma submit_push:
  assumes wf: "sched_wf s" and ws: "worker_pool s = Some ws" and bound: "rings_bounded s"
    and tasks: "root < global_task_capacity" "child < global_task_capacity" "root \<noteq> child" "root \<notin> avail s" "child \<notin> avail s"
    and s': "s' = (case ring_push (unat (rr_worker_index s mod global_worker_count s)) child ws of (ok, ws') \<Rightarrow>
       (let s = s\<lparr>rr_worker_index := rr_worker_index s + 1, worker_pool := Some ws'\<rparr>
        in if ok then (True, s) else (False, release tid child (release tid root s))))"
  shows "sched_wf (snd s')"
    and "fst s' \<Longrightarrow> avail (snd s') = avail s \<and> task_at (snd s') = task_at s
       \<and> (\<exists>i. i < length (rings s) \<and> rings (snd s') = (rings s)[i := rings s ! i @ [child]])"
    and "\<not> fst s' \<Longrightarrow> avail (snd s') = insert root (insert child (avail s)) \<and> rings (snd s') = rings s"
    and "jobs (snd s') = jobs s" and "fst s' \<longleftrightarrow> target_room s"
proof -
  let ?i = "unat (rr_worker_index s mod global_worker_count s)"
  have len: "length ws = unat (global_worker_count s)" "ws \<noteq> []" and ok: "\<forall>w\<in>set ws. worker_ok w"
    using wf ws by (auto simp: sched_wf_def)
  then have "0 < unat (global_worker_count s)" by (metis length_greater_0_conv)
  with len have i: "?i < length ws" by (simp add: unat_mod)
  have tail: "unat (rb_tail (ws ! ?i)) < 2 ^ 64 - 1"
    using bound ws i by (simp add: rings_bounded_def)
  obtain b ws' where push: "ring_push ?i child ws = (b, ws')" by (cases "ring_push ?i child ws")
  note * = ring_push_ok [OF i ok tail push]
  let ?s = "s\<lparr>rr_worker_index := rr_worker_index s + 1, worker_pool := Some ws'\<rparr>"
  have wf': "sched_wf ?s" using wf * len by (auto simp: sched_wf_def)
  have new: "root \<notin> avail ?s" "child \<notin> avail ?s" using tasks by simp_all
  note r1 = release_sched [OF wf' tasks(1) new(1), of tid]
  have new2: "child \<notin> avail (release tid root ?s)" using r1(2) tasks(3) new(2) by auto
  note r2 = release_sched [OF r1(1) tasks(2) new2, of tid]
  have s'_eq: "s' = (if b then (True, ?s) else (False, release tid child (release tid root ?s)))"
    using s' push by simp
  show "sched_wf (snd s')" using s'_eq wf' r2(1) by simp
  have pool: "worker_pool (release tid child (release tid root ?s)) = Some ws'"
    by (simp add: release_def)
  show "jobs (snd s') = jobs s" using s'_eq by (simp add: release_def)
  show "fst s' \<longleftrightarrow> target_room s" using s'_eq *(4) ws by (simp add: target_room_def Let_def)
  show "avail (snd s') = avail s \<and> task_at (snd s') = task_at s
       \<and> (\<exists>i. i < length (rings s) \<and> rings (snd s') = (rings s)[i := rings s ! i @ [child]])" if "fst s'"
  proof -
    have b: "b" using that s'_eq by (auto split: if_splits)
    then have "rings (snd s') = (rings s)[?i := rings s ! ?i @ [child]]"
      using s'_eq *(3) ws i by (simp add: rings_def)
    moreover have "?i < length (rings s)" using i ws by (simp add: rings_def)
    ultimately show ?thesis using b s'_eq by (auto simp: task_at_def)
  qed
  show "avail (snd s') = insert root (insert child (avail s)) \<and> rings (snd s') = rings s" if "\<not> fst s'"
  proof -
    have b: "\<not> b" using that s'_eq by (auto split: if_splits)
    then have "rings (snd s') = rings s" using s'_eq *(3) pool ws by (simp add: rings_def)
    moreover have "avail (snd s') = insert root (insert child (avail s))" using b s'_eq r1(2) r2(2) by auto
    ultimately show ?thesis by simp
  qed
qed

abbreviation with_chunk :: "job_ref \<Rightarrow> size_t \<Rightarrow> sched \<Rightarrow> sched" where
  "with_chunk j chunk s \<equiv> s\<lparr>jobs := (jobs s)(j := (jobs s j)\<lparr>chunk_size := normal_chunk (jobs s j) chunk\<rparr>)\<rparr>"

text \<open>What a submission does, by what the two acquisitions return.\<close>

definition submit_outcome :: "nat \<Rightarrow> job_ref \<Rightarrow> size_t \<Rightarrow> sched \<Rightarrow> bool \<Rightarrow> sched \<Rightarrow> bool" where
  "submit_outcome tid j chunk s ok s' \<longleftrightarrow> sched_wf s' \<and> jobs s' = jobs (with_chunk j chunk s)
     \<and> (if ok then submitted j s s' else rejected s s')
     \<and> (ok \<longleftrightarrow> worker_pool s \<noteq> None \<and> 2 \<le> obtainable tid s \<and> target_room s)"

lemma submit_no_root:
  assumes "sched_wf s" and "worker_pool s = Some ws" and "acquire tid (with_chunk j chunk s) = (None, s1)"
    and "scheduler_submit_job tid j chunk s = (ok, s')"
  shows "submit_outcome tid j chunk s ok s'"
proof -
  have wf0: "sched_wf (with_chunk j chunk s)" using assms(1) by simp
  show ?thesis
    using acquire_sched(4) [OF wf0 assms(3)] acquire_obtainable(1) [OF wf0 assms(3)] assms wf0
    by (auto simp: scheduler_submit_job_def Let_def rejected_def rings_def submit_outcome_def)
qed

text \<open>The state once the root task is filled in.\<close>

lemma submit_root:
  assumes "sched_wf s" and "worker_pool s = Some ws" and "acquire tid (with_chunk j chunk s) = (Some root, s1)"
  defines "s2 \<equiv> upd_task root (root_task j (jobs s1 j)) s1"
  shows "sched_wf s2" "avail s2 = avail s - {root}" "root \<in> avail s" "root < global_task_capacity"
    and "worker_pool s2 = Some ws" "jobs s2 = jobs (with_chunk j chunk s)" "global_worker_count s2 = global_worker_count s"
      "rr_worker_index s2 = rr_worker_index s" "obtainable tid s2 = obtainable tid s - 1" "0 < obtainable tid s"
    and "task_at s2 root = root_task j (jobs s2 j) (task_at s root)"
proof -
  have wf0: "sched_wf (with_chunk j chunk s)" using assms(1) by simp
  note A = acquire_sched [OF wf0 assms(3)]
  have same: "worker_pool s1 = Some ws" "jobs s1 = jobs (with_chunk j chunk s)" "global_worker_count s1 = global_worker_count s"
    "rr_worker_index s1 = rr_worker_index s"
    using assms(2) by (subst A(2), simp)+
  then show "worker_pool s2 = Some ws" "jobs s2 = jobs (with_chunk j chunk s)" "global_worker_count s2 = global_worker_count s"
    "rr_worker_index s2 = rr_worker_index s"
    by (simp_all add: s2_def)
  show "sched_wf s2" "avail s2 = avail s - {root}" "root \<in> avail s" "root < global_task_capacity"
    using A(1) A(5) [OF refl] by (simp_all add: s2_def upd_task_pool)
  show "obtainable tid s2 = obtainable tid s - 1" "0 < obtainable tid s"
    using acquire_obtainable [OF wf0 assms(3)] by (simp_all add: s2_def upd_task_pool(4))
  show "task_at s2 root = root_task j (jobs s2 j) (task_at s root)"
    using A(3) same by (simp add: s2_def) (simp add: task_at_def)
qed

lemma submit_no_child:
  assumes "sched_wf s" and "worker_pool s = Some ws" and "acquire tid (with_chunk j chunk s) = (Some root, s1)"
    and "acquire tid (upd_task root (root_task j (jobs s1 j)) s1) = (None, s3)"
    and "scheduler_submit_job tid j chunk s = (ok, s')"
  shows "submit_outcome tid j chunk s ok s'"
proof -
  note S = submit_root [OF assms(1-3)]
  have s3: "s3 = upd_task root (root_task j (jobs s1 j)) s1" using acquire_sched(4) [OF S(1) assms(4)] by simp
  have "root \<notin> avail s3" using S(2) s3 by simp
  note R = release_sched [OF S(1) [folded s3] S(4) this, of tid]
  have res: "ok = False" "s' = release tid root s3"
    using assms(2-5) by (simp_all add: scheduler_submit_job_def Let_def)
  have "worker_pool s' = Some ws" "jobs s' = jobs (with_chunk j chunk s)"
    unfolding res using S(5,6) s3 by (subst R(3), simp)+
  then show ?thesis
    using R(1,2) S(2,3) s3 assms(2) res acquire_obtainable(1) [OF S(1) assms(4)] S(9)
    by (auto simp: rejected_def rings_def submit_outcome_def)
qed

lemma submit_pushed:
  assumes "sched_wf s" and "rings_bounded s" and "worker_pool s = Some ws" and "acquire tid (with_chunk j chunk s) = (Some root, s1)"
    and "acquire tid (upd_task root (root_task j (jobs s1 j)) s1) = (Some child, s3)"
    and "scheduler_submit_job tid j chunk s = (ok, s')"
  shows "submit_outcome tid j chunk s ok s'"
proof -
  note S = submit_root [OF assms(1,3,4)]
  note B = acquire_sched [OF S(1) assms(5)]
  let ?s4 = "upd_task child (splitter_task j (jobs s3 j) root) s3"
  have wf4: "sched_wf ?s4" and av4: "avail ?s4 = avail s3" using B(1) by (simp_all add: upd_task_pool)
  have child: "child \<in> avail s - {root}" "avail s3 = avail s - {root} - {child}" "child < global_task_capacity"
    using B(5) [OF refl] S(2) by auto
  have same3: "worker_pool s3 = Some ws" "jobs s3 = jobs (with_chunk j chunk s)" "rr_worker_index s3 = rr_worker_index s"
    "global_worker_count s3 = global_worker_count s"
    using S(5-8) by (subst B(2), simp)+
  have bound: "rings_bounded ?s4" using assms(2,3) same3 by (simp add: rings_bounded_def)
  have rings4: "rings ?s4 = rings s" using assms(3) same3 by (simp add: rings_def)
  have ne: "root \<noteq> child" and notin: "root \<notin> avail ?s4" "child \<notin> avail ?s4" using av4 child by auto
  have eq: "(ok, s') = (case ring_push (unat (rr_worker_index ?s4 mod global_worker_count ?s4)) child ws of (ok, ws') \<Rightarrow>
     (let s = ?s4\<lparr>rr_worker_index := rr_worker_index ?s4 + 1, worker_pool := Some ws'\<rparr>
      in if ok then (True, s) else (False, release tid child (release tid root s))))"
    using assms(3-6) by (auto simp: scheduler_submit_job_def Let_def split: prod.splits)
  have wp4: "worker_pool ?s4 = Some ws" using same3 by simp
  note P = submit_push [OF wf4 wp4 bound S(4) child(3) ne notin eq]
  have jobs': "jobs s' = jobs (with_chunk j chunk s)" using P(4) same3 by simp
  have "2 \<le> obtainable tid s" using acquire_obtainable(1) [OF S(1) assms(5)] S(9) by auto
  then have room: "ok \<longleftrightarrow> worker_pool s \<noteq> None \<and> 2 \<le> obtainable tid s \<and> target_room s"
    using P(5) assms(3) same3 by (auto simp: target_room_def)
  have "submitted j s s'" if "ok"
  proof -
    from P(2) that obtain i where i: "i < length (rings s)" "rings s' = (rings s)[i := rings s ! i @ [child]]"
      and av: "avail s' = avail ?s4" and tk: "task_at s' = task_at ?s4" unfolding rings4 by auto
    have "task_at s' root = root_task j (jobs s' j) (task_at s root)"
      using tk ne B(3) S(6,11) jobs' by simp
    moreover have "task_at s' child = splitter_task j (jobs s' j) root (task_at s3 child)"
      using tk same3 jobs' by simp
    ultimately show ?thesis
      unfolding submitted_def using ne i child S(3) av av4
      by - (rule exI [of _ root], rule exI [of _ child], rule exI [of _ i], auto)
  qed
  moreover have "rejected s s'" if "\<not> ok" using P(3) that rings4 av4 child S(3) by (auto simp: rejected_def)
  ultimately show ?thesis using P(1) jobs' room by (simp add: submit_outcome_def)
qed

lemma submit_result:
  assumes "sched_wf s" and "rings_bounded s" and "scheduler_submit_job tid j chunk s = (ok, s')"
  shows "submit_outcome tid j chunk s ok s'"
proof (cases "worker_pool s")
  case None
  with assms(1,3) show ?thesis by (auto simp: submit_no_pool rejected_def rings_def submit_outcome_def)
next
  case (Some ws)
  obtain r1 s1 where a1: "acquire tid (with_chunk j chunk s) = (r1, s1)" by (cases "acquire tid (with_chunk j chunk s)")
  show ?thesis
  proof (cases r1)
    case None
    with submit_no_root [OF assms(1) Some _ assms(3)] a1 show ?thesis by simp
  next
    case (Some root)
    obtain r3 s3 where "acquire tid (upd_task root (root_task j (jobs s1 j)) s1) = (r3, s3)"
      by (cases "acquire tid (upd_task root (root_task j (jobs s1 j)) s1)")
    with a1 Some show ?thesis
      using submit_no_child [OF assms(1) \<open>worker_pool s = Some ws\<close> _ _ assms(3)]
        submit_pushed [OF assms(1,2) \<open>worker_pool s = Some ws\<close> _ _ assms(3)]
      by (cases r3) simp_all
  qed
qed

text \<open>
  C19: \<open>scheduler_submit_job\<close> is all or nothing. When it returns true, two tasks have left the pool: a
  root task that will run \<open>hooked_job_finish_task\<close> and waits for one child, and that child, a splitter
  task over the whole payload, which is now the last task of one worker's ring. When it returns false
  no task has left the pool and no ring has changed. It returns true exactly when the workers are
  booted, the calling thread can obtain two tasks, and the ring of the worker whose turn it is has
  room. In every case the job's chunk size is the requested one, or the default when the request is 0
  or above the payload, and nothing else of any job has changed, its state included.
\<close>

theorem scheduler_submit_job_correct:
  assumes "sched_wf s" and "rings_bounded s" and "scheduler_submit_job tid j chunk s = (ok, s')"
  shows "sched_wf s' \<and> jobs s' = (jobs s)(j := (jobs s j)\<lparr>chunk_size := normal_chunk (jobs s j) chunk\<rparr>)
    \<and> (if ok then submitted j s s' else rejected s s')
    \<and> (ok \<longleftrightarrow> worker_pool s \<noteq> None \<and> 2 \<le> obtainable tid s \<and> target_room s)"
  using submit_result [OF assms] by (simp add: submit_outcome_def)

section \<open>Boot\<close>

lemma boot_free_list:
  assumes "0 < cap" and "cap < 2 ^ 32"
  shows "pool_free cap (init_task_pool cap p) = [0..<cap]"
proof (rule free_ok_walk [OF _ assms(2)])
  show "free_ok cap (init_task_pool cap p) [0..<cap]"
    using fold_init_chain [OF assms(2,1), of "global_task_array p"]
    by (auto simp: free_ok_def init_task_pool_def)
qed

lemma boot_result:
  assumes "unat sq \<le> 2 ^ 60" and "unat dq \<le> 2 ^ 60" and "\<And>i b. ad i b \<noteq> None" and "\<And>i b. ar i b \<noteq> None"
    and "at (word_of_nat global_task_capacity * 64) = Some a" and "ap (boot_worker_count cpus * 384) = Some ws0"
    and "length ws0 = unat (boot_worker_count cpus)"
  shows "\<exists>s' ws. scheduler_boot cpus at ap ad ar sq dq s = Some s' \<and> worker_pool s' = Some ws
     \<and> length ws = unat (boot_worker_count cpus) \<and> (\<forall>i<length ws. fresh_worker sq dq i (ws ! i))
     \<and> s' = s\<lparr>global_worker_count := boot_worker_count cpus, task_array_allocated := True, worker_pool := Some ws,
             pool := init_task_pool global_task_capacity ((pool s)\<lparr>global_task_array := a\<rparr>)\<rparr>"
proof -
  obtain ws where ws: "init_workers ad ar sq dq 0 ws0 = Some ws" "length ws = length ws0"
      "\<forall>j<length ws0. fresh_worker sq dq (0 + j) (ws ! j)"
    using init_workers_fresh [OF assms(1,2), of ad ar 0 ws0] assms(3,4) by blast
  then have "allocate_worker_pool ap ad ar (boot_worker_count cpus) sq dq = Some ws"
    using assms(6,7) by (simp add: allocate_worker_pool_def)
  with ws assms(5,7) show ?thesis by (simp add: scheduler_boot_def Let_def)
qed

lemma boot_worker_pos: "0 < unat (boot_worker_count cpus)"
proof -
  have "boot_worker_count cpus \<noteq> 0" by (auto simp: boot_worker_count_def)
  then show ?thesis by (simp add: unat_gt_0)
qed

text \<open>
  C37: when no allocation fails and no thread has tasks cached, \<open>scheduler_boot\<close> establishes the
  scheduler's invariant: at least one worker, one per processor otherwise, with empty deques and
  empty rings, and all 65536 tasks free.
\<close>

theorem scheduler_boot_correct:
  assumes "unat sq \<le> 2 ^ 60" and "unat dq \<le> 2 ^ 60" and "\<And>i b. ad i b \<noteq> None" and "\<And>i b. ar i b \<noteq> None"
    and "at (word_of_nat global_task_capacity * 64) = Some a" and "ap (boot_worker_count cpus * 384) = Some ws0"
    and "length ws0 = unat (boot_worker_count cpus)" and "\<And>tid. task_cache (pool s) tid = []"
  shows "\<exists>s'. scheduler_boot cpus at ap ad ar sq dq s = Some s' \<and> sched_wf s' \<and> avail s' = {..<global_task_capacity}
     \<and> rings s' = replicate (unat (boot_worker_count cpus)) [] \<and> jobs s' = jobs s"
proof -
  obtain s' ws where boot: "scheduler_boot cpus at ap ad ar sq dq s = Some s'" and wp: "worker_pool s' = Some ws"
    and len: "length ws = unat (boot_worker_count cpus)" and fresh: "\<forall>i<length ws. fresh_worker sq dq i (ws ! i)"
    and s': "s' = s\<lparr>global_worker_count := boot_worker_count cpus, task_array_allocated := True, worker_pool := Some ws,
             pool := init_task_pool global_task_capacity ((pool s)\<lparr>global_task_array := a\<rparr>)\<rparr>"
    using boot_result [of sq dq ad ar "at" a ap cpus ws0 s] assms(1-7) by blast
  have ok: "worker_ok w \<and> rb_items w = []" if "w \<in> set ws" for w
    using that fresh by (auto simp: in_set_conv_nth fresh_worker_def worker_ok_def)
  have pool: "pool_wf global_task_capacity (pool s') \<and> avail s' = {..<global_task_capacity}"
    using init_result [of global_task_capacity "(pool s)\<lparr>global_task_array := a\<rparr>"] assms(8)
    by (simp add: s' global_task_capacity_def)
  have "ws \<noteq> []" using len boot_worker_pos [of cpus] by auto
  with ok pool len s' have "sched_wf s'" by (simp add: sched_wf_def)
  moreover have "rings s' = replicate (unat (boot_worker_count cpus)) []"
    using wp ok len by (auto simp: rings_def map_replicate_const [symmetric] intro!: nth_equalityI)
  ultimately show ?thesis using boot pool by (intro exI [of _ s']) (simp add: s')
qed

text \<open>
  C38: \<open>scheduler_stop_workers\<close> and a second \<open>scheduler_boot\<close> leave the cache of the calling thread as it
  was: a task that a failed submission returned to that cache is handed out again from the old array,
  although the same index is also on the new free list.
\<close>

theorem restart_keeps_stale_cache:
  assumes "worker_pool s = Some ws" and "unat (global_worker_count s) \<le> tid" and "task_cache (pool s) tid = c @ [t]"
    and "scheduler_boot cpus at ap ad ar sq dq (scheduler_stop_workers s) = Some s'" and "t < global_task_capacity"
  shows "fst (acquire tid s') = Some t \<and> t \<in> set (pool_free global_task_capacity (pool (snd (acquire tid s'))))
    \<and> \<not> task_array_allocated (scheduler_stop_workers s)"
proof -
  obtain a where p: "pool s' = init_task_pool global_task_capacity ((pool (scheduler_stop_workers s))\<lparr>global_task_array := a\<rparr>)"
    using assms(4) by (auto simp: scheduler_boot_def Let_def split: option.splits)
  have cache: "task_cache (pool s') tid = c @ [t]"
    using assms(1,2,3) by (simp add: p init_task_pool_def scheduler_stop_workers_def)
  have acq: "memory_pool_acquire tid (pool s') = (Some t, (pool s')\<lparr>task_cache := (task_cache (pool s'))(tid := c)\<rparr>)"
    by (simp add: memory_pool_acquire_def cache)
  have "pool_free global_task_capacity (pool s') = [0..<global_task_capacity]"
    unfolding p by (rule boot_free_list) (simp_all add: global_task_capacity_def)
  then have "pool_free global_task_capacity (pool (snd (acquire tid s'))) = [0..<global_task_capacity]"
    by (simp add: acquire_def acq pool_free_def)
  then show ?thesis using assms(1,5) by (simp add: acquire_def acq scheduler_stop_workers_def)
qed

text \<open>A machine with one processor, before boot and after it.\<close>

definition unbooted :: sched where
  "unbooted = \<lparr>pool = empty_pool, task_array_allocated = False, worker_pool = None, global_worker_count = 0,
     rr_worker_index = 0, jobs = (\<lambda>_. \<lparr>job_state = JOB_STATE_RUNNING, job_payload = UserPtr 0, payload_size = 1000,
       chunk_size = 0, job_function = UserFn 0\<rparr>), tl_current_task = (\<lambda>_. None), calls = []\<rparr>"

definition raw_worker :: "task_ref sc_worker" where
  "raw_worker = sample_ring"

abbreviation boot_one :: "sched \<Rightarrow> sched option" where
  "boot_one s \<equiv> scheduler_boot 1 (\<lambda>_. Some (global_task_array empty_pool)) (\<lambda>_. Some [raw_worker])
     (\<lambda>_ _. Some (\<lambda>_. 0)) (\<lambda>_ _. Some (\<lambda>_. 0)) 16 64 s"

definition booted :: sched where
  "booted = the (boot_one unbooted)"

theorem scheduler_boot_correct_witness:
  "\<exists>s'. boot_one unbooted = Some s' \<and> sched_wf s' \<and> avail s' = {..<global_task_capacity} \<and> rings s' = [[]]"
proof -
  have "boot_worker_count 1 = 1" by (simp add: boot_worker_count_def)
  then show ?thesis
    using scheduler_boot_correct [of 16 64 "\<lambda>_ _. Some (\<lambda>_. 0)" "\<lambda>_ _. Some (\<lambda>_. 0)"
        "\<lambda>_. Some (global_task_array empty_pool)" "global_task_array empty_pool" "\<lambda>_. Some [raw_worker]" 1 "[raw_worker]" unbooted]
    by (auto simp: unbooted_def empty_pool_def)
qed

lemma booted_facts:
  "boot_one unbooted = Some booted" "sched_wf booted" "avail booted = {..<global_task_capacity}" "rings booted = [[]]"
  "rings_bounded booted" "obtainable tid booted = global_task_capacity" "target_room booted"
  "jobs booted = jobs unbooted" "global_worker_count booted = 1"
  "\<exists>w. worker_pool booted = Some [w] \<and> fresh_worker 16 64 0 w"
proof -
  have one: "boot_worker_count 1 = 1" by (simp add: boot_worker_count_def)
  obtain s ws where b: "boot_one unbooted = Some s" "worker_pool s = Some ws" "length ws = 1"
      "fresh_worker 16 64 0 (ws ! 0)" and s: "s = unbooted\<lparr>global_worker_count := boot_worker_count 1, task_array_allocated := True,
        worker_pool := Some ws, pool := init_task_pool global_task_capacity ((pool unbooted)\<lparr>global_task_array := global_task_array empty_pool\<rparr>)\<rparr>"
    using boot_result [of 16 64 "\<lambda>_ _. Some (\<lambda>_. 0)" "\<lambda>_ _. Some (\<lambda>_. 0)"
        "\<lambda>_. Some (global_task_array empty_pool)" "global_task_array empty_pool" "\<lambda>_. Some [raw_worker]" 1 "[raw_worker]" unbooted]
    by (auto simp: one)
  then have eq: "booted = s" by (simp add: booted_def)
  then obtain w where ws: "ws = [w]" using b(3) by (cases ws) auto
  with b(4) have w: "worker_ok w" "rb_items w = []" "16 \<le> rb_capacity w" by (simp_all add: fresh_worker_def worker_ok_def)
  show "boot_one unbooted = Some booted" using b eq by simp
  have pool: "pool_wf global_task_capacity (pool s) \<and> avail s = {..<global_task_capacity}
      \<and> pool_free global_task_capacity (pool s) = [0..<global_task_capacity]"
    using init_result [of global_task_capacity "(pool unbooted)\<lparr>global_task_array := global_task_array empty_pool\<rparr>"]
    by (simp add: s unbooted_def empty_pool_def global_task_capacity_def)
  show "sched_wf booted" using pool w by (simp add: eq sched_wf_def b(2) ws) (simp add: s one)
  show "avail booted = {..<global_task_capacity}" using pool eq by simp
  show "rings booted = [[]]" using w by (simp add: eq rings_def b(2) ws)
  have "rb_tail w = 0" using b(4) ws by (simp add: fresh_worker_def)
  then show "rings_bounded booted" by (simp add: eq rings_bounded_def b(2) ws)
  show "obtainable tid booted = global_task_capacity"
    using pool by (simp add: eq acquirable_def) (simp add: s init_task_pool_def unbooted_def empty_pool_def)
  show "target_room booted"
    using w by (simp add: eq target_room_def b(2) ws) (simp add: s one unbooted_def)
  show "jobs booted = jobs unbooted" "global_worker_count booted = 1" by (simp_all add: eq s one)
  show "\<exists>w. worker_pool booted = Some [w] \<and> fresh_worker 16 64 0 w" using b(2,4) ws eq by simp
qed

theorem scheduler_submit_job_correct_witness:
  "fst (scheduler_submit_job 1 0 64 booted) \<and> submitted 0 booted (snd (scheduler_submit_job 1 0 64 booted))"
  using scheduler_submit_job_correct [OF booted_facts(2,5) prod.collapse [symmetric], of 1 0 64]
    booted_facts(6) [of 1] booted_facts(7)
  by (auto simp: global_task_capacity_def target_room_def split: option.splits if_splits)

theorem restart_keeps_stale_cache_witness:
  "\<exists>s'. boot_one (scheduler_stop_workers (booted\<lparr>pool := (pool booted)\<lparr>task_cache := (\<lambda>_. [])(1 := [7])\<rparr>\<rparr>)) = Some s'
     \<and> fst (acquire 1 s') = Some 7 \<and> 7 \<in> set (pool_free global_task_capacity (pool (snd (acquire 1 s'))))"
proof -
  let ?s = "booted\<lparr>pool := (pool booted)\<lparr>task_cache := (\<lambda>_. [])(1 := [7])\<rparr>\<rparr>"
  have one: "boot_worker_count 1 = 1" by (simp add: boot_worker_count_def)
  obtain ws where ws: "worker_pool ?s = Some ws" using booted_facts(7) by (auto simp: target_room_def split: option.splits)
  have count: "global_worker_count ?s = 1" by (simp add: booted_facts(9))
  obtain s' where s': "boot_one (scheduler_stop_workers ?s) = Some s'"
    using boot_result [of 16 64 "\<lambda>_ _. Some (\<lambda>_. 0)" "\<lambda>_ _. Some (\<lambda>_. 0)"
        "\<lambda>_. Some (global_task_array empty_pool)" "global_task_array empty_pool" "\<lambda>_. Some [raw_worker]" 1 "[raw_worker]"]
    by (auto simp: one)
  from restart_keeps_stale_cache [OF ws _ _ s', of 1 "[]" 7] count s' show ?thesis
    by (auto simp: global_task_capacity_def)
qed

end
