(* ===== verification/Splitter.thy ===== *)
theory Splitter
  imports Sched "HOL-Library.Multiset"
begin

text \<open>
  \<open>internal_macro_job_splitter\<close> of \<open>src/sk_worker.c\<close>: the task function that halves its range, pushes the
  right halves and runs the developer's function on what is left. Each call runs here without
  interference from other threads; the state it starts from is arbitrary.
\<close>

section \<open>Developer functions and the worker's own deque\<close>

text \<open>
  What a developer function does to the scheduler's state is a parameter, \<open>dev\<close>; \<open>call_dev\<close> records the
  call before it happens.
\<close>

type_synonym dev = "nat \<Rightarrow> sc_fn \<Rightarrow> ptr \<Rightarrow> size_t \<Rightarrow> size_t \<Rightarrow> sched \<Rightarrow> sched option"

definition call_dev :: "dev \<Rightarrow> nat \<Rightarrow> sc_fn \<Rightarrow> ptr \<Rightarrow> size_t \<Rightarrow> size_t \<Rightarrow> sched \<Rightarrow> sched option" where
  "call_dev dev tid f p a b s = dev tid f p a b (s\<lparr>calls := calls s @ [(f, p, a, b)]\<rparr>)"

text \<open>A function that uses nothing of the scheduler: it works on the developer's data only.\<close>

definition leaf_dev :: "dev \<Rightarrow> bool" where
  "leaf_dev dev \<longleftrightarrow> (\<forall>tid f p a b s. dev tid f p a b s = Some s)"

text \<open>\<open>chase_lev_push(&tl_current_worker->cl_deque, task)\<close>; an application thread has no worker.\<close>

definition deque_push :: "nat \<Rightarrow> task_ref \<Rightarrow> sched \<Rightarrow> (bool \<times> sched) option" where
  "deque_push tid t s =
     (case worker_pool s of
        None \<Rightarrow> None
      | Some ws \<Rightarrow>
          if tid < length ws then
            (case chase_lev_push (cl_deque (ws ! tid)) t of
               (ok, d) \<Rightarrow> Some (ok, s\<lparr>worker_pool := Some (ws[tid := (ws ! tid)\<lparr>cl_deque := d\<rparr>])\<rparr>))
          else None)"

section \<open>The splitter\<close>

definition split_point :: "size_t \<Rightarrow> size_t \<Rightarrow> size_t \<Rightarrow> size_t" where
  "split_point chunk start_idx end_idx =
     (let total_elements = end_idx - start_idx;
          mid_point = start_idx + total_elements div 2;
          remainder = mid_point mod chunk
      in if remainder \<noteq> 0 then mid_point + (chunk - remainder) else mid_point)"

definition right_task :: "ptr \<Rightarrow> size_t \<Rightarrow> size_t \<Rightarrow> task_ref \<Rightarrow> sc_task \<Rightarrow> sc_task" where
  "right_task payload mid_point end_idx parent t = t\<lparr>task_payload := payload, start_inx := mid_point, end_inx := end_idx,
     task_fn := Some SplitterFn, parent_task := Some parent, unfinished_dependencies := 1\<rparr>"

abbreviation add_deps :: "size_t \<Rightarrow> sc_task \<Rightarrow> sc_task" where
  "add_deps n \<equiv> unfinished_dependencies_update (\<lambda>d. d + n)"

abbreviation sub_deps :: "size_t \<Rightarrow> sc_task \<Rightarrow> sc_task" where
  "sub_deps n \<equiv> unfinished_dependencies_update (\<lambda>d. d - n)"

text \<open>One iteration: the right half \<open>[mid_point, end_idx)\<close> becomes a task of the deque, or is run inline.\<close>

definition split_off :: "dev \<Rightarrow> nat \<Rightarrow> job_ref \<Rightarrow> size_t \<Rightarrow> size_t \<Rightarrow> sched \<Rightarrow> sched option" where
  "split_off dev tid j mid_point end_idx s =
     (case acquire tid s of
        (None, s) \<Rightarrow> call_dev dev tid (job_function (jobs s j)) (job_payload (jobs s j)) mid_point end_idx s
      | (Some right, s) \<Rightarrow>
          (case tl_current_task s tid of
             None \<Rightarrow> None
           | Some cur \<Rightarrow>
               (let s = upd_task right (right_task (JobPtr j) mid_point end_idx cur) s;
                    s = upd_task cur (add_deps 1) s
                in case deque_push tid right s of
                     None \<Rightarrow> None
                   | Some (True, s) \<Rightarrow> Some s
                   | Some (False, s) \<Rightarrow>
                       (let s = upd_task cur (sub_deps 1) s;
                            s = release tid right s
                        in call_dev dev tid (job_function (jobs s j)) (job_payload (jobs s j)) mid_point end_idx s))))"

function splitter_loop :: "dev \<Rightarrow> nat \<Rightarrow> job_ref \<Rightarrow> size_t \<Rightarrow> size_t \<Rightarrow> sched \<Rightarrow> (size_t \<times> sched) option" where
  "splitter_loop dev tid j start_idx end_idx s =
     (if chunk_size (jobs s j) < end_idx - start_idx then
        (let mid_point = split_point (chunk_size (jobs s j)) start_idx end_idx in
         if end_idx \<le> mid_point then Some (end_idx, s)
         else (case split_off dev tid j mid_point end_idx s of
                 None \<Rightarrow> None
               | Some s \<Rightarrow> splitter_loop dev tid j start_idx mid_point s))
      else Some (end_idx, s))"
  by pat_completeness auto

termination
  by (relation "measure (\<lambda>(dev, tid, j, start_idx, end_idx, s). unat end_idx)") (auto simp: word_less_nat_alt word_le_nat_alt)

declare splitter_loop.simps [simp del]

definition internal_macro_job_splitter :: "dev \<Rightarrow> nat \<Rightarrow> ptr \<Rightarrow> size_t \<Rightarrow> size_t \<Rightarrow> sched \<Rightarrow> sched option" where
  "internal_macro_job_splitter dev tid payload start_idx end_idx s =
     (case payload of
        JobPtr j \<Rightarrow>
          (case splitter_loop dev tid j start_idx end_idx s of
             None \<Rightarrow> None
           | Some (end_idx, s) \<Rightarrow>
               (case tl_current_task s tid of
                  None \<Rightarrow> None
                | Some cur \<Rightarrow>
                    (let s = upd_task cur (task_payload_update (\<lambda>_. job_payload (jobs s j))) s
                     in call_dev dev tid (job_function (jobs s j)) (job_payload (jobs s j)) start_idx end_idx s)))
      | _ \<Rightarrow> None)"

section \<open>The split point\<close>

text \<open>
  From a start aligned to the chunk size, the rounded middle of a range longer than a chunk lies
  strictly inside the range and is aligned again; nothing wraps around.
\<close>

lemma round_up_inside:
  fixes h c T :: nat
  assumes "0 < c" and "c < T" and "h = T div 2"
  shows "h mod c \<noteq> 0 \<Longrightarrow> h + (c - h mod c) < T" and "h mod c = 0 \<Longrightarrow> h < T \<and> 0 < h"
proof -
  have r: "h mod c < c" "h mod c \<le> h" using assms(1) by simp_all
  show "h + (c - h mod c) < T" if "h mod c \<noteq> 0"
  proof (cases "h < c")
    case True
    with assms(2) that show ?thesis by simp
  next
    case False
    with assms that r show ?thesis by linarith
  qed
  show "h < T \<and> 0 < h" if "h mod c = 0" using assms by linarith
qed

lemma split_point_inside:
  fixes c a b :: size_t
  assumes "c \<noteq> 0" and "a \<le> b" and "c < b - a" and "unat a mod unat c = 0"
  defines "m \<equiv> split_point c a b"
  shows "a < m" and "m < b" and "unat m mod unat c = 0"
proof -
  define T h where "T = unat b - unat a" and "h = T div 2"
  have le: "unat a \<le> unat b" and T: "unat (b - a) = T" and c: "0 < unat c" "unat c < T"
    using assms(1-3) by (simp_all add: word_le_nat_alt word_less_nat_alt unat_sub T_def unat_gt_0)
  have b: "unat b = unat a + T" using le by (simp add: T_def)
  have half: "unat ((b - a) div 2) = h" by (simp add: unat_div T h_def)
  have h: "h \<le> T" by (simp add: h_def)
  have mid: "unat (a + (b - a) div 2) = unat a + h"
    using half h b unat_bound_64 [of b] by (subst unat_add_no_wrap) simp_all
  have rem: "unat ((a + (b - a) div 2) mod c) = h mod unat c"
    using assms(4) by (simp add: unat_mod mid mod_add_left_eq [symmetric])
  have "unat m = (if h mod unat c \<noteq> 0 then unat a + h + (unat c - h mod unat c) else unat a + h)"
  proof (cases "h mod unat c = 0")
    case True
    then have "(a + (b - a) div 2) mod c = 0" using rem by (simp add: unat_eq_0)
    with True show ?thesis by (simp add: m_def split_point_def Let_def mid)
  next
    case False
    let ?r = "(a + (b - a) div 2) mod c"
    have "?r \<noteq> 0" using False rem by (metis unat_0)
    then have m: "m = (a + (b - a) div 2) + (c - ?r)"
      by (simp only: m_def split_point_def Let_def if_True simp_thms)
    have "h mod unat c \<le> unat c" using c(1) by (intro less_imp_le mod_less_divisor)
    then have "?r \<le> c" by (simp add: word_le_nat_alt rem)
    then have diff: "unat (c - ?r) = unat c - h mod unat c" by (simp add: unat_sub rem)
    have "unat a + h + (unat c - h mod unat c) < 2 ^ 64"
      using round_up_inside(1) [OF c h_def False] b unat_bound_64 [of b] by simp
    then have "unat m = unat a + h + (unat c - h mod unat c)"
      unfolding m by (subst unat_add_no_wrap) (simp_all add: mid diff)
    with False show ?thesis by simp
  qed
  moreover have "(unat a + h + (unat c - h mod unat c)) mod unat c = 0"
  proof -
    have "h mod unat c \<le> unat c" "h mod unat c \<le> h" using c(1) by simp_all
    then have "h + (unat c - h mod unat c) = (h - h mod unat c) + unat c" by simp
    also have "\<dots> mod unat c = 0" by (metis mod_add_self2 minus_mod_eq_mult_div mod_mult_self1_is_0)
    finally show ?thesis using assms(4) by (metis add.assoc mod_add_left_eq add_0)
  qed
  moreover have "(unat a + h) mod unat c = 0" if "h mod unat c = 0"
    using assms(4) that by (metis mod_add_eq add_0 mod_0)
  ultimately show "a < m" "m < b" "unat m mod unat c = 0"
    using round_up_inside [OF c h_def] c b mod_less_divisor [OF c(1), of h] by (auto simp: word_less_nat_alt split: if_splits)
qed

section \<open>What one iteration does\<close>

definition own_deque :: "nat \<Rightarrow> sched \<Rightarrow> task_ref list" where
  "own_deque tid s = (case worker_pool s of None \<Rightarrow> [] | Some ws \<Rightarrow> deque_items (cl_deque (ws ! tid)))"

definition is_worker :: "nat \<Rightarrow> sched \<Rightarrow> bool" where
  "is_worker tid s \<longleftrightarrow> (case worker_pool s of None \<Rightarrow> False | Some ws \<Rightarrow> tid < length ws)"

text \<open>A worker that runs task \<open>cur\<close> in a well-formed state.\<close>

definition running :: "nat \<Rightarrow> task_ref \<Rightarrow> sched \<Rightarrow> bool" where
  "running tid cur s \<longleftrightarrow> sched_wf s \<and> is_worker tid s \<and> tl_current_task s tid = Some cur
     \<and> cur < global_task_capacity \<and> cur \<notin> avail s"

text \<open>Equal up to the free-list link.\<close>

definition same_task :: "sc_task \<Rightarrow> sc_task \<Rightarrow> bool" where
  "same_task x y \<longleftrightarrow> x\<lparr>next_free_idx := 0\<rparr> = y\<lparr>next_free_idx := 0\<rparr>"

lemma same_task_refl [simp]: "same_task x x"
  by (simp add: same_task_def)

lemma same_task_trans: "same_task x y \<Longrightarrow> same_task y z \<Longrightarrow> same_task x z"
  by (simp add: same_task_def)

lemma same_task_fields:
  assumes "same_task x y"
  shows "task_payload x = task_payload y" "start_inx x = start_inx y" "end_inx x = end_inx y" "task_fn x = task_fn y"
    "unfinished_dependencies x = unfinished_dependencies y" "parent_task x = parent_task y"
proof -
  note eq = assms [unfolded same_task_def]
  show "task_payload x = task_payload y" "start_inx x = start_inx y" "end_inx x = end_inx y" "task_fn x = task_fn y"
    "unfinished_dependencies x = unfinished_dependencies y" "parent_task x = parent_task y"
    using arg_cong [OF eq, of task_payload] arg_cong [OF eq, of start_inx] arg_cong [OF eq, of end_inx]
      arg_cong [OF eq, of task_fn] arg_cong [OF eq, of unfinished_dependencies] arg_cong [OF eq, of parent_task]
    by simp_all
qed

text \<open>
  The relation between the states around a piece of the splitter's work: the tasks \<open>ts\<close> have left the
  pool and joined the end of the worker's deque, the calls \<open>cs\<close> have been made, the current task waits
  for \<open>ts\<close> in addition, and no other live task has changed.
\<close>

definition dispatched :: "nat \<Rightarrow> task_ref \<Rightarrow> task_ref list \<Rightarrow> (sc_fn \<times> ptr \<times> size_t \<times> size_t) list \<Rightarrow> sched \<Rightarrow> sched \<Rightarrow> bool" where
  "dispatched tid cur ts cs s s' \<longleftrightarrow> running tid cur s' \<and> jobs s' = jobs s
     \<and> own_deque tid s' = own_deque tid s @ ts \<and> calls s' = calls s @ cs
     \<and> distinct ts \<and> set ts \<subseteq> avail s \<and> avail s' = avail s - set ts
     \<and> same_task (task_at s' cur) (add_deps (of_nat (length ts)) (task_at s cur))
     \<and> (\<forall>u. u \<notin> avail s \<longrightarrow> u \<noteq> cur \<longrightarrow> same_task (task_at s' u) (task_at s u))"

lemma deps_same [simp]: "unfinished_dependencies_update (\<lambda>d. d) x = x"
  by (cases x) simp

lemma dispatched_refl: "running tid cur s \<Longrightarrow> dispatched tid cur [] [] s s"
  by (simp add: dispatched_def)

lemma dispatchedD:
  assumes "dispatched tid cur ts cs s s'"
  shows "running tid cur s'" "jobs s' = jobs s" "own_deque tid s' = own_deque tid s @ ts" "calls s' = calls s @ cs"
    "distinct ts" "set ts \<subseteq> avail s" "avail s' = avail s - set ts"
    "same_task (task_at s' cur) (add_deps (of_nat (length ts)) (task_at s cur))"
    "u \<notin> avail s \<Longrightarrow> u \<noteq> cur \<Longrightarrow> same_task (task_at s' u) (task_at s u)"
  using assms by (simp_all add: dispatched_def)

lemma dispatched_trans:
  assumes A: "dispatched tid cur ts cs s s1" and B: "dispatched tid cur us ds s1 s2" and cur: "cur \<notin> avail s"
  shows "dispatched tid cur (ts @ us) (cs @ ds) s s2" and "\<forall>t\<in>set ts. same_task (task_at s2 t) (task_at s1 t)"
proof -
  have cur1: "cur \<notin> avail s1" using A unfolding dispatched_def running_def by (elim conjE) assumption
  have ts: "t \<notin> avail s1" "t \<noteq> cur" if "t \<in> set ts" for t
    using that A cur by (auto simp: dispatched_def)
  then show "\<forall>t\<in>set ts. same_task (task_at s2 t) (task_at s1 t)" using B by (auto simp: dispatched_def)
  have other: "same_task (task_at s2 u) (task_at s u)" if "u \<notin> avail s" "u \<noteq> cur" for u
  proof (rule same_task_trans)
    show "same_task (task_at s1 u) (task_at s u)" by (rule dispatchedD(9) [OF A that])
    have "u \<notin> avail s1" using that(1) dispatchedD(7) [OF A] by simp
    then show "same_task (task_at s2 u) (task_at s1 u)" by (rule dispatchedD(9) [OF B _ that(2)])
  qed
  have "same_task (task_at s2 cur) (add_deps (of_nat (length (ts @ us))) (task_at s cur))"
  proof (rule same_task_trans)
    show "same_task (task_at s2 cur) (add_deps (of_nat (length us)) (task_at s1 cur))" using B by (simp add: dispatched_def)
    have "same_task (task_at s1 cur) (add_deps (of_nat (length ts)) (task_at s cur))" using A by (simp add: dispatched_def)
    then show "same_task (add_deps (of_nat (length us)) (task_at s1 cur)) (add_deps (of_nat (length (ts @ us))) (task_at s cur))"
      unfolding same_task_def by (cases "task_at s1 cur"; cases "task_at s cur") (simp add: algebra_simps)
  qed
  then show "dispatched tid cur (ts @ us) (cs @ ds) s s2"
    using other dispatchedD(1-7) [OF A] dispatchedD(1-7) [OF B] by (auto simp: dispatched_def)
qed

text \<open>Pushing onto the worker's own deque.\<close>

lemma deque_push_sched:
  assumes "sched_wf s" and "is_worker tid s"
  obtains ok s' where "deque_push tid t s = Some (ok, s')" and "sched_wf s'" and "is_worker tid s'"
    and "own_deque tid s' = (if ok then own_deque tid s @ [t] else own_deque tid s)"
    and "s' = s\<lparr>worker_pool := worker_pool s'\<rparr>"
proof -
  obtain ws where ws: "worker_pool s = Some ws" "tid < length ws"
    using assms(2) by (auto simp: is_worker_def split: option.splits)
  have wok: "worker_ok w" if "w \<in> set ws" for w using assms(1) ws that by (auto simp: sched_wf_def)
  let ?d = "cl_deque (ws ! tid)"
  obtain ok d where push: "chase_lev_push ?d t = (ok, d)" by (cases "chase_lev_push ?d t")
  let ?s = "s\<lparr>worker_pool := Some (ws[tid := (ws ! tid)\<lparr>cl_deque := d\<rparr>])\<rparr>"
  have inv: "deque_inv ?d" using wok ws(2) by (simp add: worker_ok_def)
  have d: "deque_inv d" "ok \<longleftrightarrow> length (deque_items ?d) < deque_capacity ?d"
      "deque_items d = (if ok then deque_items ?d @ [t] else deque_items ?d)"
    using cl.push_keeps [OF inv, of t] cl.push_result [OF inv, of t] cl.push_items [OF inv, of t] push by auto
  have rb: "rb_inv ((ws ! tid)\<lparr>cl_deque := d\<rparr>)"
    using wok [of "ws ! tid"] ws(2) by (simp add: worker_ok_def rb_inv_def rb_shape_def rb_capacity_def)
  have "sched_wf ?s"
    using assms(1) ws wok rb d(1)
    by (auto simp: sched_wf_def worker_ok_def dest!: set_update_subset_insert [THEN subsetD])
  moreover have "own_deque tid ?s = (if ok then own_deque tid s @ [t] else own_deque tid s)"
    using ws d(3) by (simp add: own_deque_def)
  moreover have "deque_push tid t s = Some (ok, ?s)" using ws push by (simp add: deque_push_def)
  moreover have "is_worker tid ?s" using ws by (simp add: is_worker_def)
  ultimately show thesis by (intro that [of ok ?s]) simp_all
qed

lemma running_intro:
  "sched_wf s' \<Longrightarrow> is_worker tid s' \<Longrightarrow> tl_current_task s' tid = tl_current_task s tid \<Longrightarrow> avail s' \<subseteq> avail s \<Longrightarrow>
     running tid cur s \<Longrightarrow> running tid cur s'"
  by (auto simp: running_def)

lemma running_calls [simp]: "running tid cur (s\<lparr>calls := c\<rparr>) = running tid cur s"
  by (simp add: running_def sched_wf_def is_worker_def)

lemma dispatched_call:
  "dispatched tid cur ts cs s s' \<Longrightarrow> dispatched tid cur ts (cs @ [c]) s (s'\<lparr>calls := calls s' @ [c]\<rparr>)"
  by (simp add: dispatched_def own_deque_def task_at_def)

lemma is_worker_upd [simp]: "is_worker tid (upd_task t f s) = is_worker tid s"
  and own_deque_upd [simp]: "own_deque tid (upd_task t f s) = own_deque tid s"
  by (simp_all add: is_worker_def own_deque_def)

lemma right_task_link [simp]: "next_free_idx (right_task p m e c t) = next_free_idx t"
  by (simp add: right_task_def)

text \<open>A right half that was pushed.\<close>

definition right_half :: "job_ref \<Rightarrow> task_ref \<Rightarrow> size_t \<Rightarrow> size_t \<Rightarrow> sc_task \<Rightarrow> bool" where
  "right_half j cur m e x \<longleftrightarrow> (\<exists>t. same_task x (right_task (JobPtr j) m e cur t))"

lemma split_off_dispatched:
  assumes run: "running tid cur s" and leaf: "leaf_dev dev"
  shows "\<exists>s' ts cs. split_off dev tid j m e s = Some s' \<and> dispatched tid cur ts cs s s' \<and>
    ((\<exists>t. ts = [t] \<and> cs = [] \<and> right_half j cur m e (task_at s' t))
     \<or> ts = [] \<and> cs = [(job_function (jobs s j), job_payload (jobs s j), m, e)])"
proof -
  have wf: "sched_wf s" and w: "is_worker tid s" and tl: "tl_current_task s tid = Some cur"
    and cur: "cur < global_task_capacity" "cur \<notin> avail s" using run by (simp_all add: running_def)
  let ?c = "(job_function (jobs s j), job_payload (jobs s j), m, e)"
  obtain r s1 where a: "acquire tid s = (r, s1)" by (cases "acquire tid s")
  note A = acquire_sched [OF wf a]
  show ?thesis
  proof (cases r)
    case None
    with A(4) a have "split_off dev tid j m e s = Some (s\<lparr>calls := calls s @ [?c]\<rparr>)"
      using leaf by (simp add: split_off_def call_dev_def leaf_dev_def)
    with dispatched_call [OF dispatched_refl [OF run], of ?c] show ?thesis by auto
  next
    case (Some t)
    have t: "t \<in> avail s" "avail s1 = avail s - {t}" "t < global_task_capacity" using A(5) [OF Some] by auto
    then have ne: "t \<noteq> cur" using cur by auto
    have same1: "tl_current_task s1 = tl_current_task s" "jobs s1 = jobs s" "worker_pool s1 = worker_pool s" "calls s1 = calls s"
      by (subst A(2), simp)+
    let ?s2 = "upd_task cur (add_deps 1) (upd_task t (right_task (JobPtr j) m e cur) s1)"
    have wf2: "sched_wf ?s2" and av2: "avail ?s2 = avail s1" using A(1) by (simp_all add: upd_task_pool)
    have w2: "is_worker tid ?s2" using w same1 by (simp add: is_worker_def)
    obtain ok s3 where push: "deque_push tid t ?s2 = Some (ok, s3)" "sched_wf s3" "is_worker tid s3"
        "own_deque tid s3 = (if ok then own_deque tid ?s2 @ [t] else own_deque tid ?s2)" "s3 = ?s2\<lparr>worker_pool := worker_pool s3\<rparr>"
      using deque_push_sched [OF wf2 w2] by metis
    have same3: "tl_current_task s3 = tl_current_task s" "jobs s3 = jobs s" "calls s3 = calls s" "avail s3 = avail s1"
        "task_at s3 u = task_at ?s2 u" for u
      using same1 av2 by (subst push(5), simp add: task_at_def)+
    have own: "own_deque tid ?s2 = own_deque tid s" using same1 by (simp add: own_deque_def)
    have run3: "running tid cur s3"
      using same3 t by (intro running_intro [OF push(2,3) _ _ run]) auto
    show ?thesis
    proof (cases ok)
      case True
      have "split_off dev tid j m e s = Some s3"
        using a Some tl same1 push(1) True by (simp add: split_off_def Let_def)
      moreover have "dispatched tid cur [t] [] s s3"
        using run3 same3 push(4) own True t ne A(3) by (simp add: dispatched_def)
      moreover have "right_half j cur m e (task_at s3 t)"
        unfolding right_half_def using same3(5) [of t] ne by (intro exI [of _ "task_at s1 t"]) simp
      ultimately show ?thesis by blast
    next
      case False
      let ?s4 = "upd_task cur (sub_deps 1) s3"
      have wf4: "sched_wf ?s4" and av4: "avail ?s4 = avail s - {t}" using push(2) same3 t(2) by (simp_all add: upd_task_pool)
      then have "t \<notin> avail ?s4" by simp
      note R = release_sched [OF wf4 t(3) this, of tid]
      let ?s5 = "release tid t ?s4"
      have same5: "tl_current_task ?s5 = tl_current_task s" "jobs ?s5 = jobs s" "calls ?s5 = calls s" "is_worker tid ?s5"
          "own_deque tid ?s5 = own_deque tid s"
        using same3 push(3,4) own False by (simp_all add: release_def is_worker_def own_deque_def)
      have av5: "avail ?s5 = avail s" using R(2) av4 t(1) by auto
      have "split_off dev tid j m e s = Some (?s5\<lparr>calls := calls ?s5 @ [?c]\<rparr>)"
        using a Some tl same1 push(1) False leaf same5 by (simp add: split_off_def Let_def call_dev_def leaf_dev_def)
      moreover have "dispatched tid cur [] [] s ?s5"
      proof -
        have "running tid cur ?s5" using av5 same5 by (intro running_intro [OF R(1) _ _ _ run]) auto
        moreover have "same_task (task_at ?s5 cur) (task_at s cur)"
        proof -
          have "task_at ?s4 cur = task_at s cur" using same3(5) [of cur] A(3) ne by (cases "task_at s cur") simp
          with R(4) [of cur] show ?thesis by (simp add: same_task_def)
        qed
        moreover have "same_task (task_at ?s5 u) (task_at s u)" if "u \<notin> avail s" "u \<noteq> cur" for u
        proof -
          have "u \<noteq> t" using that t(1) by auto
          then have "task_at ?s4 u = task_at s u" using same3(5) [of u] A(3) that by simp
          with R(4) [of u] show ?thesis by (simp add: same_task_def)
        qed
        ultimately show ?thesis using same5 av5 by (simp add: dispatched_def)
      qed
      ultimately show ?thesis using dispatched_call [of tid cur "[]" "[]" s ?s5 ?c] by auto
    qed
  qed
qed

section \<open>The splitter covers its range\<close>

text \<open>The indices of a range, of a task's range and of a call's range, as multisets.\<close>

definition cells :: "size_t \<Rightarrow> size_t \<Rightarrow> nat multiset" where
  "cells a b = mset [unat a..<unat b]"

definition task_cells :: "sc_task \<Rightarrow> nat multiset" where
  "task_cells x = cells (start_inx x) (end_inx x)"

fun call_cells :: "sc_fn \<times> ptr \<times> size_t \<times> size_t \<Rightarrow> nat multiset" where
  "call_cells (f, p, a, b) = cells a b"

lemma cells_split: "a \<le> m \<Longrightarrow> m \<le> b \<Longrightarrow> cells a b = cells a m + cells m b"
  unfolding cells_def by (metis mset_append upt_add_eq_append le_add_diff_inverse word_le_nat_alt)

lemma cells_empty [simp]: "cells a a = {#}"
  by (simp add: cells_def)

text \<open>A task that the splitter made for a right part of job \<open>j\<close>, under the task \<open>cur\<close>.\<close>

definition split_child :: "job_ref \<Rightarrow> task_ref \<Rightarrow> size_t \<Rightarrow> sc_task \<Rightarrow> bool" where
  "split_child j cur chunk x \<longleftrightarrow> task_fn x = Some SplitterFn \<and> task_payload x = JobPtr j \<and> parent_task x = Some cur
     \<and> unfinished_dependencies x = 1 \<and> start_inx x < end_inx x \<and> unat (start_inx x) mod unat chunk = 0"

lemma right_half_fields:
  assumes "right_half j cur m e x"
  shows "task_fn x = Some SplitterFn" "task_payload x = JobPtr j" "parent_task x = Some cur" "unfinished_dependencies x = 1"
    "start_inx x = m" "end_inx x = e"
proof -
  obtain t where "same_task x (right_task (JobPtr j) m e cur t)" using assms by (auto simp: right_half_def)
  note same_task_fields [OF this]
  then show "task_fn x = Some SplitterFn" "task_payload x = JobPtr j" "parent_task x = Some cur" "unfinished_dependencies x = 1"
    "start_inx x = m" "end_inx x = e"
    by (simp_all add: right_task_def)
qed

lemma same_task_split:
  "same_task x y \<Longrightarrow> split_child j cur c x \<Longrightarrow> split_child j cur c y" "same_task x y \<Longrightarrow> task_cells x = task_cells y"
  using same_task_fields [of x y] by (simp_all add: split_child_def task_cells_def)

text \<open>A call of the function \<open>f\<close> on the payload \<open>p\<close>.\<close>

definition call_of :: "sc_fn \<Rightarrow> ptr \<Rightarrow> sc_fn \<times> ptr \<times> size_t \<times> size_t \<Rightarrow> bool" where
  "call_of f p c \<longleftrightarrow> fst c = f \<and> fst (snd c) = p"

text \<open>
  The tasks \<open>ts\<close>, which all satisfy \<open>P\<close>, and the calls \<open>cs\<close>, which all satisfy \<open>Q\<close>, have exactly
  the indices \<open>M\<close>, each once.
\<close>

definition covered :: "(sc_task \<Rightarrow> bool) \<Rightarrow> (sc_fn \<times> ptr \<times> size_t \<times> size_t \<Rightarrow> bool) \<Rightarrow> task_ref list
     \<Rightarrow> (sc_fn \<times> ptr \<times> size_t \<times> size_t) list \<Rightarrow> sched \<Rightarrow> nat multiset \<Rightarrow> bool" where
  "covered P Q ts cs s M \<longleftrightarrow> (\<forall>t\<in>set ts. P (task_at s t)) \<and> (\<forall>c\<in>set cs. Q c)
     \<and> M = (\<Sum>t\<in>#mset ts. task_cells (task_at s t)) + (\<Sum>c\<in>#mset cs. call_cells c)"

lemma covered_later:
  assumes "covered P Q ts cs s M" and "\<forall>t\<in>set ts. same_task (task_at s' t) (task_at s t)"
    and "\<And>x y. same_task x y \<Longrightarrow> P x \<Longrightarrow> P y"
  shows "covered P Q ts cs s' M"
proof -
  have "(\<Sum>t\<in>#mset ts. task_cells (task_at s' t)) = (\<Sum>t\<in>#mset ts. task_cells (task_at s t))"
    using assms(2) by (intro arg_cong [of _ _ sum_mset] image_mset_cong) (auto simp: same_task_split(2))
  moreover have "P (task_at s' t)" if "t \<in> set ts" for t
    using assms(1,2) that assms(3) [of "task_at s t" "task_at s' t"] by (auto simp: covered_def same_task_def)
  ultimately show ?thesis using assms(1) by (auto simp: covered_def)
qed

lemma covered_append:
  "covered P Q ts cs s M \<Longrightarrow> covered P Q us ds s N \<Longrightarrow> covered P Q (ts @ us) (cs @ ds) s (M + N)"
  by (auto simp: covered_def)

lemma splitter_loop_covers:
  assumes "running tid cur s" and "leaf_dev dev" and "chunk_size (jobs s j) = c" and "c \<noteq> 0"
    and "unat a mod unat c = 0" and "a \<le> b" and "job_function (jobs s j) = f" and "job_payload (jobs s j) = p"
  shows "\<exists>e s' ts cs. splitter_loop dev tid j a b s = Some (e, s') \<and> dispatched tid cur ts cs s s'
    \<and> covered (split_child j cur c) (call_of f p) ts cs s' (cells e b) \<and> a \<le> e \<and> e \<le> b \<and> e - a \<le> c \<and> (a < b \<longrightarrow> a < e)
    \<and> (\<forall>t\<in>set ts. a < start_inx (task_at s' t))"
  using assms
proof (induction b arbitrary: s rule: measure_induct_rule [of unat])
  case (less b)
  note prems = less.prems
  show ?case
  proof (cases "c < b - a")
    case False
    then have "splitter_loop dev tid j a b s = Some (b, s)"
      using prems(3) by (simp add: splitter_loop.simps [of dev tid j a b s])
    with False dispatched_refl [OF prems(1)] prems(6) show ?thesis
      by (intro exI [of _ b] exI [of _ s] exI [of _ "[]"]) (simp add: covered_def)
  next
    case True
    let ?m = "split_point c a b"
    note m = split_point_inside [OF prems(4,6) True prems(5)]
    obtain s1 ts cs where off: "split_off dev tid j ?m b s = Some s1" "dispatched tid cur ts cs s s1"
        "(\<exists>t. ts = [t] \<and> cs = [] \<and> right_half j cur ?m b (task_at s1 t))
          \<or> ts = [] \<and> cs = [(job_function (jobs s j), job_payload (jobs s j), ?m, b)]"
      using split_off_dispatched [OF prems(1,2), of j ?m b] by blast
    have jobs1: "jobs s1 = jobs s" by (rule dispatchedD(2) [OF off(2)])
    have cov1: "covered (split_child j cur c) (call_of f p) ts cs s1 (cells ?m b)"
      using off(3) m(2,3) prems(7,8) right_half_fields by (auto simp: covered_def split_child_def task_cells_def call_of_def)
    have "\<exists>e s' us ds. splitter_loop dev tid j a ?m s1 = Some (e, s') \<and> dispatched tid cur us ds s1 s'
        \<and> covered (split_child j cur c) (call_of f p) us ds s' (cells e ?m) \<and> a \<le> e \<and> e \<le> ?m \<and> e - a \<le> c \<and> (a < ?m \<longrightarrow> a < e)
        \<and> (\<forall>t\<in>set us. a < start_inx (task_at s' t))"
      using m prems jobs1 dispatchedD(1) [OF off(2)]
      by (intro less.IH) (auto simp: word_less_nat_alt word_le_nat_alt)
    then obtain e s' us ds where IH: "splitter_loop dev tid j a ?m s1 = Some (e, s')" "dispatched tid cur us ds s1 s'"
        "covered (split_child j cur c) (call_of f p) us ds s' (cells e ?m)" "a \<le> e" "e \<le> ?m" "e - a \<le> c" "a < e"
        "\<forall>t\<in>set us. a < start_inx (task_at s' t)" using m(1) by blast
    have "splitter_loop dev tid j a b s = Some (e, s')"
      using True prems(3) off(1) m(2) [THEN not_le [THEN iffD2]] IH(1) by (simp add: splitter_loop.simps [of dev tid j a b s] Let_def)
    moreover have "cur \<notin> avail s" using prems(1) by (simp add: running_def)
    note trans = dispatched_trans [OF off(2) IH(2) this]
    have "covered (split_child j cur c) (call_of f p) (ts @ us) (cs @ ds) s' (cells ?m b + cells e ?m)"
      using covered_later [OF cov1 trans(2) same_task_split(1)] IH(3) by (rule covered_append)
    moreover have "cells ?m b + cells e ?m = cells e b"
      using IH(5) m(2) cells_split [of e ?m b] by simp
    moreover have "e \<le> b" using IH(5) m(2) by simp
    moreover have "a < start_inx (task_at s' t)" if "t \<in> set (ts @ us)" for t
    proof (cases "t \<in> set ts")
      case True
      then have "start_inx (task_at s1 t) = ?m" using off(3) right_half_fields(5) by fastforce
      then show ?thesis using same_task_fields(2) [of "task_at s' t" "task_at s1 t"] trans(2) True m(1) by simp
    next
      case False
      with that IH(8) show ?thesis by simp
    qed
    ultimately show ?thesis using trans(1) IH(4,6,7)
      by (intro exI [of _ e] exI [of _ s'] exI [of _ "ts @ us"] exI [of _ "cs @ ds"]) simp
  qed
qed

text \<open>The whole function: the loop, the payload of the current task, and the call for the rest.\<close>

lemma splitter_result:
  assumes "running tid cur s" and "leaf_dev dev" and "chunk_size (jobs s j) \<noteq> 0"
    and "unat a mod unat (chunk_size (jobs s j)) = 0" and "a \<le> b" and "job_function (jobs s j) = f" and "job_payload (jobs s j) = p"
  obtains s1 s' ts cs e where "internal_macro_job_splitter dev tid (JobPtr j) a b s = Some s'" and "dispatched tid cur ts cs s s1"
    and "s' = (upd_task cur (task_payload_update (\<lambda>_. p)) s1)\<lparr>calls := calls s1 @ [(f, p, a, e)]\<rparr>"
    and "running tid cur s'" and "a \<le> e" and "e - a \<le> chunk_size (jobs s j)" and "a < b \<longrightarrow> a < e"
    and "covered (split_child j cur (chunk_size (jobs s j))) (call_of f p) ts (cs @ [(f, p, a, e)]) s' (cells a b)"
    and "\<forall>t\<in>set ts. a < start_inx (task_at s' t)"
proof -
  let ?c = "chunk_size (jobs s j)"
  obtain e s1 ts cs where loop: "splitter_loop dev tid j a b s = Some (e, s1)" "dispatched tid cur ts cs s s1"
      "covered (split_child j cur ?c) (call_of f p) ts cs s1 (cells e b)" "a \<le> e" "e \<le> b" "e - a \<le> ?c" "a < b \<longrightarrow> a < e"
      "\<forall>t\<in>set ts. a < start_inx (task_at s1 t)"
    using splitter_loop_covers [OF assms(1,2) refl assms(3-7)] by blast
  note D = dispatchedD [OF loop(2)]
  let ?s2 = "upd_task cur (task_payload_update (\<lambda>_. p)) s1"
  let ?s3 = "?s2\<lparr>calls := calls s1 @ [(f, p, a, e)]\<rparr>"
  have cur: "tl_current_task s1 tid = Some cur" "cur \<notin> avail s" using D(1) assms(1) by (simp_all add: running_def)
  have res: "internal_macro_job_splitter dev tid (JobPtr j) a b s = Some ?s3"
    using loop(1) cur(1) assms(2,6,7) D(2) by (simp add: internal_macro_job_splitter_def call_dev_def leaf_dev_def Let_def)
  have "running tid cur ?s2"
    using D(1) by (intro running_intro [OF _ _ _ _ D(1)]) (simp_all add: upd_task_pool running_def)
  then have run: "running tid cur ?s3" by simp
  have ne: "t \<noteq> cur" if "t \<in> set ts" for t using that D(6) cur(2) by auto
  have same: "same_task (task_at ?s3 t) (task_at s1 t)" if "t \<in> set ts" for t
    using ne [OF that] by (simp add: task_at_def upd_task_def)
  have "covered (split_child j cur ?c) (call_of f p) ts cs ?s3 (cells e b)"
    using same by (intro covered_later [OF loop(3) _ same_task_split(1)]) auto
  moreover have "covered (split_child j cur ?c) (call_of f p) [] [(f, p, a, e)] ?s3 (cells a e)"
    by (simp add: covered_def call_of_def)
  ultimately have "covered (split_child j cur ?c) (call_of f p) (ts @ []) (cs @ [(f, p, a, e)]) ?s3 (cells e b + cells a e)"
    by (rule covered_append)
  then have cov: "covered (split_child j cur ?c) (call_of f p) ts (cs @ [(f, p, a, e)]) ?s3 (cells a b)"
    using cells_split [OF loop(4,5)] by (simp add: add.commute)
  have "\<forall>t\<in>set ts. a < start_inx (task_at ?s3 t)" using loop(8) same_task_fields(2) [OF same] by simp
  then show thesis by (rule that [OF res loop(2) refl run loop(4,6,7) cov])
qed

text \<open>
  C16: the splitter loses no index and repeats none. Started by a worker on an aligned range of a job
  whose developer function works on its own data only, it ends without touching a null pointer; the
  tasks it pushes (in order, at the end of the worker's own deque), the parts it runs inline because
  no task is free or the deque is full, and the last part, which it runs itself and which is at most
  one chunk long, partition the range exactly. Every pushed task is again a splitter over a non-empty
  aligned range under the current task, whose dependency count grows by exactly their number.
\<close>

theorem splitter_partitions_range:
  assumes "running tid cur s" and "leaf_dev dev" and "chunk_size (jobs s j) \<noteq> 0"
    and "unat a mod unat (chunk_size (jobs s j)) = 0" and "a \<le> b"
  shows "\<exists>s' ts cs e. internal_macro_job_splitter dev tid (JobPtr j) a b s = Some s' \<and> running tid cur s'
    \<and> own_deque tid s' = own_deque tid s @ ts \<and> distinct ts \<and> set ts \<subseteq> avail s \<and> avail s' = avail s - set ts
    \<and> calls s' = calls s @ cs \<and> last cs = (job_function (jobs s j), job_payload (jobs s j), a, e)
    \<and> e - a \<le> chunk_size (jobs s j) \<and> covered (split_child j cur (chunk_size (jobs s j))) (call_of (job_function (jobs s j)) (job_payload (jobs s j))) ts cs s' (cells a b)
    \<and> unfinished_dependencies (task_at s' cur) = unfinished_dependencies (task_at s cur) + of_nat (length ts)"
proof -
  obtain s1 s' ts cs e where R: "internal_macro_job_splitter dev tid (JobPtr j) a b s = Some s'" "dispatched tid cur ts cs s s1"
    "s' = (upd_task cur (task_payload_update (\<lambda>_. job_payload (jobs s j))) s1)\<lparr>calls := calls s1 @ [(job_function (jobs s j), job_payload (jobs s j), a, e)]\<rparr>"
    "running tid cur s'" "e - a \<le> chunk_size (jobs s j)"
    "covered (split_child j cur (chunk_size (jobs s j))) (call_of (job_function (jobs s j)) (job_payload (jobs s j))) ts
       (cs @ [(job_function (jobs s j), job_payload (jobs s j), a, e)]) s' (cells a b)"
    using splitter_result [OF assms refl refl] by metis
  note D = dispatchedD [OF R(2)]
  have "own_deque tid s' = own_deque tid s @ ts" using D(3) by (simp add: R(3) own_deque_def)
  moreover have "avail s' = avail s - set ts" using D(7) by (simp add: R(3) upd_task_pool)
  moreover have "unfinished_dependencies (task_at s' cur) = unfinished_dependencies (task_at s cur) + of_nat (length ts)"
    using same_task_fields(5) [OF D(8)] by (simp add: R(3) task_at_def upd_task_def)
  moreover have "calls s' = calls s @ (cs @ [(job_function (jobs s j), job_payload (jobs s j), a, e)])" using D(4) by (simp add: R(3))
  ultimately show ?thesis using D(5,6) R(1,4,5,6)
    by (intro exI [of _ s'] exI [of _ ts] exI [of _ "cs @ [(job_function (jobs s j), job_payload (jobs s j), a, e)]"] exI [of _ e]) simp
qed

text \<open>A concrete state: the one worker of \<open>booted\<close> runs a task of job 0, which has 1000 elements in chunks of 64.\<close>

definition working :: sched where
  "working = (snd (acquire 0 booted))\<lparr>tl_current_task := (\<lambda>_. fst (acquire 0 booted)),
     jobs := (jobs booted)(0 := (jobs booted 0)\<lparr>chunk_size := 64\<rparr>)\<rparr>"

definition idle_dev :: dev where
  "idle_dev tid f p a b s = Some s"

lemma idle_dev_leaf: "leaf_dev idle_dev"
  by (simp add: leaf_dev_def idle_dev_def)

lemma working_running: "\<exists>cur. running 0 cur working" and working_job: "chunk_size (jobs working 0) = 64"
    "job_function (jobs working 0) = UserFn 0" "job_payload (jobs working 0) = UserPtr 0"
proof -
  obtain r s where a: "acquire 0 booted = (r, s)" by (cases "acquire 0 booted")
  have "r \<noteq> None" using acquire_obtainable(1) [OF booted_facts(2) a] booted_facts(6) by (simp add: global_task_capacity_def)
  then obtain t where r: "r = Some t" by auto
  note A = acquire_sched [OF booted_facts(2) a] 
  have "worker_pool s = worker_pool booted" by (subst A(2), simp)
  moreover have "\<exists>ws. worker_pool booted = Some ws \<and> 0 < length ws"
    using booted_facts(4) by (auto simp: rings_def split: option.splits)
  ultimately have "is_worker 0 working" by (auto simp: is_worker_def working_def a)
  moreover have "sched_wf working" using A(1) by (simp add: working_def a sched_wf_def)
  moreover have "t < global_task_capacity" "t \<notin> avail working" using A(5) [OF r] by (simp_all add: working_def a)
  ultimately show "\<exists>cur. running 0 cur working" by (intro exI [of _ t]) (simp add: running_def working_def a r)
  show "chunk_size (jobs working 0) = 64" "job_function (jobs working 0) = UserFn 0" "job_payload (jobs working 0) = UserPtr 0"
    by (simp_all add: working_def booted_facts(8)) (simp_all add: unbooted_def)
qed

theorem splitter_partitions_range_witness:
  "\<exists>s' ts cs cur. internal_macro_job_splitter idle_dev 0 (JobPtr 0) 0 1000 working = Some s'
     \<and> covered (split_child 0 cur 64) (call_of (UserFn 0) (UserPtr 0)) ts cs s' (cells 0 1000) \<and> calls s' = calls working @ cs"
proof -
  obtain cur where "running 0 cur working" using working_running by blast
  from splitter_partitions_range [OF this idle_dev_leaf, of 0 0 1000] show ?thesis
    by (simp add: working_job) blast
qed

end
