(* ===== verification/Spawn.thy ===== *)
theory Spawn
  imports Splitter
begin

text \<open>
  \<open>scheduler_spawn_subtasks\<close> of \<open>src/sk_scheduler.c\<close>: a task function cuts a range into chunks and makes
  each a child of the task that is running, in batches of 256. As in \<open>Splitter\<close>, a call runs without
  interference, from an arbitrary state.
\<close>

section \<open>The function\<close>

definition BATCH_SIZE :: size_t where "BATCH_SIZE = 256"

definition chunk_start :: "size_t \<Rightarrow> size_t \<Rightarrow> size_t \<Rightarrow> size_t" where
  "chunk_start start_idx chunk k = start_idx + k * chunk"

definition chunk_end :: "size_t \<Rightarrow> size_t \<Rightarrow> size_t \<Rightarrow> size_t \<Rightarrow> size_t" where
  "chunk_end start_idx end_idx chunk k =
     (let e = chunk_start start_idx chunk k + chunk in if end_idx < e then end_idx else e)"

definition child_task :: "ptr \<Rightarrow> size_t \<Rightarrow> size_t \<Rightarrow> sc_fn \<Rightarrow> task_ref option \<Rightarrow> sc_task \<Rightarrow> sc_task" where
  "child_task payload a b f parent t = t\<lparr>task_payload := payload, start_inx := a, end_inx := b, task_fn := Some f,
     parent_task := parent, unfinished_dependencies := 1\<rparr>"

text \<open>The allocation loop of one pass: chunks \<open>k\<close>, \<open>k + 1\<close>, \<dots> until \<open>n\<close> are made or the pool is empty.\<close>

fun alloc_batch ::
  "nat \<Rightarrow> ptr \<Rightarrow> size_t \<Rightarrow> size_t \<Rightarrow> size_t \<Rightarrow> sc_fn \<Rightarrow> task_ref option \<Rightarrow> size_t \<Rightarrow> nat \<Rightarrow> sched \<Rightarrow> task_ref list \<times> sched" where
  "alloc_batch tid payload start_idx end_idx chunk f parent k 0 s = ([], s)"
| "alloc_batch tid payload start_idx end_idx chunk f parent k (Suc n) s =
     (case acquire tid s of
        (None, s) \<Rightarrow> ([], s)
      | (Some child, s) \<Rightarrow>
          (let s = upd_task child (child_task payload (chunk_start start_idx chunk k) (chunk_end start_idx end_idx chunk k) f parent) s;
               (rest, s) = alloc_batch tid payload start_idx end_idx chunk f parent (k + 1) n s
           in (child # rest, s)))"

definition deque_push_batch :: "nat \<Rightarrow> task_ref list \<Rightarrow> sched \<Rightarrow> (nat \<times> sched) option" where
  "deque_push_batch tid ts s =
     (case worker_pool s of
        None \<Rightarrow> None
      | Some ws \<Rightarrow>
          if tid < length ws then
            (case chase_lev_push_batch (cl_deque (ws ! tid)) ts of
               (n, d) \<Rightarrow> Some (n, s\<lparr>worker_pool := Some (ws[tid := (ws ! tid)\<lparr>cl_deque := d\<rparr>])\<rparr>))
          else None)"

text \<open>The tasks that the deque rejected are run inline and released.\<close>

fun run_rejected :: "dev \<Rightarrow> nat \<Rightarrow> sc_fn \<Rightarrow> ptr \<Rightarrow> task_ref list \<Rightarrow> sched \<Rightarrow> sched option" where
  "run_rejected dev tid f payload [] s = Some s"
| "run_rejected dev tid f payload (t # ts) s =
     (case call_dev dev tid f payload (start_inx (task_at s t)) (end_inx (task_at s t)) s of
        None \<Rightarrow> None
      | Some s \<Rightarrow> run_rejected dev tid f payload ts (release tid t s))"

text \<open>One pass: \<open>Inl\<close> when the function returns in it, \<open>Inr\<close> with the new \<open>chunks_processed\<close> otherwise.\<close>

definition spawn_pass ::
  "dev \<Rightarrow> nat \<Rightarrow> ptr \<Rightarrow> size_t \<Rightarrow> size_t \<Rightarrow> size_t \<Rightarrow> sc_fn \<Rightarrow> task_ref option \<Rightarrow> size_t \<Rightarrow> size_t \<Rightarrow> sched
     \<Rightarrow> (sched + size_t \<times> sched) option" where
  "spawn_pass dev tid payload start_idx end_idx chunk f parent total_chunks chunks_processed s =
     (let left = total_chunks - chunks_processed;
          chunks_this_pass = (if BATCH_SIZE < left then BATCH_SIZE else left);
          (batch, s) = alloc_batch tid payload start_idx end_idx chunk f parent chunks_processed (unat chunks_this_pass) s
      in if batch = [] then
           map_option Inl (call_dev dev tid f payload (chunk_start start_idx chunk chunks_processed) end_idx s)
         else
           (case parent of
              None \<Rightarrow> None
            | Some par \<Rightarrow>
                (case deque_push_batch tid batch (upd_task par (add_deps (word_of_nat (length batch))) s) of
                   None \<Rightarrow> None
                 | Some (pushed, s) \<Rightarrow>
                     if pushed < length batch then
                       (case run_rejected dev tid f payload (drop pushed batch)
                               (upd_task par (sub_deps (word_of_nat (length batch - pushed))) s) of
                          None \<Rightarrow> None
                        | Some s \<Rightarrow>
                            (let remaining_start = chunk_start start_idx chunk (chunks_processed + word_of_nat (length batch))
                             in if remaining_start < end_idx
                                then map_option Inl (call_dev dev tid f payload remaining_start end_idx s)
                                else Some (Inl s)))
                     else Some (Inr (chunks_processed + chunks_this_pass, s)))))"

lemma pass_size:
  assumes "chunks_processed < total_chunks"
  defines "n \<equiv> (if BATCH_SIZE < total_chunks - chunks_processed then BATCH_SIZE else total_chunks - chunks_processed)"
  shows "unat n = min 256 (unat total_chunks - unat chunks_processed)" and "0 < unat n"
    and "unat (chunks_processed + n) = unat chunks_processed + unat n" and "chunks_processed < chunks_processed + n"
    and "chunks_processed + n \<le> total_chunks"
proof -
  have left: "unat (total_chunks - chunks_processed) = unat total_chunks - unat chunks_processed"
    using assms(1) by (intro unat_diff_le) simp
  show n: "unat n = min 256 (unat total_chunks - unat chunks_processed)"
    by (simp add: n_def word_less_nat_alt left BATCH_SIZE_def)
  show pos: "0 < unat n" using n assms(1) by (simp add: word_less_nat_alt)
  show sum: "unat (chunks_processed + n) = unat chunks_processed + unat n"
    using n assms(1) unat_bound_64 [of total_chunks] by (intro unat_add_no_wrap) (simp add: word_less_nat_alt)
  show "chunks_processed < chunks_processed + n" using sum pos by (simp add: word_less_nat_alt)
  show "chunks_processed + n \<le> total_chunks" using sum n assms(1) by (simp add: word_le_nat_alt word_less_nat_alt)
qed

lemma spawn_pass_continues:
  "spawn_pass dev tid payload a b chunk f parent total_chunks k s = Some (Inr (k', s')) \<Longrightarrow>
     k' = k + (if BATCH_SIZE < total_chunks - k then BATCH_SIZE else total_chunks - k)"
  by (auto simp: spawn_pass_def Let_def split: prod.splits if_splits option.splits)

function spawn_loop ::
  "dev \<Rightarrow> nat \<Rightarrow> ptr \<Rightarrow> size_t \<Rightarrow> size_t \<Rightarrow> size_t \<Rightarrow> sc_fn \<Rightarrow> task_ref option \<Rightarrow> size_t \<Rightarrow> size_t \<Rightarrow> sched \<Rightarrow> sched option" where
  "spawn_loop dev tid payload start_idx end_idx chunk f parent total_chunks chunks_processed s =
     (if chunks_processed < total_chunks then
        (case spawn_pass dev tid payload start_idx end_idx chunk f parent total_chunks chunks_processed s of
           None \<Rightarrow> None
         | Some (Inl s) \<Rightarrow> Some s
         | Some (Inr (chunks_processed, s)) \<Rightarrow>
             spawn_loop dev tid payload start_idx end_idx chunk f parent total_chunks chunks_processed s)
      else Some s)"
  by pat_completeness auto

termination
proof (relation "measure (\<lambda>(dev, tid, payload, a, b, chunk, f, parent, total_chunks, k, s). unat total_chunks - unat k)")
  fix dev tid payload a b chunk f parent total_chunks k s x y z k' s'
  assume "k < total_chunks" and "spawn_pass dev tid payload a b chunk f parent total_chunks k s = Some x" and "x = Inr y" and "(k', s') = y"
  then have "k' = k + (if BATCH_SIZE < total_chunks - k then BATCH_SIZE else total_chunks - k)"
    using spawn_pass_continues [of dev tid payload a b chunk f parent total_chunks k s k' s'] by simp
  with pass_size(4,5) [OF \<open>k < total_chunks\<close>] have "unat k < unat k'" "unat k' \<le> unat total_chunks"
    by (simp_all only: word_less_nat_alt word_le_nat_alt)
  then show "((dev, tid, payload, a, b, chunk, f, parent, total_chunks, k', s'), (dev, tid, payload, a, b, chunk, f, parent, total_chunks, k, s))
      \<in> measure (\<lambda>(dev, tid, payload, a, b, chunk, f, parent, total_chunks, k, s). unat total_chunks - unat k)"
    by simp
qed simp

declare spawn_loop.simps [simp del]

definition scheduler_spawn_subtasks ::
  "dev \<Rightarrow> nat \<Rightarrow> ptr \<Rightarrow> size_t \<Rightarrow> size_t \<Rightarrow> size_t \<Rightarrow> sc_fn \<Rightarrow> sched \<Rightarrow> sched option" where
  "scheduler_spawn_subtasks dev tid payload start_idx end_idx chunk f s =
     (if end_idx \<le> start_idx then Some s
      else
        (let chunk = (if chunk = 0 then DEFAULT_CHUNK_SIZE else chunk);
             parent = tl_current_task s tid;
             total_elements = end_idx - start_idx;
             total_required_chunks = (total_elements + chunk - 1) div chunk
         in spawn_loop dev tid payload start_idx end_idx chunk f parent total_required_chunks 0 s))"

section \<open>Chunk arithmetic\<close>

text \<open>
  The hypothesis that the arithmetic of the function needs: the end of the range plus one chunk does
  not wrap around. \<open>bound\<close> is the end of the first \<open>k\<close> chunks, clipped to the range.
\<close>

definition chunk_count :: "size_t \<Rightarrow> size_t \<Rightarrow> size_t \<Rightarrow> nat" where
  "chunk_count a b c = (unat b - unat a + unat c - 1) div unat c"

definition bound :: "size_t \<Rightarrow> size_t \<Rightarrow> size_t \<Rightarrow> nat \<Rightarrow> nat" where
  "bound a b c k = min (unat a + k * unat c) (unat b)"

lemma chunk_count_word:
  assumes "a < b" and "c \<noteq> 0" and "unat b + unat c < 2 ^ 64"
  shows "unat ((b - a + c - 1) div c) = chunk_count a b c"
proof -
  have c: "0 < unat c" using assms(2) by (simp add: unat_gt_0)
  have T: "unat (b - a) = unat b - unat a" using assms(1) by (intro unat_diff_le) simp
  have sum: "unat (b - a + c) = unat b - unat a + unat c"
    using assms(1,3) T by (subst unat_add_no_wrap) (simp_all add: word_less_nat_alt)
  have "1 \<le> b - a + c" using sum c by (simp add: word_le_nat_alt)
  then have "unat (b - a + c - 1) = unat b - unat a + unat c - 1" using sum by (simp add: unat_diff_le)
  then show ?thesis by (simp add: unat_div chunk_count_def)
qed

lemma chunk_count_props:
  assumes "unat a < unat b" and "0 < unat c"
  shows "k < chunk_count a b c \<Longrightarrow> unat a + k * unat c < unat b" and "bound a b c (chunk_count a b c) = unat b"
    and "bound a b c 0 = unat a"
proof -
  define T where "T = unat b - unat a"
  have T: "unat b = unat a + T" "0 < T" using assms(1) by (simp_all add: T_def)
  have N: "chunk_count a b c = (T + unat c - 1) div unat c" by (simp add: chunk_count_def T_def)
  show "unat a + k * unat c < unat b" if "k < chunk_count a b c"
  proof -
    have "Suc k * unat c \<le> T + unat c - 1"
      using that assms(2) unfolding N by (metis Suc_leI less_eq_div_iff_mult_less_eq)
    with T assms(2) show ?thesis by simp
  qed
  have "T \<le> chunk_count a b c * unat c"
  proof -
    have "T + unat c - 1 = (T + unat c - 1) div unat c * unat c + (T + unat c - 1) mod unat c" by simp
    moreover have "(T + unat c - 1) mod unat c < unat c" using assms(2) by simp
    ultimately show ?thesis unfolding N using assms(2) by linarith
  qed
  then show "bound a b c (chunk_count a b c) = unat b" using T by (simp add: bound_def)
  show "bound a b c 0 = unat a" using assms(1) by (simp add: bound_def)
qed

lemma chunk_start_nat:
  assumes "unat a < unat b" and "0 < unat c" and "unat k < chunk_count a b c"
  shows "unat (chunk_start a c k) = bound a b c (unat k)"
proof -
  have less: "unat a + unat k * unat c < unat b" using assms by (rule chunk_count_props)
  then have mult: "unat (k * c) = unat k * unat c"
    using unat_bound_64 [of b] by (intro unat_mult_no_wrap) simp
  have "unat (chunk_start a c k) = unat a + unat k * unat c"
    unfolding chunk_start_def using less unat_bound_64 [of b] by (subst unat_add_no_wrap) (simp_all add: mult)
  with less show ?thesis by (simp add: bound_def)
qed

lemma chunk_end_nat:
  assumes "unat a < unat b" and "0 < unat c" and "unat k < chunk_count a b c" and "unat b + unat c < 2 ^ 64"
  shows "unat (chunk_end a b c k) = bound a b c (Suc (unat k))" and "chunk_start a c k < chunk_end a b c k"
proof -
  have less: "unat a + unat k * unat c < unat b" using assms(1-3) by (rule chunk_count_props)
  have start: "unat (chunk_start a c k) = unat a + unat k * unat c"
    using chunk_start_nat [OF assms(1-3)] less by (simp add: bound_def)
  have e: "unat (chunk_start a c k + c) = unat a + unat k * unat c + unat c"
    using less assms(4) by (subst unat_add_no_wrap) (simp_all add: start)
  then show "unat (chunk_end a b c k) = bound a b c (Suc (unat k))"
    by (auto simp: chunk_end_def Let_def bound_def word_less_nat_alt algebra_simps)
  then show "chunk_start a c k < chunk_end a b c k"
    using start less assms(2) by (auto simp: word_less_nat_alt bound_def algebra_simps)
qed

lemma bound_mono: "k \<le> m \<Longrightarrow> bound a b c k \<le> bound a b c m"
  unfolding bound_def by (intro min.mono add_left_mono mult_le_mono1) simp_all

lemma mset_upt_split: "i \<le> j \<Longrightarrow> j \<le> k \<Longrightarrow> mset [i..<j] + mset [j..<k] = mset [i..<k]"
  by (metis mset_append upt_add_eq_append le_add_diff_inverse)

lemma sum_mset_nth: "(\<Sum>t\<in>#mset ts. F t) = (\<Sum>i\<leftarrow>[0..<length ts]. F (ts ! i))"
proof -
  have "map F ts = map (\<lambda>i. F (ts ! i)) [0..<length ts]" by (rule nth_equalityI) auto
  then show ?thesis by (metis mset_map sum_mset_sum_list)
qed

lemma sum_chunks:
  assumes "\<And>i. i < n \<Longrightarrow> M i = mset [bound a b c (k + i)..<bound a b c (Suc (k + i))]"
  shows "(\<Sum>i\<leftarrow>[0..<n]. M i) = mset [bound a b c k..<bound a b c (k + n)]"
  using assms
proof (induction n)
  case (Suc n)
  then show ?case
    using mset_upt_split [OF bound_mono bound_mono, of k "k + n" "Suc (k + n)" a b c] by simp
qed simp

section \<open>The parts of a pass\<close>

lemma child_task_link [simp]: "next_free_idx (child_task p x y f par t) = next_free_idx t"
  by (simp add: child_task_def)

lemma alloc_batch_result:
  assumes "sched_wf s" and "alloc_batch tid payload a b c f parent k n s = (ts, s')"
  shows "sched_wf s' \<and> s' = s\<lparr>pool := pool s'\<rparr> \<and> length ts = min n (obtainable tid s) \<and> distinct ts \<and> set ts \<subseteq> avail s
    \<and> avail s' = avail s - set ts \<and> obtainable tid s' = obtainable tid s - length ts
    \<and> set ts \<subseteq> {..<global_task_capacity} \<and> (\<forall>u. u \<notin> set ts \<longrightarrow> task_at s' u = task_at s u)
    \<and> (\<forall>i<length ts. \<exists>t. task_at s' (ts ! i) = child_task payload (chunk_start a c (k + word_of_nat i))
          (chunk_end a b c (k + word_of_nat i)) f parent t)"
  using assms
proof (induction n arbitrary: k s ts s')
  case (Suc n)
  obtain r s1 where acq: "acquire tid s = (r, s1)" by (cases "acquire tid s")
  note A = acquire_sched [OF Suc.prems(1) acq] acquire_obtainable [OF Suc.prems(1) acq]
  show ?case
  proof (cases r)
    case None
    with acq Suc.prems(2) A(4) have "ts = []" "s' = s" by simp_all
    with None A(6) Suc.prems(1) show ?thesis by simp
  next
    case (Some t)
    let ?s2 = "upd_task t (child_task payload (chunk_start a c k) (chunk_end a b c k) f parent) s1"
    obtain us s3 where rest: "alloc_batch tid payload a b c f parent (k + 1) n ?s2 = (us, s3)"
      by (cases "alloc_batch tid payload a b c f parent (k + 1) n ?s2")
    have eq: "ts = t # us" "s' = s3" using acq Some rest Suc.prems(2) by simp_all
    have wf2: "sched_wf ?s2" using A(1) by (simp add: upd_task_pool)
    note IH = Suc.IH [OF wf2 rest]
    have t: "t \<in> avail s" "avail s1 = avail s - {t}" "t < global_task_capacity" using A(5) [OF Some] by auto
    have "obtainable tid s \<noteq> 0" using A(6) Some by simp
    have s2: "avail ?s2 = avail s1" "obtainable tid ?s2 = obtainable tid s - 1"
      using A(7) by (simp_all add: upd_task_pool)
    have us: "t \<notin> set us" "set us \<subseteq> avail s" using IH s2(1) t(2) by auto
    have "task_at s' (ts ! i) = child_task payload (chunk_start a c (k + word_of_nat i)) (chunk_end a b c (k + word_of_nat i)) f parent (task_at s1 t)"
      if "i = 0" for i using that us(1) IH eq by simp
    moreover have "\<exists>x. task_at s' (ts ! i) = child_task payload (chunk_start a c (k + word_of_nat i)) (chunk_end a b c (k + word_of_nat i)) f parent x"
      if i: "0 < i" "i < length ts" for i
    proof -
      from i eq obtain l where l: "i = Suc l" "l < length us" by (cases i) auto
      have "k + 1 + word_of_nat l = k + (word_of_nat i :: size_t)" using l by simp
      then show ?thesis using IH l eq by (metis nth_Cons_Suc)
    qed
    ultimately have fields: "\<forall>i<length ts. \<exists>x. task_at s' (ts ! i) = child_task payload (chunk_start a c (k + word_of_nat i))
        (chunk_end a b c (k + word_of_nat i)) f parent x"
      by (metis gr0I)
    have "s' = s\<lparr>pool := pool s'\<rparr>"
    proof -
      have "?s2 = s\<lparr>pool := pool ?s2\<rparr>" by (subst A(2)) (simp add: upd_task_def task_at_def)
      moreover have "s3 = ?s2\<lparr>pool := pool s3\<rparr>" using IH by simp
      ultimately have "s3 = s\<lparr>pool := pool ?s2, pool := pool s3\<rparr>" by metis
      then show ?thesis using eq(2) by simp
    qed
    moreover have "task_at s' u = task_at s u" if "u \<notin> set ts" for u
      using that IH eq A(3) by simp
    ultimately show ?thesis using IH eq us t s2 fields \<open>obtainable tid s \<noteq> 0\<close> by auto
  qed
qed simp

text \<open>How many more tasks the worker's own deque takes.\<close>

definition own_room :: "nat \<Rightarrow> sched \<Rightarrow> nat" where
  "own_room tid s = (case worker_pool s of None \<Rightarrow> 0
     | Some ws \<Rightarrow> deque_capacity (cl_deque (ws ! tid)) - length (deque_items (cl_deque (ws ! tid))))"

lemma deque_push_batch_sched:
  assumes "sched_wf s" and "is_worker tid s"
  obtains n s' where "deque_push_batch tid ts s = Some (n, s')" and "n \<le> length ts" and "sched_wf s'" and "is_worker tid s'"
    and "own_deque tid s' = own_deque tid s @ take n ts" and "s' = s\<lparr>worker_pool := worker_pool s'\<rparr>"
    and "n = min (length ts) (own_room tid s)"
proof -
  obtain ws where ws: "worker_pool s = Some ws" "tid < length ws"
    using assms(2) by (auto simp: is_worker_def split: option.splits)
  have wok: "worker_ok w" if "w \<in> set ws" for w using assms(1) ws that by (auto simp: sched_wf_def)
  let ?d = "cl_deque (ws ! tid)"
  obtain n d where push: "chase_lev_push_batch ?d ts = (n, d)" by (cases "chase_lev_push_batch ?d ts")
  let ?s = "s\<lparr>worker_pool := Some (ws[tid := (ws ! tid)\<lparr>cl_deque := d\<rparr>])\<rparr>"
  have inv: "deque_inv ?d" using wok ws(2) by (simp add: worker_ok_def)
  note res = push_batch_result [OF inv refl, of ts]
  have rb: "rb_inv ((ws ! tid)\<lparr>cl_deque := d\<rparr>)"
    using wok [of "ws ! tid"] ws(2) by (simp add: worker_ok_def rb_inv_def rb_shape_def rb_capacity_def)
  have "sched_wf ?s"
    using assms(1) ws wok rb res push
    by (auto simp: sched_wf_def worker_ok_def dest!: set_update_subset_insert [THEN subsetD])
  moreover have "own_deque tid ?s = own_deque tid s @ take n ts"
    using ws res push by (simp add: own_deque_def)
  moreover have "n = min (length ts) (own_room tid s)" using ws res push by (simp add: own_room_def)
  moreover have "deque_push_batch tid ts s = Some (n, ?s)" using ws push by (simp add: deque_push_batch_def)
  moreover have "is_worker tid ?s" using ws by (simp add: is_worker_def)
  ultimately show thesis by (intro that [of n ?s]) simp_all
qed

definition inline_call :: "sc_fn \<Rightarrow> ptr \<Rightarrow> sc_task \<Rightarrow> sc_fn \<times> ptr \<times> size_t \<times> size_t" where
  "inline_call f payload x = (f, payload, start_inx x, end_inx x)"

lemma run_rejected_result:
  assumes "leaf_dev dev" and "sched_wf s" and "distinct ts" and "set ts \<inter> avail s = {}" and "set ts \<subseteq> {..<global_task_capacity}"
  shows "\<exists>s'. run_rejected dev tid f payload ts s = Some s' \<and> sched_wf s' \<and> avail s' = avail s \<union> set ts
    \<and> calls s' = calls s @ map (\<lambda>t. inline_call f payload (task_at s t)) ts
    \<and> s' = s\<lparr>pool := pool s', calls := calls s'\<rparr> \<and> (\<forall>u. same_task (task_at s' u) (task_at s u))"
  using assms(2-)
proof (induction ts arbitrary: s)
  case (Cons t ts)
  let ?s1 = "s\<lparr>calls := calls s @ [inline_call f payload (task_at s t)]\<rparr>"
  have wf1: "sched_wf ?s1" using Cons.prems(1) by (simp add: sched_wf_def)
  have t: "t < global_task_capacity" "t \<notin> avail ?s1" using Cons.prems(3,4) by auto
  note R = release_sched [OF wf1 t, of tid]
  have "\<exists>s'. run_rejected dev tid f payload ts (release tid t ?s1) = Some s' \<and> sched_wf s' \<and> avail s' = avail (release tid t ?s1) \<union> set ts
      \<and> calls s' = calls (release tid t ?s1) @ map (\<lambda>u. inline_call f payload (task_at (release tid t ?s1) u)) ts
      \<and> s' = (release tid t ?s1)\<lparr>pool := pool s', calls := calls s'\<rparr> \<and> (\<forall>u. same_task (task_at s' u) (task_at (release tid t ?s1) u))"
    using Cons.prems R(2) by (intro Cons.IH [OF R(1)]) auto
  then obtain s' where s': "run_rejected dev tid f payload ts (release tid t ?s1) = Some s'" "sched_wf s'"
      "avail s' = avail (release tid t ?s1) \<union> set ts"
      "calls s' = calls (release tid t ?s1) @ map (\<lambda>u. inline_call f payload (task_at (release tid t ?s1) u)) ts"
      "s' = (release tid t ?s1)\<lparr>pool := pool s', calls := calls s'\<rparr>"
      "\<And>u. same_task (task_at s' u) (task_at (release tid t ?s1) u)" by blast
  have same: "same_task (task_at (release tid t ?s1) u) (task_at s u)" for u
    using R(4) [of u] by (simp add: same_task_def task_at_def)
  have "run_rejected dev tid f payload (t # ts) s = Some s'"
    using s'(1) assms(1) by (simp add: call_dev_def leaf_dev_def inline_call_def)
  moreover have "calls s' = calls s @ map (\<lambda>t. inline_call f payload (task_at s t)) (t # ts)"
    using s'(4) same_task_fields(2,3) [OF same] by (simp add: release_def inline_call_def)
  moreover have "s' = s\<lparr>pool := pool s', calls := calls s'\<rparr>"
    by (subst s'(5)) (simp add: release_def)
  moreover have "same_task (task_at s' u) (task_at s u)" for u
    by (rule same_task_trans [OF s'(6) same])
  ultimately show ?case using s'(2,3) R(2) by (intro exI [of _ s']) auto
qed simp

section \<open>One pass\<close>

text \<open>A child of \<open>cur\<close> that runs \<open>f\<close> on a non-empty part of the payload.\<close>

definition spawn_child :: "sc_fn \<Rightarrow> ptr \<Rightarrow> task_ref \<Rightarrow> sc_task \<Rightarrow> bool" where
  "spawn_child f payload cur x \<longleftrightarrow> task_fn x = Some f \<and> task_payload x = payload \<and> parent_task x = Some cur
     \<and> unfinished_dependencies x = 1 \<and> start_inx x < end_inx x"

lemma same_task_spawn: "same_task x y \<Longrightarrow> spawn_child f p cur x \<Longrightarrow> spawn_child f p cur y"
  using same_task_fields [of x y] by (simp add: spawn_child_def)

text \<open>What the allocation loop made: the next chunks, in order.\<close>

lemma batch_children:
  assumes "a < b" and "c \<noteq> 0" and "unat b + unat c < 2 ^ 64" and "unat k + length ts \<le> chunk_count a b c"
    and "\<forall>i<length ts. \<exists>t. task_at s (ts ! i) = child_task payload (chunk_start a c (k + word_of_nat i))
          (chunk_end a b c (k + word_of_nat i)) f (Some cur) t"
  shows "\<forall>t\<in>set ts. spawn_child f payload cur (task_at s t)"
    and "(\<Sum>t\<in>#mset ts. task_cells (task_at s t)) = mset [bound a b c (unat k)..<bound a b c (unat k + length ts)]"
proof -
  have ab: "unat a < unat b" "0 < unat c" using assms(1,2) by (simp_all add: word_less_nat_alt unat_gt_0)
  have N: "chunk_count a b c < 2 ^ 64"
    using chunk_count_word [OF assms(1-3)] unat_bound_64 by metis
  have word: "unat (k + word_of_nat i :: size_t) = unat k + i" if "i < length ts" for i
    using that assms(4) N by (subst unat_add_no_wrap) (simp_all add: unat_of_nat)
  have child: "spawn_child f payload cur (task_at s (ts ! i))
      \<and> task_cells (task_at s (ts ! i)) = mset [bound a b c (unat k + i)..<bound a b c (Suc (unat k + i))]"
    if i: "i < length ts" for i
  proof -
    let ?k = "k + word_of_nat i"
    have k: "unat ?k < chunk_count a b c" using i word [OF i] assms(4) by simp
    obtain t where "task_at s (ts ! i) = child_task payload (chunk_start a c ?k) (chunk_end a b c ?k) f (Some cur) t"
      using assms(5) i by blast
    then show ?thesis
      using chunk_start_nat [OF ab k] chunk_end_nat [OF ab k assms(3)] word [OF i]
      by (simp add: spawn_child_def task_cells_def cells_def child_task_def)
  qed
  then show "\<forall>t\<in>set ts. spawn_child f payload cur (task_at s t)" by (auto simp: in_set_conv_nth)
  have "(\<Sum>t\<in>#mset ts. task_cells (task_at s t)) = (\<Sum>i\<leftarrow>[0..<length ts]. task_cells (task_at s (ts ! i)))"
    by (rule sum_mset_nth)
  also have "\<dots> = mset [bound a b c (unat k)..<bound a b c (unat k + length ts)]"
    using child by (intro sum_chunks) simp
  finally show "(\<Sum>t\<in>#mset ts. task_cells (task_at s t)) = mset [bound a b c (unat k)..<bound a b c (unat k + length ts)]" .
qed

lemma chunk_start_total:
  assumes "a < b" and "c \<noteq> 0" and "unat b + unat c < 2 ^ 64" and "unat k = chunk_count a b c"
  shows "\<not> chunk_start a c k < b"
proof -
  have c: "0 < unat c" and ab: "unat a < unat b" using assms(1,2) by (simp_all add: unat_gt_0 word_less_nat_alt)
  have "unat k * unat c \<le> unat b - unat a + unat c - 1"
    unfolding assms(4) chunk_count_def by (rule div_times_less_eq_dividend)
  then have le: "unat a + unat k * unat c < 2 ^ 64" "unat k * unat c < 2 ^ 64" using assms(3) ab by simp_all
  then have "unat (k * c) = unat k * unat c" by (intro unat_mult_no_wrap) simp
  then have "unat (chunk_start a c k) = unat a + unat k * unat c"
    unfolding chunk_start_def using le by (subst unat_add_no_wrap) simp_all
  moreover have "unat b \<le> unat a + unat k * unat c"
    using chunk_count_props(2) [OF ab c] unfolding assms(4) [symmetric] bound_def by simp
  ultimately show ?thesis by (simp add: word_less_nat_alt)
qed

text \<open>The state after a batch has been allocated, counted and offered to the deque.\<close>

lemma batch_offered:
  assumes run: "running tid cur s" and alloc: "alloc_batch tid payload a b c f (Some cur) k n s = (ts, s1)"
  obtains m s3 where "deque_push_batch tid ts (upd_task cur (add_deps (word_of_nat (length ts))) s1) = Some (m, s3)"
    and "m \<le> length ts" and "m = min (length ts) (own_room tid s)" and "sched_wf s3" and "is_worker tid s3" and "own_deque tid s3 = own_deque tid s @ take m ts"
    and "avail s3 = avail s - set ts" and "obtainable tid s3 = obtainable tid s - length ts" and "jobs s3 = jobs s" and "calls s3 = calls s"
    and "tl_current_task s3 = tl_current_task s" and "task_at s3 cur = add_deps (word_of_nat (length ts)) (task_at s cur)"
    and "\<And>u. u \<noteq> cur \<Longrightarrow> u \<notin> set ts \<Longrightarrow> task_at s3 u = task_at s u" and "\<And>t. t \<in> set ts \<Longrightarrow> task_at s3 t = task_at s1 t"
proof -
  have wf: "sched_wf s" and w: "is_worker tid s" and cur: "cur \<notin> avail s" using run by (simp_all add: running_def)
  note A = alloc_batch_result [OF wf alloc]
  have only: "s1 = s\<lparr>pool := pool s1\<rparr>" and ts: "set ts \<subseteq> avail s" using A by blast+
  have same1: "worker_pool s1 = worker_pool s" "jobs s1 = jobs s" "calls s1 = calls s" "tl_current_task s1 = tl_current_task s"
    by (subst only, simp)+
  let ?s2 = "upd_task cur (add_deps (word_of_nat (length ts))) s1"
  have wf2: "sched_wf ?s2" using A by (simp add: upd_task_pool)
  have w2: "is_worker tid ?s2" using w same1 by (simp add: is_worker_def)
  obtain m s3 where P: "deque_push_batch tid ts ?s2 = Some (m, s3)" "m \<le> length ts" "sched_wf s3" "is_worker tid s3"
      "own_deque tid s3 = own_deque tid ?s2 @ take m ts" "s3 = ?s2\<lparr>worker_pool := worker_pool s3\<rparr>"
      "m = min (length ts) (own_room tid ?s2)"
    by (rule deque_push_batch_sched [OF wf2 w2, of ts])
  have same3: "avail s3 = avail ?s2" "obtainable tid s3 = obtainable tid ?s2" "jobs s3 = jobs s" "calls s3 = calls s"
      "tl_current_task s3 = tl_current_task s" "task_at s3 u = task_at ?s2 u" for u
    using same1 by (subst P(6), simp add: task_at_def)+
  have "cur \<notin> set ts" using cur ts by auto
  with A have "task_at s3 cur = add_deps (word_of_nat (length ts)) (task_at s cur)" by (simp add: same3(6))
  moreover have "t \<noteq> cur" if "t \<in> set ts" for t using that \<open>cur \<notin> set ts\<close> by auto
  moreover have "own_deque tid ?s2 = own_deque tid s" "own_room tid ?s2 = own_room tid s"
    using same1 by (simp_all add: own_deque_def own_room_def)
  ultimately show thesis
    using A P same3 by (intro that [of m s3]) (simp_all add: upd_task_pool)
qed

lemma dispatched_batch:
  assumes run: "running tid cur s" and alloc: "alloc_batch tid payload a b c f (Some cur) k n s = (ts, s1)"
    and leaf: "leaf_dev dev"
  obtains (all) s3 where "deque_push_batch tid ts (upd_task cur (add_deps (word_of_nat (length ts))) s1) = Some (length ts, s3)"
      and "dispatched tid cur ts [] s s3" and "obtainable tid s3 = obtainable tid s - length ts"
      and "\<And>t. t \<in> set ts \<Longrightarrow> task_at s3 t = task_at s1 t" and "length ts \<le> own_room tid s"
  | (some) m s3 s5 where "deque_push_batch tid ts (upd_task cur (add_deps (word_of_nat (length ts))) s1) = Some (m, s3)"
      and "m < length ts" and "run_rejected dev tid f payload (drop m ts) (upd_task cur (sub_deps (word_of_nat (length ts - m))) s3) = Some s5"
      and "dispatched tid cur (take m ts) (map (\<lambda>t. inline_call f payload (task_at s1 t)) (drop m ts)) s s5"
      and "\<And>t. t \<in> set (take m ts) \<Longrightarrow> same_task (task_at s5 t) (task_at s1 t)"
proof -
  have wf: "sched_wf s" and cur: "cur \<notin> avail s" "cur < global_task_capacity" using run by (simp_all add: running_def)
  note A = alloc_batch_result [OF wf alloc]
  have ts: "set ts \<subseteq> avail s" "distinct ts" "set ts \<subseteq> {..<global_task_capacity}" using A by blast+
  then have cur_ts: "cur \<notin> set ts" using cur by auto
  obtain m s3 where O: "deque_push_batch tid ts (upd_task cur (add_deps (word_of_nat (length ts))) s1) = Some (m, s3)"
    "m \<le> length ts" "m = min (length ts) (own_room tid s)" "sched_wf s3" "is_worker tid s3" "own_deque tid s3 = own_deque tid s @ take m ts"
    "avail s3 = avail s - set ts" "obtainable tid s3 = obtainable tid s - length ts" "jobs s3 = jobs s" "calls s3 = calls s"
    "tl_current_task s3 = tl_current_task s" "task_at s3 cur = add_deps (word_of_nat (length ts)) (task_at s cur)"
    "\<And>u. u \<noteq> cur \<Longrightarrow> u \<notin> set ts \<Longrightarrow> task_at s3 u = task_at s u" "\<And>t. t \<in> set ts \<Longrightarrow> task_at s3 t = task_at s1 t"
    by (rule batch_offered [OF run alloc]) (rule that; assumption)
  show thesis
  proof (cases "m = length ts")
    case True
    have "running tid cur s3" using O by (intro running_intro [OF O(4,5) _ _ run]) auto
    moreover have "u \<notin> set ts" if "u \<notin> avail s" for u using that ts by auto
    ultimately have "dispatched tid cur ts [] s s3" using O ts True by (simp add: dispatched_def)
    with O True all show thesis by simp
  next
    case False
    let ?s4 = "upd_task cur (sub_deps (word_of_nat (length ts - m))) s3"
    have wf4: "sched_wf ?s4" and av4: "avail ?s4 = avail s - set ts" using O(4,7) by (simp_all add: upd_task_pool)
    have drop: "set (drop m ts) \<subseteq> set ts" "set ts = set (take m ts) \<union> set (drop m ts)" "set (take m ts) \<inter> set (drop m ts) = {}"
      using ts(2) by (metis set_drop_subset, metis append_take_drop_id set_append, metis append_take_drop_id distinct_append)
    have rej: "distinct (drop m ts)" "set (drop m ts) \<inter> avail ?s4 = {}" "set (drop m ts) \<subseteq> {..<global_task_capacity}"
      using ts drop(1) av4 by auto
    obtain s5 where R: "run_rejected dev tid f payload (drop m ts) ?s4 = Some s5" "sched_wf s5" "avail s5 = avail ?s4 \<union> set (drop m ts)"
        "calls s5 = calls ?s4 @ map (\<lambda>t. inline_call f payload (task_at ?s4 t)) (drop m ts)"
        "s5 = ?s4\<lparr>pool := pool s5, calls := calls s5\<rparr>" "\<And>u. same_task (task_at s5 u) (task_at ?s4 u)"
      using run_rejected_result [OF leaf wf4 rej, of tid f payload] by blast
    have same5: "jobs s5 = jobs s" "worker_pool s5 = worker_pool s3" "tl_current_task s5 = tl_current_task s"
      using O by (subst R(5), simp)+
    have av5: "avail s5 = avail s - set (take m ts)" using R(3) av4 drop ts(1) by auto
    have at4: "task_at ?s4 u = task_at s3 u" if "u \<noteq> cur" for u using that by simp
    have calls5: "calls s5 = calls s @ map (\<lambda>t. inline_call f payload (task_at s1 t)) (drop m ts)"
      using R(4) O(10,14) drop(1) cur_ts by (auto intro!: map_cong)
    have deps: "word_of_nat (length ts) - word_of_nat (length ts - m) = (word_of_nat (length (take m ts)) :: size_t)"
      using O(2) by (simp add: of_nat_diff)
    have curd: "task_at ?s4 cur = add_deps (word_of_nat (length (take m ts))) (task_at s cur)"
      unfolding deps [symmetric] using O(12) by (cases "task_at s cur") (simp add: algebra_simps)
    have "running tid cur s5"
      using av5 same5 O(5) by (intro running_intro [OF R(2) _ _ _ run]) (auto simp: is_worker_def)
    moreover have "own_deque tid s5 = own_deque tid s @ take m ts" using O(6) same5 by (simp add: own_deque_def)
    moreover have "same_task (task_at s5 u) (task_at s u)" if "u \<notin> avail s" "u \<noteq> cur" for u
    proof -
      have "u \<notin> set ts" using that ts(1) by auto
      then have "task_at ?s4 u = task_at s u" using that O(13) by simp
      with R(6) [of u] show ?thesis by simp
    qed
    moreover have "same_task (task_at s5 cur) (add_deps (word_of_nat (length (take m ts))) (task_at s cur))"
      using R(6) [of cur] curd by simp
    moreover have "set (take m ts) \<subseteq> avail s" using drop(2) ts(1) by auto
    ultimately have "dispatched tid cur (take m ts) (map (\<lambda>t. inline_call f payload (task_at s1 t)) (drop m ts)) s s5"
      using same5 av5 calls5 ts(2) by (simp add: dispatched_def)
    moreover have "same_task (task_at s5 t) (task_at s1 t)" if "t \<in> set (take m ts)" for t
    proof -
      have "t \<in> set ts" "t \<noteq> cur" using that drop(2) cur_ts by auto
      with R(6) [of t] O(14) [of t] show ?thesis by simp
    qed
    ultimately show thesis using some O(1,2) False R(1) by simp
  qed
qed

lemma sum_take_drop: "(\<Sum>t\<in>#mset ts. F t) = (\<Sum>t\<in>#mset (take m ts). F t) + (\<Sum>t\<in>#mset (drop m ts). F t)"
  by (metis append_take_drop_id image_mset_union mset_append sum_mset.union)

abbreviation spawned :: "sc_fn \<Rightarrow> ptr \<Rightarrow> task_ref \<Rightarrow> task_ref list \<Rightarrow> (sc_fn \<times> ptr \<times> size_t \<times> size_t) list \<Rightarrow> sched \<Rightarrow> nat multiset \<Rightarrow> bool" where
  "spawned f payload cur \<equiv> covered (spawn_child f payload cur) (call_of f payload)"

text \<open>
  A pass that gets all the tasks it asks for, or none: it either hands its chunks to the deque and goes
  on, or deals with everything that is left and returns.
\<close>

lemma spawn_pass_covers:
  assumes run: "running tid cur s" and leaf: "leaf_dev dev"
    and ab: "a < b" "c \<noteq> 0" "unat b + unat c < 2 ^ 64"
    and tot: "unat N = chunk_count a b c" "k < N" and n: "n = min 256 (unat N - unat k)"
    and tasks: "n \<le> obtainable tid s \<or> obtainable tid s = 0"
  obtains (returns) s' ts cs where "spawn_pass dev tid payload a b c f (Some cur) N k s = Some (Inl s')"
      and "dispatched tid cur ts cs s s'" and "spawned f payload cur ts cs s' (mset [bound a b c (unat k)..<unat b])"
  | (goes_on) k' s' ts where "spawn_pass dev tid payload a b c f (Some cur) N k s = Some (Inr (k', s'))"
      and "dispatched tid cur ts [] s s'" and "spawned f payload cur ts [] s' (mset [bound a b c (unat k)..<bound a b c (unat k')])"
      and "unat k' = unat k + n" and "obtainable tid s' = obtainable tid s - n"
proof -
  let ?n = "if BATCH_SIZE < N - k then BATCH_SIZE else N - k"
  note size = pass_size [OF tot(2)]
  have n_word: "unat ?n = n" using size(1) n by simp
  have c: "0 < unat c" and ab': "unat a < unat b" using ab(1,2) by (simp_all add: unat_gt_0 word_less_nat_alt)
  have kN: "unat k < chunk_count a b c" using tot by (simp add: word_less_nat_alt)
  have pos: "0 < n" using n_word size(2) by simp
  have wf: "sched_wf s" using run by (simp add: running_def)
  obtain ts s1 where alloc: "alloc_batch tid payload a b c f (Some cur) k (unat ?n) s = (ts, s1)" by (cases "alloc_batch tid payload a b c f (Some cur) k (unat ?n) s")
  note A = alloc_batch_result [OF wf alloc]
  have pass: "spawn_pass dev tid payload a b c f (Some cur) N k s =
      (if ts = [] then map_option Inl (call_dev dev tid f payload (chunk_start a c k) b s1)
       else (case deque_push_batch tid ts (upd_task cur (add_deps (word_of_nat (length ts))) s1) of
               None \<Rightarrow> None
             | Some (pushed, s) \<Rightarrow>
                 if pushed < length ts then
                   (case run_rejected dev tid f payload (drop pushed ts) (upd_task cur (sub_deps (word_of_nat (length ts - pushed))) s) of
                      None \<Rightarrow> None
                    | Some s \<Rightarrow> (let r = chunk_start a c (k + word_of_nat (length ts))
                        in if r < b then map_option Inl (call_dev dev tid f payload r b s) else Some (Inl s)))
                 else Some (Inr (k + ?n, s))))"
    unfolding spawn_pass_def Let_def using alloc by simp
  show thesis
  proof (cases "ts = []")
    case True
    then have "obtainable tid s = 0" using A pos n_word by auto
    have "s1 = s" using alloc True \<open>obtainable tid s = 0\<close> acquire_obtainable(1) [OF wf] acquire_sched(4) [OF wf] n_word pos
      by (cases "unat ?n") (auto split: prod.splits option.splits)
    let ?call = "(f, payload, chunk_start a c k, b)"
    have "spawn_pass dev tid payload a b c f (Some cur) N k s = Some (Inl (s\<lparr>calls := calls s @ [?call]\<rparr>))"
      using pass True leaf \<open>s1 = s\<close> by (simp add: call_dev_def leaf_dev_def)
    moreover have "dispatched tid cur [] ([] @ [?call]) s (s\<lparr>calls := calls s @ [?call]\<rparr>)"
      by (rule dispatched_call [OF dispatched_refl [OF run]])
    moreover have "spawned f payload cur [] [?call] (s\<lparr>calls := calls s @ [?call]\<rparr>) (mset [bound a b c (unat k)..<unat b])"
      using chunk_start_nat [OF ab' c kN] by (simp add: covered_def call_of_def cells_def)
    ultimately show thesis using returns by simp
  next
    case False
    then have len: "length ts = n" using A tasks n_word by auto
    have fits: "unat k + length ts \<le> chunk_count a b c" using len n tot(1) kN by simp
    have kids: "\<forall>t\<in>set ts. spawn_child f payload cur (task_at s1 t)"
      "(\<Sum>t\<in>#mset ts. task_cells (task_at s1 t)) = mset [bound a b c (unat k)..<bound a b c (unat k + length ts)]"
      using batch_children [OF ab fits, of s1 payload f cur] A by blast+
    from run alloc leaf show thesis
    proof (cases rule: dispatched_batch)
      case (all s3)
      have "spawn_pass dev tid payload a b c f (Some cur) N k s = Some (Inr (k + ?n, s3))"
        using pass False all(1) by simp
      moreover have "unat (k + ?n) = unat k + n" using size(3) n_word by simp
      moreover have "(\<Sum>t\<in>#mset ts. task_cells (task_at s3 t)) = (\<Sum>t\<in>#mset ts. task_cells (task_at s1 t))"
        using all(4) by (intro arg_cong [of _ _ sum_mset] image_mset_cong) simp
      then have "spawned f payload cur ts [] s3 (mset [bound a b c (unat k)..<bound a b c (unat (k + ?n))])"
        using kids len all(4) size(3) n_word by (simp add: covered_def)
      ultimately show thesis using all(2,3) len by (intro goes_on) auto
    next
      case (some m s3 s5)
      let ?cs = "map (\<lambda>t. inline_call f payload (task_at s1 t)) (drop m ts)"
      have sub: "set (take m ts) \<subseteq> set ts" "set (drop m ts) \<subseteq> set ts" by (rule set_take_subset, rule set_drop_subset)
      have "(\<Sum>x\<in>#mset ?cs. call_cells x) = (\<Sum>t\<in>#mset (drop m ts). task_cells (task_at s1 t))"
        by (simp add: inline_call_def task_cells_def image_mset.compositionality comp_def flip: mset_map)
      moreover have "(\<Sum>t\<in>#mset (take m ts). task_cells (task_at s5 t)) = (\<Sum>t\<in>#mset (take m ts). task_cells (task_at s1 t))"
        using some(5) by (intro arg_cong [of _ _ sum_mset] image_mset_cong) (auto simp: same_task_split(2))
      moreover have "spawn_child f payload cur (task_at s5 t)" if t: "t \<in> set (take m ts)" for t
      proof -
        have "same_task (task_at s1 t) (task_at s5 t)" using some(5) [OF t] by (simp add: same_task_def)
        moreover have "spawn_child f payload cur (task_at s1 t)" using kids(1) sub(1) t by blast
        ultimately show ?thesis by (rule same_task_spawn)
      qed
      ultimately have cov: "spawned f payload cur (take m ts) ?cs s5 (mset [bound a b c (unat k)..<bound a b c (unat k + n)])"
        using kids(2) len sum_take_drop [of "\<lambda>t. task_cells (task_at s1 t)" ts m]
        by (auto simp: covered_def call_of_def inline_call_def)
      have k': "k + word_of_nat (length ts) = k + ?n"
      proof -
        have "word_of_nat (length ts) = (word_of_nat (unat ?n) :: size_t)" by (simp only: len n_word)
        then show ?thesis by (simp del: if_split)
      qed
      let ?r = "chunk_start a c (k + ?n)"
      show thesis
      proof (cases "?r < b")
        case True
        let ?call = "(f, payload, ?r, b)"
        have result: "spawn_pass dev tid payload a b c f (Some cur) N k s = Some (Inl (s5\<lparr>calls := calls s5 @ [?call]\<rparr>))"
          using pass False some(1-3) True k' leaf by (simp add: call_dev_def leaf_dev_def Let_def)
        have less: "unat (k + ?n) < chunk_count a b c"
        proof (rule ccontr)
          assume "\<not> unat (k + ?n) < chunk_count a b c"
          then have "unat (k + ?n) = chunk_count a b c" using fits len size(3) n_word by simp
          with chunk_start_total [OF ab, of "k + ?n"] True show False by blast
        qed
        have "spawned f payload cur [] [?call] (s5\<lparr>calls := calls s5 @ [?call]\<rparr>) (mset [bound a b c (unat k + n)..<unat b])"
          using chunk_start_nat [OF ab' c less] size(3) n_word by (simp add: covered_def call_of_def cells_def)
        moreover have "spawned f payload cur (take m ts) ?cs (s5\<lparr>calls := calls s5 @ [?call]\<rparr>) (mset [bound a b c (unat k)..<bound a b c (unat k + n)])"
          using cov by (simp add: covered_def task_at_def)
        ultimately have "spawned f payload cur (take m ts @ []) (?cs @ [?call]) (s5\<lparr>calls := calls s5 @ [?call]\<rparr>)
            (mset [bound a b c (unat k)..<bound a b c (unat k + n)] + mset [bound a b c (unat k + n)..<unat b])"
          by (intro covered_append)
        moreover have "mset [bound a b c (unat k)..<bound a b c (unat k + n)] + mset [bound a b c (unat k + n)..<unat b] = mset [bound a b c (unat k)..<unat b]"
          by (rule mset_upt_split [OF bound_mono]) (simp_all add: bound_def)
        ultimately show thesis using returns result dispatched_call [OF some(4), of ?call] by simp
      next
        case False
        have "spawn_pass dev tid payload a b c f (Some cur) N k s = Some (Inl s5)"
          using pass \<open>ts \<noteq> []\<close> some(1-3) False k' by (simp add: Let_def)
        moreover have "bound a b c (unat k + n) = unat b"
        proof -
          have "unat k + n = chunk_count a b c"
          proof (rule ccontr)
            assume "unat k + n \<noteq> chunk_count a b c"
            then have less: "unat (k + ?n) < chunk_count a b c" using fits len size(3) n_word by simp
            have "unat ?r < unat b" using chunk_start_nat [OF ab' c less] chunk_count_props(1) [OF ab' c less] by (simp add: bound_def)
            with False show False by (simp add: word_less_nat_alt)
          qed
          then show ?thesis using chunk_count_props(2) [OF ab' c] by simp
        qed
        ultimately show thesis using returns some(4) cov by simp
      qed
    qed
  qed
qed

lemma spawn_loop_covers:
  assumes "running tid cur s" and "leaf_dev dev" and "a < b" "c \<noteq> 0" "unat b + unat c < 2 ^ 64" and "unat N = chunk_count a b c"
    and "unat N - unat k \<le> obtainable tid s \<or> obtainable tid s = 0"
  shows "\<exists>s' ts cs. spawn_loop dev tid payload a b c f (Some cur) N k s = Some s' \<and> dispatched tid cur ts cs s s'
    \<and> spawned f payload cur ts cs s' (mset [bound a b c (unat k)..<unat b])"
  using assms
proof (induction "unat N - unat k" arbitrary: k s rule: less_induct)
  case less
  note prems = less.prems
  show ?case
  proof (cases "k < N")
    case False
    then have "spawn_loop dev tid payload a b c f (Some cur) N k s = Some s" by (simp add: spawn_loop.simps)
    moreover have "unat b \<le> bound a b c (unat k)"
      using False prems(3,4,6) bound_mono [of "unat N" "unat k" a b c] chunk_count_props(2) [of a b c]
      by (simp add: word_less_nat_alt unat_gt_0)
    ultimately show ?thesis using dispatched_refl [OF prems(1)]
      by (intro exI [of _ s] exI [of _ "[]"]) (simp add: covered_def)
  next
    case True
    have tasks: "min 256 (unat N - unat k) \<le> obtainable tid s \<or> obtainable tid s = 0" using prems(7) by auto
    from prems(1,2,3,4,5,6) True refl tasks show ?thesis
    proof (cases rule: spawn_pass_covers [where payload = payload and f = f])
      case (returns s' ts cs)
      then have "spawn_loop dev tid payload a b c f (Some cur) N k s = Some s'"
        using True by (simp add: spawn_loop.simps [of dev tid payload a b c f "Some cur" N k s])
      with returns(2,3) show ?thesis by blast
    next
      case (goes_on k' s1 ts)
      have k': "unat k < unat k'" using goes_on(4) True by (simp add: word_less_nat_alt)
      have cur: "cur \<notin> avail s" using prems(1) by (simp add: running_def)
      have "\<exists>s' us ds. spawn_loop dev tid payload a b c f (Some cur) N k' s1 = Some s' \<and> dispatched tid cur us ds s1 s'
          \<and> spawned f payload cur us ds s' (mset [bound a b c (unat k')..<unat b])"
        using prems k' True goes_on(4,5) dispatchedD(1) [OF goes_on(2)]
        by (intro less.hyps) (auto simp: word_less_nat_alt)
      then obtain s' us ds where IH: "spawn_loop dev tid payload a b c f (Some cur) N k' s1 = Some s'" "dispatched tid cur us ds s1 s'"
          "spawned f payload cur us ds s' (mset [bound a b c (unat k')..<unat b])" by blast
      note trans = dispatched_trans [OF goes_on(2) IH(2) cur]
      have "spawn_loop dev tid payload a b c f (Some cur) N k s = Some s'"
        using True goes_on(1) IH(1) by (simp add: spawn_loop.simps [of dev tid payload a b c f "Some cur" N k s])
      moreover have "spawned f payload cur (ts @ us) ([] @ ds) s'
          (mset [bound a b c (unat k)..<bound a b c (unat k')] + mset [bound a b c (unat k')..<unat b])"
        using covered_later [OF goes_on(3) trans(2) same_task_spawn] IH(3) by (rule covered_append)
      moreover have "mset [bound a b c (unat k)..<bound a b c (unat k')] + mset [bound a b c (unat k')..<unat b] = mset [bound a b c (unat k)..<unat b]"
        using k' by (intro mset_upt_split bound_mono) (simp_all add: bound_def)
      ultimately show ?thesis using trans(1)
        by (intro exI [of _ s'] exI [of _ "ts @ us"] exI [of _ "[] @ ds"]) simp
    qed
  qed
qed

section \<open>Properties\<close>

lemma spawn_result:
  assumes "running tid cur s" and "leaf_dev dev" and "a < b" and "c = (if chunk = 0 then DEFAULT_CHUNK_SIZE else chunk)"
    and "unat b + unat c < 2 ^ 64" and "chunk_count a b c \<le> obtainable tid s \<or> obtainable tid s = 0"
  shows "\<exists>s' ts cs. scheduler_spawn_subtasks dev tid payload a b chunk f s = Some s' \<and> running tid cur s'
    \<and> own_deque tid s' = own_deque tid s @ ts \<and> distinct ts \<and> set ts \<subseteq> avail s \<and> avail s' = avail s - set ts
    \<and> calls s' = calls s @ cs \<and> spawned f payload cur ts cs s' (cells a b)
    \<and> unfinished_dependencies (task_at s' cur) = unfinished_dependencies (task_at s cur) + of_nat (length ts)"
proof -
  have c: "c \<noteq> 0" using assms(4) by (simp add: DEFAULT_CHUNK_SIZE_def)
  let ?N = "(b - a + c - 1) div c"
  have N: "unat ?N = chunk_count a b c" using assms(3) c assms(5) by (rule chunk_count_word)
  obtain s' ts cs where loop: "spawn_loop dev tid payload a b c f (Some cur) ?N 0 s = Some s'" "dispatched tid cur ts cs s s'"
      "spawned f payload cur ts cs s' (mset [bound a b c (unat (0 :: size_t))..<unat b])"
    using spawn_loop_covers [OF assms(1-3) c assms(5) N, of 0 payload f] assms(6) N by auto
  note D = dispatchedD [OF loop(2)]
  have "tl_current_task s tid = Some cur" using assms(1) by (simp add: running_def)
  then have "scheduler_spawn_subtasks dev tid payload a b chunk f s = Some s'"
    using assms(3,4) loop(1) by (simp add: scheduler_spawn_subtasks_def Let_def)
  moreover have "spawned f payload cur ts cs s' (cells a b)"
    using loop(3) chunk_count_props(3) [of a b c] assms(3) c by (simp add: cells_def word_less_nat_alt unat_gt_0)
  moreover have "unfinished_dependencies (task_at s' cur) = unfinished_dependencies (task_at s cur) + of_nat (length ts)"
    using same_task_fields(5) [OF D(8)] by simp
  ultimately show ?thesis using D(1,3,4,5,6,7) by blast
qed

text \<open>
  C17: a spawn that finds as many free tasks as it needs, or none at all, loses no index and repeats
  none, provided that the end of the range plus one chunk does not wrap around (\<open>spawn_huge_chunk_drops_work\<close>
  shows what happens otherwise) and that the functions of the developer that it calls inline work on the
  developer's data only, that is, do not use the scheduler themselves (\<open>leaf_dev\<close>). It returns without touching a null pointer; the tasks it leaves in the worker's own deque (in
  order, at its end) and the calls of the developer's function it makes itself, because no task is free or
  the deque is full, partition the range exactly. Every task is a child of the current one with a
  non-empty part of the range, and the dependency count of the current task grows by exactly their
  number. A chunk size of 0 stands for the default.
\<close>

theorem spawn_covers_range:
  assumes "running tid cur s" and "leaf_dev dev" and "a < b" and "c = (if chunk = 0 then DEFAULT_CHUNK_SIZE else chunk)"
    and "unat b + unat c < 2 ^ 64" and "chunk_count a b c \<le> obtainable tid s \<or> obtainable tid s = 0"
  shows "\<exists>s' ts cs. scheduler_spawn_subtasks dev tid payload a b chunk f s = Some s' \<and> running tid cur s'
    \<and> own_deque tid s' = own_deque tid s @ ts \<and> distinct ts \<and> set ts \<subseteq> avail s \<and> avail s' = avail s - set ts
    \<and> calls s' = calls s @ cs \<and> spawned f payload cur ts cs s' (cells a b)
    \<and> unfinished_dependencies (task_at s' cur) = unfinished_dependencies (task_at s cur) + of_nat (length ts)"
  by (rule spawn_result [OF assms])

text \<open>The allocation loop that runs out of tasks in the middle of the first batch.\<close>

lemma spawn_partial_result:
  assumes run: "running tid cur s" and leaf: "leaf_dev dev" and ab: "a < b" "c \<noteq> 0" "unat b + unat c < 2 ^ 64"
    and one: "chunk_count a b c \<le> 256" and m: "m = obtainable tid s" "0 < m" "m < chunk_count a b c" and room: "m \<le> own_room tid s"
  shows "\<exists>s' ts. scheduler_spawn_subtasks dev tid payload a b c f s = Some s' \<and> dispatched tid cur ts [] s s'
    \<and> length ts = m \<and> spawned f payload cur ts [] s' (mset [unat a..<unat a + m * unat c]) \<and> unat a + m * unat c < unat b"
proof -
  let ?N = "(b - a + c - 1) div c"
  have N: "unat ?N = chunk_count a b c" using ab by (rule chunk_count_word)
  have c: "0 < unat c" and ab': "unat a < unat b" using ab(1,2) by (simp_all add: unat_gt_0 word_less_nat_alt)
  have pos: "0 < ?N" using N m by (simp add: word_less_nat_alt)
  let ?n = "if BATCH_SIZE < ?N - 0 then BATCH_SIZE else ?N - 0"
  note size = pass_size [OF pos]
  have n: "unat ?n = chunk_count a b c" using size(1) N one by simp
  have wf: "sched_wf s" and tl: "tl_current_task s tid = Some cur" using run by (simp_all add: running_def)
  obtain ts s1 where alloc: "alloc_batch tid payload a b c f (Some cur) 0 (unat ?n) s = (ts, s1)"
    by (cases "alloc_batch tid payload a b c f (Some cur) 0 (unat ?n) s")
  note A = alloc_batch_result [OF wf alloc]
  have len: "length ts = m" using A m unfolding n by simp
  then have "ts \<noteq> []" using m(2) by auto
  have fits: "unat (0 :: size_t) + length ts \<le> chunk_count a b c" using len m(3) by simp
  have kids: "\<forall>t\<in>set ts. spawn_child f payload cur (task_at s1 t)"
    "(\<Sum>t\<in>#mset ts. task_cells (task_at s1 t)) = mset [bound a b c (unat (0 :: size_t))..<bound a b c (unat (0 :: size_t) + length ts)]"
    using batch_children [OF ab fits, of s1 payload f cur] A by blast+
  have less: "unat a + m * unat c < unat b" using ab' c m(3) by (rule chunk_count_props(1))
  from run alloc leaf show ?thesis
  proof (cases rule: dispatched_batch)
    case (some k s3 s5)
    have "k = min (length ts) (own_room tid s)"
      by (rule batch_offered [OF run alloc]) (use some(1) in simp)
    with some(2) room len show ?thesis by simp
  next
    case (all s3)
    have "spawn_pass dev tid payload a b c f (Some cur) ?N 0 s = Some (Inr (?n, s3))"
      unfolding spawn_pass_def Let_def using alloc all(1) \<open>ts \<noteq> []\<close> by simp
    moreover have "?n = ?N" using n N by (intro word_unat_eq_iff [THEN iffD2]) (simp del: if_split)
    ultimately have "spawn_pass dev tid payload a b c f (Some cur) ?N 0 s = Some (Inr (?N, s3))" by (simp only:)
    then have "spawn_loop dev tid payload a b c f (Some cur) ?N 0 s = Some s3"
      using pos by (simp add: spawn_loop.simps [of dev tid payload a b c f "Some cur" ?N 0 s]
          spawn_loop.simps [of dev tid payload a b c f "Some cur" ?N ?N s3])
    then have "scheduler_spawn_subtasks dev tid payload a b c f s = Some s3"
      using ab(1,2) tl by (simp add: scheduler_spawn_subtasks_def Let_def)
    moreover have "(\<Sum>t\<in>#mset ts. task_cells (task_at s3 t)) = (\<Sum>t\<in>#mset ts. task_cells (task_at s1 t))"
      using all(4) by (intro arg_cong [of _ _ sum_mset] image_mset_cong) simp
    then have "spawned f payload cur ts [] s3 (mset [unat a..<unat a + m * unat c])"
      using kids len all(4) less ab' by (simp add: covered_def bound_def)
    ultimately show ?thesis using all(2) len less by blast
  qed
qed

text \<open>
  C36: a spawn that finds some free tasks, but not enough, drops the rest of its range. The batch is cut
  short by the empty pool, yet the loop counter advances by the number of chunks the pass had planned: with a
  range of at most 256 chunks, only the first ones become tasks, no call is made for the others, and
  nobody is told. The current task waits for the tasks that exist, so its job completes without them.
\<close>

theorem spawn_partial_allocation_skips:
  assumes "running tid cur s" and "leaf_dev dev" and "a < b" and "c \<noteq> 0" and "unat b + unat c < 2 ^ 64"
    and "chunk_count a b c \<le> 256" and "m = obtainable tid s" and "0 < m" and "m < chunk_count a b c" and "m \<le> own_room tid s"
  shows "\<exists>s' ts. scheduler_spawn_subtasks dev tid payload a b c f s = Some s' \<and> calls s' = calls s
    \<and> own_deque tid s' = own_deque tid s @ ts \<and> length ts = m
    \<and> spawned f payload cur ts [] s' (mset [unat a..<unat a + m * unat c]) \<and> unat a + m * unat c < unat b"
proof -
  obtain s' ts where "scheduler_spawn_subtasks dev tid payload a b c f s = Some s'" "dispatched tid cur ts [] s s'"
    "length ts = m" "spawned f payload cur ts [] s' (mset [unat a..<unat a + m * unat c])" "unat a + m * unat c < unat b"
    using spawn_partial_result [OF assms, of payload f] by blast
  then show ?thesis using dispatchedD(3,4) [of tid cur ts "[]" s s'] by auto
qed

text \<open>
  A spawn with a chunk size so large that rounding up wraps around does nothing at all. When the
  number of elements plus the chunk size minus one reaches \<open>2 ^ 64\<close>, the number of chunks comes out
  as 0: the whole range is dropped, although a single chunk would do.
\<close>

theorem spawn_huge_chunk_drops_work:
  assumes "a < b" and "c \<noteq> 0" and "2 ^ 64 \<le> unat b - unat a + unat c - 1"
  shows "scheduler_spawn_subtasks dev tid payload a b c f s = Some s"
proof -
  have T: "unat (b - a) = unat b - unat a" using assms(1) by (intro unat_diff_le) simp
  have c: "0 < unat c" using assms(2) by (simp add: unat_gt_0)
  have less: "unat (b - a) < 2 ^ 64" "unat c < 2 ^ 64" by (rule unat_bound_64)+
  have "b - a + c - 1 = word_of_nat (unat b - unat a + unat c - 1)"
    using T c by (simp add: of_nat_diff flip: T)
  then have "unat (b - a + c - 1) = (unat b - unat a + unat c - 1) mod 2 ^ 64"
    by (simp add: unat_of_nat)
  also have "\<dots> = unat b - unat a + unat c - 1 - 2 ^ 64"
    using assms(3) less T by (subst le_mod_geq) simp_all
  finally have "unat (b - a + c - 1) < unat c" using less T assms(3) by simp
  then have "unat ((b - a + c - 1) div c) = 0" by (simp add: unat_div)
  then have "(b - a + c - 1) div c = 0" by (simp only: unat_eq_0)
  then show ?thesis using assms(1,2) by (simp add: scheduler_spawn_subtasks_def Let_def spawn_loop.simps)
qed

section \<open>Concrete states\<close>

lemma working_obtainable: "obtainable 0 working = global_task_capacity - 1"
proof -
  obtain r s where a: "acquire 0 booted = (r, s)" by (cases "acquire 0 booted")
  then show ?thesis
    using acquire_obtainable(2) [OF booted_facts(2) a] booted_facts(6) by (simp add: working_def)
qed

theorem spawn_covers_range_witness:
  "\<exists>s' ts cs cur. scheduler_spawn_subtasks idle_dev 0 (UserPtr 1) 0 1000 0 (UserFn 3) working = Some s'
     \<and> spawned (UserFn 3) (UserPtr 1) cur ts cs s' (cells 0 1000)"
proof -
  obtain cur where "running 0 cur working" using working_running by blast
  from spawn_covers_range [OF this idle_dev_leaf, of 0 1000 128 0 "UserPtr 1" "UserFn 3"] show ?thesis
    by (simp add: DEFAULT_CHUNK_SIZE_def working_obtainable [unfolded global_task_capacity_def] chunk_count_def global_task_capacity_def) blast
qed

text \<open>One free task, in the worker's cache; all the others are in use, task 8 by the worker itself.\<close>

definition scarce :: sched where
  "scarce = working\<lparr>pool := empty_pool\<lparr>global_pool_head := pack_aba POOL_EMPTY_INDEX 0, task_cache := (\<lambda>_. [])(0 := [7])\<rparr>,
     tl_current_task := (\<lambda>_. Some 8)\<rparr>"

lemma working_room: "64 \<le> own_room 0 working"
proof -
  obtain w where w: "worker_pool booted = Some [w]" "fresh_worker 16 64 0 w" using booted_facts(10) by blast
  obtain r s where a: "acquire 0 booted = (r, s)" by (cases "acquire 0 booted")
  have "worker_pool s = worker_pool booted" by (subst acquire_sched(2) [OF booted_facts(2) a], simp)
  then show ?thesis using w by (simp add: own_room_def working_def a fresh_worker_def)
qed

lemma scarce_facts: "running 0 8 scarce" "obtainable 0 scarce = 1" "64 \<le> own_room 0 scarce"
proof -
  have head: "unpack_index (pack_aba POOL_EMPTY_INDEX 0) = POOL_EMPTY_INDEX" by simp
  have "walk n x POOL_EMPTY_INDEX = []" for n x by (cases n) simp_all
  then have free: "pool_free global_task_capacity (pool scarce) = []"
    by (simp add: pool_free_def scarce_def head)
  have "pool_wf global_task_capacity (pool scarce)"
    unfolding pool_wf_def free_ok_def free
    by (auto simp: scarce_def head cache_ok_def TASK_CACHE_CAPACITY_def global_task_capacity_def)
  moreover have "sched_wf working" "is_worker 0 working" using working_running by (auto simp: running_def)
  ultimately show "running 0 8 scarce"
    by (simp add: running_def sched_wf_def is_worker_def free pool_avail_def)
       (simp add: scarce_def global_task_capacity_def)
  show "obtainable 0 scarce = 1" by (simp add: acquirable_def free) (simp add: scarce_def)
  show "64 \<le> own_room 0 scarce" using working_room by (simp add: own_room_def scarce_def)
qed

theorem spawn_partial_allocation_skips_witness:
  "\<exists>s' ts. scheduler_spawn_subtasks idle_dev 0 (UserPtr 1) 0 1000 128 (UserFn 3) scarce = Some s' \<and> calls s' = calls scarce
     \<and> spawned (UserFn 3) (UserPtr 1) 8 ts [] s' (mset [0..<128])"
  using spawn_partial_allocation_skips [OF scarce_facts(1) idle_dev_leaf, of 0 1000 128 1 "UserPtr 1" "UserFn 3"] scarce_facts(2,3)
  by (simp add: chunk_count_def) blast

theorem spawn_huge_chunk_drops_work_witness:
  "scheduler_spawn_subtasks idle_dev 0 (UserPtr 1) 0 1000 18446744073709551615 (UserFn 3) working = Some working"
  by (rule spawn_huge_chunk_drops_work) simp_all

end
