(* ===== verification/Rng.thy ===== *)
theory Rng
  imports Prelude
begin

text \<open>
  The steal-victim generator of \<open>src/sk_worker.c\<close>: the \<open>xorshift32\<close> step, the seed that
  \<open>worker_main_loop\<close> derives from the core id, and the map from a random word to a victim.
\<close>

definition xorshift32 :: "uint32 \<Rightarrow> uint32" where
  "xorshift32 state =
     (let x = state;
          x = x XOR push_bit 13 x;
          x = x XOR drop_bit 17 x;
          x = x XOR push_bit 5 x
      in x)"

definition rng_seed :: "size_t \<Rightarrow> uint32" where
  "rng_seed core_id = ucast (core_id + 1) * 2654435761"

definition steal_victim :: "size_t \<Rightarrow> size_t \<Rightarrow> uint32 \<Rightarrow> size_t" where
  "steal_victim total_cores core_id r =
     (let victim_id = ucast r mod (total_cores - 1)
      in if core_id \<le> victim_id then victim_id + 1 else victim_id)"

section \<open>The generator never collapses\<close>

text \<open>A word equal to its own proper shift has no set bit.\<close>

lemma push_bit_fixpoint:
  fixes x :: "'a::len word"
  assumes "x = push_bit k x" and "0 < k"
  shows "x = 0"
proof -
  have "\<not> bit x n" for n
  proof (induction n rule: less_induct)
    case (less n)
    show ?case
    proof
      assume "bit x n"
      then have "bit (push_bit k x) n" using assms(1) by simp
      then have "k \<le> n" and "bit x (n - k)"
        by (auto simp: bit_push_bit_iff)
      with less.IH [of "n - k"] assms(2) show False by simp
    qed
  qed
  then show ?thesis by (intro bit_eqI) simp
qed

lemma drop_bit_fixpoint:
  fixes x :: "'a::len word"
  assumes "x = drop_bit k x" and "0 < k"
  shows "x = 0"
proof -
  have step: "bit x n \<Longrightarrow> bit x (n + k)" for n
    using assms(1) by (metis add.commute bit_drop_bit_eq comp_apply)
  have "bit x n \<Longrightarrow> bit x (n + j * k)" for n j
    by (induction j) (auto simp: add.assoc [symmetric] add.commute dest: step)
  then have far: "bit x n \<Longrightarrow> bit x (n + LENGTH('a) * k)" for n .
  have "LENGTH('a) \<le> n + LENGTH('a) * k" for n
    using assms(2) by (simp add: trans_le_add2)
  then have "\<not> bit x n" for n
    using far [of n] bit_imp_le_length [of x] by (metis linorder_not_le)
  then show ?thesis by (intro bit_eqI) simp
qed

lemma word_xor_eq_0_iff:
  fixes x y :: "'a::len word"
  shows "x XOR y = 0 \<longleftrightarrow> x = y"
  by (auto simp: bit_eq_iff bit_xor_iff)

lemma xor_push_bit_eq_0:
  fixes x :: "'a::len word"
  shows "0 < k \<Longrightarrow> x XOR push_bit k x = 0 \<longleftrightarrow> x = 0"
  by (auto simp: word_xor_eq_0_iff dest: push_bit_fixpoint)

lemma xor_drop_bit_eq_0:
  fixes x :: "'a::len word"
  shows "0 < k \<Longrightarrow> x XOR drop_bit k x = 0 \<longleftrightarrow> x = 0"
  by (auto simp: word_xor_eq_0_iff dest: drop_bit_fixpoint)

lemma xorshift32_eq_0: "xorshift32 x = 0 \<longleftrightarrow> x = 0"
  unfolding xorshift32_def Let_def
  by (simp only: xor_push_bit_eq_0 xor_drop_bit_eq_0 zero_less_numeral)

text \<open>Every step is linear over exclusive or, hence injective.\<close>

lemma xorshift32_xor: "xorshift32 (x XOR y) = xorshift32 x XOR xorshift32 y"
  by (simp add: xorshift32_def Let_def push_bit_xor drop_bit_xor ac_simps)

lemma xorshift32_inj: "inj xorshift32"
proof (rule injI)
  fix x y assume "xorshift32 x = xorshift32 y"
  then have "xorshift32 (x XOR y) = 0" by (simp add: xorshift32_xor)
  then have "x XOR y = 0" by (simp add: xorshift32_eq_0)
  then show "x = y" by (simp add: word_xor_eq_0_iff)
qed

lemma rng_seed_nonzero:
  assumes "unat core_id < 2 ^ 32 - 1"
  shows "rng_seed core_id \<noteq> 0"
proof -
  have core: "unat (core_id + 1) = Suc (unat core_id)"
    using assms by (intro unat_Suc_no_wrap) simp
  have "unat (ucast (core_id + 1) :: uint32) = Suc (unat core_id) mod 2 ^ 32"
    by (simp add: unsigned_ucast_eq core take_bit_nat_def)
  also have "\<dots> = Suc (unat core_id)" using assms by simp
  finally have "(ucast (core_id + 1) :: uint32) \<noteq> 0" by auto
  then show ?thesis
    unfolding rng_seed_def by (rule word_mult_inverse_nonzero [rotated, where c = 244002641]) simp
qed

text \<open>
  The steal generator of a worker never reaches the absorbing state 0: starting from the seed
  that \<open>worker_main_loop\<close> computes for its core, every iterate of \<open>xorshift32\<close> is non-zero.
\<close>

theorem rng_never_zero:
  assumes "unat core_id < 2 ^ 32 - 1"
  shows "(xorshift32 ^^ n) (rng_seed core_id) \<noteq> 0"
  by (induction n) (simp_all add: rng_seed_nonzero [OF assms] xorshift32_eq_0)

theorem rng_never_zero_witness: "(xorshift32 ^^ 3) (rng_seed 11) \<noteq> 0"
  by (rule rng_never_zero) simp

text \<open>
  One step of \<open>xorshift32\<close> is a permutation of the 32-bit words, so the sequence of a worker
  is periodic and visits no state twice within a period.
\<close>

theorem xorshift32_bij: "bij xorshift32"
  by (rule finite_UNIV_inj_surj [THEN [2] bijI]) (simp_all add: xorshift32_inj)

section \<open>Choosing a victim\<close>

lemma unat_steal_victim_mod:
  fixes r :: uint32
  assumes "1 < total_cores"
  shows "unat (ucast r mod (total_cores - 1) :: size_t) = unat r mod (unat total_cores - 1)"
proof -
  have "unat (total_cores - 1) = unat total_cores - 1"
    using assms by (intro unat_minus_one) auto
  moreover have "unat (ucast r :: size_t) = unat r"
    using unat_bound_32 [of r] by (simp add: unsigned_ucast_eq take_bit_nat_def)
  ultimately show ?thesis by (simp add: unat_mod)
qed

lemma unat_steal_victim:
  assumes "1 < total_cores" and "core_id < total_cores"
  shows "unat (steal_victim total_cores core_id r)
       = (let v = unat r mod (unat total_cores - 1) in if unat core_id \<le> v then Suc v else v)"
proof -
  define v where "v = unat r mod (unat total_cores - 1)"
  have n: "1 < unat total_cores" using assms(1) by (simp add: word_less_nat_alt)
  then have "v < unat total_cores - 1" by (simp add: v_def)
  then have "Suc v < 2 ^ 64" using unat_bound_64 [of total_cores] by linarith
  then show ?thesis
    using unat_steal_victim_mod [OF assms(1), of r]
    by (simp add: steal_victim_def Let_def word_le_nat_alt unat_Suc_no_wrap v_def)
qed

text \<open>
  The victim of a steal attempt is always another existing worker, never the thief itself, and
  every other worker can be chosen.
\<close>

theorem steal_victim_range:
  assumes "1 < total_cores" and "core_id < total_cores" and "unat total_cores \<le> 2 ^ 32"
  shows "steal_victim total_cores core_id r < total_cores
       \<and> steal_victim total_cores core_id r \<noteq> core_id
       \<and> (\<forall>w. w < total_cores \<and> w \<noteq> core_id \<longrightarrow> (\<exists>r'. steal_victim total_cores core_id r' = w))"
proof (intro conjI allI impI)
  have n: "1 < unat total_cores" and c: "unat core_id < unat total_cores"
    using assms by (simp_all add: word_less_nat_alt)
  have v: "unat r mod (unat total_cores - 1) < unat total_cores - 1" using n by simp
  note val = unat_steal_victim [OF assms(1,2)]
  show "steal_victim total_cores core_id r < total_cores"
    using v unfolding word_less_nat_alt val Let_def by (split if_split) linarith
  show "steal_victim total_cores core_id r \<noteq> core_id"
    using val [of r] by (auto simp: Let_def split: if_splits)
  fix w assume "w < total_cores \<and> w \<noteq> core_id"
  then have w: "unat w < unat total_cores" "unat w \<noteq> unat core_id"
    by (auto simp: word_less_nat_alt word_unat_eq_iff)
  define k where "k = (if unat w < unat core_id then unat w else unat w - 1)"
  have k: "k < unat total_cores - 1" using w c by (auto simp: k_def)
  then have "k < 2 ^ 32" using assms(3) by linarith
  then have "unat (word_of_nat k :: uint32) = k" by (simp add: unat_of_nat)
  then have "unat (steal_victim total_cores core_id (word_of_nat k)) = unat w"
    using k w by (auto simp: val k_def Let_def)
  then show "\<exists>r'. steal_victim total_cores core_id r' = w"
    by (metis word_unat_eq_iff)
qed

theorem steal_victim_range_witness:
  "steal_victim 12 3 7 < 12 \<and> steal_victim 12 3 7 \<noteq> 3 \<and> (\<exists>r'. steal_victim 12 3 r' = 11)"
  using steal_victim_range [of 12 3 7] by simp

end
