(* ===== verification/Worker.thy ===== *)
theory Worker
  imports Spawn Rng
begin

text \<open>
  \<open>worker_main_loop\<close> of \<open>src/sk_worker.c\<close>: how a worker finds a task, runs it with its continuations,
  and walks up the task graph when it was the last dependency of a parent. The functions here are one
  worker's view, without interference; a loop of the code that the developer's functions can keep going
  for ever is a partial function, and \<open>None\<close> is also not returning.
\<close>

section \<open>Finding a task\<close>

text \<open>
  The three ways to get a task, on worker \<open>i\<close> of the pool: its owner's pop, a steal, and a pop from its
  ring. \<open>None\<close> is an access outside the pool.
\<close>

definition on_worker ::
  "nat \<Rightarrow> (task_ref sc_worker \<Rightarrow> task_ref option \<times> task_ref sc_worker) \<Rightarrow> sched \<Rightarrow> (task_ref option \<times> sched) option" where
  "on_worker i f s =
     (case worker_pool s of
        None \<Rightarrow> None
      | Some ws \<Rightarrow> if i < length ws then (case f (ws ! i) of (r, w) \<Rightarrow> Some (r, s\<lparr>worker_pool := Some (ws[i := w])\<rparr>)) else None)"

definition deque_pop :: "task_ref sc_worker \<Rightarrow> task_ref option \<times> task_ref sc_worker" where
  "deque_pop w = (case chase_lev_pop (cl_deque w) of (r, d) \<Rightarrow> (r, w\<lparr>cl_deque := d\<rparr>))"

definition deque_steal :: "task_ref sc_worker \<Rightarrow> task_ref option \<times> task_ref sc_worker" where
  "deque_steal w = (case chase_lev_steal (cl_deque w) of (r, d) \<Rightarrow> (r, w\<lparr>cl_deque := d\<rparr>))"

definition own_core_id :: "nat \<Rightarrow> sched \<Rightarrow> size_t" where
  "own_core_id tid s = (case worker_pool s of None \<Rightarrow> 0 | Some ws \<Rightarrow> core_id (ws ! tid))"

text \<open>Where the victim of a steal is looked up: the generator is stepped only when there is another worker.\<close>

definition steal_task :: "nat \<Rightarrow> size_t \<Rightarrow> uint32 \<Rightarrow> sched \<Rightarrow> (task_ref option \<times> uint32 \<times> sched) option" where
  "steal_task tid total_cores rng s =
     (if 1 < total_cores then
        (let rng = xorshift32 rng;
             victim_id = unat (steal_victim total_cores (own_core_id tid s) rng)
         in case on_worker victim_id deque_steal s of
              None \<Rightarrow> None
            | Some (Some t, s) \<Rightarrow> Some (Some t, rng, s)
            | Some (None, s) \<Rightarrow> map_option (\<lambda>(r, s). (r, rng, s)) (on_worker victim_id spmc_consumer_pop s))
      else Some (None, rng, s))"

definition find_task :: "nat \<Rightarrow> size_t \<Rightarrow> uint32 \<Rightarrow> sched \<Rightarrow> (task_ref option \<times> uint32 \<times> sched) option" where
  "find_task tid total_cores rng s =
     (case on_worker tid deque_pop s of
        None \<Rightarrow> None
      | Some (Some t, s) \<Rightarrow> Some (Some t, rng, s)
      | Some (None, s) \<Rightarrow>
          (case on_worker tid spmc_consumer_pop s of
             None \<Rightarrow> None
           | Some (Some t, s) \<Rightarrow> Some (Some t, rng, s)
           | Some (None, s) \<Rightarrow> steal_task tid total_cores rng s))"

section \<open>Running a task\<close>

definition hooked_job_finish_task :: "ptr \<Rightarrow> sched \<Rightarrow> sched option" where
  "hooked_job_finish_task payload s =
     (case payload of
        JobPtr j \<Rightarrow> Some (s\<lparr>jobs := (jobs s)(j := (jobs s j)\<lparr>job_state := JOB_STATE_DONE\<rparr>)\<rparr>)
      | _ \<Rightarrow> None)"

text \<open>A call through a function pointer, with the arguments that the task holds.\<close>

fun call_fn :: "dev \<Rightarrow> nat \<Rightarrow> sc_fn \<Rightarrow> ptr \<Rightarrow> size_t \<Rightarrow> size_t \<Rightarrow> sched \<Rightarrow> sched option" where
  "call_fn dev tid SplitterFn p a b s = internal_macro_job_splitter dev tid p a b s"
| "call_fn dev tid HookFn p a b s = hooked_job_finish_task p s"
| "call_fn dev tid (UserFn n) p a b s = call_dev dev tid (UserFn n) p a b s"

definition run_task_fn :: "dev \<Rightarrow> nat \<Rightarrow> sc_fn \<Rightarrow> task_ref \<Rightarrow> sched \<Rightarrow> sched option" where
  "run_task_fn dev tid f t s =
     (let x = task_at s t in call_fn dev tid f (task_payload x) (start_inx x) (end_inx x) s)"

text \<open>\<open>atomic_fetch_sub\<close> of one dependency: the old count, and the new state.\<close>

definition drop_dep :: "task_ref \<Rightarrow> sched \<Rightarrow> size_t \<times> sched" where
  "drop_dep t s = (unfinished_dependencies (task_at s t), upd_task t (sub_deps 1) s)"

abbreviation clear_fn :: "task_ref \<Rightarrow> sched \<Rightarrow> sched" where
  "clear_fn t \<equiv> upd_task t (task_fn_update (\<lambda>_. None))"

abbreviation relock :: "task_ref \<Rightarrow> sched \<Rightarrow> sched" where
  "relock t \<equiv> upd_task t (unfinished_dependencies_update (\<lambda>_. 1))"

abbreviation set_current :: "nat \<Rightarrow> task_ref option \<Rightarrow> sched \<Rightarrow> sched" where
  "set_current tid r s \<equiv> s\<lparr>tl_current_task := (tl_current_task s)(tid := r)\<rparr>"

text \<open>
  The continuations of the current task, entered when the count dropped from 1: the last count seen,
  which is 1 when there is no continuation left.
\<close>

partial_function (option) continuation_loop :: "dev \<Rightarrow> nat \<Rightarrow> sched \<Rightarrow> (size_t \<times> sched) option" where
  "continuation_loop dev tid s =
     (case tl_current_task s tid of
        None \<Rightarrow> None
      | Some t \<Rightarrow>
          (case task_fn (task_at s t) of
             None \<Rightarrow> Some (1, s)
           | Some continuation_fn \<Rightarrow>
               (case run_task_fn dev tid continuation_fn t (relock t (clear_fn t s)) of
                  None \<Rightarrow> None
                | Some s \<Rightarrow>
                    (case tl_current_task s tid of
                       None \<Rightarrow> None
                     | Some t \<Rightarrow>
                         (case drop_dep t s of (remaining_deps, s) \<Rightarrow>
                            if remaining_deps \<noteq> 1 then Some (remaining_deps, s)
                            else continuation_loop dev tid s)))))"

text \<open>
  The continuations of a parent whose last dependency is gone: queued when the parent is not the root of
  its job and the deque has room, run inline otherwise. The result is the parent when it is finished,
  \<open>None\<close> when the walk ends here.
\<close>

partial_function (option) parent_loop :: "dev \<Rightarrow> nat \<Rightarrow> task_ref \<Rightarrow> sched \<Rightarrow> (task_ref option \<times> sched) option" where
  "parent_loop dev tid parent s =
     (case task_fn (task_at s parent) of
        None \<Rightarrow> Some (Some parent, s)
      | Some parent_fn \<Rightarrow>
          (case (if parent_task (task_at s parent) \<noteq> None then deque_push tid parent (relock parent s)
                 else Some (False, relock parent s)) of
             None \<Rightarrow> None
           | Some (pushed, s) \<Rightarrow>
               if pushed then Some (None, s)
               else
                 (case run_task_fn dev tid parent_fn parent (clear_fn parent (set_current tid (Some parent) s)) of
                    None \<Rightarrow> None
                  | Some s \<Rightarrow>
                      (case drop_dep parent s of (parent_rem, s) \<Rightarrow>
                         if parent_rem \<noteq> 1 then Some (None, s) else parent_loop dev tid parent s))))"

text \<open>The walk from a finished task to its ancestors.\<close>

partial_function (option) climb :: "dev \<Rightarrow> nat \<Rightarrow> task_ref option \<Rightarrow> sched \<Rightarrow> sched option" where
  "climb dev tid parent s =
     (case parent of
        None \<Rightarrow> Some s
      | Some p \<Rightarrow>
          (case drop_dep p s of (parent_dependencies, s) \<Rightarrow>
             if parent_dependencies \<noteq> 1 then Some s
             else
               (case parent_loop dev tid p s of
                  None \<Rightarrow> None
                | Some (r, s) \<Rightarrow>
                    (case r of
                       None \<Rightarrow> Some s
                     | Some p \<Rightarrow> climb dev tid (parent_task (task_at s p)) (release tid p s)))))"

text \<open>What the loop body does with the task it has found.\<close>

definition execute_task :: "dev \<Rightarrow> nat \<Rightarrow> task_ref \<Rightarrow> sched \<Rightarrow> sched option" where
  "execute_task dev tid t s =
     (case task_fn (task_at s t) of
        None \<Rightarrow> None
      | Some current_fn \<Rightarrow>
          (case run_task_fn dev tid current_fn t (clear_fn t s) of
             None \<Rightarrow> None
           | Some s \<Rightarrow>
               (case tl_current_task s tid of
                  None \<Rightarrow> None
                | Some t \<Rightarrow>
                    (case drop_dep t s of (remaining_deps, s) \<Rightarrow>
                       if remaining_deps \<noteq> 1 then Some s
                       else
                         (case continuation_loop dev tid s of
                            None \<Rightarrow> None
                          | Some (remaining_deps, s) \<Rightarrow>
                              if remaining_deps \<noteq> 1 then Some s
                              else
                                (case tl_current_task s tid of
                                   None \<Rightarrow> None
                                 | Some t \<Rightarrow>
                                     climb dev tid (parent_task (task_at s t)) (release tid t s)))))))"

section \<open>The loop\<close>

definition worker_iteration :: "dev \<Rightarrow> nat \<Rightarrow> size_t \<Rightarrow> uint32 \<Rightarrow> sched \<Rightarrow> (uint32 \<times> sched) option" where
  "worker_iteration dev tid total_cores rng s =
     (case find_task tid total_cores rng (set_current tid None s) of
        None \<Rightarrow> None
      | Some (r, rng, s) \<Rightarrow>
          (let s = set_current tid r s
           in case r of
                None \<Rightarrow> Some (rng, s)
              | Some t \<Rightarrow> map_option (Pair rng) (execute_task dev tid t s)))"

fun worker_iterations :: "dev \<Rightarrow> nat \<Rightarrow> size_t \<Rightarrow> nat \<Rightarrow> uint32 \<Rightarrow> sched \<Rightarrow> (uint32 \<times> sched) option" where
  "worker_iterations dev tid total_cores 0 rng s = Some (rng, s)"
| "worker_iterations dev tid total_cores (Suc n) rng s =
     (case worker_iteration dev tid total_cores rng s of
        None \<Rightarrow> None
      | Some (rng, s) \<Rightarrow> worker_iterations dev tid total_cores n rng s)"

partial_function (option) worker_loop :: "dev \<Rightarrow> nat \<Rightarrow> size_t \<Rightarrow> uint32 \<Rightarrow> sched \<Rightarrow> sched option" where
  "worker_loop dev tid total_cores rng s =
     (case worker_pool s of
        None \<Rightarrow> None
      | Some ws \<Rightarrow>
          if length ws \<le> tid then None
          else if termination_flag (ws ! tid) then Some s
          else (case worker_iteration dev tid total_cores rng s of
                  None \<Rightarrow> None
                | Some (rng, s) \<Rightarrow> worker_loop dev tid total_cores rng s))"

definition worker_main_loop :: "dev \<Rightarrow> nat \<Rightarrow> sched \<Rightarrow> sched option" where
  "worker_main_loop dev tid s =
     worker_loop dev tid (if global_worker_count s < 1 then 1 else global_worker_count s) (rng_seed (own_core_id tid s)) s"

end
