(* ===== verification/WorkerFind.thy ===== *)
theory WorkerFind
  imports Worker
begin

text \<open>
  Where a worker gets its tasks: the three sources of \<open>find_task\<close> share one contract, stated as a locale
  and interpreted on the owner's pop, the steal and the ring. The order in which the sources are asked,
  and that a search takes one task and loses none, follow from it.
\<close>

section \<open>What is queued\<close>

definition worker_queued :: "task_ref sc_worker \<Rightarrow> task_ref multiset" where
  "worker_queued w = mset (deque_items (cl_deque w)) + mset (rb_items w)"

definition queued_tasks :: "sched \<Rightarrow> task_ref multiset" where
  "queued_tasks s = (case worker_pool s of None \<Rightarrow> {#} | Some ws \<Rightarrow> (\<Sum>w\<in>#mset ws. worker_queued w))"

text \<open>Workers that hold the same tasks in the same order.\<close>

definition same_worker :: "task_ref sc_worker \<Rightarrow> task_ref sc_worker \<Rightarrow> bool" where
  "same_worker w w' \<longleftrightarrow> deque_items (cl_deque w') = deque_items (cl_deque w) \<and> rb_items w' = rb_items w \<and> core_id w' = core_id w"

definition same_workers :: "task_ref sc_worker list \<Rightarrow> task_ref sc_worker list \<Rightarrow> bool" where
  "same_workers ws ws' \<longleftrightarrow> length ws' = length ws \<and> (\<forall>i<length ws. same_worker (ws ! i) (ws' ! i))"

lemma same_workers_refl: "same_workers ws ws"
  by (simp add: same_workers_def same_worker_def)

lemma same_workers_trans: "same_workers ws ws' \<Longrightarrow> same_workers ws' ws'' \<Longrightarrow> same_workers ws ws''"
  by (simp add: same_workers_def same_worker_def)

lemma same_workers_update:
  assumes "i < length ws" and "same_worker (ws ! i) w'" shows "same_workers ws (ws[i := w'])"
  using assms by (simp add: same_workers_def nth_list_update) (simp add: same_worker_def)

text \<open>States that differ in the worker pool only.\<close>

definition only_workers :: "sched \<Rightarrow> sched \<Rightarrow> bool" where
  "only_workers s s' \<longleftrightarrow> s' = s\<lparr>worker_pool := worker_pool s'\<rparr>"

lemma only_workers_refl: "only_workers s s"
  by (simp add: only_workers_def)

lemma only_workers_trans: "only_workers s s' \<Longrightarrow> only_workers s' s'' \<Longrightarrow> only_workers s s''"
  by (cases s; cases s'; cases s'') (simp add: only_workers_def)

lemma only_workersD:
  assumes "only_workers s s'"
  shows "pool s' = pool s" and "jobs s' = jobs s" and "calls s' = calls s" and "global_worker_count s' = global_worker_count s"
    and "tl_current_task s' = tl_current_task s"
  using assms by (cases s; cases s'; simp add: only_workers_def)+

lemma sum_update:
  fixes f :: "'a \<Rightarrow> 'b multiset"
  assumes "i < length xs"
  shows "(\<Sum>x\<in>#mset (xs[i := y]). f x) + f (xs ! i) = (\<Sum>x\<in>#mset xs. f x) + f y"
  using assms
proof (induction xs arbitrary: i)
  case (Cons x xs)
  then show ?case by (cases i) (simp_all add: ac_simps)
qed simp

text \<open>A new deque leaves the ring alone.\<close>

lemma with_deque:
  assumes "worker_ok w" and "deque_inv d"
  shows "worker_ok (w\<lparr>cl_deque := d\<rparr>)" and "rb_items (w\<lparr>cl_deque := d\<rparr>) = rb_items w"
  using assms by (simp_all add: worker_ok_def rb_inv_def rb_shape_def rb_capacity_def rb_items_def rb_slots_def)

section \<open>One source\<close>

text \<open>
  A source looks at the list \<open>items\<close> of a worker and takes the element \<open>pick\<close> of it; whatever it does,
  the worker stays well formed and loses nothing but the task that is handed out.
\<close>

locale task_source =
  fixes get :: "task_ref sc_worker \<Rightarrow> task_ref option \<times> task_ref sc_worker"
    and items :: "task_ref sc_worker \<Rightarrow> task_ref list"
    and pick :: "task_ref list \<Rightarrow> task_ref"
  assumes get_ok: "worker_ok w \<Longrightarrow> worker_ok (snd (get w))"
    and get_result: "worker_ok w \<Longrightarrow> fst (get w) = (if items w = [] then None else Some (pick (items w)))"
    and get_empty: "worker_ok w \<Longrightarrow> items w = [] \<Longrightarrow> same_worker w (snd (get w))"
    and get_taken: "worker_ok w \<Longrightarrow> items w \<noteq> [] \<Longrightarrow> worker_queued w = add_mset (pick (items w)) (worker_queued (snd (get w)))"
begin

text \<open>A look into the source of worker \<open>i\<close>: the outcome \<open>r\<close> and the state afterwards.\<close>

definition looked :: "nat \<Rightarrow> task_ref sc_worker list \<Rightarrow> task_ref option \<Rightarrow> sched \<Rightarrow> sched \<Rightarrow> bool" where
  "looked i ws r s s' \<longleftrightarrow> sched_wf s' \<and> only_workers s s'
     \<and> r = (if items (ws ! i) = [] then None else Some (pick (items (ws ! i))))
     \<and> queued_tasks s = queued_tasks s' + (case r of None \<Rightarrow> {#} | Some t \<Rightarrow> {#t#})
     \<and> (r = None \<longrightarrow> (\<exists>ws'. worker_pool s' = Some ws' \<and> same_workers ws ws'))"

lemma look:
  assumes wf: "sched_wf s" and ws: "worker_pool s = Some ws" and i: "i < length ws"
  obtains r s' where "on_worker i get s = Some (r, s')" and "looked i ws r s s'"
proof -
  let ?w = "snd (get (ws ! i))"
  let ?s = "s\<lparr>worker_pool := Some (ws[i := ?w])\<rparr>"
  have ok: "worker_ok w" if "w \<in> set ws" for w using wf ws that by (auto simp: sched_wf_def)
  then have oki: "worker_ok (ws ! i)" using i by simp
  have "sched_wf ?s"
    using wf ws ok get_ok [OF oki] by (auto simp: sched_wf_def dest!: set_update_subset_insert [THEN subsetD])
  moreover have "queued_tasks s = queued_tasks ?s + (case fst (get (ws ! i)) of None \<Rightarrow> {#} | Some t \<Rightarrow> {#t#})"
  proof -
    have "queued_tasks ?s + worker_queued (ws ! i) = queued_tasks s + worker_queued ?w"
      using sum_update [OF i] by (simp add: queued_tasks_def ws)
    moreover have "worker_queued (ws ! i) = worker_queued ?w + (case fst (get (ws ! i)) of None \<Rightarrow> {#} | Some t \<Rightarrow> {#t#})"
      using get_result [OF oki] get_empty [OF oki] get_taken [OF oki]
      by (cases "items (ws ! i) = []") (simp_all add: same_worker_def worker_queued_def)
    ultimately have "queued_tasks s + worker_queued ?w
        = (queued_tasks ?s + (case fst (get (ws ! i)) of None \<Rightarrow> {#} | Some t \<Rightarrow> {#t#})) + worker_queued ?w"
      by (simp add: ac_simps)
    then show ?thesis by (rule add_right_imp_eq)
  qed
  ultimately have "looked i ws (fst (get (ws ! i))) s ?s"
    using get_result [OF oki] get_empty [OF oki] i same_workers_update [OF i] by (simp add: looked_def only_workers_def)
  moreover have "on_worker i get s = Some (fst (get (ws ! i)), ?s)"
    using ws i by (simp add: on_worker_def split_beta)
  ultimately show thesis by (intro that)
qed

end

interpretation own_source: task_source deque_pop "\<lambda>w. deque_items (cl_deque w)" last
proof
  fix w :: "task_ref sc_worker"
  assume "worker_ok w"
  then have inv: "deque_inv (cl_deque w)" by (simp add: worker_ok_def)
  note K = with_deque [OF \<open>worker_ok w\<close>]
  obtain r d where pop: "chase_lev_pop (cl_deque w) = (r, d)" by (cases "chase_lev_pop (cl_deque w)")
  let ?w = "w\<lparr>cl_deque := d\<rparr>"
  have get: "deque_pop w = (r, ?w)" using pop by (simp add: deque_pop_def)
  have d: "deque_inv d" "r = (if deque_items (cl_deque w) = [] then None else Some (last (deque_items (cl_deque w))))"
      "deque_items d = butlast (deque_items (cl_deque w))"
    using cl.pop_result [OF inv] cl.pop_items [OF inv] cl.pop_keeps [OF inv] pop by simp_all
  show "worker_ok (snd (deque_pop w))" using K(1) [OF d(1)] by (simp add: get)
  show "fst (deque_pop w) = (if deque_items (cl_deque w) = [] then None else Some (last (deque_items (cl_deque w))))"
    using d(2) by (simp add: get)
  show "same_worker w (snd (deque_pop w))" if "deque_items (cl_deque w) = []"
    using K(2) [OF d(1)] d(3) that by (simp add: get same_worker_def)
  show "worker_queued w = add_mset (last (deque_items (cl_deque w))) (worker_queued (snd (deque_pop w)))"
    if "deque_items (cl_deque w) \<noteq> []"
    using K(2) [OF d(1)] d(3) that by (cases "deque_items (cl_deque w)" rule: rev_cases) (simp_all add: get worker_queued_def)
qed

interpretation steal_source: task_source deque_steal "\<lambda>w. deque_items (cl_deque w)" hd
proof
  fix w :: "task_ref sc_worker"
  assume "worker_ok w"
  then have inv: "deque_inv (cl_deque w)" by (simp add: worker_ok_def)
  note K = with_deque [OF \<open>worker_ok w\<close>]
  obtain r d where steal: "chase_lev_steal (cl_deque w) = (r, d)" by (cases "chase_lev_steal (cl_deque w)")
  let ?w = "w\<lparr>cl_deque := d\<rparr>"
  have get: "deque_steal w = (r, ?w)" using steal by (simp add: deque_steal_def)
  have d: "deque_inv d" "r = (if deque_items (cl_deque w) = [] then None else Some (hd (deque_items (cl_deque w))))"
      "deque_items d = tl (deque_items (cl_deque w))"
    using cl.steal_result [OF inv] cl.steal_items [OF inv] cl.steal_keeps [OF inv] steal by simp_all
  show "worker_ok (snd (deque_steal w))" using K(1) [OF d(1)] by (simp add: get)
  show "fst (deque_steal w) = (if deque_items (cl_deque w) = [] then None else Some (hd (deque_items (cl_deque w))))"
    using d(2) by (simp add: get)
  show "same_worker w (snd (deque_steal w))" if "deque_items (cl_deque w) = []"
    using K(2) [OF d(1)] d(3) that by (simp add: get same_worker_def)
  show "worker_queued w = add_mset (hd (deque_items (cl_deque w))) (worker_queued (snd (deque_steal w)))"
    if "deque_items (cl_deque w) \<noteq> []"
    using K(2) [OF d(1)] d(3) that by (cases "deque_items (cl_deque w)") (simp_all add: get worker_queued_def)
qed

lemma ring_pop_keeps: "cl_deque (snd (spmc_consumer_pop w)) = cl_deque w" "core_id (snd (spmc_consumer_pop w)) = core_id w"
  by (simp_all add: spmc_consumer_pop_def Let_def)

interpretation ring_source: task_source spmc_consumer_pop rb_items hd
proof
  fix w :: "task_ref sc_worker"
  assume "worker_ok w"
  then have inv: "deque_inv (cl_deque w)" "rb_inv w" by (simp_all add: worker_ok_def)
  note P = rb_pop [OF inv(2)]
  show "worker_ok (snd (spmc_consumer_pop w))" using inv(1) P(3) by (simp add: worker_ok_def ring_pop_keeps)
  show "fst (spmc_consumer_pop w) = (if rb_items w = [] then None else Some (hd (rb_items w)))" by (rule P(1))
  show "same_worker w (snd (spmc_consumer_pop w))" if "rb_items w = []"
    using P(2) that by (simp add: same_worker_def ring_pop_keeps)
  show "worker_queued w = add_mset (hd (rb_items w)) (worker_queued (snd (spmc_consumer_pop w)))" if "rb_items w \<noteq> []"
    using P(2) that by (cases "rb_items w") (simp_all add: worker_queued_def ring_pop_keeps)
qed

section \<open>The search\<close>

lemma same_workers_sched:
  assumes "same_workers ws ws'" and "i < length ws"
  shows "deque_items (cl_deque (ws' ! i)) = deque_items (cl_deque (ws ! i))" and "rb_items (ws' ! i) = rb_items (ws ! i)"
    and "core_id (ws' ! i) = core_id (ws ! i)" and "length ws' = length ws"
  using assms by (simp_all add: same_workers_def same_worker_def)

text \<open>The task that a search of worker \<open>tid\<close> ends with.\<close>

definition first_task :: "task_ref sc_worker \<Rightarrow> task_ref sc_worker option \<Rightarrow> task_ref option" where
  "first_task own victim =
     (if deque_items (cl_deque own) \<noteq> [] then Some (last (deque_items (cl_deque own)))
      else if rb_items own \<noteq> [] then Some (hd (rb_items own))
      else case victim of
             None \<Rightarrow> None
           | Some v \<Rightarrow>
               if deque_items (cl_deque v) \<noteq> [] then Some (hd (deque_items (cl_deque v)))
               else if rb_items v \<noteq> [] then Some (hd (rb_items v)) else None)"

definition task_bag :: "task_ref option \<Rightarrow> task_ref multiset" where
  "task_bag r = (case r of None \<Rightarrow> {#} | Some t \<Rightarrow> {#t#})"

lemma steal_victim_less:
  assumes "1 < total_cores" and "me < total_cores"
  shows "steal_victim total_cores me r < total_cores"
proof -
  have "unat r mod (unat total_cores - 1) < unat total_cores - 1" using assms(1) by (simp add: word_less_nat_alt)
  then show ?thesis
    unfolding word_less_nat_alt unat_steal_victim [OF assms] Let_def by (split if_split) linarith
qed

lemma first_task_same: "same_worker w w' \<Longrightarrow> rel_option same_worker v v' \<Longrightarrow> first_task w' v' = first_task w v"
  by (cases v; cases v') (simp_all add: first_task_def same_worker_def)

lemma steal_correct:
  assumes wf: "sched_wf s" and ws: "worker_pool s = Some ws" and i: "tid < length ws"
    and core: "core_id (ws ! tid) < total_cores" and n: "total_cores = global_worker_count s"
    and empty: "deque_items (cl_deque (ws ! tid)) = []" "rb_items (ws ! tid) = []"
  obtains r rng' s' where "steal_task tid total_cores rng s = Some (r, rng', s')" and "sched_wf s'"
    and "r = first_task (ws ! tid) (if 1 < total_cores
           then Some (ws ! unat (steal_victim total_cores (core_id (ws ! tid)) (xorshift32 rng))) else None)"
    and "queued_tasks s = queued_tasks s' + task_bag r" and "only_workers s s'"
proof (cases "1 < total_cores")
  case False
  show thesis
    by (rule that [of None rng s]) (use False wf empty in \<open>simp_all add: only_workers_refl steal_task_def first_task_def task_bag_def\<close>)
next
  case True
  let ?v = "unat (steal_victim total_cores (core_id (ws ! tid)) (xorshift32 rng))"
  have "length ws = unat total_cores" using wf ws n by (simp add: sched_wf_def)
  moreover have "?v < unat total_cores"
    using steal_victim_less [OF True core] by (simp add: word_less_nat_alt)
  ultimately have v: "?v < length ws" by simp
  have own: "own_core_id tid s = core_id (ws ! tid)" by (simp add: own_core_id_def ws)
  obtain r s1 where A: "on_worker ?v deque_steal s = Some (r, s1)" "steal_source.looked ?v ws r s s1"
    by (rule steal_source.look [OF wf ws v])
  note A2 = A(2) [unfolded steal_source.looked_def]
  show thesis
  proof (cases r)
    case (Some t)
    show thesis
      by (rule that [of r "xorshift32 rng" s1])
        (use A2 A(1) Some True own empty in \<open>auto simp: steal_task_def first_task_def task_bag_def Let_def split: if_splits\<close>)
  next
    case None
    with A2 obtain ws1 where ws1: "worker_pool s1 = Some ws1" "same_workers ws ws1" by auto
    note same = same_workers_sched [OF ws1(2) v]
    obtain r2 s2 where B: "on_worker ?v spmc_consumer_pop s1 = Some (r2, s2)" "ring_source.looked ?v ws1 r2 s1 s2"
      using ring_source.look [of s1 ws1 ?v] A2 ws1(1) v same(4) by metis
    note B2 = B(2) [unfolded ring_source.looked_def]
    have frame: "only_workers s s2" using A2 B2 by (blast intro: only_workers_trans)
    show thesis
      by (rule that [of r2 "xorshift32 rng" s2])
        (use A2 A(1) B(1) B2 None True own empty same frame in \<open>auto simp: steal_task_def first_task_def task_bag_def Let_def split: if_splits\<close>)
  qed
qed

lemma find_task_result:
  assumes wf: "sched_wf s" and ws: "worker_pool s = Some ws" and i: "tid < length ws"
    and core: "core_id (ws ! tid) < total_cores" and n: "total_cores = global_worker_count s"
  obtains r rng' s' where "find_task tid total_cores rng s = Some (r, rng', s')" and "sched_wf s'"
    and "r = first_task (ws ! tid) (if 1 < total_cores
           then Some (ws ! unat (steal_victim total_cores (core_id (ws ! tid)) (xorshift32 rng))) else None)"
    and "queued_tasks s = queued_tasks s' + task_bag r" and "only_workers s s'"
proof -
  obtain r s1 where A: "on_worker tid deque_pop s = Some (r, s1)" "own_source.looked tid ws r s s1"
    by (rule own_source.look [OF wf ws i])
  note A2 = A(2) [unfolded own_source.looked_def]
  show thesis
  proof (cases r)
    case (Some t)
    show thesis
      by (rule that [of r rng s1])
        (use A2 A(1) Some in \<open>auto simp: find_task_def first_task_def task_bag_def split: if_splits\<close>)
  next
    case None
    with A2 obtain ws1 where ws1: "worker_pool s1 = Some ws1" "same_workers ws ws1" by auto
    note same = same_workers_sched [OF ws1(2)]
    have i1: "tid < length ws1" using i same(4) [OF i] by simp
    obtain r2 s2 where B: "on_worker tid spmc_consumer_pop s1 = Some (r2, s2)" "ring_source.looked tid ws1 r2 s1 s2"
      using ring_source.look [OF _ ws1(1) i1] A2 by metis
    note B2 = B(2) [unfolded ring_source.looked_def]
    show thesis
    proof (cases r2)
      case (Some t)
      have "only_workers s s2" using A2 B2 by (blast intro: only_workers_trans)
      then show thesis
        by (intro that [of r2 rng s2])
          (use A2 A(1) B(1) B2 None Some same [OF i] in \<open>auto simp: find_task_def first_task_def task_bag_def split: if_splits\<close>)
    next
      case none: None
      with B2 obtain ws2 where ws2: "worker_pool s2 = Some ws2" "same_workers ws1 ws2" by auto
      note same2 = same_workers_sched [OF same_workers_trans [OF ws1(2) ws2(2)]]
      have i2: "tid < length ws2" using i same2(4) [OF i] by simp
      have frame: "only_workers s s2" using A2 B2 by (blast intro: only_workers_trans)
      have core2: "core_id (ws2 ! tid) < total_cores" and n2: "total_cores = global_worker_count s2"
        using core n same2(3) [OF i] only_workersD(4) [OF frame] by simp_all
      have empty: "deque_items (cl_deque (ws2 ! tid)) = []" "rb_items (ws2 ! tid) = []"
        using A2 B2 None none same2(1,2) [OF i] same(2) [OF i] by (auto split: if_splits)
      have wf2: "sched_wf s2" using B2 by simp
      obtain r3 rng' s3 where S: "steal_task tid total_cores rng s2 = Some (r3, rng', s3)" "sched_wf s3"
          "r3 = first_task (ws2 ! tid) (if 1 < total_cores
             then Some (ws2 ! unat (steal_victim total_cores (core_id (ws2 ! tid)) (xorshift32 rng))) else None)"
          "queued_tasks s2 = queued_tasks s3 + task_bag r3" "only_workers s2 s3"
        by (rule steal_correct [OF wf2 ws2(1) i2 core2 n2 empty])
      have "unat (steal_victim total_cores (core_id (ws ! tid)) (xorshift32 rng)) < length ws" if "1 < total_cores"
        using steal_victim_less [OF that core] wf ws n by (simp add: sched_wf_def word_less_nat_alt)
      then have r3: "r3 = first_task (ws ! tid) (if 1 < total_cores
             then Some (ws ! unat (steal_victim total_cores (core_id (ws ! tid)) (xorshift32 rng))) else None)"
        unfolding S(3) same2(3) [OF i]
        by (intro first_task_same) (use same_workers_trans [OF ws1(2) ws2(2)] i in \<open>auto simp: same_workers_def\<close>)
      have "queued_tasks s = queued_tasks s3 + task_bag r3" using A2 B2 None none S(4) by simp
      moreover have "only_workers s s3" by (rule only_workers_trans [OF frame S(5)])
      moreover have "find_task tid total_cores rng s = Some (r3, rng', s3)"
        using A(1) B(1) None none S(1) by (simp add: find_task_def)
      ultimately show thesis using S(2) r3 by (intro that)
    qed
  qed
qed

text \<open>
  C27: A search takes one task and loses none. It asks the worker's own deque for its newest task, then its
  own ring for the oldest one, then the deque and the ring of a victim, from their old ends; it ends
  without a task only when all of these are empty, and the tasks queued in the whole scheduler are
  afterwards the same, less the one it returns.
\<close>

theorem find_task_order:
  assumes "sched_wf s" and "worker_pool s = Some ws" and "tid < length ws"
    and "core_id (ws ! tid) < total_cores" and "total_cores = global_worker_count s"
  shows "\<exists>r rng' s'. find_task tid total_cores rng s = Some (r, rng', s')
    \<and> r = first_task (ws ! tid) (if 1 < total_cores
           then Some (ws ! unat (steal_victim total_cores (core_id (ws ! tid)) (xorshift32 rng))) else None)
    \<and> queued_tasks s = queued_tasks s' + task_bag r \<and> sched_wf s' \<and> only_workers s s'"
  by (rule find_task_result [OF assms, of rng]) blast

theorem find_task_order_witness:
  "\<exists>s rng' s'. find_task 0 1 7 s = Some (Some 3, rng', s') \<and> queued_tasks s = add_mset 3 (queued_tasks s')"
proof -
  obtain w where w: "worker_pool booted = Some [w]" "fresh_worker 16 64 0 w" using booted_facts(10) by blast
  let ?d = "snd (chase_lev_push (cl_deque w) 3)"
  let ?s = "booted\<lparr>worker_pool := Some [w\<lparr>cl_deque := ?d\<rparr>]\<rparr>"
  have ok: "worker_ok w" using booted_facts(2) w(1) by (simp add: sched_wf_def)
  then have inv: "deque_inv (cl_deque w)" by (simp add: worker_ok_def)
  have d: "deque_inv ?d" "deque_items ?d = [3]"
    using cl.push_keeps [OF inv, of 3] cl.push_items [OF inv, of 3] w(2) by (simp_all add: fresh_worker_def)
  have "sched_wf ?s" using booted_facts(2) w(1) with_deque(1) [OF ok d(1)] by (simp add: sched_wf_def)
  from find_task_order [OF this, of "[w\<lparr>cl_deque := ?d\<rparr>]" 0 1 7]
  obtain r rng' s' where "find_task 0 1 7 ?s = Some (r, rng', s')" "queued_tasks ?s = queued_tasks s' + task_bag r" "r = Some 3"
    using w(2) d(2) by (auto simp: fresh_worker_def first_task_def booted_facts(9))
  then show ?thesis by (intro exI [of _ ?s] exI [of _ rng'] exI [of _ s']) (simp add: task_bag_def)
qed

end
