(* ===== verification/SchedOps.thy ===== *)
theory SchedOps
  imports WorkerFind
begin

text \<open>
  The operations that the threads call on the shared state, as one relation: what any sequence of them
  keeps, from a boot on.
\<close>

section \<open>A splitter and a spawn keep the worker running\<close>

text \<open>
  Whatever the range, the size of the chunks and the number of free tasks, even where a spawn drops a part
  of its range: the worker still runs its task in a well-formed state.
\<close>

lemma dispatched_running: "dispatched tid cur ts cs s s' \<Longrightarrow> running tid cur s'"
  by (rule dispatchedD(1))

lemma spawn_pass_running:
  assumes run: "running tid cur s" and leaf: "leaf_dev dev"
  shows "\<exists>r. spawn_pass dev tid payload a b c f (Some cur) N k s = Some r
    \<and> (case r of Inl s' \<Rightarrow> running tid cur s' | Inr (k', s') \<Rightarrow> running tid cur s')"
proof -
  let ?n = "unat (if BATCH_SIZE < N - k then BATCH_SIZE else N - k)"
  obtain ts s1 where alloc: "alloc_batch tid payload a b c f (Some cur) k ?n s = (ts, s1)"
    by (cases "alloc_batch tid payload a b c f (Some cur) k ?n s")
  show ?thesis
  proof (cases "ts = []")
    case True
    have A: "sched_wf s1" "s1 = s\<lparr>pool := pool s1\<rparr>" "avail s1 = avail s"
      using alloc_batch_result [OF _ alloc] run True by (auto simp: running_def)
    have "worker_pool s1 = worker_pool s" "tl_current_task s1 = tl_current_task s" by (subst A(2), simp)+
    then have "running tid cur s1" using run A(1,3) by (simp add: running_def is_worker_def)
    then show ?thesis using True alloc leaf by (simp add: spawn_pass_def Let_def call_dev_def leaf_dev_def)
  next
    case False
    show ?thesis
    proof (rule dispatched_batch [OF run alloc leaf])
      fix s3 assume all: "deque_push_batch tid ts (upd_task cur (add_deps (word_of_nat (length ts))) s1) = Some (length ts, s3)"
        "dispatched tid cur ts [] s s3"
      then show ?thesis using False alloc dispatched_running [OF all(2)] by (simp add: spawn_pass_def Let_def)
    next
      fix m s3 s5 assume some: "deque_push_batch tid ts (upd_task cur (add_deps (word_of_nat (length ts))) s1) = Some (m, s3)" "m < length ts"
        "run_rejected dev tid f payload (drop m ts) (upd_task cur (sub_deps (word_of_nat (length ts - m))) s3) = Some s5"
        "dispatched tid cur (take m ts) (map (\<lambda>t. inline_call f payload (task_at s1 t)) (drop m ts)) s s5"
      from dispatched_running [OF some(4)] show ?thesis
        using some(1-3) False alloc leaf by (simp add: spawn_pass_def Let_def call_dev_def leaf_dev_def)
    qed
  qed
qed

lemma spawn_loop_running:
  assumes "running tid cur s" and "leaf_dev dev"
  shows "\<exists>s'. spawn_loop dev tid payload a b c f (Some cur) N k s = Some s' \<and> running tid cur s'"
  using assms
proof (induction "unat N - unat k" arbitrary: k s rule: less_induct)
  case less
  show ?case
  proof (cases "k < N")
    case True
    obtain r where r: "spawn_pass dev tid payload a b c f (Some cur) N k s = Some r"
        "case r of Inl s' \<Rightarrow> running tid cur s' | Inr (k', s') \<Rightarrow> running tid cur s'"
      using spawn_pass_running [OF less.prems] by blast
    show ?thesis
    proof (cases r)
      case (Inl s')
      with r True show ?thesis by (simp add: spawn_loop.simps)
    next
      case (Inr x)
      then obtain k' s' where x: "x = (k', s')" by (cases x)
      have k': "k' = k + (if BATCH_SIZE < N - k then BATCH_SIZE else N - k)"
        using spawn_pass_continues r(1) Inr x by metis
      have "unat k < unat k'" "unat k' \<le> unat N"
        using pass_size(4,5) [OF True] k' by (simp_all only: word_less_nat_alt word_le_nat_alt)
      then have "unat N - unat k' < unat N - unat k" by linarith
      from less.hyps [OF this _ less.prems(2)] r Inr x True show ?thesis by (simp add: spawn_loop.simps [of dev tid payload a b c f "Some cur" N k])
    qed
  next
    case False
    with less.prems(1) show ?thesis by (simp add: spawn_loop.simps)
  qed
qed

lemma spawn_running:
  assumes "running tid cur s" and "leaf_dev dev"
  shows "\<exists>s'. scheduler_spawn_subtasks dev tid payload a b c f s = Some s' \<and> running tid cur s'"
proof -
  have "tl_current_task s tid = Some cur" using assms(1) by (simp add: running_def)
  then show ?thesis using assms spawn_loop_running [OF assms] by (simp add: scheduler_spawn_subtasks_def Let_def)
qed

lemma splitter_loop_running:
  assumes "running tid cur s" and "leaf_dev dev"
  shows "\<exists>e s'. splitter_loop dev tid j a b s = Some (e, s') \<and> running tid cur s'"
  using assms
proof (induction "unat b" arbitrary: b s rule: less_induct)
  case less
  let ?m = "split_point (chunk_size (jobs s j)) a b"
  show ?case
  proof (cases "chunk_size (jobs s j) < b - a \<and> \<not> b \<le> ?m")
    case True
    obtain s1 ts cs where off: "split_off dev tid j ?m b s = Some s1" "dispatched tid cur ts cs s s1"
      using split_off_dispatched [OF less.prems] by blast
    have "unat ?m < unat b" using True by (simp add: word_less_nat_alt word_le_nat_alt)
    from less.hyps [OF this dispatched_running [OF off(2)] less.prems(2)] off(1) True show ?thesis
      by (simp add: splitter_loop.simps [of dev tid j a b s] Let_def)
  next
    case False
    with less.prems(1) show ?thesis by (auto simp: splitter_loop.simps [of dev tid j a b s] Let_def)
  qed
qed

lemma splitter_running:
  assumes "running tid cur s" and "leaf_dev dev"
  shows "\<exists>s'. internal_macro_job_splitter dev tid (JobPtr j) a b s = Some s' \<and> running tid cur s'"
proof -
  obtain e s1 where loop: "splitter_loop dev tid j a b s = Some (e, s1)" and run: "running tid cur s1"
    using splitter_loop_running [OF assms] by blast
  have tl: "tl_current_task s1 tid = Some cur" using run by (simp add: running_def)
  let ?s = "upd_task cur (task_payload_update (\<lambda>_. job_payload (jobs s1 j))) s1"
  have "running tid cur ?s" using run by (simp add: running_def upd_task_pool)
  with loop tl assms(2) show ?thesis
    by (simp add: internal_macro_job_splitter_def Let_def call_dev_def leaf_dev_def)
qed

section \<open>The operations\<close>

text \<open>
  The guards of the rules are what the callers guarantee: a released task is in use, a ring has not
  accepted \<open>2 ^ 64 - 1\<close> tasks, the splitter and a spawn run inside a task of a worker, and the chunk
  of a job is not 0, by which the splitter divides (\<open>scheduler_submit_job\<close> replaces 0 by the default).
  Ranges, chunks and the number of free tasks are arbitrary.
\<close>

inductive sched_op :: "dev \<Rightarrow> sched \<Rightarrow> sched \<Rightarrow> bool" for dev :: dev where
  acquire: "acquire tid s = (r, s') \<Longrightarrow> sched_op dev s s'"
| release: "t < global_task_capacity \<Longrightarrow> t \<notin> avail s \<Longrightarrow> sched_op dev s (release tid t s)"
| submit: "rings_bounded s \<Longrightarrow> scheduler_submit_job tid j chunk s = (ok, s') \<Longrightarrow> sched_op dev s s'"
| continuation: "scheduler_set_continuation tid f s = Some s' \<Longrightarrow> sched_op dev s s'"
| deque_push: "is_worker tid s \<Longrightarrow> deque_push tid t s = Some (ok, s') \<Longrightarrow> sched_op dev s s'"
| find: "worker_pool s = Some ws \<Longrightarrow> tid < length ws \<Longrightarrow> core_id (ws ! tid) < total_cores \<Longrightarrow>
    total_cores = global_worker_count s \<Longrightarrow> find_task tid total_cores rng s = Some (r, rng', s') \<Longrightarrow> sched_op dev s s'"
| splitter: "running tid cur s \<Longrightarrow> chunk_size (jobs s j) \<noteq> 0 \<Longrightarrow>
    internal_macro_job_splitter dev tid (JobPtr j) a b s = Some s' \<Longrightarrow> sched_op dev s s'"
| spawn: "running tid cur s \<Longrightarrow> scheduler_spawn_subtasks dev tid payload a b chunk f s = Some s' \<Longrightarrow> sched_op dev s s'"

lemma sched_op_wf:
  assumes "sched_op dev s s'" and "leaf_dev dev" and "sched_wf s"
  shows "sched_wf s'"
  using assms(1)
proof cases
  case (acquire tid r)
  with assms(3) show ?thesis by (blast intro: acquire_sched(1))
next
  case (release t tid)
  with assms(3) show ?thesis by (simp add: release_sched(1))
next
  case (submit tid j chunk ok)
  with submit_result [OF assms(3)] show ?thesis by (simp add: submit_outcome_def)
next
  case (continuation tid f)
  with assms(3) show ?thesis by (auto simp: scheduler_set_continuation_def upd_task_pool split: option.splits)
next
  case (deque_push tid t ok)
  with assms(3) show ?thesis by (metis deque_push_sched option.inject prod.inject)
next
  case (find ws tid total_cores rng r rng')
  with assms(3) show ?thesis by (metis find_task_result option.inject prod.inject)
next
  case (splitter tid cur j a b)
  from splitter_running [OF splitter(1) assms(2), of j a b] splitter(3) show ?thesis by (auto simp: running_def)
next
  case (spawn tid cur payload a b chunk f)
  from spawn_running [OF spawn(1) assms(2), of payload a b chunk f] spawn(2) show ?thesis by (auto simp: running_def)
qed

text \<open>
  C28: The shared state keeps its type: after a boot, and any sequence of task allocations and releases,
  submissions, continuations, pushes, searches, splits and spawns, the free list is a list of distinct
  tasks without cycles, the caches hold free tasks only, every worker's deque and ring is well formed,
  and the pool has as many workers as the scheduler counts. The ranges and chunks are any, and so is the
  number of free tasks, also where a spawn runs out of them in the middle of a batch. The functions of the
  developer that a splitter or a spawn calls inline work on the developer's data (\<open>leaf_dev\<close>).
\<close>

theorem sched_ops_keep_type:
  assumes "leaf_dev dev" and "sched_wf s" and "(sched_op dev)\<^sup>*\<^sup>* s s'"
  shows "sched_wf s'"
  using assms(3,2) by (induction rule: rtranclp_induct) (auto intro: sched_op_wf assms(1))

theorem sched_ops_keep_type_witness:
  "sched_wf (snd (acquire 0 (snd (scheduler_submit_job 1 0 64 booted))))"
proof -
  have "sched_op idle_dev booted (snd (scheduler_submit_job 1 0 64 booted))"
    by (rule sched_op.submit [OF booted_facts(5) prod.collapse [symmetric]])
  moreover have "sched_op idle_dev s (snd (acquire 0 s))" for s
    by (rule sched_op.acquire [OF prod.collapse [symmetric]])
  ultimately have "(sched_op idle_dev)\<^sup>*\<^sup>* booted (snd (acquire 0 (snd (scheduler_submit_job 1 0 64 booted))))"
    by (intro rtranclp.rtrancl_into_rtrancl [OF r_into_rtranclp])
  then show ?thesis by (rule sched_ops_keep_type [OF idle_dev_leaf booted_facts(2)])
qed

end
