(* ===== verification/Lifecycle.thy ===== *)
theory Lifecycle
  imports Prelude
begin

text \<open>
  The life of the scheduler's memory and threads: \<open>scheduler_boot\<close> allocates and starts the workers one by
  one while those already started run, \<open>scheduler_stop_workers\<close> asks them to end, joins them and frees
  everything. Main and the workers interleave; every step says which block of memory it touches.
  A developer's function is assumed to return, so one round of a worker's loop is a finite number of
  accesses, to any block of any worker since it may steal.
\<close>

section \<open>Boot, rounds and stop\<close>

datatype block = TaskArray | WorkerPool | DequeBuffer nat | RingBuffer nat

definition worker_blocks :: "nat \<Rightarrow> block set" where
  "worker_blocks n = insert WorkerPool (DequeBuffer ` {..<n} \<union> RingBuffer ` {..<n})"

definition all_blocks :: "nat \<Rightarrow> block set" where
  "all_blocks n = insert TaskArray (worker_blocks n)"

datatype app_pc =
    Boot                  \<comment> \<open>about to allocate the task array\<close>
  | BootPool              \<comment> \<open>about to call \<open>allocate_worker_pool\<close>\<close>
  | Create nat            \<comment> \<open>about to create that worker's thread\<close>
  | Serving
  | Flag nat              \<comment> \<open>about to set that worker's termination flag\<close>
  | JoinWorker nat
  | FreeDeque nat
  | FreeRing nat
  | FreeTasks
  | FreePool
  | Stopped
  | Aborted               \<comment> \<open>an allocation failed: the process has exited\<close>

datatype loop_pc =
    NotStarted
  | LoopTest              \<comment> \<open>about to load the termination flag\<close>
  | Round nat             \<comment> \<open>in the loop body, that many accesses to go\<close>
  | Ended

record lifecycle =
  app :: app_pc
  allocated :: "block set"
  terminate_flag :: "nat \<Rightarrow> bool"
  loop :: "nat \<Rightarrow> loop_pc"

definition before_boot :: lifecycle where
  "before_boot = \<lparr>app = Boot, allocated = {}, terminate_flag = (\<lambda>_. False), loop = (\<lambda>_. NotStarted)\<rparr>"

text \<open>
  Main, with the block that a step reads, writes or frees. When a thread cannot be created, the boot
  reports it and goes on; to join that thread is undefined, so there is no step for it. The application
  may boot again after a stop.
\<close>

inductive app_step :: "nat \<Rightarrow> lifecycle \<Rightarrow> block option \<Rightarrow> lifecycle \<Rightarrow> bool" for n where
  alloc_tasks: "app s = Boot \<Longrightarrow> app_step n s None (s\<lparr>app := BootPool, allocated := insert TaskArray (allocated s)\<rparr>)"
| alloc_fails: "app s = Boot \<or> app s = BootPool \<Longrightarrow> app_step n s None (s\<lparr>app := Aborted\<rparr>)"
| alloc_pool: "app s = BootPool \<Longrightarrow> app_step n s None
    (s\<lparr>app := Create 0, allocated := allocated s \<union> worker_blocks n, terminate_flag := (\<lambda>_. False)\<rparr>)"
| create: "app s = Create i \<Longrightarrow> i < n \<Longrightarrow> app_step n s (Some WorkerPool)
    (s\<lparr>app := Create (Suc i), loop := (loop s)(i := LoopTest)\<rparr>)"
| create_fails: "app s = Create i \<Longrightarrow> i < n \<Longrightarrow> app_step n s (Some WorkerPool) (s\<lparr>app := Create (Suc i)\<rparr>)"
| created: "app s = Create i \<Longrightarrow> \<not> i < n \<Longrightarrow> app_step n s None (s\<lparr>app := Serving\<rparr>)"
| serve: "app s = Serving \<Longrightarrow> b \<in> all_blocks n \<Longrightarrow> app_step n s (Some b) s"
| stop: "app s = Serving \<Longrightarrow> app_step n s None (s\<lparr>app := Flag 0\<rparr>)"
| flag: "app s = Flag i \<Longrightarrow> i < n \<Longrightarrow> app_step n s (Some WorkerPool)
    (s\<lparr>app := Flag (Suc i), terminate_flag := (terminate_flag s)(i := True)\<rparr>)"
| flagged: "app s = Flag i \<Longrightarrow> \<not> i < n \<Longrightarrow> app_step n s None (s\<lparr>app := JoinWorker 0\<rparr>)"
| join: "app s = JoinWorker i \<Longrightarrow> i < n \<Longrightarrow> loop s i = Ended \<Longrightarrow> app_step n s (Some WorkerPool) (s\<lparr>app := JoinWorker (Suc i)\<rparr>)"
| joined: "app s = JoinWorker i \<Longrightarrow> \<not> i < n \<Longrightarrow> app_step n s None (s\<lparr>app := FreeDeque 0\<rparr>)"
| free_deque: "app s = FreeDeque i \<Longrightarrow> i < n \<Longrightarrow> app_step n s (Some (DequeBuffer i))
    (s\<lparr>app := FreeRing i, allocated := allocated s - {DequeBuffer i}\<rparr>)"
| free_ring: "app s = FreeRing i \<Longrightarrow> app_step n s (Some (RingBuffer i))
    (s\<lparr>app := FreeDeque (Suc i), allocated := allocated s - {RingBuffer i}\<rparr>)"
| freed: "app s = FreeDeque i \<Longrightarrow> \<not> i < n \<Longrightarrow> app_step n s None (s\<lparr>app := FreeTasks\<rparr>)"
| free_tasks: "app s = FreeTasks \<Longrightarrow> app_step n s (Some TaskArray) (s\<lparr>app := FreePool, allocated := allocated s - {TaskArray}\<rparr>)"
| free_pool: "app s = FreePool \<Longrightarrow> app_step n s (Some WorkerPool) (s\<lparr>app := Stopped, allocated := allocated s - {WorkerPool}\<rparr>)"
| reboot: "app s = Stopped \<Longrightarrow> app_step n s None (s\<lparr>app := Boot, loop := (\<lambda>_. NotStarted)\<rparr>)"

text \<open>One worker's thread.\<close>

inductive loop_step :: "nat \<Rightarrow> nat \<Rightarrow> lifecycle \<Rightarrow> block \<Rightarrow> lifecycle \<Rightarrow> bool" for n i where
  test: "loop s i = LoopTest \<Longrightarrow> loop_step n i s WorkerPool
    (s\<lparr>loop := (loop s)(i := if terminate_flag s i then Ended else Round k)\<rparr>)"
| access: "loop s i = Round (Suc k) \<Longrightarrow> b \<in> all_blocks n \<Longrightarrow> loop_step n i s b (s\<lparr>loop := (loop s)(i := Round k)\<rparr>)"
| again: "loop s i = Round 0 \<Longrightarrow> loop_step n i s WorkerPool (s\<lparr>loop := (loop s)(i := LoopTest)\<rparr>)"

definition life_step :: "nat \<Rightarrow> lifecycle \<Rightarrow> lifecycle \<Rightarrow> bool" where
  "life_step n s s' \<longleftrightarrow> (\<exists>b. app_step n s b s') \<or> (\<exists>i<n. \<exists>b. loop_step n i s b s')"

inductive_cases app_stepE: "app_step n s b s'"
inductive_cases loop_stepE: "loop_step n i s b s'"

section \<open>The invariant\<close>

text \<open>What is allocated, who runs and who has been asked to end, by where main is.\<close>

fun life_ok :: "nat \<Rightarrow> app_pc \<Rightarrow> block set \<Rightarrow> (nat \<Rightarrow> bool) \<Rightarrow> (nat \<Rightarrow> loop_pc) \<Rightarrow> bool" where
  "life_ok n Boot a f l \<longleftrightarrow> a = {} \<and> (\<forall>i<n. l i = NotStarted)"
| "life_ok n BootPool a f l \<longleftrightarrow> a = {TaskArray} \<and> (\<forall>i<n. l i = NotStarted)"
| "life_ok n (Create i) a f l \<longleftrightarrow> a = all_blocks n \<and> (\<forall>j<n. \<not> f j) \<and> (\<forall>j<n. i \<le> j \<longrightarrow> l j = NotStarted)"
| "life_ok n Serving a f l \<longleftrightarrow> a = all_blocks n \<and> (\<forall>j<n. \<not> f j)"
| "life_ok n (Flag i) a f l \<longleftrightarrow> a = all_blocks n \<and> (\<forall>j<n. f j \<longleftrightarrow> j < i)"
| "life_ok n (JoinWorker i) a f l \<longleftrightarrow> a = all_blocks n \<and> (\<forall>j<n. f j) \<and> (\<forall>j<n. j < i \<longrightarrow> l j = Ended)"
| "life_ok n (FreeDeque i) a f l \<longleftrightarrow> a = all_blocks n - DequeBuffer ` {..<i} - RingBuffer ` {..<i} \<and> (\<forall>j<n. l j = Ended) \<and> i \<le> n"
| "life_ok n (FreeRing i) a f l \<longleftrightarrow> a = all_blocks n - DequeBuffer ` {..i} - RingBuffer ` {..<i} \<and> (\<forall>j<n. l j = Ended) \<and> i < n"
| "life_ok n FreeTasks a f l \<longleftrightarrow> a = {TaskArray, WorkerPool} \<and> (\<forall>j<n. l j = Ended)"
| "life_ok n FreePool a f l \<longleftrightarrow> a = {WorkerPool} \<and> (\<forall>j<n. l j = Ended)"
| "life_ok n Stopped a f l \<longleftrightarrow> a = {} \<and> (\<forall>j<n. l j = Ended)"
| "life_ok n Aborted a f l \<longleftrightarrow> (\<forall>j<n. l j = NotStarted)"

abbreviation life_inv :: "nat \<Rightarrow> lifecycle \<Rightarrow> bool" where
  "life_inv n s \<equiv> life_ok n (app s) (allocated s) (terminate_flag s) (loop s)"

text \<open>A worker that runs finds every block allocated.\<close>

lemma running_allocated:
  assumes "life_inv n s" and "i < n" and "loop s i \<noteq> NotStarted" and "loop s i \<noteq> Ended"
  shows "allocated s = all_blocks n"
  using assms by (cases "app s") auto

lemma app_keeps: "app_step n s b s' \<Longrightarrow> life_inv n s \<Longrightarrow> life_inv n s'"
proof (induction rule: app_step.induct)
  case (alloc_pool s)
  then show ?case by (auto simp: all_blocks_def worker_blocks_def)
next
  case (free_deque s i)
  then show ?case by (auto simp: less_Suc_eq_le order.order_iff_strict)
next
  case (free_ring s i)
  then show ?case by (auto simp: lessThan_Suc lessThan_Suc_atMost [symmetric])
next
  case (freed s i)
  then show ?case by (auto simp: all_blocks_def worker_blocks_def)
qed (auto simp: less_Suc_eq less_Suc_eq_le)

lemma loop_keeps: "loop_step n i s b s' \<Longrightarrow> i < n \<Longrightarrow> life_inv n s \<Longrightarrow> life_inv n s'"
  by (erule loop_stepE; cases "app s") auto

lemma life_keeps: "life_step n s s' \<Longrightarrow> life_inv n s \<Longrightarrow> life_inv n s'"
  unfolding life_step_def using app_keeps loop_keeps by blast

lemma life_reaches: "reaches (life_step n) before_boot s \<Longrightarrow> life_inv n s"
  by (erule reaches_invariant [where I = "life_inv n"]) (simp add: before_boot_def, rule life_keeps)

lemma loop_touches: "loop_step n i s b s' \<Longrightarrow> b \<in> all_blocks n"
  by (erule loop_stepE) (auto simp: all_blocks_def worker_blocks_def)

lemma app_touches: "app_step n s (Some b) s' \<Longrightarrow> life_inv n s \<Longrightarrow> b \<in> allocated s"
  by (erule app_stepE) (auto simp: all_blocks_def worker_blocks_def)

lemma loop_touches_allocated:
  assumes "loop_step n i s b s'" and "i < n" and "life_inv n s"
  shows "b \<in> allocated s"
proof -
  have "loop s i \<noteq> NotStarted" "loop s i \<noteq> Ended" using assms(1) by (auto elim: loop_stepE)
  from running_allocated [OF assms(3,2) this] loop_touches [OF assms(1)] show ?thesis by simp
qed

section \<open>The end of a stop\<close>

text \<open>All flags are set: main joins and frees.\<close>

fun stopping :: "app_pc \<Rightarrow> bool" where
  "stopping (JoinWorker i) = True"
| "stopping (FreeDeque i) = True"
| "stopping (FreeRing i) = True"
| "stopping FreeTasks = True"
| "stopping FreePool = True"
| "stopping _ = False"

fun app_rank :: "nat \<Rightarrow> app_pc \<Rightarrow> nat" where
  "app_rank n (JoinWorker i) = (n - i) + 2 * n + 4"
| "app_rank n (FreeDeque i) = 2 * (n - i) + 3"
| "app_rank n (FreeRing i) = 2 * (n - i) + 2"
| "app_rank n FreeTasks = 2"
| "app_rank n FreePool = 1"
| "app_rank n _ = 0"

fun loop_rank :: "loop_pc \<Rightarrow> nat" where
  "loop_rank LoopTest = 1"
| "loop_rank (Round k) = k + 2"
| "loop_rank _ = 0"

definition life_rank :: "nat \<Rightarrow> lifecycle \<Rightarrow> nat" where
  "life_rank n s = app_rank n (app s) + (\<Sum>i<n. loop_rank (loop s i))"

lemma stopping_step:
  assumes inv: "life_inv n s" and stop: "stopping (app s)" and step: "life_step n s s'"
  shows "life_rank n s' < life_rank n s" and "stopping (app s') \<or> app s' = Stopped"
proof -
  have "life_rank n s' < life_rank n s \<and> (stopping (app s') \<or> app s' = Stopped)"
    using step unfolding life_step_def
  proof (elim disjE exE conjE)
    fix b assume "app_step n s b s'"
    then show ?thesis using inv stop by cases (auto simp: life_rank_def)
  next
    fix i b assume i: "i < n" and "loop_step n i s b s'"
    then have "app s' = app s" "loop_rank (loop s' i) < loop_rank (loop s i)" "\<And>j. j \<noteq> i \<Longrightarrow> loop s' j = loop s j"
      using inv stop by (cases "app s"; auto elim!: loop_stepE)+
    then have "(\<Sum>i<n. loop_rank (loop s' i)) < (\<Sum>i<n. loop_rank (loop s i))"
      using i by (intro sum_strict_mono_ex1) (auto, metis less_imp_le_nat order_refl)
    with \<open>app s' = app s\<close> stop show ?thesis by (simp add: life_rank_def)
  qed
  then show "life_rank n s' < life_rank n s" "stopping (app s') \<or> app s' = Stopped" by simp_all
qed

lemma stopping_progress:
  assumes inv: "life_inv n s" and stop: "stopping (app s)" and all: "\<forall>i<n. loop s i \<noteq> NotStarted"
  shows "\<exists>s'. life_step n s s'"
proof -
  have main: ?thesis if "app_step n s b s'" for b s' using that by (auto simp: life_step_def)
  have worker: ?thesis if "loop_step n i s b s'" "i < n" for i b s' using that by (auto simp: life_step_def)
  show ?thesis
  proof (cases "app s")
    case (JoinWorker i)
    show ?thesis
    proof (cases "i < n")
      case True
      show ?thesis
      proof (cases "loop s i")
        case NotStarted
        with all True show ?thesis by simp
      next
        case LoopTest
        show ?thesis by (rule worker [OF loop_step.test [OF LoopTest] True])
      next
        case (Round k)
        show ?thesis
        proof (cases k)
          case 0
          show ?thesis by (rule worker [OF loop_step.again [OF Round [unfolded 0]] True])
        next
          case (Suc m)
          have "TaskArray \<in> all_blocks n" by (simp add: all_blocks_def)
          then show ?thesis by (rule worker [OF loop_step.access [OF Round [unfolded Suc]] True])
        qed
      next
        case Ended
        show ?thesis by (rule main [OF app_step.join [OF JoinWorker True Ended]])
      qed
    next
      case False
      show ?thesis by (rule main [OF app_step.joined [OF JoinWorker False]])
    qed
  next
    case (FreeDeque i)
    then show ?thesis
      by (cases "i < n") (rule main [OF app_step.free_deque [OF FreeDeque]] main [OF app_step.freed [OF FreeDeque]], assumption)+
  next
    case (FreeRing i)
    show ?thesis by (rule main [OF app_step.free_ring [OF FreeRing]])
  next
    case FreeTasks
    show ?thesis by (rule main [OF app_step.free_tasks [OF FreeTasks]])
  next
    case FreePool
    show ?thesis by (rule main [OF app_step.free_pool [OF FreePool]])
  qed (use stop in simp_all)
qed

section \<open>Properties\<close>


text \<open>
  C23: A stop comes to its end. Once all termination flags are set, whatever the workers and main do next
  and in whatever order, each step decreases a bound on the steps that are left, and as long as every
  thread was created there is a next step until everything is freed; so every schedule reaches the end.
\<close>

theorem stop_terminates:
  assumes "reaches (life_step n) before_boot s" and "stopping (app s)"
  shows "(\<forall>s'. life_step n s s' \<longrightarrow> life_rank n s' < life_rank n s \<and> (stopping (app s') \<or> app s' = Stopped))
    \<and> ((\<forall>i<n. loop s i \<noteq> NotStarted) \<longrightarrow> (\<exists>s'. life_step n s s'))"
  using stopping_step [OF life_reaches [OF assms(1)] assms(2)] stopping_progress [OF life_reaches [OF assms(1)] assms(2)] by blast

text \<open>The states after a failed creation of thread \<open>i\<close>: main never gets past the join of it.\<close>

fun before_join :: "nat \<Rightarrow> app_pc \<Rightarrow> bool" where
  "before_join i (Create j) \<longleftrightarrow> i < j"
| "before_join i Serving \<longleftrightarrow> True"
| "before_join i (Flag j) \<longleftrightarrow> True"
| "before_join i (JoinWorker j) \<longleftrightarrow> j \<le> i"
| "before_join i _ \<longleftrightarrow> False"

lemma never_joined:
  assumes "life_step n s s'" and "before_join i (app s) \<and> loop s i = NotStarted" and "i < n"
  shows "before_join i (app s') \<and> loop s' i = NotStarted"
  using assms(1) unfolding life_step_def
proof (elim disjE exE conjE)
  fix b assume "app_step n s b s'"
  then show ?thesis using assms(2,3) by cases (auto simp: le_less_Suc_eq Suc_le_eq order.order_iff_strict)
next
  fix j b assume "loop_step n j s b s'"
  then show ?thesis using assms(2) by cases auto
qed


text \<open>One worker, from boot to the moment it is asked to end in the middle of a round.\<close>

definition one_stopping :: lifecycle where
  "one_stopping = \<lparr>app = JoinWorker 0, allocated = all_blocks 1, terminate_flag = (\<lambda>_. False)(0 := True), loop = (\<lambda>_. NotStarted)(0 := Round 3)\<rparr>"

lemma one_stopping_reached: "reaches (life_step 1) before_boot one_stopping"
proof -
  let ?l = "(\<lambda>_. NotStarted)(0 := LoopTest)" and ?f = "\<lambda>_ :: nat. False"
  let ?s1 = "\<lparr>app = BootPool, allocated = {TaskArray}, terminate_flag = ?f, loop = (\<lambda>_. NotStarted)\<rparr>"
  let ?s2 = "\<lparr>app = Create 0, allocated = all_blocks 1, terminate_flag = ?f, loop = (\<lambda>_. NotStarted)\<rparr>"
  let ?s3 = "\<lparr>app = Create 1, allocated = all_blocks 1, terminate_flag = ?f, loop = ?l\<rparr>"
  let ?s4 = "?s3\<lparr>app := Serving\<rparr>" and ?s5 = "?s3\<lparr>app := Flag 0\<rparr>" and ?s6 = "?s3\<lparr>app := Flag 0, loop := (\<lambda>_. NotStarted)(0 := Round 3)\<rparr>"
  let ?s7 = "?s6\<lparr>app := Flag 1, terminate_flag := ?f(0 := True)\<rparr>"
  have steps: "life_step 1 before_boot ?s1" "life_step 1 ?s1 ?s2" "life_step 1 ?s2 ?s3" "life_step 1 ?s3 ?s4" "life_step 1 ?s4 ?s5"
    "life_step 1 ?s5 ?s6" "life_step 1 ?s6 ?s7" "life_step 1 ?s7 one_stopping"
    unfolding life_step_def
    using app_step.alloc_tasks [of before_boot 1] app_step.alloc_pool [of ?s1 1] app_step.create [of ?s2 0 1] app_step.created [of ?s3 1 1]
      app_step.stop [of ?s4 1] loop_step.test [of ?s5 0 1 3] app_step.flag [of ?s6 0 1] app_step.flagged [of ?s7 1 1]
    by (auto simp: before_boot_def one_stopping_def all_blocks_def)
  then show ?thesis by (meson reaches.intros)
qed


theorem stop_terminates_witness:
  "\<exists>s'. life_step 1 one_stopping s' \<and> life_rank 1 s' < life_rank 1 one_stopping"
proof -
  have "stopping (app one_stopping)" "\<forall>i<1. loop one_stopping i \<noteq> NotStarted" by (simp_all add: one_stopping_def)
  with stop_terminates [OF one_stopping_reached] show ?thesis by blast
qed


end
