(* ===== verification/TaskGraph.thy ===== *)
theory TaskGraph
  imports Task "HOL-Library.Multiset"
begin

text \<open>
  The dependency counting of \<open>worker_main_loop\<close>, \<open>scheduler_spawn_subtasks\<close> and
  \<open>internal_macro_job_splitter\<close> as any number of workers execute it, one access to shared data per step,
  in any order. The deques and rings of all workers are one bag of queued tasks, from which any worker may
  take any task, and the pool is the set of free tasks: \<open>ClDequeConc\<close>, \<open>RingConc\<close> and \<open>TaskPoolConc\<close> show
  that they lose and duplicate nothing. Counts are integers here, and \<open>graph_counts_bounded\<close> shows that
  the \<open>size_t\<close> of the code neither wraps below 0 nor overflows.
\<close>

section \<open>State and steps\<close>

text \<open>Where the function that runs was called: by the loop body, or in the walk up the graph.\<close>

datatype run_mode = Body | InClimb

text \<open>
  In \<open>WRun t m R cs\<close> the function of \<open>t\<close> runs; \<open>cs\<close> are children that are allocated but not yet
  counted, \<open>R\<close> children that the deque has rejected and that are still to be run inline and released.
\<close>

datatype graph_pc =
    WIdle
  | WTake task_ref                                                \<comment> \<open>a task has been taken, its function not yet read\<close>
  | WRun task_ref run_mode "task_ref list" "task_ref list"
  | WPush task_ref run_mode "task_ref list" "task_ref list"       \<comment> \<open>counted, about to push\<close>
  | WReject task_ref run_mode "task_ref list" "task_ref list"     \<comment> \<open>rejected, about to take them off the count\<close>
  | WLast task_ref                                                \<comment> \<open>the task's count dropped from 1\<close>
  | WClimb task_ref                                               \<comment> \<open>about to drop a dependency of this parent\<close>
  | WAtParent task_ref                                            \<comment> \<open>the parent's count dropped from 1\<close>
  | WPark task_ref                                                \<comment> \<open>the parent's count is 1 again, about to push or run it\<close>
  | WHook task_ref                                                \<comment> \<open>about to run the finishing hook\<close>

text \<open>
  The last three components are ghosts: the role of each task, its depth in the graph, and how often the
  hook of a root has run since its submission.
\<close>

datatype task_role =
    Free | Queued | Waiting
  | Taken nat | Fresh nat | Counted nat | Running nat | Ending nat | Parking nat

record graph =
  queue :: "task_ref multiset"
  free :: "task_ref set"
  deps :: "task_ref \<Rightarrow> int"
  fn :: "task_ref \<Rightarrow> sc_fn option"
  parent :: "task_ref \<Rightarrow> task_ref option"
  wpc :: "nat \<Rightarrow> graph_pc"
  role :: "task_ref \<Rightarrow> task_role"
  depth :: "task_ref \<Rightarrow> nat"
  hooked :: "task_ref \<Rightarrow> nat"

definition graph_start :: "nat \<Rightarrow> graph" where
  "graph_start cap = \<lparr>queue = {#}, free = {..<cap}, deps = (\<lambda>_. 0), fn = (\<lambda>_. None), parent = (\<lambda>_. None),
     wpc = (\<lambda>_. WIdle), role = (\<lambda>_. Free), depth = (\<lambda>_. 0), hooked = (\<lambda>_. 0)\<rparr>"

definition set_roles :: "task_ref list \<Rightarrow> task_role \<Rightarrow> (task_ref \<Rightarrow> task_role) \<Rightarrow> task_ref \<Rightarrow> task_role" where
  "set_roles ts r f = (\<lambda>t. if t \<in> set ts then r else f t)"

fun after_release :: "task_ref option \<Rightarrow> graph_pc" where
  "after_release None = WIdle"
| "after_release (Some p) = WClimb p"

fun last_pc :: "run_mode \<Rightarrow> task_ref \<Rightarrow> graph_pc" where
  "last_pc Body t = WLast t"
| "last_pc InClimb t = WAtParent t"

text \<open>
  \<open>submit\<close> is an application thread's \<open>scheduler_submit_job\<close>, seen from the push that publishes its two
  tasks. Only the hook ever runs with a root as the current task, so the steps of developer functions
  (\<open>alloc\<close>, \<open>continuation\<close>) have a task with a parent.
\<close>

inductive graph_step :: "graph \<Rightarrow> graph \<Rightarrow> bool" where
  submit: "r \<in> free s \<Longrightarrow> c \<in> free s \<Longrightarrow> r \<noteq> c \<Longrightarrow>
    graph_step s (s\<lparr>queue := add_mset c (queue s), free := free s - {r, c}, deps := (deps s)(r := 1, c := 1),
      fn := (fn s)(r := Some HookFn, c := Some SplitterFn), parent := (parent s)(r := None, c := Some r),
      role := (role s)(r := Waiting, c := Queued), depth := (depth s)(r := 0, c := 1), hooked := (hooked s)(r := 0)\<rparr>)"
| take: "wpc s w = WIdle \<Longrightarrow> t \<in># queue s \<Longrightarrow>
    graph_step s (s\<lparr>queue := queue s - {#t#}, wpc := (wpc s)(w := WTake t), role := (role s)(t := Taken w)\<rparr>)"
| start: "wpc s w = WTake t \<Longrightarrow> fn s t = Some f \<Longrightarrow>
    graph_step s (s\<lparr>fn := (fn s)(t := None), wpc := (wpc s)(w := WRun t Body [] []), role := (role s)(t := Running w)\<rparr>)"
| alloc: "wpc s w = WRun t m R cs \<Longrightarrow> parent s t \<noteq> None \<Longrightarrow> c \<in> free s \<Longrightarrow> f \<noteq> HookFn \<Longrightarrow>
    graph_step s (s\<lparr>free := free s - {c}, deps := (deps s)(c := 1), fn := (fn s)(c := Some f), parent := (parent s)(c := Some t),
      wpc := (wpc s)(w := WRun t m R (cs @ [c])), role := (role s)(c := Fresh w), depth := (depth s)(c := depth s t + 1)\<rparr>)"
| continuation: "wpc s w = WRun t m R cs \<Longrightarrow> parent s t \<noteq> None \<Longrightarrow> f \<noteq> HookFn \<Longrightarrow>
    graph_step s (s\<lparr>fn := (fn s)(t := Some f)\<rparr>)"
| count: "wpc s w = WRun t m R cs \<Longrightarrow> cs \<noteq> [] \<Longrightarrow>
    graph_step s (s\<lparr>deps := (deps s)(t := deps s t + int (length cs)), wpc := (wpc s)(w := WPush t m R cs),
      role := set_roles cs (Counted w) (role s)\<rparr>)"
| push: "wpc s w = WPush t m R cs \<Longrightarrow> n \<le> length cs \<Longrightarrow>
    graph_step s (s\<lparr>queue := queue s + mset (take n cs),
      wpc := (wpc s)(w := if n = length cs then WRun t m R [] else WReject t m R (drop n cs)),
      role := set_roles (take n cs) Queued (role s)\<rparr>)"
| uncount: "wpc s w = WReject t m R cs \<Longrightarrow>
    graph_step s (s\<lparr>deps := (deps s)(t := deps s t - int (length cs)), wpc := (wpc s)(w := WRun t m (R @ cs) []),
      role := set_roles cs (Fresh w) (role s)\<rparr>)"
| rejected_done: "wpc s w = WRun t m R [] \<Longrightarrow> c \<in> set R \<Longrightarrow>
    graph_step s (s\<lparr>free := insert c (free s), wpc := (wpc s)(w := WRun t m (remove1 c R) []), role := (role s)(c := Free)\<rparr>)"
| return: "wpc s w = WRun t m [] [] \<Longrightarrow>
    graph_step s (s\<lparr>deps := (deps s)(t := deps s t - 1), wpc := (wpc s)(w := if deps s t = 1 then last_pc m t else WIdle),
      role := (role s)(t := if deps s t = 1 then Ending w else Waiting)\<rparr>)"
| again: "wpc s w = WLast t \<Longrightarrow> fn s t = Some f \<Longrightarrow>
    graph_step s (s\<lparr>deps := (deps s)(t := 1), fn := (fn s)(t := None), wpc := (wpc s)(w := WRun t Body [] []),
      role := (role s)(t := Running w)\<rparr>)"
| finish: "wpc s w = WLast t \<or> wpc s w = WAtParent t \<Longrightarrow> fn s t = None \<Longrightarrow>
    graph_step s (s\<lparr>free := insert t (free s), wpc := (wpc s)(w := after_release (parent s t)), role := (role s)(t := Free)\<rparr>)"
| climb: "wpc s w = WClimb p \<Longrightarrow>
    graph_step s (s\<lparr>deps := (deps s)(p := deps s p - 1), wpc := (wpc s)(w := if deps s p = 1 then WAtParent p else WIdle),
      role := (role s)(p := if deps s p = 1 then Ending w else role s p)\<rparr>)"
| relock: "wpc s w = WAtParent p \<Longrightarrow> fn s p = Some f \<Longrightarrow>
    graph_step s (s\<lparr>deps := (deps s)(p := 1), wpc := (wpc s)(w := WPark p), role := (role s)(p := Parking w)\<rparr>)"
| park: "wpc s w = WPark p \<Longrightarrow> parent s p \<noteq> None \<Longrightarrow>
    graph_step s (s\<lparr>queue := add_mset p (queue s), wpc := (wpc s)(w := WIdle), role := (role s)(p := Queued)\<rparr>)"
| inline: "wpc s w = WPark p \<Longrightarrow> fn s p = Some f \<Longrightarrow>
    graph_step s (s\<lparr>fn := (fn s)(p := None), wpc := (wpc s)(w := if f = HookFn then WHook p else WRun p InClimb [] []),
      role := (role s)(p := Running w)\<rparr>)"
| hook: "wpc s w = WHook p \<Longrightarrow>
    graph_step s (s\<lparr>hooked := (hooked s)(p := hooked s p + 1), wpc := (wpc s)(w := WRun p InClimb [] [])\<rparr>)"

section \<open>The invariant\<close>

text \<open>
  Whether a task counts among the dependencies of its parent, whether it holds its own lock, and
  whether it can have neither counted children nor workers about to drop one of its dependencies.
\<close>

fun is_counted :: "task_role \<Rightarrow> bool" where
  "is_counted Free \<longleftrightarrow> False"
| "is_counted (Fresh w) \<longleftrightarrow> False"
| "is_counted _ \<longleftrightarrow> True"

fun is_locked :: "task_role \<Rightarrow> bool" where
  "is_locked Free \<longleftrightarrow> False"
| "is_locked Waiting \<longleftrightarrow> False"
| "is_locked (Ending w) \<longleftrightarrow> False"
| "is_locked _ \<longleftrightarrow> True"

fun is_leaf :: "task_role \<Rightarrow> bool" where
  "is_leaf Waiting \<longleftrightarrow> False"
| "is_leaf (Running w) \<longleftrightarrow> False"
| "is_leaf _ \<longleftrightarrow> True"

definition kids :: "graph \<Rightarrow> task_ref \<Rightarrow> task_ref set" where
  "kids s p = {u. is_counted (role s u) \<and> parent s u = Some p}"

definition climbers :: "graph \<Rightarrow> task_ref \<Rightarrow> nat set" where
  "climbers s p = {w. wpc s w = WClimb p}"

definition ref_count :: "graph \<Rightarrow> task_ref \<Rightarrow> nat" where
  "ref_count s p = card (kids s p) + card (climbers s p) + of_bool (is_locked (role s p))"

definition count_at :: "graph \<Rightarrow> task_ref \<Rightarrow> bool" where
  "count_at s p \<longleftrightarrow> (role s p \<noteq> Free \<longrightarrow> deps s p = int (ref_count s p))
     \<and> (is_leaf (role s p) \<longrightarrow> kids s p = {} \<and> climbers s p = {}) \<and> (role s p = Waiting \<longrightarrow> 0 < ref_count s p)"

fun role_owner :: "task_role \<Rightarrow> nat option" where
  "role_owner (Taken w) = Some w"
| "role_owner (Fresh w) = Some w"
| "role_owner (Counted w) = Some w"
| "role_owner (Running w) = Some w"
| "role_owner (Ending w) = Some w"
| "role_owner (Parking w) = Some w"
| "role_owner _ = None"

fun pc_tasks :: "graph_pc \<Rightarrow> task_ref set" where
  "pc_tasks (WTake t) = {t}"
| "pc_tasks (WRun t m R cs) = insert t (set R \<union> set cs)"
| "pc_tasks (WPush t m R cs) = insert t (set R \<union> set cs)"
| "pc_tasks (WReject t m R cs) = insert t (set R \<union> set cs)"
| "pc_tasks (WLast t) = {t}"
| "pc_tasks (WAtParent t) = {t}"
| "pc_tasks (WPark t) = {t}"
| "pc_tasks (WHook t) = {t}"
| "pc_tasks _ = {}"

definition new_kids :: "(task_ref \<Rightarrow> task_role) \<Rightarrow> (task_ref \<Rightarrow> task_ref option) \<Rightarrow> task_ref \<Rightarrow> task_role \<Rightarrow> task_ref list \<Rightarrow> bool" where
  "new_kids ro par t r cs \<longleftrightarrow> distinct cs \<and> (\<forall>c\<in>set cs. ro c = r \<and> par c = Some t)"

fun pc_fits :: "(task_ref \<Rightarrow> task_role) \<Rightarrow> (task_ref \<Rightarrow> task_ref option) \<Rightarrow> nat \<Rightarrow> graph_pc \<Rightarrow> bool" where
  "pc_fits ro par w (WTake t) \<longleftrightarrow> ro t = Taken w"
| "pc_fits ro par w (WRun t m R cs) \<longleftrightarrow> ro t = Running w \<and> new_kids ro par t (Fresh w) (R @ cs)"
| "pc_fits ro par w (WPush t m R cs) \<longleftrightarrow> ro t = Running w \<and> new_kids ro par t (Fresh w) R \<and> new_kids ro par t (Counted w) cs"
| "pc_fits ro par w (WReject t m R cs) \<longleftrightarrow> ro t = Running w \<and> new_kids ro par t (Fresh w) R \<and> new_kids ro par t (Counted w) cs"
| "pc_fits ro par w (WLast t) \<longleftrightarrow> ro t = Ending w"
| "pc_fits ro par w (WAtParent t) \<longleftrightarrow> ro t = Ending w"
| "pc_fits ro par w (WPark t) \<longleftrightarrow> ro t = Parking w"
| "pc_fits ro par w (WHook t) \<longleftrightarrow> ro t = Running w"
| "pc_fits ro par w _ \<longleftrightarrow> True"

text \<open>Who owns what: every task has one role, and queue, pool and workers agree with it.\<close>

definition roles_ok :: "nat \<Rightarrow> graph \<Rightarrow> bool" where
  "roles_ok cap s \<longleftrightarrow> (\<forall>w. pc_fits (role s) (parent s) w (wpc s w))
     \<and> (\<forall>t w. role_owner (role s t) = Some w \<longrightarrow> t \<in> pc_tasks (wpc s w))
     \<and> (\<forall>t. count (queue s) t = of_bool (role s t = Queued))
     \<and> (\<forall>t. t \<in> free s \<longleftrightarrow> t < cap \<and> role s t = Free) \<and> (\<forall>t. role s t \<noteq> Free \<longrightarrow> t < cap)
     \<and> finite {w. wpc s w \<noteq> WIdle}"

lemma roles_okD:
  assumes "roles_ok cap s"
  shows "pc_fits (role s) (parent s) w (wpc s w)" and "role_owner (role s t) = Some w \<Longrightarrow> t \<in> pc_tasks (wpc s w)"
    and "count (queue s) t = of_bool (role s t = Queued)" and "t \<in> free s \<longleftrightarrow> t < cap \<and> role s t = Free"
    and "role s t \<noteq> Free \<Longrightarrow> t < cap" and "finite {w. wpc s w \<noteq> WIdle}"
  using assms by (simp_all add: roles_ok_def)

lemma pc_fits_owned: "pc_fits ro par w pc \<Longrightarrow> t \<in> pc_tasks pc \<Longrightarrow> role_owner (ro t) = Some w"
  by (cases pc) (auto simp: new_kids_def)

lemma new_kids_cong:
  "(\<And>t. t \<in> set cs \<Longrightarrow> ro' t = ro t \<and> par' t = par t) \<Longrightarrow> new_kids ro' par' t r cs = new_kids ro par t r cs"
  by (auto simp: new_kids_def)

lemma pc_fits_cong:
  assumes "\<And>t. t \<in> pc_tasks pc \<Longrightarrow> ro' t = ro t \<and> par' t = par t"
  shows "pc_fits ro' par' w pc = pc_fits ro par w pc"
  using assms
  by (cases pc) (auto simp: ball_Un intro!: arg_cong2 [of _ _ _ _ conj] new_kids_cong)

text \<open>A step of worker \<open>w\<close> that touches only tasks that no other worker owns.\<close>

lemma roles_okI:
  assumes ok: "roles_ok cap s" and pc: "wpc s' = (wpc s)(w := x)" and fits: "pc_fits (role s') (parent s') w x"
    and changed: "\<And>t. role s' t \<noteq> role s t \<or> parent s' t \<noteq> parent s t \<Longrightarrow>
      role_owner (role s t) \<in> {None, Some w} \<and> role_owner (role s' t) \<in> {None, Some w}"
    and owns: "\<And>t. role_owner (role s' t) = Some w \<Longrightarrow> t \<in> pc_tasks x"
    and rest: "\<And>t. count (queue s') t = of_bool (role s' t = Queued)" "\<And>t. t \<in> free s' \<longleftrightarrow> t < cap \<and> role s' t = Free"
      "\<And>t. role s' t \<noteq> Free \<Longrightarrow> t < cap"
  shows "roles_ok cap s'"
proof -
  have same: "role s' t = role s t \<and> parent s' t = parent s t" if "t \<in> pc_tasks (wpc s v)" "v \<noteq> w" for v t
    using changed [of t] pc_fits_owned [OF roles_okD(1) [OF ok] that(1)] that(2) by auto
  have "pc_fits (role s') (parent s') v (wpc s' v)" for v
  proof (cases "v = w")
    case True
    with fits pc show ?thesis by simp
  next
    case False
    then show ?thesis
      using pc_fits_cong [of "wpc s v" "role s'" "role s" "parent s'" "parent s" v] same [of _ v] roles_okD(1) [OF ok, of v] pc by auto
  qed
  moreover have "t \<in> pc_tasks (wpc s' v)" if "role_owner (role s' t) = Some v" for t v
  proof (cases "v = w")
    case True
    with owns that pc show ?thesis by simp
  next
    case False
    with changed [of t] that have "role s' t = role s t" by auto
    with roles_okD(2) [OF ok] that False pc show ?thesis by simp
  qed
  moreover have "finite {v. wpc s' v \<noteq> WIdle}"
    using roles_okD(6) [OF ok] by (rule finite_subset [rotated, OF finite.insertI [of _ w]]) (auto simp: pc)
  ultimately show ?thesis using rest by (simp add: roles_ok_def)
qed

lemma new_kids_append [simp]: "new_kids ro par t r (xs @ ys) \<longleftrightarrow> new_kids ro par t r xs \<and> new_kids ro par t r ys \<and> set xs \<inter> set ys = {}"
  by (auto simp: new_kids_def)

lemma new_kids_Nil [simp]: "new_kids ro par t r []"
  by (simp add: new_kids_def)

lemma count_mset_distinct: "distinct xs \<Longrightarrow> count (mset xs) x = of_bool (x \<in> set xs)"
  by (induction xs) auto

section \<open>Counting\<close>

lemma counted_live: "is_counted r \<Longrightarrow> r \<noteq> Free"
  by auto

lemma finite_kids:
  assumes "roles_ok cap s"
  shows "finite (kids s p)"
proof (rule finite_subset)
  show "kids s p \<subseteq> {..<cap}" using roles_okD(5) [OF assms] counted_live by (auto simp: kids_def)
qed simp

lemma finite_climbers: "roles_ok cap s \<Longrightarrow> finite (climbers s p)"
proof (rule finite_subset)
  show "climbers s p \<subseteq> {w. wpc s w \<noteq> WIdle}" by (auto simp: climbers_def)
qed (rule roles_okD(6))

text \<open>A worker that drops the last dependency of a parent found it waiting, with nothing else counted.\<close>

lemma climb_last:
  assumes ok: "roles_ok cap s" and counts: "\<And>p. count_at s p" and w: "wpc s w = WClimb p" and one: "deps s p = 1"
  shows "role s p = Waiting \<and> kids s p = {} \<and> climbers s p = {w}"
proof -
  have w': "w \<in> climbers s p" using w by (simp add: climbers_def)
  then have "0 < card (climbers s p)" using finite_climbers [OF ok] by (auto simp: card_gt_0_iff)
  moreover have leaf: "\<not> is_leaf (role s p)" using counts [of p] w' by (auto simp: count_at_def)
  then have "ref_count s p = 1" using counts [of p] one by (cases "role s p") (auto simp: count_at_def)
  ultimately have "\<not> is_locked (role s p)" "card (kids s p) = 0" "card (climbers s p) = 1"
    by (auto simp: ref_count_def split: if_splits)
  with leaf w' finite_kids [OF ok, of p] show ?thesis
    by (cases "role s p") (auto simp: card_1_singleton_iff)
qed

text \<open>Only what concerns a task matters for its count.\<close>

lemma count_at_same:
  assumes "count_at s p" and "role s' p = role s p" and "deps s' p = deps s p" and "kids s' p = kids s p" and "climbers s' p = climbers s p"
  shows "count_at s' p"
  using assms by (simp add: count_at_def ref_count_def)

lemma count_atI:
  assumes "kids s' p = K" and "climbers s' p = C" and "role s' p = r" and "deps s' p = d"
    and "r \<noteq> Free \<longrightarrow> d = int (card K + card C + of_bool (is_locked r))" and "is_leaf r \<longrightarrow> K = {} \<and> C = {}"
    and "r = Waiting \<longrightarrow> 0 < card K + card C"
  shows "count_at s' p"
  using assms by (simp add: count_at_def ref_count_def)

lemma kids_role:
  assumes "\<And>u. is_counted (role s' u) \<and> parent s' u = Some p \<longleftrightarrow> is_counted (role s u) \<and> parent s u = Some p"
  shows "kids s' p = kids s p"
  using assms by (simp add: kids_def)

lemma climbers_pc:
  assumes "wpc s' = (wpc s)(w := x)" and "\<And>p. wpc s w \<noteq> WClimb p" and "\<And>p. x \<noteq> WClimb p"
  shows "climbers s' p = climbers s p"
  using assms by (auto simp: climbers_def)

lemma roles_step:
  assumes "graph_step s s'" and ok: "roles_ok cap s" and counts: "\<And>p. count_at s p"
  shows "roles_ok cap s'"
  using assms(1)
proof cases
  note D = roles_okD [OF ok]
  case (submit r c)
  have "pc_fits (role s') (parent s') 0 (wpc s 0)"
    using pc_fits_owned [OF D(1) [of 0]] D(1) [of 0] D(4) submit by (subst pc_fits_cong [of _ _ "role s" _ "parent s"]) force+
  then show ?thesis
    using submit D(3,4,5) D(2) by (intro roles_okI [OF ok, of s' 0 "wpc s 0"]) (auto split: if_splits)
next
  note D = roles_okD [OF ok]
  case (take w t)
  then have "role s t = Queued" using D(3) [of t] by (metis count_eq_zero_iff of_bool_eq(1))
  with take show ?thesis
    using D(3,4,5) by (intro roles_okI [OF ok, of s' w]) (auto dest: D(2) [of _ w, unfolded take(2)] split: if_splits)
next
  note D = roles_okD [OF ok]
  case (start w t f)
  with D(1) [of w] show ?thesis
    using D(3,4,5) by (intro roles_okI [OF ok, of s' w]) (auto dest: D(2) [of _ w, unfolded start(2)] split: if_splits)
next
  note D = roles_okD [OF ok]
  case (alloc w t m R cs c f)
  with D(1) [of w] show ?thesis
    using D(3,4,5) by (intro roles_okI [OF ok, of s' w]) (auto simp: new_kids_def dest: D(2) [of _ w, unfolded alloc(2)] split: if_splits)
next
  case (continuation w t m R cs f)
  with ok show ?thesis by (simp add: roles_ok_def)
next
  note D = roles_okD [OF ok]
  case (count w t m R cs)
  with D(1) [of w] show ?thesis
    using D(3,4,5) by (intro roles_okI [OF ok, of s' w]) (auto simp: new_kids_def set_roles_def dest: D(2) [of _ w, unfolded count(2)] split: if_splits)
next
  note D = roles_okD [OF ok]
  case (push w t m R cs n)
  obtain xs ys where cs: "cs = xs @ ys" "take n cs = xs" "drop n cs = ys" by (metis append_take_drop_id)
  have n: "n = length cs \<longleftrightarrow> ys = []" using push(3) cs(3) by auto
  have fit: "role s t = Running w" "new_kids (role s) (parent s) t (Fresh w) R" "new_kids (role s) (parent s) t (Counted w) xs"
      "new_kids (role s) (parent s) t (Counted w) ys" "set xs \<inter> set ys = {}"
    using D(1) [of w] push(2) cs(1) by simp_all
  have own: "role_owner (role s u) = Some w \<Longrightarrow> u = t \<or> u \<in> set R \<or> u \<in> set xs \<or> u \<in> set ys" for u
    using D(2) [of u w] push(2) cs(1) by auto
  let ?x = "if n = length cs then WRun t m R [] else WReject t m R (drop n cs)"
  have roles: "role s' = set_roles xs Queued (role s)" "parent s' = parent s" "free s' = free s" "queue s' = queue s + mset xs"
    using push(1) cs(2) by simp_all
  show ?thesis
  proof (rule roles_okI [OF ok, of s' w ?x])
    show "pc_fits (role s') (parent s') w ?x"
      using fit unfolding roles cs(3) n by (auto simp: new_kids_def set_roles_def)
    show "u \<in> pc_tasks ?x" if "role_owner (role s' u) = Some w" for u
      using that own [of u] unfolding roles cs(3) n by (auto simp: set_roles_def split: if_splits)
    show "count (queue s') u = of_bool (role s' u = Queued)" for u
      using fit(3) D(3) [of u] by (auto simp: roles set_roles_def new_kids_def count_mset_distinct)
    show "u \<in> free s' \<longleftrightarrow> u < cap \<and> role s' u = Free" for u
      using fit(3) D(4) [of u] by (auto simp: roles set_roles_def new_kids_def)
    show "role s' u \<noteq> Free \<Longrightarrow> u < cap" for u
      using fit(3) D(5) [of u] by (auto simp: roles set_roles_def new_kids_def split: if_splits)
    show "role_owner (role s u) \<in> {None, Some w} \<and> role_owner (role s' u) \<in> {None, Some w}"
      if "role s' u \<noteq> role s u \<or> parent s' u \<noteq> parent s u" for u
      using that fit(3) by (auto simp: roles set_roles_def new_kids_def split: if_splits)
  qed (use push(1) in simp)
next
  note D = roles_okD [OF ok]
  case (uncount w t m R cs)
  have "x \<notin> set cs" if "x \<in> set R" for x
    using D(1) [of w] uncount(2) that by (auto simp: new_kids_def)
  with uncount D(1) [of w] show ?thesis
    using D(3,4,5) by (intro roles_okI [OF ok, of s' w]) (auto simp: new_kids_def set_roles_def dest: D(2) [of _ w, unfolded uncount(2)] split: if_splits)
next
  note D = roles_okD [OF ok]
  case (rejected_done w t m R c)
  with D(1) [of w] show ?thesis
    using D(3,4,5) by (intro roles_okI [OF ok, of s' w]) (auto simp: new_kids_def dest: D(2) [of _ w, unfolded rejected_done(2)] split: if_splits)
next
  note D = roles_okD [OF ok]
  case (return w t m)
  with D(1) [of w] show ?thesis
    using D(3,4,5)
    by (intro roles_okI [OF ok, of s' w "if deps s t = 1 then last_pc m t else WIdle"]) (cases m; auto dest: D(2) [of _ w, unfolded return(2)] split: if_splits)+
next
  note D = roles_okD [OF ok]
  case (again w t f)
  with D(1) [of w] show ?thesis
    using D(3,4,5) by (intro roles_okI [OF ok, of s' w]) (auto dest: D(2) [of _ w, unfolded again(2)] split: if_splits)
next
  note D = roles_okD [OF ok]
  case (finish w t)
  have "role_owner (role s u) = Some w \<Longrightarrow> u = t" for u using D(2) [of u w] finish(2) by auto
  with finish D(1) [of w] show ?thesis
    using D(3,4,5) by (intro roles_okI [OF ok, of s' w "after_release (parent s t)"]) (cases "parent s t"; auto split: if_splits)+
next
  note D = roles_okD [OF ok]
  case (relock w p f)
  with D(1) [of w] show ?thesis
    using D(3,4,5) by (intro roles_okI [OF ok, of s' w]) (auto dest: D(2) [of _ w, unfolded relock(2)] split: if_splits)
next
  note D = roles_okD [OF ok]
  case (park w p)
  with D(1) [of w] show ?thesis
    using D(3,4,5) by (intro roles_okI [OF ok, of s' w]) (auto dest: D(2) [of _ w, unfolded park(2)] split: if_splits)
next
  note D = roles_okD [OF ok]
  case (inline w p f)
  with D(1) [of w] show ?thesis
    using D(3,4,5) by (intro roles_okI [OF ok, of s' w "if f = HookFn then WHook p else WRun p InClimb [] []"]) (auto dest: D(2) [of _ w, unfolded inline(2)] split: if_splits)
next
  note D = roles_okD [OF ok]
  case (hook w p)
  with D(1) [of w] show ?thesis
    using D(3,4,5) by (intro roles_okI [OF ok, of s' w]) (auto dest: D(2) [of _ w, unfolded hook(2)] split: if_splits)
next
  note D = roles_okD [OF ok]
  case (climb w p)
  have "role s p = Waiting" if "deps s p = 1" using climb_last [OF ok counts climb(2) that] by simp
  with climb D(1) [of w] show ?thesis
    using D(3,4,5) by (intro roles_okI [OF ok, of s' w "if deps s p = 1 then WAtParent p else WIdle"])
      (auto dest: D(2) [of _ w, unfolded climb(2)] split: if_splits)
qed

lemma counts_step:
  assumes "graph_step s s'" and ok: "roles_ok cap s" and counts: "\<And>p. count_at s p"
  shows "count_at s' p"
  using assms(1)
proof cases
  note D = roles_okD [OF ok]
  case (submit r c)
  have free: "role s r = Free" "role s c = Free" using D(4) submit by auto
  have none: "kids s r = {}" "climbers s r = {}" "kids s c = {}" "climbers s c = {}"
    using counts [of r] counts [of c] free by (simp_all add: count_at_def)
  have cl: "climbers s' q = climbers s q" for q using submit by (simp add: climbers_def)
  have kd: "kids s' q = (if q = r then {c} else kids s q)" for q
    using submit free none(1) by (auto simp: kids_def)
  show ?thesis
  proof (cases "p = r \<or> p = c")
    case True
    then show ?thesis by (intro count_atI [OF kd cl refl refl]) (use submit none in auto)
  next
    case False
    then show ?thesis by (intro count_at_same [OF counts _ _ trans [OF kd] trans [OF cl]]) (use submit in auto)
  qed
next
  note D = roles_okD [OF ok]
  case (take w t)
  have q: "role s t = Queued" using D(3) [of t] take(3) by (metis count_eq_zero_iff of_bool_eq(1))
  have cl: "climbers s' p = climbers s p" by (rule climbers_pc [of _ _ w]) (use take in auto)
  have kd: "kids s' p = kids s p" by (rule kids_role) (use take q in auto)
  show ?thesis
    by (rule count_atI [OF kd cl refl refl]) (use take q counts [of p] in \<open>cases "p = t"; auto simp: count_at_def ref_count_def\<close>)+
next
  note D = roles_okD [OF ok]
  case (start w t f)
  have r: "role s t = Taken w" using D(1) [of w] start by simp
  have cl: "climbers s' p = climbers s p" by (rule climbers_pc [of _ _ w]) (use start in auto)
  have kd: "kids s' p = kids s p" by (rule kids_role) (use start r in auto)
  show ?thesis
    by (rule count_atI [OF kd cl refl refl]) (use start r counts [of p] in \<open>cases "p = t"; auto simp: count_at_def ref_count_def\<close>)+
next
  note D = roles_okD [OF ok]
  case (alloc w t m R cs c f)
  have r: "role s c = Free" using D(4) alloc by auto
  have cl: "climbers s' p = climbers s p" by (rule climbers_pc [of _ _ w]) (use alloc in auto)
  have kd: "kids s' p = kids s p" by (rule kids_role) (use alloc r in auto)
  show ?thesis
    by (rule count_atI [OF kd cl refl refl]) (use alloc r counts [of p] in \<open>cases "p = c"; auto simp: count_at_def ref_count_def\<close>)+
next
  case (continuation w t m R cs f)
  then show ?thesis by (intro count_at_same [OF counts]) (auto simp: kids_def climbers_def)
next
  note D = roles_okD [OF ok]
  case (count w t m R cs)
  have fit: "role s t = Running w" "distinct cs" "\<And>c. c \<in> set cs \<Longrightarrow> role s c = Fresh w \<and> parent s c = Some t"
    using D(1) [of w] count by (auto simp: new_kids_def)
  have cl: "climbers s' p = climbers s p" by (rule climbers_pc [of _ _ w]) (use count in auto)
  have kd: "kids s' p = (if p = t then kids s t \<union> set cs else kids s p)"
    using count fit(3) by (auto simp: kids_def set_roles_def)
  have "kids s t \<inter> set cs = {}" using fit(3) by (auto simp: kids_def)
  then have "card (kids s t \<union> set cs) = card (kids s t) + length cs"
    using finite_kids [OF ok] fit(2) by (simp add: card_Un_disjoint distinct_card)
  moreover have "t \<notin> set cs" using fit(1,3) by auto
  ultimately show ?thesis
    by - (rule count_atI [OF kd cl refl refl], (use count fit(1) fit(3) [of p] counts [of p] in \<open>cases "p = t"; cases "p \<in> set cs"; auto simp: count_at_def ref_count_def set_roles_def\<close>)+)
next
  note D = roles_okD [OF ok]
  case (push w t m R cs n)
  have fit: "\<And>c. c \<in> set cs \<Longrightarrow> role s c = Counted w"
    using D(1) [of w] push by (auto simp: new_kids_def)
  then have fit: "c \<in> set (take n cs) \<Longrightarrow> role s c = Counted w" for c by (meson in_set_takeD)
  have cl: "climbers s' p = climbers s p"
    by (rule climbers_pc [of _ _ w "if n = length cs then WRun t m R [] else WReject t m R (drop n cs)"]) (use push in auto)
  have kd: "kids s' p = kids s p" by (rule kids_role) (use push fit in \<open>auto simp: set_roles_def\<close>)
  show ?thesis
    by (rule count_atI [OF kd cl refl refl])
      (use push fit [of p] counts [of p] in \<open>cases "p \<in> set (take n cs)"; auto simp: count_at_def ref_count_def set_roles_def\<close>)+
next
  note D = roles_okD [OF ok]
  case (uncount w t m R cs)
  have fit: "role s t = Running w" "distinct cs" "\<And>c. c \<in> set cs \<Longrightarrow> role s c = Counted w \<and> parent s c = Some t"
    using D(1) [of w] uncount by (auto simp: new_kids_def)
  have cl: "climbers s' p = climbers s p" by (rule climbers_pc [of _ _ w]) (use uncount in auto)
  have kd: "kids s' p = (if p = t then kids s t - set cs else kids s p)"
    using uncount fit(3) by (auto simp: kids_def set_roles_def)
  have sub: "set cs \<subseteq> kids s t" using fit(3) by (auto simp: kids_def)
  then have "card (kids s t - set cs) + length cs = card (kids s t)"
    using finite_kids [OF ok, of t] fit(2) card_mono [OF finite_kids [OF ok] sub] by (simp add: card_Diff_subset distinct_card)
  moreover have "t \<notin> set cs" using fit(1,3) by auto
  ultimately show ?thesis
    by - (rule count_atI [OF kd cl refl refl], (use uncount fit(1) fit(3) [of p] counts [of p] in \<open>cases "p = t"; cases "p \<in> set cs"; auto simp: count_at_def ref_count_def set_roles_def\<close>)+)
next
  note D = roles_okD [OF ok]
  case (rejected_done w t m R c)
  have r: "role s c = Fresh w" using D(1) [of w] rejected_done by (auto simp: new_kids_def)
  have cl: "climbers s' p = climbers s p" by (rule climbers_pc [of _ _ w]) (use rejected_done in auto)
  have kd: "kids s' p = kids s p" by (rule kids_role) (use rejected_done r in auto)
  show ?thesis
    by (rule count_atI [OF kd cl refl refl]) (use rejected_done r counts [of p] in \<open>cases "p = c"; auto simp: count_at_def ref_count_def\<close>)+
next
  note D = roles_okD [OF ok]
  case (return w t m)
  have r: "role s t = Running w" using D(1) [of w] return by simp
  have cl: "climbers s' p = climbers s p"
  proof (rule climbers_pc)
    show "wpc s' = (wpc s)(w := if deps s t = 1 then last_pc m t else WIdle)" using return by simp
  qed (use return in \<open>cases m; simp\<close>)+
  have kd: "kids s' p = kids s p" by (rule kids_role) (use return r in auto)
  have new: "role s' t = (if deps s t = 1 then Ending w else Waiting)" "deps s' t = deps s t - 1" using return by simp_all
  have cnt: "deps s t = int (card (kids s t) + card (climbers s t) + 1)" using counts [of t] r by (simp add: count_at_def ref_count_def)
  show ?thesis
  proof (cases "p = t")
    case True
    have "kids s t = {} \<and> climbers s t = {}" if "deps s t = 1"
    proof -
      have "card (kids s t) = 0" "card (climbers s t) = 0" using cnt that by linarith+
      then show ?thesis using finite_kids [OF ok, of t] finite_climbers [OF ok, of t] by simp
    qed
    with cnt show ?thesis
      unfolding True by (intro count_atI [OF kd [unfolded True] cl [unfolded True] new]) auto
  next
    case False
    then show ?thesis by (intro count_at_same [OF counts _ _ kd cl]) (use return in simp_all)
  qed
next
  note D = roles_okD [OF ok]
  case (again w t f)
  have r: "role s t = Ending w" using D(1) [of w] again by simp
  have cl: "climbers s' p = climbers s p" by (rule climbers_pc [of _ _ w]) (use again in auto)
  have kd: "kids s' p = kids s p" by (rule kids_role) (use again r in auto)
  show ?thesis
    by (rule count_atI [OF kd cl refl refl]) (use again r counts [of p] in \<open>cases "p = t"; auto simp: count_at_def ref_count_def\<close>)+
next
  note D = roles_okD [OF ok]
  case (finish w t)
  have r: "role s t = Ending w" using D(1) [of w] finish by auto
  have kd: "kids s' p = kids s p - {t}" using finish r by (auto simp: kids_def)
  have cl: "climbers s' p = climbers s p \<union> (if parent s t = Some p then {w} else {})"
    using finish by (cases "parent s t") (auto simp: climbers_def)
  show ?thesis
  proof (cases "p = t")
    case True
    then have "kids s t = {}" "climbers s t = {}" using counts [of t] r by (simp_all add: count_at_def)
    then have "parent s t \<noteq> Some t" using r by (auto simp: kids_def)
    with True \<open>kids s t = {}\<close> \<open>climbers s t = {}\<close> show ?thesis
      by (intro count_atI [OF kd cl refl refl]) (use finish in simp_all)
  next
    case False
    show ?thesis
    proof (cases "parent s t = Some p")
      case True
      then have t: "t \<in> kids s p" using r by (simp add: kids_def)
      have "w \<notin> climbers s p" using finish(2) by (auto simp: climbers_def)
      then have card: "card (climbers s p \<union> {w}) = Suc (card (climbers s p))" "Suc (card (kids s p - {t})) = card (kids s p)"
        using finite_climbers [OF ok, of p] card_Suc_Diff1 [OF finite_kids [OF ok] t] by simp_all
      have leaf: "\<not> is_leaf (role s p)" using counts [of p] t by (auto simp: count_at_def)
      have "role s' p = role s p" "deps s' p = deps s p" using False finish by simp_all
      then show ?thesis
        using True card leaf counts [of p] by (intro count_atI [OF kd cl]) (auto simp: count_at_def ref_count_def)
    next
      case pf: False
      then have "t \<notin> kids s p" by (simp add: kids_def)
      with pf False show ?thesis
        by (intro count_at_same [OF counts _ _ trans [OF kd] trans [OF cl]]) (use finish in auto)
    qed
  qed
next
  note D = roles_okD [OF ok]
  case (climb w q)
  have w: "w \<in> climbers s q" using climb by (simp add: climbers_def)
  then have r: "\<not> is_leaf (role s q)" using counts [of q] by (auto simp: count_at_def)
  have last: "role s q = Waiting \<and> kids s q = {} \<and> climbers s q = {w}" if "deps s q = 1"
    using climb_last [OF ok counts climb(2) that] .
  have cl: "climbers s' p = (if p = q then climbers s q - {w} else climbers s p)"
    using climb by (auto simp: climbers_def)
  have kd: "kids s' p = kids s p" by (rule kids_role) (use climb last in auto)
  show ?thesis
  proof (cases "p = q")
    case True
    have card: "Suc (card (climbers s q - {w})) = card (climbers s q)" by (rule card_Suc_Diff1 [OF finite_climbers [OF ok] w])
    have cnt: "deps s q = int (card (kids s q) + card (climbers s q) + of_bool (is_locked (role s q)))"
      using counts [of q] r by (auto simp: count_at_def ref_count_def)
    have kd': "kids s' q = kids s q" and cl': "climbers s' q = climbers s q - {w}" using kd cl True by simp_all
    show ?thesis
      unfolding True
    proof (cases "deps s q = 1")
      case True
      with last have none: "kids s' q = {}" "climbers s' q = {}" using kd' cl' by simp_all
      show "count_at s' q" by (rule count_atI [OF none, of "Ending w" 0]) (use climb True in simp_all)
    next
      case False
      have new: "role s' q = role s q" "deps s' q = deps s q - 1" using climb False by simp_all
      show "count_at s' q"
        by (rule count_atI [OF kd' cl' new]) (use card cnt False r in auto)
    qed
  next
    case False
    then show ?thesis by (intro count_at_same [OF counts _ _ trans [OF kd] trans [OF cl]]) (use climb in auto)
  qed
next
  note D = roles_okD [OF ok]
  case (relock w q f)
  have r: "role s q = Ending w" using D(1) [of w] relock by simp
  have cl: "climbers s' p = climbers s p" by (rule climbers_pc [of _ _ w]) (use relock in auto)
  have kd: "kids s' p = kids s p" by (rule kids_role) (use relock r in auto)
  show ?thesis
    by (rule count_atI [OF kd cl refl refl]) (use relock r counts [of p] in \<open>cases "p = q"; auto simp: count_at_def ref_count_def\<close>)+
next
  note D = roles_okD [OF ok]
  case (park w q)
  have r: "role s q = Parking w" using D(1) [of w] park by simp
  have cl: "climbers s' p = climbers s p" by (rule climbers_pc [of _ _ w]) (use park in auto)
  have kd: "kids s' p = kids s p" by (rule kids_role) (use park r in auto)
  show ?thesis
    by (rule count_atI [OF kd cl refl refl]) (use park r counts [of p] in \<open>cases "p = q"; auto simp: count_at_def ref_count_def\<close>)+
next
  note D = roles_okD [OF ok]
  case (inline w q f)
  have r: "role s q = Parking w" using D(1) [of w] inline by simp
  have cl: "climbers s' p = climbers s p"
    by (rule climbers_pc [of _ _ w "if f = HookFn then WHook q else WRun q InClimb [] []"]) (use inline in auto)
  have kd: "kids s' p = kids s p" by (rule kids_role) (use inline r in auto)
  show ?thesis
    by (rule count_atI [OF kd cl refl refl]) (use inline r counts [of p] in \<open>cases "p = q"; auto simp: count_at_def ref_count_def\<close>)+
next
  case (hook w q)
  have cl: "climbers s' p = climbers s p" by (rule climbers_pc [of _ _ w]) (use hook in auto)
  show ?thesis using hook cl by (intro count_at_same [OF counts]) (auto simp: kids_def)
qed

end
