(* ===== verification/TaskGraphInv.thy ===== *)
theory TaskGraphInv
  imports TaskGraph
begin

text \<open>The invariant of the dependency counts at every reachable state, and what it gives.\<close>

section \<open>Functions, depth and roots\<close>

fun is_ready :: "task_role \<Rightarrow> bool" where
  "is_ready Free \<longleftrightarrow> False"
| "is_ready Waiting \<longleftrightarrow> False"
| "is_ready (Running w) \<longleftrightarrow> False"
| "is_ready (Ending w) \<longleftrightarrow> False"
| "is_ready _ \<longleftrightarrow> True"

definition fn_at :: "graph \<Rightarrow> task_ref \<Rightarrow> bool" where
  "fn_at s t \<longleftrightarrow> (is_ready (role s t) \<longrightarrow> fn s t \<noteq> None)"

definition depth_at :: "graph \<Rightarrow> task_ref \<Rightarrow> bool" where
  "depth_at s t \<longleftrightarrow> (\<forall>p. role s t \<noteq> Free \<longrightarrow> parent s t = Some p \<longrightarrow> depth s p < depth s t)"

lemma fn_step:
  assumes "graph_step s s'" and ok: "roles_ok cap s" and fns: "\<And>t. fn_at s t"
  shows "fn_at s' u"
  using assms(1)
proof cases
  case (push w t m R cs n)
  have "role s c = Counted w" if "c \<in> set (take n cs)" for c
    using roles_okD(1) [OF ok, of w] push(2) in_set_takeD [OF that] by (auto simp: new_kids_def)
  then show ?thesis using push fns [of u] by (auto simp: fn_at_def set_roles_def)
next
  case (take w t)
  then have "role s t = Queued" using roles_okD(3) [OF ok, of t] by (metis count_eq_zero_iff of_bool_eq(1))
  then show ?thesis using take fns [of u] by (auto simp: fn_at_def)
next
  case (submit r c)
  with fns [of u] show ?thesis by (auto simp: fn_at_def)
next
  case (start w t f)
  with roles_okD(1) [OF ok, of w] fns [of u] show ?thesis by (auto simp: fn_at_def set_roles_def new_kids_def split: if_splits)
next
  case (alloc w t m R cs c f)
  with roles_okD(1) [OF ok, of w] fns [of u] show ?thesis by (auto simp: fn_at_def set_roles_def new_kids_def split: if_splits)
next
  case (continuation w t m R cs f)
  with roles_okD(1) [OF ok, of w] fns [of u] show ?thesis by (auto simp: fn_at_def set_roles_def new_kids_def split: if_splits)
next
  case (count w t m R cs)
  with roles_okD(1) [OF ok, of w] fns [of u] show ?thesis by (auto simp: fn_at_def set_roles_def new_kids_def split: if_splits)
next
  case (uncount w t m R cs)
  with roles_okD(1) [OF ok, of w] fns [of u] show ?thesis by (auto simp: fn_at_def set_roles_def new_kids_def split: if_splits)
next
  case (rejected_done w t m R c)
  with roles_okD(1) [OF ok, of w] fns [of u] show ?thesis by (auto simp: fn_at_def set_roles_def new_kids_def split: if_splits)
next
  case (return w t m)
  with roles_okD(1) [OF ok, of w] fns [of u] show ?thesis by (auto simp: fn_at_def set_roles_def new_kids_def split: if_splits)
next
  case (again w t f)
  with roles_okD(1) [OF ok, of w] fns [of u] show ?thesis by (auto simp: fn_at_def set_roles_def new_kids_def split: if_splits)
next
  case (finish w t)
  with roles_okD(1) [OF ok, of w] fns [of u] show ?thesis by (auto simp: fn_at_def set_roles_def new_kids_def split: if_splits)
next
  case (climb w p)
  with roles_okD(1) [OF ok, of w] fns [of u] show ?thesis by (auto simp: fn_at_def set_roles_def new_kids_def split: if_splits)
next
  case (relock w p f)
  with roles_okD(1) [OF ok, of w] fns [of u] show ?thesis by (auto simp: fn_at_def set_roles_def new_kids_def split: if_splits)
next
  case (park w p)
  with roles_okD(1) [OF ok, of w] fns [of u] show ?thesis by (auto simp: fn_at_def set_roles_def new_kids_def split: if_splits)
next
  case (inline w p f)
  with roles_okD(1) [OF ok, of w] fns [of u] show ?thesis by (auto simp: fn_at_def set_roles_def new_kids_def split: if_splits)
next
  case (hook w p)
  with roles_okD(1) [OF ok, of w] fns [of u] show ?thesis by (auto simp: fn_at_def set_roles_def new_kids_def split: if_splits)
qed

text \<open>The parent of a live task is live.\<close>

lemma parent_live:
  assumes ok: "roles_ok cap s" and counts: "\<And>p. count_at s p" and t: "role s t \<noteq> Free" "parent s t = Some p"
  shows "role s p \<noteq> Free"
proof (cases "is_counted (role s t)")
  case True
  with t have "t \<in> kids s p" by (simp add: kids_def)
  with counts [of p] show ?thesis by (auto simp: count_at_def)
next
  case False
  with t(1) obtain w where w: "role s t = Fresh w" by (cases "role s t") auto
  then have "t \<in> pc_tasks (wpc s w)" by (intro roles_okD(2) [OF ok]) simp
  with roles_okD(1) [OF ok, of w] w t(2) show ?thesis by (cases "wpc s w") (auto simp: new_kids_def)
qed

lemma depth_step:
  assumes "graph_step s s'" and ok: "roles_ok cap s" and counts: "\<And>p. count_at s p" and depths: "\<And>t. depth_at s t"
  shows "depth_at s' u"
  using assms(1)
proof cases
  note live = parent_live [OF ok counts, of u]
  case (submit r c)
  have "role s r = Free" "role s c = Free" using roles_okD(4) [OF ok] submit by auto
  with submit depths [of u] live show ?thesis by (auto simp: depth_at_def)
next
  note live = parent_live [OF ok counts, of u]
  case (alloc w t m R cs c f)
  have "role s c = Free" "role s t = Running w" using roles_okD(4) [OF ok] roles_okD(1) [OF ok, of w] alloc by auto
  with alloc depths [of u] live show ?thesis by (auto simp: depth_at_def)
next
  case (climb w p)
  have "role s p = Waiting" if "deps s p = 1" using climb_last [OF ok counts climb(2) that] by simp
  with climb depths [of u] show ?thesis by (auto simp: depth_at_def)
next
  case (push w t m R cs n)
  have "role s c = Counted w" if "c \<in> set (take n cs)" for c
    using roles_okD(1) [OF ok, of w] push(2) in_set_takeD [OF that] by (auto simp: new_kids_def)
  then show ?thesis using push depths [of u] by (auto simp: depth_at_def set_roles_def)
next
  case (take w t)
  then have "role s t = Queued" using roles_okD(3) [OF ok, of t] by (metis count_eq_zero_iff of_bool_eq(1))
  then show ?thesis using take depths [of u] by (auto simp: depth_at_def)
next
  case (start w t f)
  with roles_okD(1) [OF ok, of w] depths [of u] show ?thesis by (auto simp: depth_at_def set_roles_def new_kids_def split: if_splits)
next
  case (continuation w t m R cs f)
  with roles_okD(1) [OF ok, of w] depths [of u] show ?thesis by (auto simp: depth_at_def set_roles_def new_kids_def split: if_splits)
next
  case (count w t m R cs)
  with roles_okD(1) [OF ok, of w] depths [of u] show ?thesis by (auto simp: depth_at_def set_roles_def new_kids_def split: if_splits)
next
  case (uncount w t m R cs)
  with roles_okD(1) [OF ok, of w] depths [of u] show ?thesis by (auto simp: depth_at_def set_roles_def new_kids_def split: if_splits)
next
  case (rejected_done w t m R c)
  with roles_okD(1) [OF ok, of w] depths [of u] show ?thesis by (auto simp: depth_at_def set_roles_def new_kids_def split: if_splits)
next
  case (return w t m)
  with roles_okD(1) [OF ok, of w] depths [of u] show ?thesis by (auto simp: depth_at_def set_roles_def new_kids_def split: if_splits)
next
  case (again w t f)
  with roles_okD(1) [OF ok, of w] depths [of u] show ?thesis by (auto simp: depth_at_def set_roles_def new_kids_def split: if_splits)
next
  case (finish w t)
  with roles_okD(1) [OF ok, of w] depths [of u] show ?thesis by (auto simp: depth_at_def set_roles_def new_kids_def split: if_splits)
next
  case (relock w p f)
  with roles_okD(1) [OF ok, of w] depths [of u] show ?thesis by (auto simp: depth_at_def set_roles_def new_kids_def split: if_splits)
next
  case (park w p)
  with roles_okD(1) [OF ok, of w] depths [of u] show ?thesis by (auto simp: depth_at_def set_roles_def new_kids_def split: if_splits)
next
  case (inline w p f)
  with roles_okD(1) [OF ok, of w] depths [of u] show ?thesis by (auto simp: depth_at_def set_roles_def new_kids_def split: if_splits)
next
  case (hook w p)
  with roles_okD(1) [OF ok, of w] depths [of u] show ?thesis by (auto simp: depth_at_def set_roles_def new_kids_def split: if_splits)
qed

text \<open>
  A root waits with the hook in its function slot until its last dependency is dropped; then one worker
  runs the hook once and ends it. No other task ever holds the hook.
\<close>

definition root_at :: "graph \<Rightarrow> task_ref \<Rightarrow> bool" where
  "root_at s t \<longleftrightarrow> (parent s t = None \<longrightarrow>
     (case role s t of
        Free \<Rightarrow> True
      | Waiting \<Rightarrow> fn s t = Some HookFn \<and> hooked s t = 0
      | Ending w \<Rightarrow> wpc s w = WAtParent t \<and> (fn s t = Some HookFn \<and> hooked s t = 0 \<or> fn s t = None \<and> hooked s t = 1)
      | Parking w \<Rightarrow> fn s t = Some HookFn \<and> hooked s t = 0
      | Running w \<Rightarrow> deps s t = 1 \<and> fn s t = None
          \<and> (wpc s w = WHook t \<and> hooked s t = 0 \<or> wpc s w = WRun t InClimb [] [] \<and> hooked s t = 1)
      | _ \<Rightarrow> False))"

definition inner_at :: "graph \<Rightarrow> task_ref \<Rightarrow> bool" where
  "inner_at s t \<longleftrightarrow> (role s t \<noteq> Free \<longrightarrow> parent s t \<noteq> None \<longrightarrow> fn s t \<noteq> Some HookFn \<and> (\<forall>w. wpc s w \<noteq> WHook t))"

lemma inner_step:
  assumes "graph_step s s'" and ok: "roles_ok cap s" and counts: "\<And>p. count_at s p" and inner: "\<And>t. inner_at s t"
  shows "inner_at s' u"
  using assms(1)
proof cases
  case (submit r c)
  have "role s c = Free" using roles_okD(4) [OF ok] submit by auto
  then have "wpc s w \<noteq> WHook c" for w using roles_okD(1) [OF ok, of w] by auto
  with submit inner [of u] show ?thesis by (auto simp: inner_at_def)
next
  case (alloc w t m R cs c f)
  have "role s c = Free" using roles_okD(4) [OF ok] alloc by auto
  then have "wpc s v \<noteq> WHook c" for v using roles_okD(1) [OF ok, of v] by auto
  with alloc inner [of u] show ?thesis by (auto simp: inner_at_def)
next
  case (climb w p)
  have "role s p = Waiting" if "deps s p = 1" using climb_last [OF ok counts climb(2) that] by simp
  with climb inner [of u] show ?thesis by (auto simp: inner_at_def)
next
  case (push w t m R cs n)
  have "role s c = Counted w" if "c \<in> set (take n cs)" for c
    using roles_okD(1) [OF ok, of w] push(2) in_set_takeD [OF that] by (auto simp: new_kids_def)
  then show ?thesis using push inner [of u] by (auto simp: inner_at_def set_roles_def)
next
  case (take w t)
  then have "role s t = Queued" using roles_okD(3) [OF ok, of t] by (metis count_eq_zero_iff of_bool_eq(1))
  then show ?thesis using take inner [of u] by (auto simp: inner_at_def)
next
  case (return w t m)
  with roles_okD(1) [OF ok, of w] inner [of u] show ?thesis by (cases m) (auto simp: inner_at_def)
next
  case (finish w t)
  then show ?thesis using inner [of u] by (cases "parent s t") (auto simp: inner_at_def)
next
  case (start w t f)
  with roles_okD(1) [OF ok, of w] inner [of u] show ?thesis by (auto simp: inner_at_def set_roles_def new_kids_def split: if_splits)
next
  case (continuation w t m R cs f)
  with roles_okD(1) [OF ok, of w] inner [of u] show ?thesis by (auto simp: inner_at_def set_roles_def new_kids_def split: if_splits)
next
  case (count w t m R cs)
  with roles_okD(1) [OF ok, of w] inner [of u] show ?thesis by (auto simp: inner_at_def set_roles_def new_kids_def split: if_splits)
next
  case (uncount w t m R cs)
  with roles_okD(1) [OF ok, of w] inner [of u] show ?thesis by (auto simp: inner_at_def set_roles_def new_kids_def split: if_splits)
next
  case (rejected_done w t m R c)
  with roles_okD(1) [OF ok, of w] inner [of u] show ?thesis by (auto simp: inner_at_def set_roles_def new_kids_def split: if_splits)
next
  case (again w t f)
  with roles_okD(1) [OF ok, of w] inner [of u] show ?thesis by (auto simp: inner_at_def set_roles_def new_kids_def split: if_splits)
next
  case (relock w p f)
  with roles_okD(1) [OF ok, of w] inner [of u] show ?thesis by (auto simp: inner_at_def set_roles_def new_kids_def split: if_splits)
next
  case (park w p)
  with roles_okD(1) [OF ok, of w] inner [of u] show ?thesis by (auto simp: inner_at_def set_roles_def new_kids_def split: if_splits)
next
  case (inline w p f)
  with roles_okD(1) [OF ok, of w] inner [of u] show ?thesis by (auto simp: inner_at_def set_roles_def new_kids_def split: if_splits)
next
  case (hook w p)
  with roles_okD(1) [OF ok, of w] inner [of u] show ?thesis by (auto simp: inner_at_def set_roles_def new_kids_def split: if_splits)
qed

lemma root_frame:
  assumes "root_at s u" and "role s' u = role s u" and "parent s' u = parent s u" and "fn s' u = fn s u" and "hooked s' u = hooked s u"
    and "\<And>w. role s u = Running w \<Longrightarrow> deps s' u = deps s u"
    and "\<And>w. role_owner (role s u) = Some w \<Longrightarrow> wpc s' w = wpc s w"
  shows "root_at s' u"
  using assms by (cases "role s u") (auto simp: root_at_def)

text \<open>A step of worker \<open>w\<close> does not concern the roots that \<open>w\<close> does not own.\<close>

lemma root_other:
  assumes "roles_ok cap s" and "root_at s u" and "u \<notin> pc_tasks (wpc s w)" and "\<And>v. v \<noteq> w \<Longrightarrow> wpc s' v = wpc s v"
    and "role s' u = role s u" and "parent s' u = parent s u" and "fn s' u = fn s u" and "hooked s' u = hooked s u" and "deps s' u = deps s u"
  shows "root_at s' u"
proof (rule root_frame [OF assms(2,5-8)])
  fix v
  assume "role_owner (role s u) = Some v"
  then have "u \<in> pc_tasks (wpc s v)" by (rule roles_okD(2) [OF assms(1)])
  with assms(3) have "v \<noteq> w" by auto
  then show "wpc s' v = wpc s v" by (rule assms(4))
qed (rule assms(9))

lemma root_inner: "parent s u = Some p \<Longrightarrow> root_at s u"
  by (simp add: root_at_def)

lemma root_step:
  assumes "graph_step s s'" and ok: "roles_ok cap s" and counts: "\<And>p. count_at s p" and fns: "\<And>t. fn_at s t"
    and inner: "\<And>t. inner_at s t" and roots: "\<And>t. root_at s t"
  shows "root_at s' u"
proof (cases "parent s' u")
  case (Some p)
  then show ?thesis by (rule root_inner)
next
  case root: None
  note D = roles_okD [OF ok] and R = roots [of u, unfolded root_at_def] and other = root_other [OF ok roots]
  from assms(1) show ?thesis
  proof cases
    case (submit r c)
    then have free: "role s r = Free" "role s c = Free" using D(4) by auto
    show ?thesis
    proof (cases "u = r")
      case True
      with submit show ?thesis by (auto simp: root_at_def)
    next
      case False
      have "u \<noteq> c" using submit root by auto
      with False show ?thesis by (intro root_frame [OF roots]) (use submit in auto)
    qed
  next
    case (take w t)
    then have "role s t = Queued" using D(3) [of t] by (metis count_eq_zero_iff of_bool_eq(1))
    with R root take have "u \<noteq> t" by auto
    then show ?thesis by (intro other [where w = w]) (use take in auto)
  next
    case (alloc w t m R cs c f)
    show ?thesis
    proof (cases "u \<in> pc_tasks (wpc s w)")
      case True
      then show ?thesis using alloc D(1) [of w] root R D(4) [of c] by (auto simp: new_kids_def split: if_splits)
    next
      case False
      have "u \<noteq> c" using alloc root by auto
      with False show ?thesis by (intro other [where w = w]) (use alloc in auto)
    qed
  next
    case (climb w p)
    have last: "role s p = Waiting" if "deps s p = 1" using climb_last [OF ok counts climb(2) that] by simp
    have lock: "\<not> is_leaf (role s p)" using counts [of p] climb(2) by (auto simp: count_at_def climbers_def)
    have no_w: "role_owner (role s u) \<noteq> Some w" using D(2) [of u w] climb(2) by auto
    show ?thesis
    proof (cases "u = p")
      case True
      from lock consider "role s p = Waiting" | v where "role s p = Running v" by (cases "role s p") auto
      then show ?thesis
      proof cases
        case 1
        with True climb R root show ?thesis by (auto simp: root_at_def)
      next
        case 2
        then have "deps s p \<noteq> 1" using last by auto
        with 2 True R root climb(1) show ?thesis by simp
      qed
    next
      case False
      with no_w show ?thesis by (intro root_frame [OF roots]) (use climb in auto)
    qed
  next
    case (start w t f)
    show ?thesis
    proof (cases "u \<in> pc_tasks (wpc s w)")
      case True
      then show ?thesis using start D(1) [of w] root R by (auto simp: root_at_def new_kids_def set_roles_def)
    next
      case False
      then show ?thesis by (intro other [where w = w]) (use start in \<open>auto simp: set_roles_def dest: in_set_takeD\<close>)
    qed
  next
    case (continuation w t m R cs f)
    show ?thesis
    proof (cases "u \<in> pc_tasks (wpc s w)")
      case True
      then show ?thesis using continuation D(1) [of w] root R by (auto simp: root_at_def new_kids_def set_roles_def)
    next
      case False
      then show ?thesis by (intro other [where w = w]) (use continuation in \<open>auto simp: set_roles_def dest: in_set_takeD\<close>)
    qed
  next
    case (count w t m R cs)
    show ?thesis
    proof (cases "u \<in> pc_tasks (wpc s w)")
      case True
      then show ?thesis using count D(1) [of w] root R by (auto simp: root_at_def new_kids_def set_roles_def)
    next
      case False
      then show ?thesis by (intro other [where w = w]) (use count in \<open>auto simp: set_roles_def dest: in_set_takeD\<close>)
    qed
  next
    case (push w t m R cs n)
    show ?thesis
    proof (cases "u \<in> pc_tasks (wpc s w)")
      case True
      then show ?thesis using push D(1) [of w] root R by (auto simp: root_at_def new_kids_def set_roles_def)
    next
      case False
      then show ?thesis by (intro other [where w = w]) (use push in \<open>auto simp: set_roles_def dest: in_set_takeD\<close>)
    qed
  next
    case (uncount w t m R cs)
    show ?thesis
    proof (cases "u \<in> pc_tasks (wpc s w)")
      case True
      then show ?thesis using uncount D(1) [of w] root R by (auto simp: root_at_def new_kids_def set_roles_def)
    next
      case False
      then show ?thesis by (intro other [where w = w]) (use uncount in \<open>auto simp: set_roles_def dest: in_set_takeD\<close>)
    qed
  next
    case (return w t m)
    show ?thesis
    proof (cases "u \<in> pc_tasks (wpc s w)")
      case True
      then show ?thesis using return D(1) [of w] root R by (auto simp: root_at_def new_kids_def set_roles_def)
    next
      case False
      then show ?thesis by (intro other [where w = w]) (use return in \<open>auto simp: set_roles_def dest: in_set_takeD\<close>)
    qed
  next
    case (again w t f)
    show ?thesis
    proof (cases "u \<in> pc_tasks (wpc s w)")
      case True
      then show ?thesis using again D(1) [of w] root R by (auto simp: root_at_def new_kids_def set_roles_def)
    next
      case False
      then show ?thesis by (intro other [where w = w]) (use again in \<open>auto simp: set_roles_def dest: in_set_takeD\<close>)
    qed
  next
    case (finish w t)
    show ?thesis
    proof (cases "u \<in> pc_tasks (wpc s w)")
      case True
      then show ?thesis using finish D(1) [of w] root R by (auto simp: root_at_def new_kids_def set_roles_def)
    next
      case False
      then show ?thesis by (intro other [where w = w]) (use finish in \<open>auto simp: set_roles_def dest: in_set_takeD\<close>)
    qed
  next
    case (relock w p f)
    show ?thesis
    proof (cases "u \<in> pc_tasks (wpc s w)")
      case True
      then show ?thesis using relock D(1) [of w] root R by (auto simp: root_at_def new_kids_def set_roles_def)
    next
      case False
      then show ?thesis by (intro other [where w = w]) (use relock in \<open>auto simp: set_roles_def dest: in_set_takeD\<close>)
    qed
  next
    case (park w p)
    show ?thesis
    proof (cases "u \<in> pc_tasks (wpc s w)")
      case True
      then show ?thesis using park D(1) [of w] root R by (auto simp: root_at_def new_kids_def set_roles_def)
    next
      case False
      then show ?thesis by (intro other [where w = w]) (use park in \<open>auto simp: set_roles_def dest: in_set_takeD\<close>)
    qed
  next
    case (inline w p f)
    show ?thesis
    proof (cases "u \<in> pc_tasks (wpc s w)")
      case True
      then show ?thesis using inline D(1) [of w] root R counts [of u] by (auto simp: root_at_def new_kids_def set_roles_def count_at_def ref_count_def)
    next
      case False
      then show ?thesis by (intro other [where w = w]) (use inline in \<open>auto simp: set_roles_def dest: in_set_takeD\<close>)
    qed
  next
    case (hook w p)
    show ?thesis
    proof (cases "u \<in> pc_tasks (wpc s w)")
      case True
      then show ?thesis using hook D(1) [of w] root R by (auto simp: root_at_def new_kids_def set_roles_def)
    next
      case False
      then show ?thesis by (intro other [where w = w]) (use hook in \<open>auto simp: set_roles_def dest: in_set_takeD\<close>)
    qed
  next
    case (rejected_done w t m R c)
    show ?thesis
    proof (cases "u \<in> pc_tasks (wpc s w)")
      case True
      then show ?thesis using rejected_done D(1) [of w] root R by (auto simp: root_at_def new_kids_def set_roles_def)
    next
      case False
      then show ?thesis by (intro other [where w = w]) (use rejected_done in \<open>auto simp: set_roles_def dest: in_set_takeD\<close>)
    qed
  qed
qed

section \<open>Reachable states\<close>

definition graph_inv :: "nat \<Rightarrow> graph \<Rightarrow> bool" where
  "graph_inv cap s \<longleftrightarrow> roles_ok cap s \<and> (\<forall>t. count_at s t \<and> fn_at s t \<and> depth_at s t \<and> inner_at s t \<and> root_at s t)"

abbreviation graph_reachable :: "nat \<Rightarrow> graph \<Rightarrow> bool" where
  "graph_reachable cap s \<equiv> graph_step\<^sup>*\<^sup>* (graph_start cap) s"

lemma graph_inv_start: "graph_inv cap (graph_start cap)"
  by (auto simp: graph_inv_def roles_ok_def count_at_def fn_at_def depth_at_def inner_at_def root_at_def graph_start_def
      kids_def climbers_def)

lemma graph_inv_step:
  assumes "graph_inv cap s" and "graph_step s s'"
  shows "graph_inv cap s'"
proof -
  have ok: "roles_ok cap s" and counts: "\<And>t. count_at s t" and fns: "\<And>t. fn_at s t" and depths: "\<And>t. depth_at s t"
    and inner: "\<And>t. inner_at s t" and roots: "\<And>t. root_at s t"
    using assms(1) by (simp_all add: graph_inv_def)
  show ?thesis
    unfolding graph_inv_def
    using roles_step [OF assms(2) ok counts] counts_step [OF assms(2) ok counts] fn_step [OF assms(2) ok fns]
      depth_step [OF assms(2) ok counts depths] inner_step [OF assms(2) ok counts inner]
      root_step [OF assms(2) ok counts fns inner roots]
    by blast
qed

lemma graph_inv_reachable: "graph_reachable cap s \<Longrightarrow> graph_inv cap s"
  by (induction rule: rtranclp_induct) (auto intro: graph_inv_start graph_inv_step)

lemma reachableD:
  assumes "graph_reachable cap s"
  shows "roles_ok cap s" and "count_at s t" and "fn_at s t" and "depth_at s t" and "inner_at s t" and "root_at s t"
  using graph_inv_reachable [OF assms] by (simp_all add: graph_inv_def)

lemma owned_live:
  assumes "roles_ok cap s" and "t \<in> pc_tasks (wpc s w)"
  shows "role_owner (role s t) = Some w" and "t < cap" and "t \<notin> free s" and "t \<notin># queue s"
proof -
  show own: "role_owner (role s t) = Some w" by (rule pc_fits_owned [OF roles_okD(1) [OF assms(1)] assms(2)])
  then have "role s t \<noteq> Free" "role s t \<noteq> Queued" by auto
  with roles_okD(3-5) [OF assms(1), of t] show "t < cap" "t \<notin> free s" "t \<notin># queue s" by (auto simp: not_in_iff)
qed

lemma queued_role: "roles_ok cap s \<Longrightarrow> t \<in># queue s \<Longrightarrow> role s t = Queued"
  using roles_okD(3) [of cap s t] by (cases "role s t = Queued") (simp_all add: count_eq_zero_iff)

lemma live_role: "roles_ok cap s \<Longrightarrow> t < cap \<Longrightarrow> t \<notin> free s \<longleftrightarrow> role s t \<noteq> Free"
  by (auto simp: roles_okD(4))

section \<open>Ownership\<close>

lemma climber_live:
  assumes "graph_reachable cap s" and "wpc s w = WClimb t"
  shows "t < cap" and "t \<notin> free s"
  using assms(2) reachableD(2) [OF assms(1), of t] roles_okD(4,5) [OF reachableD(1) [OF assms(1)], of t]
  by (cases "role s t"; auto simp: count_at_def climbers_def)+

text \<open>
  C12: However the workers and submitters interleave, no task is queued twice, a queued task is neither
  free nor in the hands of a worker, a task in the hands of a worker is not free and no other worker has
  it, and the parent whose count a worker is about to drop is still allocated: no task is run by two
  workers and none is used after it was released.
\<close>

theorem graph_single_owner:
  assumes "graph_reachable cap s"
  shows "count (queue s) t \<le> 1 \<and> (t \<in># queue s \<longrightarrow> t < cap \<and> t \<notin> free s)
    \<and> (t \<in> pc_tasks (wpc s w) \<longrightarrow> t < cap \<and> t \<notin> free s \<and> t \<notin># queue s \<and> (t \<in> pc_tasks (wpc s v) \<longrightarrow> v = w))
    \<and> (wpc s w = WClimb t \<longrightarrow> t < cap \<and> t \<notin> free s)"
proof (intro conjI impI)
  note ok = reachableD(1) [OF assms]
  note D = roles_okD [OF ok]
  show "count (queue s) t \<le> 1" using D(3) [of t] by simp
  show "t < cap" "t \<notin> free s" if "t \<in># queue s"
    using queued_role [OF ok that] D(4,5) [of t] by auto
  show "t < cap" "t \<notin> free s" "t \<notin># queue s" if "t \<in> pc_tasks (wpc s w)" using owned_live [OF ok that] by auto
  show "v = w" if "t \<in> pc_tasks (wpc s w)" "t \<in> pc_tasks (wpc s v)"
    using owned_live(1) [OF ok that(1)] owned_live(1) [OF ok that(2)] by simp
  show "t < cap" "t \<notin> free s" if "wpc s w = WClimb t"
    using climber_live [OF assms that] by simp_all
qed

lemma ready_fn:
  assumes "graph_reachable cap s" and "t \<in># queue s \<or> wpc s w = WTake t \<or> wpc s w = WPark t"
  shows "\<exists>f. fn s t = Some f"
proof -
  note ok = reachableD(1) [OF assms(1)]
  from assms(2) have "is_ready (role s t)"
  proof (elim disjE)
    assume "t \<in># queue s"
    with queued_role [OF ok] show ?thesis by simp
  qed (use roles_okD(1) [OF ok, of w] in auto)
  with reachableD(3) [OF assms(1), of t] show ?thesis by (simp add: fn_at_def)
qed

text \<open>
  A task that is queued, taken or about to be run again always has a function: no worker calls a null
  function pointer.
\<close>

theorem graph_no_null_call:
  assumes "graph_reachable cap s" and "t \<in># queue s \<or> wpc s w = WTake t \<or> wpc s w = WPark t"
  shows "fn s t \<noteq> None"
  using ready_fn [OF assms] by simp

section \<open>Counts\<close>

lemma kids_live: "roles_ok cap s \<Longrightarrow> kids s p \<subseteq> {..<cap}"
  by (auto simp: kids_def counted_live intro: roles_okD(5))

text \<open>A task is not its own child, so a live task has fewer children than there are tasks.\<close>

lemma kids_below:
  assumes "graph_reachable cap s" and "t < cap"
  shows "card (kids s t) < cap"
proof -
  note ok = reachableD(1) [OF assms(1)]
  have "t \<notin> kids s t"
  proof
    assume "t \<in> kids s t"
    then have "is_counted (role s t)" "parent s t = Some t" by (auto simp: kids_def)
    then have "role s t \<noteq> Free" by auto
    with reachableD(4) [OF assms(1), of t] \<open>parent s t = Some t\<close> show False by (simp add: depth_at_def)
  qed
  with kids_live [OF ok] have "kids s t \<subset> {..<cap}" using assms(2) by blast
  then have "card (kids s t) < card {..<cap}" by (rule psubset_card_mono [rotated]) simp
  then show ?thesis by simp
qed

lemma counts_bounded:
  assumes "graph_reachable cap s" and "t < cap" and "t \<notin> free s"
  shows "0 \<le> deps s t \<and> deps s t \<le> int (cap + card {w. wpc s w \<noteq> WIdle})
    \<and> (wpc s w = WClimb t \<longrightarrow> 0 < deps s t) \<and> (wpc s w = WRun t m R cs \<longrightarrow> 0 < deps s t)
    \<and> (wpc s w = WReject t m R cs \<longrightarrow> int (length cs) < deps s t)"
proof -
  note ok = reachableD(1) [OF assms(1)] and counts = reachableD(2) [OF assms(1), of t]
  note D = roles_okD [OF ok]
  have count: "deps s t = int (ref_count s t)" using counts live_role [OF ok assms(2)] assms(3) by (simp add: count_at_def)
  note kids_below [OF assms(1,2)]
  moreover have "card (climbers s t) \<le> card {w. wpc s w \<noteq> WIdle}"
    by (rule card_mono [OF D(6)]) (auto simp: climbers_def)
  ultimately have "ref_count s t \<le> cap + card {w. wpc s w \<noteq> WIdle}" by (auto simp: ref_count_def)
  moreover have "0 < ref_count s t" if "wpc s w = WClimb t"
    using that finite_climbers [OF ok, of t] by (auto simp: ref_count_def climbers_def card_gt_0_iff)
  moreover have "0 < ref_count s t" if "wpc s w = WRun t m R cs" using that D(1) [of w] by (simp add: ref_count_def)
  moreover have "length cs < ref_count s t" if "wpc s w = WReject t m R cs"
  proof -
    have "distinct cs" "set cs \<subseteq> kids s t" "is_locked (role s t)"
      using that D(1) [of w] by (auto simp: new_kids_def kids_def)
    then have "length cs \<le> card (kids s t)" by (metis card_mono distinct_card finite_kids [OF ok])
    with \<open>is_locked (role s t)\<close> show ?thesis by (simp add: ref_count_def)
  qed
  ultimately show ?thesis using count by auto
qed

text \<open>
  C25: The dependency count of a live task stays between 0 and the number of tasks plus the number of busy
  workers, and no decrement the workers are about to make takes it below 0: as \<open>size_t\<close> it never wraps.
\<close>

theorem graph_counts_bounded:
  assumes "graph_reachable cap s" and "t < cap" and "t \<notin> free s"
  shows "0 \<le> deps s t \<and> deps s t \<le> int (cap + card {w. wpc s w \<noteq> WIdle})
    \<and> (wpc s w = WClimb t \<longrightarrow> 0 < deps s t) \<and> (wpc s w = WRun t m R cs \<longrightarrow> 0 < deps s t)
    \<and> (wpc s w = WReject t m R cs \<longrightarrow> int (length cs) < deps s t)"
  by (rule counts_bounded [OF assms])

section \<open>Nothing is left behind\<close>

lemma quiescent_free:
  assumes "graph_reachable cap s" and idle: "\<And>w. wpc s w = WIdle" and "queue s = {#}"
  shows "free s = {..<cap}"
proof -
  note ok = reachableD(1) [OF assms(1)]
  note D = roles_okD [OF ok]
  let ?L = "{t. role s t \<noteq> Free}"
  have waiting: "role s t = Waiting" if "role s t \<noteq> Free" for t
  proof -
    have "role_owner (role s t) = None" using D(2) [of t] idle by (cases "role_owner (role s t)") auto
    moreover have "role s t \<noteq> Queued" using D(3) [of t] assms(3) by auto
    ultimately show ?thesis using that by (cases "role s t") auto
  qed
  have "finite ?L" by (rule finite_subset [of _ "{..<cap}"]) (auto intro: D(5))
  have "?L = {}"
  proof (rule ccontr)
    assume "?L \<noteq> {}"
    then have "Max (depth s ` ?L) \<in> depth s ` ?L" by (intro Max_in) (use \<open>finite ?L\<close> in auto)
    then obtain t where t: "t \<in> ?L" and max: "depth s t = Max (depth s ` ?L)" by auto
    have deepest: "depth s u \<le> depth s t" if "u \<in> ?L" for u
      unfolding max by (intro Max_ge) (use \<open>finite ?L\<close> that in auto)
    have "climbers s t = {}" using idle by (simp add: climbers_def)
    with reachableD(2) [OF assms(1), of t] waiting [of t] t have "kids s t \<noteq> {}" by (auto simp: count_at_def ref_count_def)
    then obtain u where u: "is_counted (role s u)" "parent s u = Some t" by (auto simp: kids_def)
    then have "role s u \<noteq> Free" by (auto simp: counted_live)
    with reachableD(4) [OF assms(1), of u] u have "depth s t < depth s u" by (simp add: depth_at_def)
    with deepest [of u] \<open>role s u \<noteq> Free\<close> show False by simp
  qed
  then show ?thesis using D(4) by auto
qed

text \<open>
  C9: When every worker is idle and nothing is queued, every task is back in the pool: no interleaving
  leaves a task waiting for a dependency that nobody will drop.
\<close>

theorem graph_quiescent_done:
  assumes "graph_reachable cap s" and idle: "\<And>w. wpc s w = WIdle" and "queue s = {#}"
  shows "free s = {..<cap}"
  by (rule quiescent_free [OF assms])

section \<open>The finishing hook\<close>

definition child_of :: "graph \<Rightarrow> task_ref \<Rightarrow> task_ref \<Rightarrow> bool" where
  "child_of s u p \<longleftrightarrow> role s u \<noteq> Free \<and> parent s u = Some p"

lemma ending_no_child:
  assumes reach: "graph_reachable cap s" and pc: "wpc s w = WHook p" shows "\<not> child_of s u p" and "climbers s p = {}"
    and "hooked s p = 0"
proof -
  note ok = reachableD(1) [OF reach]
  have run: "role s p = Running w" using roles_okD(1) [OF ok, of w] pc by simp
  then have root: "parent s p = None" using reachableD(5) [OF reach, of p] pc by (auto simp: inner_at_def)
  with reachableD(6) [OF reach, of p] run pc have one: "deps s p = 1" and "hooked s p = 0" by (auto simp: root_at_def)
  then show "hooked s p = 0" by simp
  from one reachableD(2) [OF reach, of p] run have "card (kids s p) = 0" "card (climbers s p) = 0"
    by (auto simp: count_at_def ref_count_def)
  then have no_kids: "kids s p = {}" and "climbers s p = {}" using finite_kids [OF ok] finite_climbers [OF ok] by auto
  then show "climbers s p = {}" by simp
  show "\<not> child_of s u p"
  proof
    assume child: "child_of s u p"
    with no_kids have "\<not> is_counted (role s u)" by (auto simp: kids_def child_of_def)
    with child obtain v where v: "role s u = Fresh v" by (cases "role s u") (auto simp: child_of_def)
    then have "u \<in> pc_tasks (wpc s v)" by (intro roles_okD(2) [OF ok]) simp
    with roles_okD(1) [OF ok, of v] v child run pc show False
      by (cases "wpc s v") (auto simp: new_kids_def child_of_def)
  qed
qed

text \<open>
  C15: The finishing hook of a job runs once and last: when a worker is about to run it, it has not run
  since the job was submitted, no live task descends from the root, and no worker is about to drop one
  of its dependencies.
\<close>

theorem hook_runs_last:
  assumes "graph_reachable cap s" and "wpc s w = WHook p"
  shows "hooked s p = 0 \<and> (\<nexists>u. (child_of s)\<^sup>+\<^sup>+ u p) \<and> (\<nexists>v. wpc s v = WClimb p)"
  using ending_no_child [OF assms] by (auto simp: climbers_def elim: tranclp.cases)

text \<open>
  The root of a job goes back to the pool only after its hook has run exactly once.
\<close>

theorem root_released_after_hook:
  assumes reach: "graph_reachable cap s" and step: "graph_step s s'" and root: "parent s p = None"
    and released: "p < cap" "p \<notin> free s" "p \<in> free s'"
  shows "hooked s p = 1"
proof -
  note ok = reachableD(1) [OF reach]
  note D = roles_okD [OF ok] and R = reachableD(6) [OF reach, of p]
  from step show ?thesis
  proof cases
    case (rejected_done w t m R c)
    with released root D(1) [of w] show ?thesis by (auto simp: new_kids_def)
  next
    case (finish w t)
    with released root R D(1) [of w] show ?thesis by (auto simp: root_at_def)
  qed (use released in auto)
qed

section \<open>Nobody gets stuck\<close>

lemma worker_moves:
  assumes "graph_step s s'" and "wpc s' = (wpc s)(w := x)" and "x \<noteq> wpc s w"
  shows "\<exists>s'. graph_step s s' \<and> wpc s' w \<noteq> wpc s w \<and> (\<forall>v. v \<noteq> w \<longrightarrow> wpc s' v = wpc s v)"
  by (rule exI [of _ s']) (use assms in auto)

abbreviation can_move :: "nat \<Rightarrow> graph \<Rightarrow> bool" where
  "can_move w s \<equiv> (\<exists>s'. graph_step s s' \<and> wpc s' w \<noteq> wpc s w \<and> (\<forall>v. v \<noteq> w \<longrightarrow> wpc s' v = wpc s v))"

lemma body_moves:
  assumes WRun: "wpc s w = WRun t m R cs" shows "can_move w s"
proof -
  show ?thesis
  proof (cases "cs = []")
    case False
    from graph_step.count [OF WRun this] show ?thesis by (rule worker_moves) (simp, simp add: WRun)
  next
    case True
    note run = WRun [unfolded True]
    show ?thesis
    proof (cases R)
      case Nil
      from graph_step.return [OF run [unfolded Nil]] show ?thesis
        by (rule worker_moves) (simp, (cases m; simp add: run Nil))
    next
      case (Cons c R')
      then have "c \<in> set R" by simp
      from graph_step.rejected_done [OF run this] show ?thesis by (rule worker_moves) (simp, simp add: run Cons)
    qed
  qed
qed

lemma walk_moves:
  shows "wpc s w = WLast t \<Longrightarrow> can_move w s" and "wpc s w = WAtParent t \<Longrightarrow> can_move w s"
proof -
  assume WLast: "wpc s w = WLast t"
  show "can_move w s"
  proof (cases "fn s t")
    case None
    from graph_step.finish [OF disjI1 [OF WLast] this] show ?thesis
      by (rule worker_moves) (simp, (cases "parent s t"; simp add: WLast))
  next
    case (Some f)
    from graph_step.again [OF WLast Some] show ?thesis by (rule worker_moves) (simp, simp add: WLast)
  qed
next
  assume WAtParent: "wpc s w = WAtParent t"
  show "can_move w s"
  proof (cases "fn s t")
    case None
    from graph_step.finish [OF disjI2 [OF WAtParent] this] show ?thesis
      by (rule worker_moves) (simp, (cases "parent s t"; simp add: WAtParent))
  next
    case (Some f)
    from graph_step.relock [OF WAtParent Some] show ?thesis by (rule worker_moves) (simp, simp add: WAtParent)
  qed
qed


section \<open>A run, for the witnesses\<close>

text \<open>The life of a job whose splitter spawns nothing, on worker 0: task 0 is the root, task 1 the splitter task.\<close>

definition demo :: "task_ref multiset \<Rightarrow> task_ref set \<Rightarrow> int \<Rightarrow> int \<Rightarrow> sc_fn option \<Rightarrow> sc_fn option \<Rightarrow> graph_pc \<Rightarrow>
    task_role \<Rightarrow> task_role \<Rightarrow> nat \<Rightarrow> graph" where
  "demo q fr d0 d1 f0 f1 pc r0 r1 h = \<lparr>queue = q, free = fr, deps = (\<lambda>_. 0)(0 := d0, 1 := d1),
     fn = (\<lambda>_. None)(0 := f0, 1 := f1), parent = (\<lambda>_. None)(1 := Some 0), wpc = (\<lambda>_. WIdle)(0 := pc),
     role = (\<lambda>_. Free)(0 := r0, 1 := r1), depth = (\<lambda>_. 0)(1 := 1), hooked = (\<lambda>_. 0)(0 := h)\<rparr>"

lemma step_reaches: "graph_reachable cap s \<Longrightarrow> graph_step s t \<Longrightarrow> t = t' \<Longrightarrow> graph_reachable cap t'"
  by (simp add: rtranclp.rtrancl_into_rtrancl)

lemma step_to: "graph_step s t \<Longrightarrow> t = t' \<Longrightarrow> graph_step s t'"
  by simp

lemma demo_reachable:
  shows demo0: "graph_reachable 2 (demo {#1#} {} 1 1 (Some HookFn) (Some SplitterFn) WIdle Waiting Queued 0)"
    and demo1: "graph_reachable 2 (demo {#} {} 1 1 (Some HookFn) (Some SplitterFn) (WTake 1) Waiting (Taken 0) 0)"
    and demo2: "graph_reachable 2 (demo {#} {} 1 1 (Some HookFn) None (WRun 1 Body [] []) Waiting (Running 0) 0)"
    and demo3: "graph_reachable 2 (demo {#} {} 1 0 (Some HookFn) None (WLast 1) Waiting (Ending 0) 0)"
    and demo4: "graph_reachable 2 (demo {#} {1} 1 0 (Some HookFn) None (WClimb 0) Waiting Free 0)"
    and demo5: "graph_reachable 2 (demo {#} {1} 0 0 (Some HookFn) None (WAtParent 0) (Ending 0) Free 0)"
    and demo6: "graph_reachable 2 (demo {#} {1} 1 0 (Some HookFn) None (WPark 0) (Parking 0) Free 0)"
    and demo7: "graph_reachable 2 (demo {#} {1} 1 0 None None (WHook 0) (Running 0) Free 0)"
    and demo8: "graph_reachable 2 (demo {#} {1} 1 0 None None (WRun 0 InClimb [] []) (Running 0) Free 1)"
    and demo9: "graph_reachable 2 (demo {#} {1} 0 0 None None (WAtParent 0) (Ending 0) Free 1)"
    and demo10: "graph_reachable 2 (demo {#} {0, 1} 0 0 None None WIdle Free Free 1)"
    and demo_last: "graph_step (demo {#} {1} 0 0 None None (WAtParent 0) (Ending 0) Free 1) (demo {#} {0, 1} 0 0 None None WIdle Free Free 1)"
proof -
  show demo0: "graph_reachable 2 (demo {#1#} {} 1 1 (Some HookFn) (Some SplitterFn) WIdle Waiting Queued 0)"
    by (rule step_reaches [OF rtranclp.rtrancl_refl graph_step.submit [of 0 _ 1]]) (auto simp: demo_def graph_start_def fun_eq_iff)
  show demo1: "graph_reachable 2 (demo {#} {} 1 1 (Some HookFn) (Some SplitterFn) (WTake 1) Waiting (Taken 0) 0)"
    by (rule step_reaches [OF demo0 graph_step.take [of _ 0 1]]) (auto simp: demo_def graph_start_def fun_eq_iff)
  show demo2: "graph_reachable 2 (demo {#} {} 1 1 (Some HookFn) None (WRun 1 Body [] []) Waiting (Running 0) 0)"
    by (rule step_reaches [OF demo1 graph_step.start [of _ 0 1 SplitterFn]]) (auto simp: demo_def graph_start_def fun_eq_iff)
  show demo3: "graph_reachable 2 (demo {#} {} 1 0 (Some HookFn) None (WLast 1) Waiting (Ending 0) 0)"
    by (rule step_reaches [OF demo2 graph_step.return [of _ 0 1 Body]]) (auto simp: demo_def graph_start_def fun_eq_iff)
  show demo4: "graph_reachable 2 (demo {#} {1} 1 0 (Some HookFn) None (WClimb 0) Waiting Free 0)"
    by (rule step_reaches [OF demo3 graph_step.finish [of _ 0 1]]) (auto simp: demo_def graph_start_def fun_eq_iff)
  show demo5: "graph_reachable 2 (demo {#} {1} 0 0 (Some HookFn) None (WAtParent 0) (Ending 0) Free 0)"
    by (rule step_reaches [OF demo4 graph_step.climb [of _ 0 0]]) (auto simp: demo_def graph_start_def fun_eq_iff)
  show demo6: "graph_reachable 2 (demo {#} {1} 1 0 (Some HookFn) None (WPark 0) (Parking 0) Free 0)"
    by (rule step_reaches [OF demo5 graph_step.relock [of _ 0 0 HookFn]]) (auto simp: demo_def graph_start_def fun_eq_iff)
  show demo7: "graph_reachable 2 (demo {#} {1} 1 0 None None (WHook 0) (Running 0) Free 0)"
    by (rule step_reaches [OF demo6 graph_step.inline [of _ 0 0 HookFn]]) (auto simp: demo_def graph_start_def fun_eq_iff)
  show demo8: "graph_reachable 2 (demo {#} {1} 1 0 None None (WRun 0 InClimb [] []) (Running 0) Free 1)"
    by (rule step_reaches [OF demo7 graph_step.hook [of _ 0 0]]) (auto simp: demo_def graph_start_def fun_eq_iff)
  show demo9: "graph_reachable 2 (demo {#} {1} 0 0 None None (WAtParent 0) (Ending 0) Free 1)"
    by (rule step_reaches [OF demo8 graph_step.return [of _ 0 0 InClimb]]) (auto simp: demo_def graph_start_def fun_eq_iff)
  show demo10: "graph_reachable 2 (demo {#} {0, 1} 0 0 None None WIdle Free Free 1)"
    by (rule step_reaches [OF demo9 graph_step.finish [of _ 0 0]]) (auto simp: demo_def graph_start_def fun_eq_iff)
  show "graph_step (demo {#} {1} 0 0 None None (WAtParent 0) (Ending 0) Free 1) (demo {#} {0, 1} 0 0 None None WIdle Free Free 1)"
    by (rule step_to [OF graph_step.finish [of _ 0 0]]) (auto simp: demo_def graph_start_def fun_eq_iff)
qed

lemma graph_single_owner_witness:
  "let s = demo {#} {} 1 1 (Some HookFn) (Some SplitterFn) (WTake 1) Waiting (Taken 0) 0 in
     graph_reachable 2 s \<and> (1 \<in> pc_tasks (wpc s 0)) \<and> (1 < (2::nat) \<and> 1 \<notin> free s \<and> 1 \<notin># queue s)"
  using graph_single_owner [OF demo1, of 1 0] demo1 by (simp add: demo_def)

lemma graph_no_null_call_witness: "fn (demo {#1#} {} 1 1 (Some HookFn) (Some SplitterFn) WIdle Waiting Queued 0) 1 \<noteq> None \<and> 1 \<in># queue (demo {#1#} {} 1 1 (Some HookFn) (Some SplitterFn) WIdle Waiting Queued 0)"
proof -
  have "1 \<in># queue (demo {#1#} {} 1 1 (Some HookFn) (Some SplitterFn) WIdle Waiting Queued 0)" by (simp add: demo_def)
  with graph_no_null_call [OF demo0, of 1 0] show ?thesis by blast
qed

lemma graph_counts_bounded_witness: "0 < deps (demo {#} {1} 1 0 (Some HookFn) None (WClimb 0) Waiting Free 0) 0"
  by (rule graph_counts_bounded [OF demo4, of 0 0, THEN conjunct2, THEN conjunct2, THEN conjunct1, THEN mp])
    (simp_all add: demo_def)

lemma graph_quiescent_done_witness: "free (demo {#} {0, 1} 0 0 None None WIdle Free Free 1) = {..<2}"
  by (rule graph_quiescent_done [OF demo10]) (simp_all add: demo_def)

lemma hook_runs_last_witness: "let s = demo {#} {1} 1 0 None None (WHook 0) (Running 0) Free 0 in hooked s 0 = 0 \<and> (\<nexists>u. (child_of s)\<^sup>+\<^sup>+ u 0) \<and> (\<nexists>v. wpc s v = WClimb 0)"
  unfolding Let_def by (rule hook_runs_last [OF demo7, of 0]) (simp add: demo_def)

lemma root_released_after_hook_witness: "hooked (demo {#} {1} 0 0 None None (WAtParent 0) (Ending 0) Free 1) 0 = 1"
  by (rule root_released_after_hook [OF demo9 demo_last]) (simp_all add: demo_def)

end
