(* ===== verification/GraphSim.thy ===== *)
theory GraphSim
  imports WorkerFind TaskGraphInv
begin

text \<open>
  The scheduler's state and the state of the task graph side by side, and the primitive operations of the
  code as steps of the graph: allocating, counting, pushing and rejecting children, taking a function,
  dropping a dependency, queueing or running a parent, releasing a task.
\<close>

section \<open>The simulation relation\<close>

abbreviation "tasks_total \<equiv> global_task_capacity"

text \<open>Deques and rings as a bag, the pool as a set, and the fields of every task in use; counts are the same modulo \<open>2 ^ 64\<close>.\<close>

definition task_agrees :: "sc_task \<Rightarrow> int \<Rightarrow> sc_fn option \<Rightarrow> task_ref option \<Rightarrow> bool" where
  "task_agrees x d f p \<longleftrightarrow> unfinished_dependencies x = word_of_int d \<and> task_fn x = f \<and> parent_task x = p"

definition agrees :: "sched \<Rightarrow> graph \<Rightarrow> bool" where
  "agrees s g \<longleftrightarrow> queue g = queued_tasks s \<and> free g = avail s
     \<and> (\<forall>t<tasks_total. t \<notin> avail s \<longrightarrow> task_agrees (task_at s t) (deps g t) (fn g t) (parent g t))"

text \<open>The task that a worker in this state runs.\<close>

fun on_task :: "graph_pc \<Rightarrow> task_ref option" where
  "on_task (WTake t) = Some t"
| "on_task (WRun t m R cs) = Some t"
| "on_task (WPush t m R cs) = Some t"
| "on_task (WReject t m R cs) = Some t"
| "on_task (WLast t) = Some t"
| "on_task _ = None"

definition on_ok :: "nat \<Rightarrow> graph_pc \<Rightarrow> sched \<Rightarrow> bool" where
  "on_ok tid pc s \<longleftrightarrow> (\<forall>t. on_task pc = Some t \<longrightarrow> tl_current_task s tid = Some t \<and> parent_task (task_at s t) \<noteq> None)"

definition sim :: "nat \<Rightarrow> graph_pc \<Rightarrow> sched \<Rightarrow> graph \<Rightarrow> bool" where
  "sim tid pc s g \<longleftrightarrow> graph_reachable tasks_total g \<and> wpc g = (\<lambda>_. WIdle)(tid := pc) \<and> agrees s g
     \<and> sched_wf s \<and> is_worker tid s \<and> on_ok tid pc s"

lemma simD:
  assumes "sim tid pc s g"
  shows "graph_reachable tasks_total g" and "wpc g tid = pc" and "queue g = queued_tasks s" and "free g = avail s"
    and "sched_wf s" and "is_worker tid s" and "roles_ok tasks_total g"
    and "on_task pc = Some t \<Longrightarrow> tl_current_task s tid = Some t" and "on_task pc = Some t \<Longrightarrow> parent_task (task_at s t) \<noteq> None"
  using assms reachableD(1) [of tasks_total g] by (simp_all add: sim_def agrees_def on_ok_def)

lemma on_ok_keep:
  assumes "on_ok tid pc s" and "on_task pc' = on_task pc \<or> on_task pc' = None" and "tl_current_task s' tid = tl_current_task s tid"
    and "\<And>u. parent_task (task_at s' u) = parent_task (task_at s u)"
  shows "on_ok tid pc' s'"
  using assms by (elim disjE) (simp_all add: on_ok_def)

text \<open>A task that the worker holds, or whose count it is about to drop, is in use, and its fields agree.\<close>

definition held :: "graph_pc \<Rightarrow> task_ref \<Rightarrow> bool" where
  "held pc t \<longleftrightarrow> t \<in> pc_tasks pc \<or> pc = WClimb t"

lemma held_live:
  assumes "sim tid pc s g" and "held pc t"
  shows "t < tasks_total" and "t \<notin> avail s" and "task_agrees (task_at s t) (deps g t) (fn g t) (parent g t)"
proof -
  note D = simD [OF assms(1)]
  have "t < tasks_total \<and> t \<notin> free g"
    using assms(2) owned_live(2,3) [OF D(7), of t tid] climber_live [OF D(1), of tid t] D(2) by (auto simp: held_def)
  then show "t < tasks_total" "t \<notin> avail s" using D(4) by simp_all
  then show "task_agrees (task_at s t) (deps g t) (fn g t) (parent g t)"
    using assms(1) by (simp add: sim_def agrees_def)
qed

lemma sim_parent:
  assumes "sim tid pc s g" and "on_task pc = Some t"
  shows "parent g t \<noteq> None" and "held pc t"
proof -
  show held: "held pc t" using assms(2) by (cases pc) (simp_all add: held_def)
  show "parent g t \<noteq> None"
    using held_live(3) [OF assms(1) held] simD(9) [OF assms] by (simp add: task_agrees_def)
qed

text \<open>\<open>follows tid pc s pc' s'\<close>: what the code did from \<open>s\<close> to \<open>s'\<close> is a sequence of steps of the graph.\<close>

definition follows :: "nat \<Rightarrow> graph_pc \<Rightarrow> sched \<Rightarrow> graph_pc \<Rightarrow> sched \<Rightarrow> bool" where
  "follows tid pc s pc' s' \<longleftrightarrow> (\<forall>g. sim tid pc s g \<longrightarrow> (\<exists>g'. graph_step\<^sup>*\<^sup>* g g' \<and> sim tid pc' s' g'))"

lemma followsI: "(\<And>g. sim tid pc s g \<Longrightarrow> \<exists>g'. graph_step\<^sup>*\<^sup>* g g' \<and> sim tid pc' s' g') \<Longrightarrow> follows tid pc s pc' s'"
  by (simp add: follows_def)

lemma follows_from: "(\<And>g. sim tid pc s g \<Longrightarrow> follows tid pc s pc' s') \<Longrightarrow> follows tid pc s pc' s'"
  by (auto simp: follows_def)

lemma follows_refl [simp]: "follows tid pc s pc s"
  by (auto simp: follows_def)

lemma follows_trans [trans]: "follows tid pc s pc' s' \<Longrightarrow> follows tid pc' s' pc'' s'' \<Longrightarrow> follows tid pc s pc'' s''"
  unfolding follows_def by (meson rtranclp_trans)

text \<open>No step: the part of the state that the graph sees is the same.\<close>

lemma follows_same:
  assumes "worker_pool s' = worker_pool s" and "avail s' = avail s" and "sched_wf s \<Longrightarrow> sched_wf s'"
    and "\<And>t. task_at s' t = (task_at s t)\<lparr>task_payload := p t\<rparr> \<or> task_at s' t = task_at s t"
    and "tl_current_task s' tid = tl_current_task s tid"
  shows "follows tid pc s pc s'"
proof (rule followsI)
  have same: "task_agrees (task_at s' t) d f q = task_agrees (task_at s t) d f q" "parent_task (task_at s' t) = parent_task (task_at s t)" for t d f q
    using assms(4) [of t] by (auto simp: task_agrees_def)
  fix g assume "sim tid pc s g"
  then have "sim tid pc s' g"
    using assms(1-3,5) by (simp add: sim_def agrees_def on_ok_def same queued_tasks_def is_worker_def)
  then show "\<exists>g'. graph_step\<^sup>*\<^sup>* g g' \<and> sim tid pc s' g'" by blast
qed

text \<open>One step of the graph.\<close>

lemma follows_step:
  assumes "\<And>g. sim tid pc s g \<Longrightarrow> \<exists>g'. graph_step g g' \<and> wpc g' = (wpc g)(tid := pc') \<and> agrees s' g'
      \<and> sched_wf s' \<and> is_worker tid s' \<and> on_ok tid pc' s'"
  shows "follows tid pc s pc' s'"
proof (rule followsI)
  fix g assume g: "sim tid pc s g"
  from assms [OF g] obtain g' where g': "graph_step g g'" "wpc g' = (wpc g)(tid := pc')" "agrees s' g'"
      "sched_wf s'" "is_worker tid s'" "on_ok tid pc' s'" by blast
  have "sim tid pc' s' g'"
    using g g' by (auto simp: sim_def intro: rtranclp.rtrancl_into_rtrancl)
  with g'(1) show "\<exists>g'. graph_step\<^sup>*\<^sup>* g g' \<and> sim tid pc' s' g'" by blast
qed

lemma agreesI:
  assumes "sim tid pc s g" and "queue g' = queued_tasks s'" and "free g' = avail s'"
    and "\<And>t. t < tasks_total \<Longrightarrow> t \<notin> avail s' \<Longrightarrow> (t \<notin> avail s \<Longrightarrow> task_agrees (task_at s t) (deps g t) (fn g t) (parent g t))
      \<Longrightarrow> task_agrees (task_at s' t) (deps g' t) (fn g' t) (parent g' t)"
  shows "agrees s' g'"
  using assms by (simp add: agrees_def sim_def)

lemma queued_same: "worker_pool s' = worker_pool s \<Longrightarrow> queued_tasks s' = queued_tasks s"
  by (simp add: queued_tasks_def)

lemma queued_upd [simp]: "queued_tasks (upd_task t f s) = queued_tasks s"
  and queued_release [simp]: "queued_tasks (release tid t s) = queued_tasks s"
  and queued_current [simp]: "queued_tasks (s\<lparr>tl_current_task := c\<rparr>) = queued_tasks s"
  by (simp_all add: queued_tasks_def release_def)

lemma is_worker_pool: "worker_pool s' = worker_pool s \<Longrightarrow> is_worker tid s' = is_worker tid s"
  by (simp add: is_worker_def)

lemma is_worker_release [simp]: "is_worker i (release tid t s) = is_worker i s"
  and current_release [simp]: "tl_current_task (release tid t s) = tl_current_task s"
  by (simp_all add: is_worker_def release_def)

lemma release_agrees:
  assumes "sched_wf s" and "t < tasks_total" and "t \<notin> avail s"
  shows "task_agrees (task_at (release tid t s) u) d f p = task_agrees (task_at s u) d f p"
    and "parent_task (task_at (release tid t s) u) = parent_task (task_at s u)"
proof -
  have "same_task (task_at (release tid t s) u) (task_at s u)"
    using release_sched(4) [OF assms] by (simp add: same_task_def)
  note F = same_task_fields [OF this]
  show "task_agrees (task_at (release tid t s) u) d f p = task_agrees (task_at s u) d f p"
    "parent_task (task_at (release tid t s) u) = parent_task (task_at s u)"
    using F by (simp_all add: task_agrees_def)
qed

section \<open>The primitive operations\<close>

text \<open>A new child, allocated and filled in.\<close>

definition makes_child :: "task_ref \<Rightarrow> sc_fn \<Rightarrow> (sc_task \<Rightarrow> sc_task) \<Rightarrow> bool" where
  "makes_child t f F \<longleftrightarrow> (\<forall>x. next_free_idx (F x) = next_free_idx x \<and> task_agrees (F x) 1 (Some f) (Some t))"

lemma follows_alloc:
  assumes acq: "acquire tid s = (Some c, s1)" and F: "makes_child t f F" and f: "f \<noteq> HookFn"
  shows "follows tid (WRun t m R cs) s (WRun t m R (cs @ [c])) (upd_task c F s1)"
proof (rule follows_step)
  fix g assume g: "sim tid (WRun t m R cs) s g"
  note D = simD [OF g]
  note A = acquire_sched [OF D(5) acq]
  have c: "c \<in> avail s" "avail s1 = avail s - {c}" using A(5) by simp_all
  have on: "on_task (WRun t m R cs) = Some t" by simp
  have t: "t \<notin> avail s" "t < tasks_total" using held_live [OF g sim_parent(2) [OF g on]] by simp_all
  have link: "next_free_idx (F x) = next_free_idx x" for x using F by (simp add: makes_child_def)
  have same: "worker_pool s1 = worker_pool s" "tl_current_task s1 = tl_current_task s" by (subst A(2), simp)+
  let ?s = "upd_task c F s1"
  let ?g = "g\<lparr>free := free g - {c}, deps := (deps g)(c := 1), fn := (fn g)(c := Some f), parent := (parent g)(c := Some t),
      wpc := (wpc g)(tid := WRun t m R (cs @ [c])), role := (role g)(c := Fresh tid), depth := (depth g)(c := depth g t + 1)\<rparr>"
  have "graph_step g ?g"
    using D(2) sim_parent(1) [OF g on] c(1) D(4) f by (intro graph_step.alloc) simp_all
  moreover have "agrees ?s ?g"
  proof (rule agreesI [OF g])
    show "queue ?g = queued_tasks ?s" using queued_same [OF same(1)] D(3) by simp
    show "free ?g = avail ?s" using D(4) c(2) by (simp add: upd_task_pool(2) [OF link])
    have avail: "avail ?s = avail s - {c}" using c(2) by (simp add: upd_task_pool(2) [OF link])
    show "task_agrees (task_at ?s u) (deps ?g u) (fn ?g u) (parent ?g u)"
      if "u \<notin> avail ?s" "u \<notin> avail s \<Longrightarrow> task_agrees (task_at s u) (deps g u) (fn g u) (parent g u)" for u
      using that F A(3) unfolding avail by (cases "u = c") (simp_all add: makes_child_def)
  qed
  moreover have "on_ok tid (WRun t m R (cs @ [c])) ?s"
    using D(8,9) [OF on] c(1) t(1) same A(3) by (auto simp: on_ok_def)
  ultimately show "\<exists>g'. graph_step g g' \<and> wpc g' = (wpc g)(tid := WRun t m R (cs @ [c])) \<and> agrees ?s g'
      \<and> sched_wf ?s \<and> is_worker tid ?s \<and> on_ok tid (WRun t m R (cs @ [c])) ?s"
    using A(1) D(6) same by (intro exI [of _ ?g]) (simp add: upd_task_pool(1) [OF link] is_worker_pool [OF same(1)])
qed

text \<open>Counting the children.\<close>

lemma follows_count:
  assumes "cs \<noteq> []"
  shows "follows tid (WRun t m R cs) s (WPush t m R cs) (upd_task t (add_deps (word_of_nat (length cs))) s)"
proof (rule follows_step)
  let ?s = "upd_task t (add_deps (word_of_nat (length cs))) s"
  fix g assume g: "sim tid (WRun t m R cs) s g"
  note D = simD [OF g]
  have on: "on_task (WRun t m R cs) = Some t" by simp
  let ?g = "g\<lparr>deps := (deps g)(t := deps g t + int (length cs)), wpc := (wpc g)(tid := WPush t m R cs),
      role := set_roles cs (Counted tid) (role g)\<rparr>"
  have "graph_step g ?g" using D(2) assms by (rule graph_step.count)
  moreover have "agrees ?s ?g"
    by (rule agreesI [OF g]) (use D(3,4) in \<open>auto simp: upd_task_pool task_agrees_def\<close>)
  moreover have "on_ok tid (WPush t m R cs) ?s" using D(8,9) [OF on] by (simp add: on_ok_def)
  ultimately show "\<exists>g'. graph_step g g' \<and> wpc g' = (wpc g)(tid := WPush t m R cs) \<and> agrees ?s g'
      \<and> sched_wf ?s \<and> is_worker tid ?s \<and> on_ok tid (WPush t m R cs) ?s"
    using D(5,6) by (intro exI [of _ ?g]) (simp add: upd_task_pool)
qed

text \<open>Taking rejected children off the count again.\<close>

lemma follows_uncount:
  "follows tid (WReject t m R cs) s (WRun t m (R @ cs) []) (upd_task t (sub_deps (word_of_nat (length cs))) s)"
proof (rule follows_step)
  let ?s = "upd_task t (sub_deps (word_of_nat (length cs))) s"
  fix g assume g: "sim tid (WReject t m R cs) s g"
  note D = simD [OF g]
  have on: "on_task (WReject t m R cs) = Some t" by simp
  let ?g = "g\<lparr>deps := (deps g)(t := deps g t - int (length cs)), wpc := (wpc g)(tid := WRun t m (R @ cs) []),
      role := set_roles cs (Fresh tid) (role g)\<rparr>"
  have "graph_step g ?g" using D(2) by (rule graph_step.uncount)
  moreover have "agrees ?s ?g"
    by (rule agreesI [OF g]) (use D(3,4) in \<open>auto simp: upd_task_pool task_agrees_def\<close>)
  moreover have "on_ok tid (WRun t m (R @ cs) []) ?s" using D(8,9) [OF on] by (simp add: on_ok_def)
  ultimately show "\<exists>g'. graph_step g g' \<and> wpc g' = (wpc g)(tid := WRun t m (R @ cs) []) \<and> agrees ?s g'
      \<and> sched_wf ?s \<and> is_worker tid ?s \<and> on_ok tid (WRun t m (R @ cs) []) ?s"
    using D(5,6) by (intro exI [of _ ?g]) (simp add: upd_task_pool)
qed

lemma follows_rejected:
  assumes "c \<in> set R"
  shows "follows tid (WRun t m R []) s (WRun t m (remove1 c R) []) (release tid c s)"
proof (rule follows_step)
  fix g assume g: "sim tid (WRun t m R []) s g"
  note D = simD [OF g]
  have on: "on_task (WRun t m R []) = Some t" by simp
  have c: "c < tasks_total" "c \<notin> avail s" using held_live [OF g, of c] assms by (simp_all add: held_def)
  note rel = release_sched [OF D(5) c, of tid] and same = release_agrees [OF D(5) c, of tid]
  let ?g = "g\<lparr>free := insert c (free g), wpc := (wpc g)(tid := WRun t m (remove1 c R) []), role := (role g)(c := Free)\<rparr>"
  have "graph_step g ?g" using D(2) assms by (rule graph_step.rejected_done)
  moreover have "agrees (release tid c s) ?g"
    by (rule agreesI [OF g]) (use D(3,4) rel same in auto)
  moreover have "on_ok tid (WRun t m (remove1 c R) []) (release tid c s)" using D(8,9) [OF on] same by (simp add: on_ok_def)
  ultimately show "\<exists>g'. graph_step g g' \<and> wpc g' = (wpc g)(tid := WRun t m (remove1 c R) []) \<and> agrees (release tid c s) g'
      \<and> sched_wf (release tid c s) \<and> is_worker tid (release tid c s) \<and> on_ok tid (WRun t m (remove1 c R) []) (release tid c s)"
    using D(6) rel by (intro exI [of _ ?g]) simp
qed

text \<open>A continuation of the task that runs.\<close>

lemma follows_continuation:
  assumes "scheduler_set_continuation tid f s = Some s'" and "f \<noteq> HookFn"
  shows "follows tid (WRun t m R cs) s (WRun t m R cs) s'"
proof (rule follows_step)
  fix g assume g: "sim tid (WRun t m R cs) s g"
  note D = simD [OF g]
  have on: "on_task (WRun t m R cs) = Some t" by simp
  have s': "s' = upd_task t (task_fn_update (\<lambda>_. Some f)) s"
    using assms(1) D(8) [OF on] by (simp add: scheduler_set_continuation_def)
  let ?g = "g\<lparr>fn := (fn g)(t := Some f)\<rparr>"
  have "graph_step g ?g" using D(2) sim_parent(1) [OF g on] assms(2) by (rule graph_step.continuation)
  moreover have "agrees s' ?g"
    by (rule agreesI [OF g]) (use D(3,4) in \<open>auto simp: s' upd_task_pool task_agrees_def\<close>)
  moreover have "on_ok tid (WRun t m R cs) s'" using D(8,9) [OF on] by (simp add: on_ok_def s')
  ultimately show "\<exists>g'. graph_step g g' \<and> wpc g' = (wpc g)(tid := WRun t m R cs) \<and> agrees s' g'
      \<and> sched_wf s' \<and> is_worker tid s' \<and> on_ok tid (WRun t m R cs) s'"
    using D(2,5,6) by (intro exI [of _ ?g]) (auto simp: s' upd_task_pool)
qed

text \<open>Offering tasks to the worker's own deque.\<close>

lemma new_deque:
  assumes "sched_wf s" and "worker_pool s = Some ws" and "i < length ws" and "deque_inv d"
    and "mset (deque_items d) = mset (deque_items (cl_deque (ws ! i))) + M"
  defines "s' \<equiv> s\<lparr>worker_pool := Some (ws[i := (ws ! i)\<lparr>cl_deque := d\<rparr>])\<rparr>"
  shows "queued_tasks s' = queued_tasks s + M" and "sched_wf s'"
proof -
  have ok: "worker_ok w" if "w \<in> set ws" for w using assms(1,2) that by (auto simp: sched_wf_def)
  then have "worker_ok (ws ! i)" using assms(3) by simp
  note K = with_deque [OF this assms(4)]
  let ?w = "(ws ! i)\<lparr>cl_deque := d\<rparr>"
  have "worker_queued ?w = worker_queued (ws ! i) + M" using K(2) assms(5) by (simp add: worker_queued_def)
  moreover have "queued_tasks s' + worker_queued (ws ! i) = queued_tasks s + worker_queued ?w"
    using sum_update [OF assms(3)] by (simp add: s'_def queued_tasks_def assms(2))
  ultimately show "queued_tasks s' = queued_tasks s + M" by (simp add: ac_simps)
  show "sched_wf s'"
    using assms(1,2) ok K(1) by (auto simp: s'_def sched_wf_def dest!: set_update_subset_insert [THEN subsetD])
qed

lemma push_batch_queued:
  assumes "sched_wf s" and "deque_push_batch tid ts s = Some (n, s')"
  shows "n \<le> length ts" and "queued_tasks s' = queued_tasks s + mset (take n ts)" and "sched_wf s'"
    and "s' = s\<lparr>worker_pool := worker_pool s'\<rparr>" and "is_worker i s' = is_worker i s"
proof -
  obtain ws d where ws: "worker_pool s = Some ws" "tid < length ws" "chase_lev_push_batch (cl_deque (ws ! tid)) ts = (n, d)"
      "s' = s\<lparr>worker_pool := Some (ws[tid := (ws ! tid)\<lparr>cl_deque := d\<rparr>])\<rparr>"
    using assms(2) by (auto simp: deque_push_batch_def split: option.splits if_splits prod.splits)
  have "deque_inv (cl_deque (ws ! tid))" using assms(1) ws(1,2) by (auto simp: sched_wf_def worker_ok_def)
  note R = push_batch_result [OF this refl, of ts, unfolded ws(3)]
  show "n \<le> length ts" "s' = s\<lparr>worker_pool := worker_pool s'\<rparr>" "is_worker i s' = is_worker i s"
    using R ws by (simp_all add: is_worker_def)
  show "queued_tasks s' = queued_tasks s + mset (take n ts)" "sched_wf s'"
    using new_deque [OF assms(1) ws(1,2), of d "mset (take n ts)"] R ws(4) by simp_all
qed

lemma push_queued:
  assumes "sched_wf s" and "deque_push tid t s = Some (ok, s')"
  shows "queued_tasks s' = queued_tasks s + (if ok then {#t#} else {#})" and "sched_wf s'"
    and "s' = s\<lparr>worker_pool := worker_pool s'\<rparr>" and "is_worker i s' = is_worker i s"
proof -
  obtain ws d where ws: "worker_pool s = Some ws" "tid < length ws" "chase_lev_push (cl_deque (ws ! tid)) t = (ok, d)"
      "s' = s\<lparr>worker_pool := Some (ws[tid := (ws ! tid)\<lparr>cl_deque := d\<rparr>])\<rparr>"
    using assms(2) by (auto simp: deque_push_def split: option.splits if_splits prod.splits)
  have inv: "deque_inv (cl_deque (ws ! tid))" using assms(1) ws(1,2) by (auto simp: sched_wf_def worker_ok_def)
  show "s' = s\<lparr>worker_pool := worker_pool s'\<rparr>" "is_worker i s' = is_worker i s" using ws by (simp_all add: is_worker_def)
  show "queued_tasks s' = queued_tasks s + (if ok then {#t#} else {#})" "sched_wf s'"
    using new_deque [OF assms(1) ws(1,2), of d "if ok then {#t#} else {#}"] ws(4)
      cl.push_keeps [OF inv, of t] cl.push_result [OF inv, of t] cl.push_items [OF inv, of t] ws(3)
    by (simp_all split: if_splits)
qed

text \<open>A state whose only change is in the worker pool.\<close>

lemma follows_pool_step:
  assumes only: "s' = s\<lparr>worker_pool := worker_pool s'\<rparr>" and pc: "on_task pc' = on_task pc \<or> on_task pc' = None"
    and step: "\<And>g. sim tid pc s g \<Longrightarrow> sched_wf s' \<and> is_worker tid s' \<and> graph_step g
      (g\<lparr>queue := queued_tasks s', wpc := (wpc g)(tid := pc'), role := ro g\<rparr>)"
  shows "follows tid pc s pc' s'"
proof (rule follows_step)
  fix g assume g: "sim tid pc s g"
  note D = simD [OF g]
  have same: "avail s' = avail s" "task_at s' u = task_at s u" "tl_current_task s' = tl_current_task s" for u
    by (subst only, simp add: task_at_def)+
  let ?g = "g\<lparr>queue := queued_tasks s', wpc := (wpc g)(tid := pc'), role := ro g\<rparr>"
  have "agrees s' ?g" by (rule agreesI [OF g]) (use D(4) same in auto)
  moreover have "on_ok tid pc' s'" using g same by (intro on_ok_keep [OF _ pc]) (simp_all add: sim_def)
  ultimately show "\<exists>g'. graph_step g g' \<and> wpc g' = (wpc g)(tid := pc') \<and> agrees s' g' \<and> sched_wf s' \<and> is_worker tid s' \<and> on_ok tid pc' s'"
    using step [OF g] by (intro exI [of _ ?g]) simp
qed

lemma follows_push_batch:
  assumes "deque_push_batch tid cs s = Some (n, s')"
  shows "follows tid (WPush t m R cs) s (if n = length cs then WRun t m R [] else WReject t m R (drop n cs)) s'"
proof (rule follows_from)
  fix g assume "sim tid (WPush t m R cs) s g"
  note P = push_batch_queued [OF simD(5) [OF this] assms]
  show "follows tid (WPush t m R cs) s (if n = length cs then WRun t m R [] else WReject t m R (drop n cs)) s'"
  proof (rule follows_pool_step [OF P(4), where ro = "\<lambda>g. set_roles (take n cs) Queued (role g)"])
    fix g assume g: "sim tid (WPush t m R cs) s g"
    from graph_step.push [OF simD(2) [OF g] P(1)] show "sched_wf s' \<and> is_worker tid s' \<and> graph_step g
        (g\<lparr>queue := queued_tasks s', wpc := (wpc g)(tid := if n = length cs then WRun t m R [] else WReject t m R (drop n cs)),
          role := set_roles (take n cs) Queued (role g)\<rparr>)"
      using P(2,3) P(5) [of tid] simD(3,6) [OF g] by simp
  qed simp
qed

lemma follows_push:
  assumes "deque_push tid c s = Some (ok, s')"
  shows "follows tid (WPush t m R [c]) s (if ok then WRun t m R [] else WReject t m R [c]) s'"
proof (rule follows_from)
  fix g assume "sim tid (WPush t m R [c]) s g"
  note P = push_queued [OF simD(5) [OF this] assms]
  show "follows tid (WPush t m R [c]) s (if ok then WRun t m R [] else WReject t m R [c]) s'"
  proof (rule follows_pool_step [OF P(3), where ro = "\<lambda>g. set_roles (if ok then [c] else []) Queued (role g)"])
    fix g assume g: "sim tid (WPush t m R [c]) s g"
    have "(if ok then 1 else 0) \<le> length [c]" by simp
    from graph_step.push [OF simD(2) [OF g] this] show "sched_wf s' \<and> is_worker tid s' \<and> graph_step g
        (g\<lparr>queue := queued_tasks s', wpc := (wpc g)(tid := if ok then WRun t m R [] else WReject t m R [c]),
          role := set_roles (if ok then [c] else []) Queued (role g)\<rparr>)"
      using P(1,2) P(4) [of tid] simD(3,6) [OF g] by (cases ok) simp_all
  qed simp
qed

text \<open>A step that changes the count or the function of one task in use.\<close>

definition touches_task :: "task_ref \<Rightarrow> nat \<Rightarrow> graph_pc \<Rightarrow> sc_task \<Rightarrow> graph \<Rightarrow> graph \<Rightarrow> bool" where
  "touches_task t tid pc' x g g' \<longleftrightarrow> graph_step g g' \<and> queue g' = queue g \<and> free g' = free g \<and> wpc g' = (wpc g)(tid := pc')
     \<and> (\<forall>u. u \<noteq> t \<longrightarrow> deps g' u = deps g u \<and> fn g' u = fn g u) \<and> parent g' = parent g
     \<and> task_agrees x (deps g' t) (fn g' t) (parent g t)"

lemma touches_taskI:
  assumes "graph_step g g'" and "queue g' = queue g" and "free g' = free g" and "wpc g' = (wpc g)(tid := pc')"
    and "\<And>u. u \<noteq> t \<Longrightarrow> deps g' u = deps g u \<and> fn g' u = fn g u" and "parent g' = parent g"
    and "task_agrees x (deps g' t) (fn g' t) (parent g t)"
  shows "\<exists>g'. touches_task t tid pc' x g g'"
  using assms unfolding touches_task_def by blast

lemma follows_task_step:
  assumes F: "\<And>x. next_free_idx (F x) = next_free_idx x \<and> parent_task (F x) = parent_task x"
    and pc: "on_task pc' = on_task pc \<or> on_task pc' = None" and t: "held pc t"
    and step: "\<And>g. sim tid pc s g \<Longrightarrow> task_agrees (task_at s t) (deps g t) (fn g t) (parent g t) \<Longrightarrow>
      \<exists>g'. touches_task t tid pc' (F (task_at s t)) g g'"
  shows "follows tid pc s pc' (upd_task t F s)"
proof (rule follows_step)
  fix g assume g: "sim tid pc s g"
  note D = simD [OF g]
  have link: "next_free_idx (F x) = next_free_idx x" for x using F by simp
  obtain g' where "touches_task t tid pc' (F (task_at s t)) g g'" using step [OF g held_live(3) [OF g t]] by blast
  then have g': "graph_step g g'" "queue g' = queue g" "free g' = free g" "wpc g' = (wpc g)(tid := pc')"
      "\<And>u. u \<noteq> t \<Longrightarrow> deps g' u = deps g u \<and> fn g' u = fn g u" "parent g' = parent g"
      "task_agrees (F (task_at s t)) (deps g' t) (fn g' t) (parent g t)"
    by (simp_all add: touches_task_def)
  have "agrees (upd_task t F s) g'"
    by (rule agreesI [OF g]) (use g' D(3,4) in \<open>auto simp: upd_task_pool(2) [OF link]\<close>)
  moreover have "on_ok tid pc' (upd_task t F s)" using g F by (intro on_ok_keep [OF _ pc]) (auto simp: sim_def)
  ultimately show "\<exists>g'. graph_step g g' \<and> wpc g' = (wpc g)(tid := pc') \<and> agrees (upd_task t F s) g'
      \<and> sched_wf (upd_task t F s) \<and> is_worker tid (upd_task t F s) \<and> on_ok tid pc' (upd_task t F s)"
    using g'(1,4) D(5,6) by (intro exI [of _ g']) (simp add: upd_task_pool(1) [OF link])
qed

text \<open>The counts are small enough to be compared as words.\<close>

lemma one_dep:
  assumes "sim tid pc s g" and "held pc t"
  shows "unfinished_dependencies (task_at s t) = 1 \<longleftrightarrow> deps g t = 1"
proof -
  note D = simD [OF assms(1)] and H = held_live [OF assms]
  have "t \<notin> free g" using H(2) D(4) by simp
  note B = counts_bounded [OF D(1) H(1) this, of tid Body "[]" "[]"]
  have "{w. wpc g w \<noteq> WIdle} \<subseteq> {tid}" using assms(1) by (auto simp: sim_def)
  from card_mono [OF _ this] have "card {w. wpc g w \<noteq> WIdle} \<le> 1" by simp
  with B have "0 \<le> deps g t" "deps g t < 2 ^ 64" by (simp_all add: global_task_capacity_def)
  then have "uint (word_of_int (deps g t) :: size_t) = deps g t" by (simp add: uint_word_of_int)
  then have "word_of_int (deps g t) = (1 :: size_t) \<longleftrightarrow> deps g t = 1" by (metis uint_1 word_of_int_1)
  with H(3) show ?thesis by (simp add: task_agrees_def)
qed

section \<open>The steps of the loop body\<close>

lemma follows_start:
  assumes "task_fn (task_at s t) = Some f"
  shows "follows tid (WTake t) s (WRun t Body [] []) (clear_fn t s)"
proof (rule follows_task_step)
  fix g assume g: "sim tid (WTake t) s g" and T: "task_agrees (task_at s t) (deps g t) (fn g t) (parent g t)"
  then have "fn g t = Some f" using assms by (simp add: task_agrees_def)
  from graph_step.start [OF simD(2) [OF g] this] show "\<exists>g'. touches_task t tid (WRun t Body [] []) ((task_at s t)\<lparr>task_fn := None\<rparr>) g g'"
    by (rule touches_taskI) (use T in \<open>simp_all add: task_agrees_def\<close>)
qed (simp_all add: held_def)

lemma follows_again:
  assumes "task_fn (task_at s t) = Some f"
  shows "follows tid (WLast t) s (WRun t Body [] []) (relock t (clear_fn t s))"
proof -
  let ?F = "\<lambda>x. x\<lparr>task_fn := None, unfinished_dependencies := 1\<rparr>"
  have "follows tid (WLast t) s (WRun t Body [] []) (upd_task t ?F s)"
  proof (rule follows_task_step)
    fix g assume g: "sim tid (WLast t) s g" and T: "task_agrees (task_at s t) (deps g t) (fn g t) (parent g t)"
    then have "fn g t = Some f" using assms by (simp add: task_agrees_def)
    from graph_step.again [OF simD(2) [OF g] this] show "\<exists>g'. touches_task t tid (WRun t Body [] []) (?F (task_at s t)) g g'"
      by (rule touches_taskI) (use T in \<open>simp_all add: task_agrees_def\<close>)
  qed (simp_all add: held_def)
  moreover have "relock t (clear_fn t s) = upd_task t ?F s" by (simp add: upd_task_def task_at_def)
  ultimately show ?thesis by simp
qed

lemma follows_relock:
  assumes "task_fn (task_at s p) = Some f"
  shows "follows tid (WAtParent p) s (WPark p) (relock p s)"
proof (rule follows_task_step)
  fix g assume g: "sim tid (WAtParent p) s g" and T: "task_agrees (task_at s p) (deps g p) (fn g p) (parent g p)"
  then have "fn g p = Some f" using assms by (simp add: task_agrees_def)
  from graph_step.relock [OF simD(2) [OF g] this] show "\<exists>g'. touches_task p tid (WPark p) ((task_at s p)\<lparr>unfinished_dependencies := 1\<rparr>) g g'"
    by (rule touches_taskI) (use T in \<open>simp_all add: task_agrees_def\<close>)
qed (simp_all add: held_def)

lemma follows_drop:
  assumes drop: "drop_dep t s = (r, s')"
    and step: "\<And>g. sim tid pc s g \<Longrightarrow> graph_step g
      (g\<lparr>deps := (deps g)(t := deps g t - 1), wpc := (wpc g)(tid := if deps g t = 1 then pc1 else WIdle), role := ro g\<rparr>)"
    and pc: "on_task pc1 = on_task pc \<or> on_task pc1 = None" and t: "held pc t"
  shows "follows tid pc s (if r = 1 then pc1 else WIdle) s'"
proof -
  have s': "r = unfinished_dependencies (task_at s t)" "s' = upd_task t (sub_deps 1) s" using drop by (simp_all add: drop_dep_def)
  show ?thesis
    unfolding s'(2)
  proof (rule follows_task_step)
    fix g assume g: "sim tid pc s g" and T: "task_agrees (task_at s t) (deps g t) (fn g t) (parent g t)"
    have one: "(if deps g t = 1 then pc1 else WIdle) = (if r = 1 then pc1 else WIdle)" using one_dep [OF g t] s'(1) by simp
    from step [OF g] show "\<exists>g'. touches_task t tid (if r = 1 then pc1 else WIdle) (sub_deps 1 (task_at s t)) g g'"
      by (rule touches_taskI) (use T one in \<open>simp_all add: task_agrees_def\<close>)
  qed (use pc t in simp_all)
qed

lemma follows_return:
  assumes "drop_dep t s = (r, s')"
  shows "follows tid (WRun t m [] []) s (if r = 1 then last_pc m t else WIdle) s'"
proof (rule follows_drop [OF assms, where ro = "\<lambda>g. (role g)(t := if deps g t = 1 then Ending tid else Waiting)"])
  fix g assume "sim tid (WRun t m [] []) s g"
  from graph_step.return [OF simD(2) [OF this]] show "graph_step g (g\<lparr>deps := (deps g)(t := deps g t - 1),
      wpc := (wpc g)(tid := if deps g t = 1 then last_pc m t else WIdle), role := (role g)(t := if deps g t = 1 then Ending tid else Waiting)\<rparr>)" .
qed (cases m; simp add: held_def)+

lemma follows_climb:
  assumes "drop_dep p s = (r, s')"
  shows "follows tid (WClimb p) s (if r = 1 then WAtParent p else WIdle) s'"
proof (rule follows_drop [OF assms, where ro = "\<lambda>g. (role g)(p := if deps g p = 1 then Ending tid else role g p)"])
  fix g assume "sim tid (WClimb p) s g"
  from graph_step.climb [OF simD(2) [OF this]] show "graph_step g (g\<lparr>deps := (deps g)(p := deps g p - 1),
      wpc := (wpc g)(tid := if deps g p = 1 then WAtParent p else WIdle), role := (role g)(p := if deps g p = 1 then Ending tid else role g p)\<rparr>)" .
qed (simp_all add: held_def)

lemma follows_finish:
  assumes "pc = WLast t \<or> pc = WAtParent t" and "task_fn (task_at s t) = None"
  shows "follows tid pc s (after_release (parent_task (task_at s t))) (release tid t s)"
proof (rule follows_step)
  let ?s = "release tid t s" and ?pc = "after_release (parent_task (task_at s t))"
  fix g assume g: "sim tid pc s g"
  note D = simD [OF g]
  have t: "held pc t" using assms(1) by (auto simp: held_def)
  note H = held_live [OF g t]
  note rel = release_sched [OF D(5) H(1,2), of tid] and same = release_agrees [OF D(5) H(1,2), of tid]
  let ?g = "g\<lparr>free := insert t (free g), wpc := (wpc g)(tid := after_release (parent g t)), role := (role g)(t := Free)\<rparr>"
  have at: "wpc g tid = WLast t \<or> wpc g tid = WAtParent t" "fn g t = None" "parent g t = parent_task (task_at s t)"
    using assms D(2) H(3) by (auto simp: task_agrees_def)
  have "graph_step g ?g" using at(1,2) by (rule graph_step.finish)
  moreover have "wpc ?g = (wpc g)(tid := ?pc)" using at(3) by simp
  moreover have "agrees ?s ?g" by (rule agreesI [OF g]) (use D(3,4) rel same in auto)
  moreover have "on_ok tid ?pc ?s" by (cases "parent_task (task_at s t)") (simp_all add: on_ok_def)
  ultimately show "\<exists>g'. graph_step g g' \<and> wpc g' = (wpc g)(tid := ?pc) \<and> agrees ?s g' \<and> sched_wf ?s \<and> is_worker tid ?s \<and> on_ok tid ?pc ?s"
    using D(6) rel by (intro exI [of _ ?g]) simp
qed

text \<open>Queueing the parent, or running its function inline.\<close>

lemma follows_park:
  assumes "deque_push tid p s = Some (ok, s')" and "parent_task (task_at s p) \<noteq> None"
  shows "follows tid (WPark p) s (if ok then WIdle else WPark p) s'"
proof (rule follows_from)
  fix g assume g: "sim tid (WPark p) s g"
  note D = simD [OF g] and P = push_queued [OF simD(5) [OF g] assms(1)]
  show "follows tid (WPark p) s (if ok then WIdle else WPark p) s'"
  proof (cases ok)
    case True
    show ?thesis
    proof (rule follows_pool_step [OF P(3), where ro = "\<lambda>g. (role g)(p := Queued)"])
      fix g assume g: "sim tid (WPark p) s g"
      have "parent g p \<noteq> None" using held_live(3) [OF g, of p] assms(2) by (simp add: held_def task_agrees_def)
      from graph_step.park [OF simD(2) [OF g] this] show "sched_wf s' \<and> is_worker tid s' \<and> graph_step g
          (g\<lparr>queue := queued_tasks s', wpc := (wpc g)(tid := if ok then WIdle else WPark p), role := (role g)(p := Queued)\<rparr>)"
        using P(1,2) P(4) [of tid] simD(3,6) [OF g] True by simp
    qed simp
  next
    case False
    show ?thesis
    proof (rule followsI)
      fix g assume g: "sim tid (WPark p) s g"
      have "avail s' = avail s" "task_at s' u = task_at s u" for u by (subst P(3), simp add: task_at_def)+
      then have "sim tid (WPark p) s' g"
        using g P(1,2,4) False by (simp add: sim_def agrees_def on_ok_def)
      with False show "\<exists>g'. graph_step\<^sup>*\<^sup>* g g' \<and> sim tid (if ok then WIdle else WPark p) s' g'" by auto
    qed
  qed
qed

lemma parked_parent:
  assumes "sim tid (WPark p) s g" and "task_fn (task_at s p) = Some f" and "f \<noteq> HookFn"
  shows "parent_task (task_at s p) \<noteq> None"
proof -
  note D = simD [OF assms(1)]
  have T: "task_agrees (task_at s p) (deps g p) (fn g p) (parent g p)" by (rule held_live(3) [OF assms(1)]) (simp add: held_def)
  have "role g p = Parking tid" using roles_okD(1) [OF D(7), of tid] D(2) by simp
  with reachableD(6) [OF D(1), of p] T assms(2,3) show ?thesis by (auto simp: root_at_def task_agrees_def)
qed

lemma follows_inline:
  assumes fn: "task_fn (task_at s p) = Some f" and f: "f \<noteq> HookFn"
  shows "follows tid (WPark p) s (WRun p InClimb [] []) (clear_fn p (set_current tid (Some p) s))"
proof (rule follows_step)
  let ?s = "clear_fn p (set_current tid (Some p) s)"
  fix g assume g: "sim tid (WPark p) s g"
  note D = simD [OF g]
  have T: "task_agrees (task_at s p) (deps g p) (fn g p) (parent g p)" by (rule held_live(3) [OF g]) (simp add: held_def)
  then have "fn g p = Some f" using fn by (simp add: task_agrees_def)
  let ?g = "g\<lparr>fn := (fn g)(p := None), wpc := (wpc g)(tid := WRun p InClimb [] []), role := (role g)(p := Running tid)\<rparr>"
  have "graph_step g ?g" using graph_step.inline [OF D(2) \<open>fn g p = Some f\<close>] f by simp
  moreover have at: "task_at (set_current tid c s) u = task_at s u" for c u by (simp add: task_at_def)
  then have "agrees ?s ?g"
    by (intro agreesI [OF g]) (use D(3,4) in \<open>auto simp: upd_task_pool task_agrees_def\<close>)
  moreover have "on_ok tid (WRun p InClimb [] []) ?s" using parked_parent [OF g fn f] at by (simp add: on_ok_def)
  ultimately show "\<exists>g'. graph_step g g' \<and> wpc g' = (wpc g)(tid := WRun p InClimb [] []) \<and> agrees ?s g'
      \<and> sched_wf ?s \<and> is_worker tid ?s \<and> on_ok tid (WRun p InClimb [] []) ?s"
    using D(5,6) by (intro exI [of _ ?g]) (simp add: upd_task_pool sched_wf_def is_worker_def)
qed

text \<open>The finishing hook: run inline on the root, and the root's own lock dropped.\<close>

lemma follows_hook:
  assumes fn: "task_fn (task_at s p) = Some HookFn"
    and hook: "hooked_job_finish_task q (clear_fn p (set_current tid (Some p) s)) = Some s2" and drop: "drop_dep p s2 = (r, s3)"
  shows "follows tid (WPark p) s (if r = 1 then WAtParent p else WIdle) s3"
proof (rule followsI)
  fix g assume g: "sim tid (WPark p) s g"
  note D = simD [OF g]
  have held: "held (WPark p) p" by (simp add: held_def)
  note T = held_live(3) [OF g held]
  obtain js where s2: "s2 = (clear_fn p (set_current tid (Some p) s))\<lparr>jobs := js\<rparr>"
    using hook by (auto simp: hooked_job_finish_task_def split: ptr.splits)
  have at2: "task_at s2 u = (if u = p then (task_at s p)\<lparr>task_fn := None\<rparr> else task_at s u)" for u
    by (simp add: s2 task_at_def upd_task_def)
  have s3: "r = unfinished_dependencies (task_at s p)" "s3 = upd_task p (sub_deps 1) s2"
    using drop at2 by (simp_all add: drop_dep_def)
  let ?pc = "if deps g p = 1 then WAtParent p else WIdle"
  let ?g1 = "g\<lparr>fn := (fn g)(p := None), wpc := (wpc g)(tid := WHook p), role := (role g)(p := Running tid)\<rparr>"
  let ?g2 = "?g1\<lparr>hooked := (hooked ?g1)(p := hooked ?g1 p + 1), wpc := (wpc ?g1)(tid := WRun p InClimb [] [])\<rparr>"
  let ?g3 = "?g2\<lparr>deps := (deps ?g2)(p := deps ?g2 p - 1), wpc := (wpc ?g2)(tid := if deps ?g2 p = 1 then last_pc InClimb p else WIdle),
    role := (role ?g2)(p := if deps ?g2 p = 1 then Ending tid else Waiting)\<rparr>"
  have "fn g p = Some HookFn" using T fn by (simp add: task_agrees_def)
  then have "graph_step g ?g1" using graph_step.inline [OF D(2), of HookFn] by simp
  moreover have "graph_step ?g1 ?g2" by (rule graph_step.hook) simp
  moreover have "graph_step ?g2 ?g3" by (rule graph_step.return) simp
  ultimately have steps: "graph_step\<^sup>*\<^sup>* g ?g3"
    by (rule converse_rtranclp_into_rtranclp [OF _ converse_rtranclp_into_rtranclp [OF _ r_into_rtranclp]])
  have "worker_pool s3 = worker_pool s" by (simp add: s3(2) s2)
  note queued_same [OF this] is_worker_pool [OF this]
  then have "queued_tasks s3 = queued_tasks s" "is_worker tid s3" using D(6) by simp_all
  moreover have "sched_wf s3" "avail s3 = avail s" using D(5) by (simp_all add: s3(2) s2 upd_task_pool sched_wf_def)
  moreover have "agrees s3 ?g3"
    by (rule agreesI [OF g]) (use D(3,4) calculation T in \<open>auto simp: s3(2) at2 task_agrees_def\<close>)
  moreover have "(if r = 1 then WAtParent p else WIdle) = ?pc" using one_dep [OF g held] s3(1) by simp
  moreover have "wpc ?g3 = (\<lambda>_. WIdle)(tid := ?pc)" using g by (auto simp: sim_def)
  moreover have "graph_reachable tasks_total ?g3" using D(1) steps by (rule rtranclp_trans)
  moreover have "on_ok tid ?pc s3" by (simp add: on_ok_def)
  ultimately have "sim tid (if r = 1 then WAtParent p else WIdle) s3 ?g3" by (simp add: sim_def)
  with steps show "\<exists>g'. graph_step\<^sup>*\<^sup>* g g' \<and> sim tid (if r = 1 then WAtParent p else WIdle) s3 g'" by blast
qed

end
