(* ===== verification/GraphCode.thy ===== *)
theory GraphCode
  imports GraphSim
begin

text \<open>
  What a worker does with a task, as steps of the task graph: the splitter, spawns, the continuations, the
  walk to the ancestors. Developer functions are any that only do what the task that runs may do
  (\<open>graph_dev\<close>); setting a continuation and spawning are such functions.
\<close>

section \<open>Developer functions, the splitter and spawns\<close>

text \<open>
  What a developer's function does to the scheduler's state is possible for the task that runs: it
  allocates and pushes children, sets the continuation, and leaves the rest alone.
\<close>

definition graph_dev :: "dev \<Rightarrow> bool" where
  "graph_dev dev \<longleftrightarrow> (\<forall>tid f p a b s s' t m R. dev tid f p a b s = Some s' \<longrightarrow> follows tid (WRun t m R []) s (WRun t m R []) s')"

lemma follows_calls: "follows tid pc s pc (s\<lparr>calls := c\<rparr>)"
  by (rule follows_same [where p = "\<lambda>_. Null"]) (simp_all add: sched_wf_def task_at_def)

lemma follows_payload: "follows tid pc s pc (upd_task t (task_payload_update (\<lambda>_. p)) s)"
  by (rule follows_same [where p = "\<lambda>_. p"]) (simp_all add: upd_task_pool)

lemma follows_dev:
  assumes "graph_dev dev" and "call_dev dev tid f p a b s = Some s'"
  shows "follows tid (WRun t m R []) s (WRun t m R []) s'"
proof -
  have "follows tid (WRun t m R []) (s\<lparr>calls := calls s @ [(f, p, a, b)]\<rparr>) (WRun t m R []) s'"
    using assms by (auto simp: graph_dev_def call_dev_def)
  with follows_calls show ?thesis by (rule follows_trans)
qed

lemma run_distinct: "sim tid (WRun t m R cs) s g \<Longrightarrow> distinct (R @ cs)"
  using roles_okD(1) [OF simD(7), of tid "WRun t m R cs" s g tid] simD(2) [of tid "WRun t m R cs" s g] by (auto simp: new_kids_def)

lemma follows_rejected_one: "follows tid (WRun t m (R @ c # cs) []) s (WRun t m (R @ cs) []) (release tid c s)"
proof (rule follows_from)
  fix g assume "sim tid (WRun t m (R @ c # cs) []) s g"
  from run_distinct [OF this] have "remove1 c (R @ c # cs) = R @ cs" by (simp add: remove1_append)
  with follows_rejected [where c = c and R = "R @ c # cs" and tid = tid and t = t and m = m and s = s] show "follows tid (WRun t m (R @ c # cs) []) s (WRun t m (R @ cs) []) (release tid c s)"
    by simp
qed

lemma right_task_child: "makes_child t SplitterFn (right_task p a b t)"
  by (simp add: makes_child_def right_task_def task_agrees_def)

lemma follows_split_off:
  assumes dev: "graph_dev dev" and split: "split_off dev tid j a b s = Some s'"
  shows "follows tid (WRun t m R []) s (WRun t m R []) s'"
proof (rule follows_from)
  fix g assume g: "sim tid (WRun t m R []) s g"
  note D = simD [OF g]
  obtain r s1 where acq: "acquire tid s = (r, s1)" by (cases "acquire tid s")
  note A = acquire_sched [OF D(5) acq]
  show "follows tid (WRun t m R []) s (WRun t m R []) s'"
  proof (cases r)
    case None
    with A(4) split acq show ?thesis by (auto simp: split_off_def intro: follows_dev [OF dev])
  next
    case (Some c)
    have cur: "tl_current_task s1 tid = Some t" using D(8) [of t] by (subst A(2)) simp
    let ?s2 = "upd_task c (right_task (JobPtr j) a b t) s1" and ?t = "\<lambda>R cs. WRun t m R cs"
    let ?s3 = "upd_task t (add_deps 1) ?s2"
    have alloc: "follows tid (?t R []) s (?t R [c]) ?s2"
      using follows_alloc [OF acq [unfolded Some] right_task_child, where cs = "[]"] by simp
    have count: "follows tid (?t R [c]) ?s2 (WPush t m R [c]) ?s3" using follows_count [where cs = "[c]" and s = ?s2] by simp
    obtain ok s4 where push: "deque_push tid c ?s3 = Some (ok, s4)" using split acq Some cur by (auto simp: split_off_def Let_def split: option.splits)
    note start = follows_trans [OF follows_trans [OF alloc count] follows_push [OF push, where m = m and R = R]]
    show ?thesis
    proof (cases ok)
      case True
      with split acq Some cur push have "s' = s4" by (simp add: split_off_def Let_def)
      with start True show ?thesis by simp
    next
      case False
      let ?s5 = "release tid c (upd_task t (sub_deps 1) s4)"
      have "call_dev dev tid (job_function (jobs ?s5 j)) (job_payload (jobs ?s5 j)) a b ?s5 = Some s'"
        using split acq Some cur push False by (simp add: split_off_def Let_def)
      note call = follows_dev [OF dev this, where t = t and m = m and R = R]
      have "follows tid (WReject t m R [c]) s4 (?t (R @ [c]) []) (upd_task t (sub_deps 1) s4)"
        using follows_uncount [where cs = "[c]"] by simp
      note follows_trans [OF this follows_rejected_one [where cs = "[]"]]
      with start call False show ?thesis by (auto intro: follows_trans)
    qed
  qed
qed

lemma follows_splitter_loop:
  assumes dev: "graph_dev dev"
  shows "splitter_loop dev tid j a b s = Some (e, s') \<Longrightarrow> follows tid (WRun t m R []) s (WRun t m R []) s'"
proof (induction b arbitrary: s rule: measure_induct_rule [of unat])
  case (less b)
  let ?c = "chunk_size (jobs s j)" and ?p = "split_point (chunk_size (jobs s j)) a b"
  show ?case
  proof (cases "?c < b - a \<and> \<not> b \<le> ?p")
    case True
    then have lt: "unat ?p < unat b" by (simp add: word_le_nat_alt not_le)
    from less.prems True obtain s1 where s1: "split_off dev tid j ?p b s = Some s1" "splitter_loop dev tid j a ?p s1 = Some (e, s')"
      by (subst (asm) splitter_loop.simps) (auto simp: Let_def split: option.splits)
    from follows_split_off [OF dev s1(1)] less.IH [OF lt s1(2)] show ?thesis by (rule follows_trans)
  next
    case False
    with less.prems have "s' = s" by (subst (asm) splitter_loop.simps) (auto simp: Let_def split: if_splits)
    then show ?thesis by simp
  qed
qed

lemma follows_splitter:
  assumes dev: "graph_dev dev" and split: "internal_macro_job_splitter dev tid p a b s = Some s'"
  shows "follows tid (WRun t m R []) s (WRun t m R []) s'"
proof -
  obtain j e s1 cur where S: "splitter_loop dev tid j a b s = Some (e, s1)"
      "call_dev dev tid (job_function (jobs s1 j)) (job_payload (jobs s1 j)) a e
        (upd_task cur (task_payload_update (\<lambda>_. job_payload (jobs s1 j))) s1) = Some s'"
    using split by (auto simp: internal_macro_job_splitter_def Let_def split: ptr.splits option.splits prod.splits)
  from follows_splitter_loop [OF dev S(1)] follows_payload follows_dev [OF dev S(2)] show ?thesis
    by (blast intro: follows_trans)
qed

lemma child_task_child: "makes_child t f (child_task p a b f (Some t))"
  by (simp add: makes_child_def child_task_def task_agrees_def)

lemma follows_alloc_batch:
  assumes f: "f \<noteq> HookFn"
  shows "alloc_batch tid p a b c f (Some t) k n s = (ts, s') \<Longrightarrow> follows tid (WRun t m R cs) s (WRun t m R (cs @ ts)) s'"
proof (induction n arbitrary: k s ts cs)
  case (Suc n)
  obtain r s1 where acq: "acquire tid s = (r, s1)" by (cases "acquire tid s")
  show ?case
  proof (cases r)
    case None
    show ?thesis
    proof (rule follows_from)
      fix g assume "sim tid (WRun t m R cs) s g"
      from acquire_sched(4) [OF simD(5) [OF this] acq None] Suc.prems acq None
      show "follows tid (WRun t m R cs) s (WRun t m R (cs @ ts)) s'" by simp
    qed
  next
    case (Some x)
    let ?s2 = "upd_task x (child_task p (chunk_start a c k) (chunk_end a b c k) f (Some t)) s1"
    obtain us where us: "alloc_batch tid p a b c f (Some t) (k + 1) n ?s2 = (us, s')" "ts = x # us"
      using Suc.prems acq Some by (auto simp: Let_def split: prod.splits)
    from follows_trans [OF follows_alloc [OF acq [unfolded Some] child_task_child f, where m = m and R = R and cs = cs]
        Suc.IH [OF us(1), where cs = "cs @ [x]"]]
    show ?thesis by (simp add: us(2))
  qed
qed simp

lemma follows_run_rejected:
  assumes dev: "graph_dev dev"
  shows "run_rejected dev tid f p ts s = Some s' \<Longrightarrow> follows tid (WRun t m (R @ ts) []) s (WRun t m R []) s'"
proof (induction ts arbitrary: s)
  case (Cons c ts)
  obtain s1 where s1: "call_dev dev tid f p (start_inx (task_at s c)) (end_inx (task_at s c)) s = Some s1"
      "run_rejected dev tid f p ts (release tid c s1) = Some s'"
    using Cons.prems by (auto split: option.splits)
  from follows_dev [OF dev s1(1)] follows_rejected_one Cons.IH [OF s1(2)] show ?case by (blast intro: follows_trans)
qed simp

lemma follows_spawn_pass:
  assumes dev: "graph_dev dev" and f: "f \<noteq> HookFn"
    and pass: "spawn_pass dev tid p a b c f (Some t) N k s = Some r" and r: "r = Inl s' \<or> r = Inr (k', s')"
  shows "follows tid (WRun t m R []) s (WRun t m R []) s'"
proof (rule follows_from)
  fix g assume g: "sim tid (WRun t m R []) s g"
  let ?n = "unat (if BATCH_SIZE < N - k then BATCH_SIZE else N - k)" and ?W = "\<lambda>R cs. WRun t m R cs"
  obtain ts s1 where alloc: "alloc_batch tid p a b c f (Some t) k ?n s = (ts, s1)" by (cases "alloc_batch tid p a b c f (Some t) k ?n s")
  have A: "follows tid (?W R []) s (?W R ts) s1" using follows_alloc_batch [OF f alloc, where cs = "[]"] by simp
  show "follows tid (?W R []) s (?W R []) s'"
  proof (cases "ts = []")
    case True
    with pass r alloc have "call_dev dev tid f p (chunk_start a c k) b s1 = Some s'" by (auto simp: spawn_pass_def Let_def)
    from follows_dev [OF dev this] A True show ?thesis by (blast intro: follows_trans)
  next
    case False
    let ?s2 = "upd_task t (add_deps (word_of_nat (length ts))) s1"
    obtain n s3 where push: "deque_push_batch tid ts ?s2 = Some (n, s3)"
      using pass alloc False by (auto simp: spawn_pass_def Let_def split: option.splits)
    note B = follows_trans [OF follows_trans [OF A follows_count [OF False]] follows_push_batch [OF push]]
    have "sched_wf s1" using alloc_batch_result [OF simD(5) [OF g] alloc] by blast
    then have "sched_wf ?s2" by (simp add: upd_task_pool)
    note n = push_batch_queued(1) [OF this push]
    show ?thesis
    proof (cases "n = length ts")
      case True
      with pass r alloc False push have "s' = s3" by (auto simp: spawn_pass_def Let_def)
      with B True show ?thesis by simp
    next
      case rejected: False
      let ?s4 = "upd_task t (sub_deps (word_of_nat (length ts - n))) s3"
      have C: "follows tid (WReject t m R (drop n ts)) s3 (?W (R @ drop n ts) []) ?s4"
        using follows_uncount [where cs = "drop n ts"] by simp
      obtain s5 where rr: "run_rejected dev tid f p (drop n ts) ?s4 = Some s5"
          "s' = s5 \<or> call_dev dev tid f p (chunk_start a c (k + word_of_nat (length ts))) b s5 = Some s'"
        using pass r alloc False push n rejected by (auto simp: spawn_pass_def Let_def split: option.splits if_splits)
      note E = follows_trans [OF B [simplified rejected if_False] follows_trans [OF C follows_run_rejected [OF dev rr(1)]]]
      from rr(2) show ?thesis using E follows_dev [OF dev] by (blast intro: follows_trans)
    qed
  qed
qed

lemma follows_spawn_loop:
  assumes dev: "graph_dev dev" and f: "f \<noteq> HookFn"
  shows "spawn_loop dev tid p a b c f (Some t) N k s = Some s' \<Longrightarrow> follows tid (WRun t m R []) s (WRun t m R []) s'"
proof (induction "unat N - unat k" arbitrary: k s rule: less_induct)
  case less
  show ?case
  proof (cases "k < N")
    case True
    with less.prems obtain r where r: "spawn_pass dev tid p a b c f (Some t) N k s = Some r"
      by (subst (asm) spawn_loop.simps) (auto split: option.splits)
    show ?thesis
    proof (cases r)
      case (Inl s1)
      with less.prems True r have "s' = s1" by (subst (asm) spawn_loop.simps) simp
      with follows_spawn_pass [OF dev f r] Inl show ?thesis by blast
    next
      case (Inr q)
      then obtain k' s1 where q: "r = Inr (k', s1)" by (cases q) simp
      have "unat N - unat k' < unat N - unat k"
        using spawn_pass_continues [OF r [unfolded q]] pass_size(4,5) [OF True] by (simp only: word_less_nat_alt word_le_nat_alt)
      moreover have "spawn_loop dev tid p a b c f (Some t) N k' s1 = Some s'"
        using less.prems True r q by (subst (asm) spawn_loop.simps) simp
      ultimately have "follows tid (WRun t m R []) s1 (WRun t m R []) s'" by (rule less.hyps)
      with follows_spawn_pass [OF dev f r] q show ?thesis by (blast intro: follows_trans)
    qed
  next
    case False
    with less.prems show ?thesis by (subst (asm) spawn_loop.simps) simp
  qed
qed

lemma follows_spawn:
  assumes "graph_dev dev" and "f \<noteq> HookFn" and spawn: "scheduler_spawn_subtasks dev tid p a b c f s = Some s'"
  shows "follows tid (WRun t m R []) s (WRun t m R []) s'"
proof (rule follows_from)
  fix g assume "sim tid (WRun t m R []) s g"
  from simD(8) [OF this, of t] have "tl_current_task s tid = Some t" by simp
  then show "follows tid (WRun t m R []) s (WRun t m R []) s'"
    using spawn by (auto simp: scheduler_spawn_subtasks_def Let_def split: if_splits intro: follows_spawn_loop [OF assms(1,2)])
qed

section \<open>Running a task\<close>

lemma follows_run_fn:
  assumes "graph_dev dev" and "f \<noteq> HookFn" and "run_task_fn dev tid f u s = Some s'"
  shows "follows tid (WRun t m R []) s (WRun t m R []) s'"
  using assms(2,3) by (cases f) (auto simp: run_task_fn_def Let_def intro: follows_splitter [OF assms(1)] follows_dev [OF assms(1)])

text \<open>Only the walk up the graph meets a finishing hook.\<close>

lemma not_hook:
  assumes "sim tid pc s g" and "on_task pc = Some t" and "task_fn (task_at s t) = Some f"
  shows "f \<noteq> HookFn"
proof -
  note D = simD [OF assms(1)] and P = sim_parent [OF assms(1,2)]
  have "t \<in> pc_tasks (wpc g tid)" using assms(2) D(2) by (cases pc) auto
  then have "role g t \<noteq> Free" using owned_live(1) [OF D(7)] by fastforce
  with reachableD(5) [OF D(1), of t] P(1) held_live(3) [OF assms(1) P(2)] assms(3) show ?thesis
    by (auto simp: inner_at_def task_agrees_def)
qed

lemma follows_sim: "follows tid pc s pc' s' \<Longrightarrow> sim tid pc s g \<Longrightarrow> \<exists>g'. sim tid pc' s' g'"
  by (auto simp: follows_def)

text \<open>The continuations of the task itself.\<close>

definition ends_last :: "nat \<Rightarrow> task_ref \<Rightarrow> sched \<Rightarrow> size_t \<times> sched \<Rightarrow> bool" where
  "ends_last tid t s y \<longleftrightarrow> follows tid (WLast t) s (if fst y = 1 then WLast t else WIdle) (snd y)
     \<and> (fst y = 1 \<longrightarrow> task_fn (task_at (snd y) t) = None)"

lemma follows_continuations:
  assumes dev: "graph_dev dev"
  shows "continuation_loop dev tid s = Some y \<Longrightarrow> sim tid (WLast t) s g \<Longrightarrow> ends_last tid t s y"
proof -
  have "\<forall>t g. graph_dev dev \<longrightarrow> sim tid (WLast t) s g \<longrightarrow> ends_last tid t s y" if "continuation_loop dev tid s = Some y"
    using that
  proof (rule continuation_loop.raw_induct [rotated], intro allI impI)
    fix loop :: "dev \<Rightarrow> nat \<Rightarrow> sched \<Rightarrow> (size_t \<times> sched) option" and dev tid s y t g
    assume IH: "\<And>dev tid s y. loop dev tid s = Some y \<Longrightarrow> \<forall>t g. graph_dev dev \<longrightarrow> sim tid (WLast t) s g \<longrightarrow> ends_last tid t s y"
      and body: "(case tl_current_task s tid of None \<Rightarrow> None
        | Some t \<Rightarrow> (case task_fn (task_at s t) of None \<Rightarrow> Some (1, s)
          | Some continuation_fn \<Rightarrow> (case run_task_fn dev tid continuation_fn t (relock t (clear_fn t s)) of None \<Rightarrow> None
            | Some s \<Rightarrow> (case tl_current_task s tid of None \<Rightarrow> None
              | Some t \<Rightarrow> (case drop_dep t s of (remaining_deps, s) \<Rightarrow>
                  if remaining_deps \<noteq> 1 then Some (remaining_deps, s) else loop dev tid s))))) = Some y"
      and dev: "graph_dev dev" and g: "sim tid (WLast t) s g"
    have cur: "tl_current_task s tid = Some t" using simD(8) [OF g] by simp
    show "ends_last tid t s y"
    proof (cases "task_fn (task_at s t)")
      case None
      with body cur show ?thesis by (auto simp: ends_last_def)
    next
      case (Some f)
      obtain s1 where run: "run_task_fn dev tid f t (relock t (clear_fn t s)) = Some s1"
        using body cur Some by (auto split: option.splits)
      have "f \<noteq> HookFn" by (rule not_hook [OF g _ Some]) simp
      note A = follows_trans [OF follows_again [OF Some] follows_run_fn [OF dev this run, where m = Body and R = "[]"]]
      obtain g1 where "sim tid (WRun t Body [] []) s1 g1" using follows_sim [OF A g] by blast
      from simD(8) [OF this] have cur1: "tl_current_task s1 tid = Some t" by simp
      obtain r s2 where drop: "drop_dep t s1 = (r, s2)" by (cases "drop_dep t s1")
      note B = follows_trans [OF A follows_return [OF drop]]
      show ?thesis
      proof (cases "r = 1")
        case False
        with body cur Some run cur1 drop B show ?thesis by (auto simp: ends_last_def)
      next
        case True
        then have "loop dev tid s2 = Some y" using body cur Some run cur1 drop by simp
        moreover obtain g2 where "sim tid (WLast t) s2 g2" using follows_sim [OF B g] True by auto
        ultimately have "ends_last tid t s2 y" using IH dev by blast
        with B True show ?thesis by (auto simp: ends_last_def intro: follows_trans)
      qed
    qed
  qed
  then show "continuation_loop dev tid s = Some y \<Longrightarrow> sim tid (WLast t) s g \<Longrightarrow> ends_last tid t s y" using dev by blast
qed

text \<open>The continuations of a parent: \<open>WAtParent\<close> again when it is finished.\<close>

definition ends_parent :: "nat \<Rightarrow> task_ref \<Rightarrow> sched \<Rightarrow> task_ref option \<times> sched \<Rightarrow> bool" where
  "ends_parent tid p s y \<longleftrightarrow> follows tid (WAtParent p) s (if fst y = None then WIdle else WAtParent p) (snd y)
     \<and> (fst y = None \<or> fst y = Some p \<and> task_fn (task_at (snd y) p) = None)"

lemma follows_parent_fn:
  assumes dev: "graph_dev dev" and fn: "task_fn (task_at s p) = Some f"
    and run: "run_task_fn dev tid f p (clear_fn p (set_current tid (Some p) s)) = Some s1" and drop: "drop_dep p s1 = (r, s2)"
  shows "follows tid (WPark p) s (if r = 1 then WAtParent p else WIdle) s2"
proof (cases "f = HookFn")
  case True
  with fn run drop show ?thesis by (intro follows_hook) (simp_all add: run_task_fn_def Let_def)
next
  case False
  from follows_trans [OF follows_inline [OF fn False] follows_trans [OF follows_run_fn [OF dev False run] follows_return [OF drop]]]
  show ?thesis by (cases "r = 1") simp_all
qed

lemma follows_parent_loop:
  assumes dev: "graph_dev dev"
  shows "parent_loop dev tid p s = Some y \<Longrightarrow> ends_parent tid p s y"
proof -
  have "graph_dev dev \<longrightarrow> ends_parent tid p s y" if "parent_loop dev tid p s = Some y"
    using that
  proof (rule parent_loop.raw_induct [rotated], intro impI)
    fix loop :: "dev \<Rightarrow> nat \<Rightarrow> task_ref \<Rightarrow> sched \<Rightarrow> (task_ref option \<times> sched) option" and dev tid p s y
    assume IH: "\<And>dev tid p s y. loop dev tid p s = Some y \<Longrightarrow> graph_dev dev \<longrightarrow> ends_parent tid p s y"
      and body: "(case task_fn (task_at s p) of None \<Rightarrow> Some (Some p, s)
        | Some parent_fn \<Rightarrow> (case (if parent_task (task_at s p) \<noteq> None then deque_push tid p (relock p s) else Some (False, relock p s)) of
            None \<Rightarrow> None
          | Some (pushed, s) \<Rightarrow> if pushed then Some (None, s)
              else (case run_task_fn dev tid parent_fn p (clear_fn p (set_current tid (Some p) s)) of None \<Rightarrow> None
                | Some s \<Rightarrow> (case drop_dep p s of (parent_rem, s) \<Rightarrow>
                    if parent_rem \<noteq> 1 then Some (None, s) else loop dev tid p s)))) = Some y"
      and dev: "graph_dev dev"
    show "ends_parent tid p s y"
    proof (cases "task_fn (task_at s p)")
      case None
      with body show ?thesis by (auto simp: ends_parent_def)
    next
      case (Some f)
      let ?s = "relock p s"
      obtain pushed s1 where push: "(if parent_task (task_at s p) \<noteq> None then deque_push tid p ?s else Some (False, ?s)) = Some (pushed, s1)"
        using body Some by (auto split: option.splits)
      have par: "parent_task (task_at ?s p) = parent_task (task_at s p)" by simp
      have "follows tid (WPark p) ?s (if pushed then WIdle else WPark p) s1"
        using push follows_park [of tid p ?s pushed s1] par by (cases "parent_task (task_at s p)") auto
      note A = follows_trans [OF follows_relock [OF Some] this]
      show ?thesis
      proof (cases pushed)
        case True
        with body Some push A show ?thesis by (auto simp: ends_parent_def)
      next
        case False
        have "task_at s1 p = task_at ?s p"
          using push by (auto simp: deque_push_def task_at_def split: if_splits option.splits prod.splits)
        then have fn1: "task_fn (task_at s1 p) = Some f" using Some by simp
        obtain s2 where run: "run_task_fn dev tid f p (clear_fn p (set_current tid (Some p) s1)) = Some s2"
          using body Some push False by (auto split: option.splits)
        obtain r s3 where drop: "drop_dep p s2 = (r, s3)" by (cases "drop_dep p s2")
        note B = follows_trans [OF A [unfolded if_not_P [OF False]] follows_parent_fn [OF dev fn1 run drop]]
        have rest: "(if r \<noteq> 1 then Some (None, s3) else loop dev tid p s3) = Some y"
          using body Some push False run drop by simp
        show ?thesis
        proof (cases "r = 1")
          case True
          with rest IH dev have "ends_parent tid p s3 y" by simp
          with B True show ?thesis by (auto simp: ends_parent_def intro: follows_trans)
        next
          case False
          with rest B show ?thesis by (auto simp: ends_parent_def)
        qed
      qed
    qed
  qed
  then show "parent_loop dev tid p s = Some y \<Longrightarrow> ends_parent tid p s y" using dev by blast
qed

text \<open>The walk to the ancestors.\<close>

lemma follows_walk:
  assumes dev: "graph_dev dev"
  shows "climb dev tid q s = Some s' \<Longrightarrow> follows tid (after_release q) s WIdle s'"
proof -
  have "graph_dev dev \<longrightarrow> follows tid (after_release q) s WIdle s'" if "climb dev tid q s = Some s'"
    using that
  proof (rule climb.raw_induct [rotated], intro impI)
    fix walk :: "dev \<Rightarrow> nat \<Rightarrow> task_ref option \<Rightarrow> sched \<Rightarrow> sched option" and dev tid q s s'
    assume IH: "\<And>dev tid q s s'. walk dev tid q s = Some s' \<Longrightarrow> graph_dev dev \<longrightarrow> follows tid (after_release q) s WIdle s'"
      and body: "(case q of None \<Rightarrow> Some s
        | Some p \<Rightarrow> (case drop_dep p s of (parent_dependencies, s) \<Rightarrow>
            if parent_dependencies \<noteq> 1 then Some s
            else (case parent_loop dev tid p s of None \<Rightarrow> None
              | Some (r, s) \<Rightarrow> (case r of None \<Rightarrow> Some s
                | Some p \<Rightarrow> walk dev tid (parent_task (task_at s p)) (release tid p s))))) = Some s'"
      and dev: "graph_dev dev"
    show "follows tid (after_release q) s WIdle s'"
    proof (cases q)
      case None
      with body show ?thesis by simp
    next
      case (Some p)
      obtain r s1 where drop: "drop_dep p s = (r, s1)" by (cases "drop_dep p s")
      note A = follows_climb [OF drop, of tid]
      show ?thesis
      proof (cases "r = 1")
        case False
        with body Some drop A show ?thesis by simp
      next
        case True
        obtain r2 s2 where P: "parent_loop dev tid p s1 = Some (r2, s2)"
          using body Some drop True by (auto split: option.splits)
        note E = follows_parent_loop [OF dev P, unfolded ends_parent_def fst_conv snd_conv]
        show ?thesis
        proof (cases r2)
          case None
          with body Some drop True P have "s' = s2" by simp
          with A E Some True None show ?thesis by (auto intro: follows_trans)
        next
          case (Some p2)
          with E have p2: "p2 = p" "task_fn (task_at s2 p) = None" by auto
          have "walk dev tid (parent_task (task_at s2 p)) (release tid p s2) = Some s'"
            using body \<open>q = Some p\<close> drop True P Some p2(1) by simp
          with IH dev have W: "follows tid (after_release (parent_task (task_at s2 p))) (release tid p s2) WIdle s'" by blast
          have "follows tid (WAtParent p) s1 (WAtParent p) s2" using E Some by simp
          from follows_trans [OF this follows_trans [OF follows_finish [OF disjI2 [OF refl] p2(2)] W]] A True \<open>q = Some p\<close>
          show ?thesis by (auto intro: follows_trans)
        qed
      qed
    qed
  qed
  then show "climb dev tid q s = Some s' \<Longrightarrow> follows tid (after_release q) s WIdle s'" using dev by blast
qed

lemma follows_execute:
  assumes dev: "graph_dev dev" and ex: "execute_task dev tid t s = Some s'"
  shows "follows tid (WTake t) s WIdle s'"
proof (rule follows_from)
  fix g assume g: "sim tid (WTake t) s g"
  obtain f s1 where F: "task_fn (task_at s t) = Some f" "run_task_fn dev tid f t (clear_fn t s) = Some s1"
    using ex by (auto simp: execute_task_def split: option.splits)
  have "f \<noteq> HookFn" by (rule not_hook [OF g _ F(1)]) simp
  note A = follows_trans [OF follows_start [OF F(1)] follows_run_fn [OF dev this F(2), where m = Body and R = "[]"]]
  obtain g1 where "sim tid (WRun t Body [] []) s1 g1" using follows_sim [OF A g] by blast
  from simD(8) [OF this] have cur1: "tl_current_task s1 tid = Some t" by simp
  obtain r s2 where drop: "drop_dep t s1 = (r, s2)" by (cases "drop_dep t s1")
  note B = follows_trans [OF A follows_return [OF drop]]
  show "follows tid (WTake t) s WIdle s'"
  proof (cases "r = 1")
    case False
    with ex F cur1 drop have "s' = s2" by (simp add: execute_task_def)
    with B False show ?thesis by simp
  next
    case True
    then obtain g2 where g2: "sim tid (WLast t) s2 g2" using follows_sim [OF B g] by auto
    obtain r2 s3 where loop: "continuation_loop dev tid s2 = Some (r2, s3)"
      using ex F cur1 drop True by (auto simp: execute_task_def split: option.splits)
    note E = follows_continuations [OF dev loop g2, unfolded ends_last_def fst_conv snd_conv]
    note C = follows_trans [OF B [simplified True if_True last_pc.simps]]
    show ?thesis
    proof (cases "r2 = 1")
      case False
      with ex F cur1 drop True loop have "s' = s3" by (simp add: execute_task_def)
      with C E False show ?thesis by auto
    next
      case r2: True
      with E C have L: "follows tid (WTake t) s (WLast t) s3" "task_fn (task_at s3 t) = None" by auto
      obtain g3 where "sim tid (WLast t) s3 g3" using follows_sim [OF L(1) g] by blast
      from simD(8) [OF this] have "tl_current_task s3 tid = Some t" by simp
      then have "climb dev tid (parent_task (task_at s3 t)) (release tid t s3) = Some s'"
        using ex F cur1 drop True loop r2 by (simp add: execute_task_def)
      from follows_trans [OF L(1) follows_trans [OF follows_finish [OF disjI1 [OF refl] L(2)] follows_walk [OF dev this]]] show ?thesis .
    qed
  qed
qed

end
