(* ===== verification/WorkerView.thy ===== *)
theory WorkerView
  imports Worker
begin

text \<open>
  What a worker never touches while it runs tasks. A view of the scheduler's state that does not look at
  what thread \<open>tid\<close> takes from and returns to the task pool, the current tasks, the calls, the jobs and
  the contents, not the size, of its own deque is kept by everything that worker does with a task, as long as the
  developer's functions keep it.
\<close>

section \<open>Views\<close>

text \<open>No operation of a deque changes its size.\<close>

lemma mask_write [simp]: "cl_capacity_mask (write_batch d b xs) = cl_capacity_mask d"
  by (induction xs arbitrary: d b) simp_all

lemma mask_push: "chase_lev_push d x = (ok, d') \<Longrightarrow> cl_capacity_mask d' = cl_capacity_mask d"
  by (auto simp: chase_lev_push_def Let_def split: if_splits)

lemma mask_push_batch: "chase_lev_push_batch d xs = (n, d') \<Longrightarrow> cl_capacity_mask d' = cl_capacity_mask d"
  by (auto simp: chase_lev_push_batch_def Let_def split: if_splits)

lemma mask_pop: "chase_lev_pop d = (r, d') \<Longrightarrow> cl_capacity_mask d' = cl_capacity_mask d"
  by (auto simp: chase_lev_pop_def Let_def split: if_splits)

lemma mask_steal: "chase_lev_steal d = (r, d') \<Longrightarrow> cl_capacity_mask d' = cl_capacity_mask d"
  by (auto simp: chase_lev_steal_def Let_def split: if_splits)

locale worker_view =
  fixes view :: "sched \<Rightarrow> 'v" and tid :: nat
  assumes acquire: "acquire tid s = (r, s') \<Longrightarrow> view s' = view s"
    and release: "view (release tid t s) = view s"
    and upd: "view (upd_task t f s) = view s"
    and current: "view (s\<lparr>tl_current_task := c\<rparr>) = view s"
    and calls: "view (s\<lparr>calls := cs\<rparr>) = view s"
    and jobs: "view (s\<lparr>jobs := js\<rparr>) = view s"
    and deque: "worker_pool s = Some ws \<Longrightarrow> tid < length ws \<Longrightarrow> cl_capacity_mask d = cl_capacity_mask (cl_deque (ws ! tid)) \<Longrightarrow>
      view (s\<lparr>worker_pool := Some (ws[tid := (ws ! tid)\<lparr>cl_deque := d\<rparr>])\<rparr>) = view s"
begin

declare release [simp] upd [simp]

definition dev_keeps :: "dev \<Rightarrow> bool" where
  "dev_keeps dev \<longleftrightarrow> (\<forall>f p a b s s'. dev tid f p a b s = Some s' \<longrightarrow> view s' = view s)"

lemma leaf_keeps: "leaf_dev dev \<Longrightarrow> dev_keeps dev"
  by (simp add: leaf_dev_def dev_keeps_def)

lemma view_push: "deque_push tid t s = Some (ok, s') \<Longrightarrow> view s' = view s"
  by (auto simp: deque_push_def deque mask_push split: option.splits if_splits prod.splits)

lemma view_push_batch: "deque_push_batch tid ts s = Some (n, s') \<Longrightarrow> view s' = view s"
  by (auto simp: deque_push_batch_def deque mask_push_batch split: option.splits if_splits prod.splits)

lemma view_call: "dev_keeps dev \<Longrightarrow> call_dev dev tid f p a b s = Some s' \<Longrightarrow> view s' = view s"
  unfolding call_dev_def dev_keeps_def using calls by metis

lemma view_continuation: "scheduler_set_continuation i f s = Some s' \<Longrightarrow> view s' = view s"
  by (auto simp: scheduler_set_continuation_def split: option.splits)

text \<open>The splitter and a spawn.\<close>

lemma view_split_off:
  assumes "dev_keeps dev" and "split_off dev tid j m e s = Some s'"
  shows "view s' = view s"
  using assms(2)
  by (auto simp: split_off_def Let_def split: option.splits prod.splits if_splits bool.splits
      dest!: acquire view_push view_call [OF assms(1)])

lemma view_splitter_loop:
  assumes "dev_keeps dev" and "splitter_loop dev tid j a b s = Some (e, s')"
  shows "view s' = view s"
  using assms(2)
proof (induction b arbitrary: s rule: measure_induct_rule [of unat])
  case (less b)
  show ?case
  proof (cases "chunk_size (jobs s j) < b - a \<and> \<not> b \<le> split_point (chunk_size (jobs s j)) a b")
    case True
    then have lt: "unat (split_point (chunk_size (jobs s j)) a b) < unat b" by (simp add: word_le_nat_alt not_le)
    from less.prems True obtain s1 where s1: "split_off dev tid j (split_point (chunk_size (jobs s j)) a b) b s = Some s1"
        "splitter_loop dev tid j a (split_point (chunk_size (jobs s j)) a b) s1 = Some (e, s')"
      by (subst (asm) splitter_loop.simps) (auto simp: Let_def split: option.splits)
    from less.IH [OF lt s1(2)] view_split_off [OF assms(1) s1(1)] show ?thesis by simp
  next
    case False
    with less.prems show ?thesis by (subst (asm) splitter_loop.simps) (auto simp: Let_def split: if_splits)
  qed
qed

lemma view_splitter:
  assumes "dev_keeps dev" and "internal_macro_job_splitter dev tid p a b s = Some s'"
  shows "view s' = view s"
  using assms(2)
  by (auto simp: internal_macro_job_splitter_def Let_def split: ptr.splits option.splits prod.splits
      dest!: view_splitter_loop [OF assms(1)] view_call [OF assms(1)])

lemma view_alloc_batch: "alloc_batch tid p a b c f par k n s = (ts, s') \<Longrightarrow> view s' = view s"
  by (induction n arbitrary: k s ts s') (auto simp: Let_def split: prod.splits option.splits dest!: acquire)

lemma view_run_rejected:
  assumes "dev_keeps dev"
  shows "run_rejected dev tid f p ts s = Some s' \<Longrightarrow> view s' = view s"
  by (induction ts arbitrary: s) (auto split: option.splits dest!: view_call [OF assms])

lemma view_spawn_pass:
  assumes "dev_keeps dev" and "spawn_pass dev tid p a b c f par n k s = Some r"
  shows "case r of Inl s' \<Rightarrow> view s' = view s | Inr (k', s') \<Rightarrow> view s' = view s"
  using assms(2)
  by (auto simp: spawn_pass_def Let_def split: prod.splits if_splits option.splits
      dest!: view_alloc_batch view_push_batch view_run_rejected [OF assms(1)] view_call [OF assms(1)])

lemma view_spawn_loop:
  assumes "dev_keeps dev"
  shows "spawn_loop dev tid p a b c f par n k s = Some s' \<Longrightarrow> view s' = view s"
proof (induction "unat n - unat k" arbitrary: k s rule: less_induct)
  case less
  show ?case
  proof (cases "k < n")
    case True
    from less.prems True obtain r where r: "spawn_pass dev tid p a b c f par n k s = Some r"
      by (subst (asm) spawn_loop.simps) (auto split: option.splits)
    show ?thesis
    proof (cases r)
      case (Inl s1)
      with less.prems True r view_spawn_pass [OF assms r] show ?thesis by (subst (asm) spawn_loop.simps) simp
    next
      case (Inr q)
      then obtain k' s1 where q: "r = Inr (k', s1)" by (cases q) simp
      have "k' = k + (if BATCH_SIZE < n - k then BATCH_SIZE else n - k)"
        using spawn_pass_continues r q by blast
      with pass_size(4,5) [OF True] have "unat n - unat k' < unat n - unat k"
        by (simp only: word_less_nat_alt word_le_nat_alt)
      moreover have "spawn_loop dev tid p a b c f par n k' s1 = Some s'"
        using less.prems True r q by (subst (asm) spawn_loop.simps) simp
      ultimately have "view s' = view s1" by (rule less.hyps)
      with view_spawn_pass [OF assms r] q show ?thesis by simp
    qed
  next
    case False
    with less.prems show ?thesis by (subst (asm) spawn_loop.simps) simp
  qed
qed

lemma view_spawn:
  assumes "dev_keeps dev" and "scheduler_spawn_subtasks dev tid p a b c f s = Some s'"
  shows "view s' = view s"
  using assms(2)
  by (auto simp: scheduler_spawn_subtasks_def Let_def split: if_splits dest!: view_spawn_loop [OF assms(1)])

text \<open>A call through a function pointer, and the two loops around continuations.\<close>

lemma view_run:
  assumes "dev_keeps dev" and "run_task_fn dev tid f t s = Some s'"
  shows "view s' = view s"
  using assms(2)
  by (cases f) (auto simp: run_task_fn_def Let_def hooked_job_finish_task_def jobs split: ptr.splits
      dest!: view_splitter [OF assms(1)] view_call [OF assms(1)])

lemma view_continuation_loop:
  assumes "continuation_loop dev tid s = Some (r, s')" and "dev_keeps dev"
  shows "view s' = view s"
proof -
  have "tid = tid \<longrightarrow> dev_keeps dev \<longrightarrow> view (snd y) = view s" if "continuation_loop dev tid s = Some y" for y
    by (rule continuation_loop.raw_induct [where P = "\<lambda>dev i s y. i = tid \<longrightarrow> dev_keeps dev \<longrightarrow> view (snd y) = view s", OF _ that])
      (auto simp: drop_dep_def split: option.splits if_splits dest!: view_run)
  with assms show ?thesis by fastforce
qed

lemma view_parent_loop:
  assumes "parent_loop dev tid p s = Some (r, s')" and "dev_keeps dev"
  shows "view s' = view s"
proof -
  have "tid = tid \<longrightarrow> dev_keeps dev \<longrightarrow> view (snd y) = view s" if "parent_loop dev tid p s = Some y" for y
    by (rule parent_loop.raw_induct [where P = "\<lambda>dev i p s y. i = tid \<longrightarrow> dev_keeps dev \<longrightarrow> view (snd y) = view s", OF _ that])
      (auto simp: drop_dep_def current split: option.splits if_splits prod.splits dest!: view_run view_push)
  with assms show ?thesis by fastforce
qed

lemma view_climb:
  assumes "climb dev tid p s = Some s'" and "dev_keeps dev"
  shows "view s' = view s"
proof -
  have "tid = tid \<longrightarrow> dev_keeps dev \<longrightarrow> view s' = view s"
    by (rule climb.raw_induct [where P = "\<lambda>dev i p s s'. i = tid \<longrightarrow> dev_keeps dev \<longrightarrow> view s' = view s", OF _ assms(1)])
      (auto simp: drop_dep_def split: option.splits if_splits prod.splits dest!: view_parent_loop)
  with assms(2) show ?thesis by blast
qed

text \<open>Everything that the loop body does with a task.\<close>

lemma view_execute:
  assumes "execute_task dev tid t s = Some s'" and "dev_keeps dev"
  shows "view s' = view s"
  using assms(1)
  by (auto simp: execute_task_def drop_dep_def split: option.splits if_splits prod.splits
      dest!: view_run [OF assms(2)] view_continuation_loop [OF _ assms(2)] view_climb [OF _ assms(2)])

end

text \<open>
  The rings of the workers, with what the scheduler counts and the flags it sets, and the task caches of
  the other threads.
\<close>

definition worker_frame :: "task_ref sc_worker \<Rightarrow> task_ref list \<times> uint64 \<times> bool \<times> size_t" where
  "worker_frame w = (rb_items w, rb_tail w, termination_flag w, core_id w)"

definition shared_view :: "nat \<Rightarrow> sched \<Rightarrow>
    (task_ref list \<times> uint64 \<times> bool \<times> size_t) list option \<times> size_t \<times> size_t \<times> bool \<times> (nat \<Rightarrow> task_ref list)" where
  "shared_view tid s = (map_option (map worker_frame) (worker_pool s),
     global_worker_count s, rr_worker_index s, task_array_allocated s, (task_cache (pool s))(tid := []))"

lemma worker_frame_deque [simp]: "worker_frame (w\<lparr>cl_deque := d\<rparr>) = worker_frame w"
  by (simp add: worker_frame_def rb_items_def rb_slots_def rb_capacity_def)

interpretation shared: worker_view "shared_view tid" tid for tid
proof
  fix tid :: nat and s :: sched and ws d
  assume "worker_pool s = Some ws" and i: "tid < length ws"
  moreover have "map worker_frame (ws[tid := (ws ! tid)\<lparr>cl_deque := d\<rparr>]) = map worker_frame ws"
    using i by (intro nth_equalityI) (simp_all add: nth_list_update)
  ultimately show "shared_view tid (s\<lparr>worker_pool := Some (ws[tid := (ws ! tid)\<lparr>cl_deque := d\<rparr>])\<rparr>) = shared_view tid s"
    by (simp add: shared_view_def)
next
  show "shared_view tid s' = shared_view tid s" if "acquire tid s = (r, s')" for s r s'
    using that by (auto simp: acquire_def memory_pool_acquire_def Let_def shared_view_def split: prod.splits if_splits)
  show "shared_view tid (release tid t s) = shared_view tid s" for t s
    by (auto simp: release_def memory_pool_release_def Let_def shared_view_def)
qed (simp_all add: shared_view_def upd_task_def)

text \<open>The deques of the other workers, and all rings.\<close>

definition others_view :: "nat \<Rightarrow> sched \<Rightarrow> (task_ref list list \<times> task_ref list list) option" where
  "others_view tid s = map_option (\<lambda>ws. ((map (\<lambda>w. deque_items (cl_deque w)) ws)[tid := []], map rb_items ws)) (worker_pool s)"

lemma rb_items_deque: "rb_items (w\<lparr>cl_deque := d\<rparr>) = rb_items w"
  by (simp add: rb_items_def rb_slots_def rb_capacity_def)

interpretation others: worker_view "others_view tid" tid for tid
proof
  fix tid :: nat and s :: sched and ws d
  assume "worker_pool s = Some ws" and i: "tid < length ws"
  moreover have "map rb_items (ws[tid := (ws ! tid)\<lparr>cl_deque := d\<rparr>]) = map rb_items ws"
    using i by (simp add: map_update rb_items_deque list_update_same_conv)
  ultimately show "others_view tid (s\<lparr>worker_pool := Some (ws[tid := (ws ! tid)\<lparr>cl_deque := d\<rparr>])\<rparr>) = others_view tid s"
    by (simp add: others_view_def map_update)
next
  show "others_view tid s' = others_view tid s" if "acquire tid s = (r, s')" for tid s r s'
    using that by (auto simp: acquire_def others_view_def split: prod.splits)
  show "others_view tid (release tid t s) = others_view tid s" for tid t s
    by (simp add: release_def others_view_def)
qed (simp_all add: others_view_def upd_task_def)

section \<open>What no round changes\<close>

text \<open>
  The number of workers, and for each its core, the count of its ring and the sizes of its ring and deque.
\<close>

definition layout :: "sched \<Rightarrow> (size_t \<times> uint64 \<times> nat \<times> nat) list option \<times> size_t" where
  "layout s = (map_option (map (\<lambda>w. (core_id w, rb_tail w, rb_capacity w, deque_capacity (cl_deque w)))) (worker_pool s),
     global_worker_count s)"

interpretation layout: worker_view layout tid for tid
proof
  fix tid :: nat and s :: sched and ws and d :: "task_ref sc_cl_deque"
  assume w: "worker_pool s = Some ws" and i: "tid < length ws" and m: "cl_capacity_mask d = cl_capacity_mask (cl_deque (ws ! tid))"
  have "map (\<lambda>w. (core_id w, rb_tail w, rb_capacity w, deque_capacity (cl_deque w))) (ws[tid := (ws ! tid)\<lparr>cl_deque := d\<rparr>])
      = map (\<lambda>w. (core_id w, rb_tail w, rb_capacity w, deque_capacity (cl_deque w))) ws"
    using i m by (intro nth_equalityI) (simp_all add: nth_list_update rb_capacity_def deque_capacity_def)
  then show "layout (s\<lparr>worker_pool := Some (ws[tid := (ws ! tid)\<lparr>cl_deque := d\<rparr>])\<rparr>) = layout s"
    using w by (simp add: layout_def)
next
  show "layout s' = layout s" if "acquire tid s = (r, s')" for tid s r s'
    using that by (auto simp: acquire_def layout_def split: prod.splits)
  show "layout (release tid t s) = layout s" for tid t s
    by (simp add: release_def layout_def)
qed (simp_all add: layout_def upd_task_def)

lemma layout_on_worker:
  assumes "on_worker i f s = Some (r, s')"
    and "\<And>w r w'. f w = (r, w') \<Longrightarrow> core_id w' = core_id w \<and> rb_tail w' = rb_tail w \<and> rb_capacity w' = rb_capacity w
      \<and> cl_capacity_mask (cl_deque w') = cl_capacity_mask (cl_deque w)"
  shows "layout s' = layout s"
proof -
  obtain ws where ws: "worker_pool s = Some ws" "i < length ws" using assms(1) by (auto simp: on_worker_def split: option.splits if_splits)
  obtain w' where w: "f (ws ! i) = (r, w')" "s' = s\<lparr>worker_pool := Some (ws[i := w'])\<rparr>"
    using assms(1) ws by (auto simp: on_worker_def split: prod.splits)
  have "map (\<lambda>w. (core_id w, rb_tail w, rb_capacity w, deque_capacity (cl_deque w))) (ws[i := w'])
      = map (\<lambda>w. (core_id w, rb_tail w, rb_capacity w, deque_capacity (cl_deque w))) ws"
    using ws(2) assms(2) [OF w(1)] by (intro nth_equalityI) (simp_all add: nth_list_update deque_capacity_def)
  then show ?thesis using ws w(2) by (simp add: layout_def)
qed

lemma layout_pop: "on_worker i deque_pop s = Some (r, s') \<Longrightarrow> layout s' = layout s"
  by (erule layout_on_worker) (auto simp: deque_pop_def rb_capacity_def mask_pop split: prod.splits)

lemma layout_steal: "on_worker i deque_steal s = Some (r, s') \<Longrightarrow> layout s' = layout s"
  by (erule layout_on_worker) (auto simp: deque_steal_def rb_capacity_def mask_steal split: prod.splits)

lemma layout_ring: "on_worker i spmc_consumer_pop s = Some (r, s') \<Longrightarrow> layout s' = layout s"
  by (erule layout_on_worker) (auto simp: spmc_consumer_pop_def rb_capacity_def Let_def split: if_splits)

lemma layout_find: "find_task tid cores rng s = Some (r, rng', s') \<Longrightarrow> layout s' = layout s"
  by (auto simp: find_task_def steal_task_def Let_def split: option.splits prod.splits if_splits
      dest!: layout_pop layout_steal layout_ring)

lemma on_worker_pool: "on_worker i f s = Some (r, s') \<Longrightarrow> pool s' = pool s"
  by (auto simp: on_worker_def split: option.splits if_splits prod.splits)

lemma find_pool: "find_task tid cores rng s = Some (r, rng', s') \<Longrightarrow> pool s' = pool s"
  by (auto simp: find_task_def steal_task_def Let_def split: option.splits prod.splits if_splits dest!: on_worker_pool)

text \<open>A whole round.\<close>

lemma layout_round:
  assumes "worker_iteration dev tid cores rng s = Some (rng', s')" and "layout.dev_keeps tid dev"
  shows "layout s' = layout s"
proof -
  obtain r s1 where find: "find_task tid cores rng (set_current tid None s) = Some (r, rng', s1)"
    and s': "(case r of None \<Rightarrow> Some (set_current tid r s1) | Some t \<Rightarrow> execute_task dev tid t (set_current tid r s1)) = Some s'"
    using assms(1) by (auto simp: worker_iteration_def Let_def split: option.splits prod.splits)
  have "layout s1 = layout s" using layout_find [OF find] by (simp add: layout.current)
  then show ?thesis using s' layout.view_execute [OF _ assms(2)] by (auto simp: layout.current split: option.splits)
qed

lemma caches_round:
  assumes "worker_iteration dev tid cores rng s = Some (rng', s')" and "shared.dev_keeps tid dev" and "v \<noteq> tid"
  shows "task_cache (pool s') v = task_cache (pool s) v"
proof -
  obtain r s1 where find: "find_task tid cores rng (set_current tid None s) = Some (r, rng', s1)"
    and s': "(case r of None \<Rightarrow> Some (set_current tid r s1) | Some t \<Rightarrow> execute_task dev tid t (set_current tid r s1)) = Some s'"
    using assms(1) by (auto simp: worker_iteration_def Let_def split: option.splits prod.splits)
  have pool: "pool s1 = pool s" using find_pool [OF find] by simp
  show ?thesis
  proof (cases r)
    case None
    then have "s' = set_current tid None s1" using s' by simp
    then show ?thesis using pool by simp
  next
    case (Some t)
    then have "shared_view tid s' = shared_view tid (set_current tid r s1)" using s' shared.view_execute [OF _ assms(2)] by simp
    then have "((task_cache (pool s'))(tid := [])) v = ((task_cache (pool s1))(tid := [])) v" by (simp add: shared_view_def)
    then show ?thesis using assms(3) pool by simp
  qed
qed

lemma layout_workers:
  assumes "layout s' = layout s"
  shows "is_worker tid s' = is_worker tid s" and "global_worker_count s' = global_worker_count s"
proof -
  have "map_option length (worker_pool s') = map_option length (worker_pool s)"
    using arg_cong [OF assms, of "\<lambda>x. map_option length (fst x)"] by (simp add: layout_def option.map_comp comp_def)
  then show "is_worker tid s' = is_worker tid s" by (auto simp: is_worker_def split: option.splits)
  show "global_worker_count s' = global_worker_count s" using assms by (simp add: layout_def)
qed

end
