(* ===== verification/WorkerRun.thy ===== *)
theory WorkerRun
  imports WorkerView
begin

text \<open>
  The life of one job on one worker: the tree of its live tasks, what a worker's walk does to it, and
  the run from the submission to the end.
\<close>

section \<open>The task tree of a job\<close>

abbreviation live_tasks :: "sched \<Rightarrow> task_ref set" where
  "live_tasks s \<equiv> {..<global_task_capacity} - avail s"

definition children :: "sched \<Rightarrow> task_ref \<Rightarrow> task_ref set" where
  "children s p = {u \<in> live_tasks s. parent_task (task_at s u) = Some p}"

text \<open>A splitter task that waits to be run.\<close>

definition queued_task :: "job_ref \<Rightarrow> size_t \<Rightarrow> sc_task \<Rightarrow> bool" where
  "queued_task j c x \<longleftrightarrow> task_fn x = Some SplitterFn \<and> task_payload x = JobPtr j \<and> unfinished_dependencies x = 1
     \<and> start_inx x \<le> end_inx x \<and> unat (start_inx x) mod unat c = 0"

definition root_waiting :: "job_ref \<Rightarrow> sc_task \<Rightarrow> bool" where
  "root_waiting j x \<longleftrightarrow> task_fn x = Some HookFn \<and> task_payload x = JobPtr j \<and> parent_task x = None"

text \<open>
  The live tasks are a tree below \<open>root\<close>. Those in \<open>Q\<close> wait to be run and have no children yet; every
  other one has run and counts its live children, plus one for the task \<open>extra\<close>, whose count a worker is
  about to decrease. Below the root, children start strictly later than their parents.
\<close>

definition job_tree :: "job_ref \<Rightarrow> size_t \<Rightarrow> task_ref \<Rightarrow> task_ref set \<Rightarrow> task_ref option \<Rightarrow> sched \<Rightarrow> bool" where
  "job_tree j c root Q extra s \<longleftrightarrow> (root \<in> live_tasks s \<and> root \<notin> Q \<and> Q \<subseteq> live_tasks s \<and> root_waiting j (task_at s root))
     \<and> (\<forall>t\<in>live_tasks s. t \<noteq> root \<longrightarrow> (\<exists>p. p \<in> live_tasks s \<and> p \<notin> Q \<and> parent_task (task_at s t) = Some p
          \<and> (p = root \<or> start_inx (task_at s p) < start_inx (task_at s t))))
     \<and> (\<forall>t\<in>live_tasks s. t \<notin> Q \<longrightarrow> unat (unfinished_dependencies (task_at s t)) = card (children s t) + of_bool (extra = Some t)
          \<and> 0 < card (children s t) + of_bool (extra = Some t))
     \<and> (\<forall>t\<in>live_tasks s. t \<notin> Q \<longrightarrow> t \<noteq> root \<longrightarrow> task_fn (task_at s t) = None)
     \<and> (\<forall>t\<in>Q. queued_task j c (task_at s t))
     \<and> (\<forall>p. extra = Some p \<longrightarrow> p \<in> live_tasks s \<and> p \<notin> Q)"

lemma job_treeD:
  assumes "job_tree j c root Q extra s"
  shows "root \<in> live_tasks s" "root \<notin> Q" "Q \<subseteq> live_tasks s" "root_waiting j (task_at s root)"
    and "t \<in> live_tasks s \<Longrightarrow> t \<noteq> root \<Longrightarrow> \<exists>p. p \<in> live_tasks s \<and> p \<notin> Q \<and> parent_task (task_at s t) = Some p
          \<and> (p = root \<or> start_inx (task_at s p) < start_inx (task_at s t))"
    and "t \<in> live_tasks s \<Longrightarrow> t \<notin> Q \<Longrightarrow> unat (unfinished_dependencies (task_at s t)) = card (children s t) + of_bool (extra = Some t)"
    and "t \<in> live_tasks s \<Longrightarrow> t \<notin> Q \<Longrightarrow> 0 < card (children s t) + of_bool (extra = Some t)"
    and "t \<in> live_tasks s \<Longrightarrow> t \<notin> Q \<Longrightarrow> t \<noteq> root \<Longrightarrow> task_fn (task_at s t) = None"
    and "t \<in> Q \<Longrightarrow> queued_task j c (task_at s t)"
    and "extra = Some p \<Longrightarrow> p \<in> live_tasks s \<and> p \<notin> Q"
proof -
  note tree = assms [unfolded job_tree_def]
  note A = tree [THEN conjunct1] and B = tree [THEN conjunct2, THEN conjunct1]
    and C = tree [THEN conjunct2, THEN conjunct2, THEN conjunct1]
    and D = tree [THEN conjunct2, THEN conjunct2, THEN conjunct2, THEN conjunct1]
    and E = tree [THEN conjunct2, THEN conjunct2, THEN conjunct2, THEN conjunct2, THEN conjunct1]
    and F = tree [THEN conjunct2, THEN conjunct2, THEN conjunct2, THEN conjunct2, THEN conjunct2]
  show "root \<in> live_tasks s" "root \<notin> Q" "Q \<subseteq> live_tasks s" "root_waiting j (task_at s root)" using A by blast+
  show "t \<in> live_tasks s \<Longrightarrow> t \<noteq> root \<Longrightarrow> \<exists>p. p \<in> live_tasks s \<and> p \<notin> Q \<and> parent_task (task_at s t) = Some p
          \<and> (p = root \<or> start_inx (task_at s p) < start_inx (task_at s t))" by (rule B [THEN bspec, THEN mp])
  show "t \<in> live_tasks s \<Longrightarrow> t \<notin> Q \<Longrightarrow> unat (unfinished_dependencies (task_at s t)) = card (children s t) + of_bool (extra = Some t)"
    by (rule C [THEN bspec, THEN mp, THEN conjunct1])
  show "t \<in> live_tasks s \<Longrightarrow> t \<notin> Q \<Longrightarrow> 0 < card (children s t) + of_bool (extra = Some t)"
    by (rule C [THEN bspec, THEN mp, THEN conjunct2])
  show "t \<in> live_tasks s \<Longrightarrow> t \<notin> Q \<Longrightarrow> t \<noteq> root \<Longrightarrow> task_fn (task_at s t) = None" by (rule D [THEN bspec, THEN mp, THEN mp])
  show "t \<in> Q \<Longrightarrow> queued_task j c (task_at s t)" by (rule E [THEN bspec])
  show "extra = Some p \<Longrightarrow> p \<in> live_tasks s \<and> p \<notin> Q" by (rule F [THEN spec, THEN mp])
qed

lemma job_treeI:
  assumes "root \<in> live_tasks s" "root \<notin> Q" "Q \<subseteq> live_tasks s" "root_waiting j (task_at s root)"
    and "\<And>t. t \<in> live_tasks s \<Longrightarrow> t \<noteq> root \<Longrightarrow> \<exists>p. p \<in> live_tasks s \<and> p \<notin> Q \<and> parent_task (task_at s t) = Some p
          \<and> (p = root \<or> start_inx (task_at s p) < start_inx (task_at s t))"
    and "\<And>t. t \<in> live_tasks s \<Longrightarrow> t \<notin> Q \<Longrightarrow> unat (unfinished_dependencies (task_at s t)) = card (children s t) + of_bool (extra = Some t)
          \<and> 0 < card (children s t) + of_bool (extra = Some t)"
    and "\<And>t. t \<in> live_tasks s \<Longrightarrow> t \<notin> Q \<Longrightarrow> t \<noteq> root \<Longrightarrow> task_fn (task_at s t) = None"
    and "\<And>t. t \<in> Q \<Longrightarrow> queued_task j c (task_at s t)"
    and "\<And>p. extra = Some p \<Longrightarrow> p \<in> live_tasks s \<and> p \<notin> Q"
  shows "job_tree j c root Q extra s"
  unfolding job_tree_def
  by (intro conjI ballI allI impI;
      (rule assms(1-5,7,8) assms(6) [THEN conjunct1] assms(6) [THEN conjunct2] assms(9) [THEN conjunct1] assms(9) [THEN conjunct2]; assumption))

lemma finite_children [simp]: "finite (children s p)"
  by (simp add: children_def)

lemma avail_bound: "sched_wf s \<Longrightarrow> avail s \<subseteq> {..<global_task_capacity}"
  by (auto simp: sched_wf_def pool_wf_def pool_avail_def free_ok_def cache_ok_def)

lemma card_children_bound: "card (children s p) \<le> global_task_capacity"
proof -
  have "card (children s p) \<le> card {..<global_task_capacity}"
    by (rule card_mono) (auto simp: children_def)
  then show ?thesis by simp
qed

lemma queued_childless:
  assumes "job_tree j c root Q extra s" and "t \<in> Q"
  shows "children s t = {}"
proof -
  have False if "u \<in> live_tasks s" "parent_task (task_at s u) = Some t" for u
  proof (cases "u = root")
    case True
    with that(2) job_treeD(4) [OF assms(1)] show False by (simp add: root_waiting_def)
  next
    case False
    with job_treeD(5) [OF assms(1) that(1)] that(2) assms(2) show False by auto
  qed
  then show ?thesis by (auto simp: children_def)
qed

text \<open>A root without children is the only live task.\<close>

lemma root_alone:
  assumes "job_tree j c root Q extra s" and "children s root = {}"
  shows "live_tasks s = {root}"
proof -
  have False if "t \<in> live_tasks s" "t \<noteq> root" for t
    using that
  proof (induction "unat (start_inx (task_at s t))" arbitrary: t rule: less_induct)
    case less
    obtain p where p: "p \<in> live_tasks s" "parent_task (task_at s t) = Some p"
        "p = root \<or> start_inx (task_at s p) < start_inx (task_at s t)"
      using job_treeD(5) [OF assms(1) less.prems] by blast
    have "t \<in> children s p" using p(2) less.prems by (simp add: children_def)
    then have "p \<noteq> root" using assms(2) by auto
    with less.hyps [of p] p show False by (auto simp: word_less_nat_alt)
  qed
  with job_treeD(1) [OF assms(1)] show ?thesis by blast
qed

text \<open>The tree does not look at the links, nor at the state around the tasks.\<close>

lemma children_same:
  assumes "live_tasks s' = live_tasks s" and "\<And>u. u \<in> live_tasks s \<Longrightarrow> parent_task (task_at s' u) = parent_task (task_at s u)"
  shows "children s' p = children s p"
  using assms by (auto simp: children_def)

lemma job_tree_dropped:
  assumes tree: "job_tree j c root Q (Some p) s" and kids: "children s p \<noteq> {}"
    and s': "avail s' = avail s" "\<And>u. task_at s' u = (if u = p then sub_deps 1 (task_at s p) else task_at s u)"
  shows "job_tree j c root Q None s'"
proof -
  note T = job_treeD [OF tree]
  have kids': "children s' t = children s t" for t using s' by (intro children_same) auto
  have pos: "0 < card (children s p)" using kids by (simp add: card_gt_0_iff)
  have "unat (unfinished_dependencies (task_at s p)) = card (children s p) + 1" using T(6,10) by auto
  then have dep: "unat (unfinished_dependencies (task_at s p) - 1) = card (children s p)"
    by (subst unat_diff_le) (simp_all add: word_le_nat_alt)
  have rel: "start_inx (task_at s' u) = start_inx (task_at s u)" "parent_task (task_at s' u) = parent_task (task_at s u)"
    "task_fn (task_at s' u) = task_fn (task_at s u)" "task_payload (task_at s' u) = task_payload (task_at s u)" for u
    by (simp_all add: s'(2))
  have q: "task_at s' u = task_at s u" if "u \<in> Q" for u using that T(10) by (auto simp: s'(2))
  have d: "unat (unfinished_dependencies (task_at s' t)) = card (children s t) \<and> 0 < card (children s t)"
    if "t \<in> live_tasks s" "t \<notin> Q" for t
    using T(6,7) [OF that] pos dep by (auto simp: s'(2))
  have root: "root_waiting j (task_at s' root)" using T(4) rel by (simp add: root_waiting_def)
  show ?thesis
    by (rule job_treeI; (unfold kids' s'(1) rel)?) (use T(1,2,3,5,8,9) root d q in \<open>simp_all\<close>)
qed

text \<open>A finished leaf leaves the tree: now its parent's count is the one to decrease.\<close>

lemma job_tree_remove:
  assumes tree: "job_tree j c root Q (Some p) s" and kids: "children s p = {}" and p: "p \<noteq> root"
    and s': "avail s' = insert p (avail s)" "\<And>u. u \<noteq> p \<Longrightarrow> same_task (task_at s' u) (task_at s u)"
  obtains q where "parent_task (task_at s p) = Some q" and "job_tree j c root Q (Some q) s'"
proof -
  note T = job_treeD [OF tree]
  have live: "p \<in> live_tasks s" "p \<notin> Q" using T(10) by auto
  obtain q where q: "q \<in> live_tasks s" "q \<notin> Q" "parent_task (task_at s p) = Some q"
      "q = root \<or> start_inx (task_at s q) < start_inx (task_at s p)"
    using T(5) [OF live(1) p] by blast
  have "q \<noteq> p" using q(4) p by auto
  have live': "live_tasks s' = live_tasks s - {p}" using s'(1) by auto
  note F = same_task_fields [OF s'(2)]
  have kids': "children s' t = children s t - {p}" for t using live' F(6) by (auto simp: children_def)
  have pk: "p \<in> children s q" using live q(3) by (simp add: children_def)
  have other: "p \<notin> children s t" if "t \<noteq> q" for t using that q(3) by (simp add: children_def)
  have card: "card (children s t) = card (children s' t) + of_bool (t = q)" for t
  proof (cases "t = q")
    case True
    then show ?thesis using card_Suc_Diff1 [OF finite_children pk] by (simp add: kids')
  next
    case False
    with other [OF False] show ?thesis by (simp add: kids')
  qed
  have d: "unat (unfinished_dependencies (task_at s' t)) = card (children s' t) + of_bool (Some q = Some t)
      \<and> 0 < card (children s' t) + of_bool (Some q = Some t)" if "t \<in> live_tasks s'" "t \<notin> Q" for t
  proof -
    have "t \<in> live_tasks s" "t \<noteq> p" using that(1) live' by auto
    with T(6,7) [of t] F(5) [of t] card [of t] that(2) show ?thesis by auto
  qed
  have par: "\<exists>r. r \<in> live_tasks s' \<and> r \<notin> Q \<and> parent_task (task_at s' t) = Some r \<and> (r = root \<or> start_inx (task_at s' r) < start_inx (task_at s' t))"
    if "t \<in> live_tasks s'" "t \<noteq> root" for t
  proof -
    have t: "t \<in> live_tasks s" "t \<noteq> p" "t \<noteq> root" using that live' by auto
    obtain r where r: "r \<in> live_tasks s" "r \<notin> Q" "parent_task (task_at s t) = Some r"
        "r = root \<or> start_inx (task_at s r) < start_inx (task_at s t)"
      using T(5) [OF t(1,3)] by blast
    have "r \<noteq> p" using r(3) t(1) kids by (auto simp: children_def)
    then show ?thesis using r live' F [OF t(2)] F [OF \<open>r \<noteq> p\<close>] by (intro exI [of _ r]) auto
  qed
  have root: "root \<in> live_tasks s'" "root \<notin> Q" "root_waiting j (task_at s' root)"
    using T(1,2,4) p live' F [of root] by (auto simp: root_waiting_def)
  have Q: "Q \<subseteq> live_tasks s'" using T(3) live live' by auto
  have fn: "task_fn (task_at s' t) = None" if "t \<in> live_tasks s'" "t \<notin> Q" "t \<noteq> root" for t
    using that T(8) [of t] F(4) [of t] live' by auto
  have qd: "queued_task j c (task_at s' t)" if "t \<in> Q" for t
  proof -
    have "t \<noteq> p" using that live(2) by auto
    with T(9) [OF that] F [of t] show ?thesis by (simp add: queued_task_def)
  qed
  have "job_tree j c root Q (Some q) s'"
    by (rule job_treeI [OF root(1,2) Q root(3) par d fn qd]) (use q(1,2) \<open>q \<noteq> p\<close> live' in \<open>simp_all\<close>)
  with q(3) that show thesis by blast
qed


section \<open>The walk up the tree\<close>

definition finished :: "job_ref \<Rightarrow> sched \<Rightarrow> sched \<Rightarrow> bool" where
  "finished j s s' \<longleftrightarrow> live_tasks s' = {} \<and> jobs s' = (jobs s)(j := (jobs s j)\<lparr>job_state := JOB_STATE_DONE\<rparr>)"

text \<open>What a walk leaves alone: the queues, the calls, and the tasks that wait to be run.\<close>

definition walked :: "task_ref set \<Rightarrow> sched \<Rightarrow> sched \<Rightarrow> bool" where
  "walked Q s s' \<longleftrightarrow> sched_wf s' \<and> worker_pool s' = worker_pool s \<and> calls s' = calls s
     \<and> (\<forall>u\<in>Q. same_task (task_at s' u) (task_at s u))"

lemma walked_trans:
  assumes "walked Q s1 s2" and "worker_pool s1 = worker_pool s" and "calls s1 = calls s"
    and "\<forall>u\<in>Q. same_task (task_at s1 u) (task_at s u)"
  shows "walked Q s s2"
  using assms same_task_trans by (auto simp: walked_def)

lemma drop_dep_pool [simp]: "sched_wf (upd_task t (sub_deps n) s) = sched_wf s" "avail (upd_task t (sub_deps n) s) = avail s"
  "sched_wf (relock t s) = sched_wf s" "avail (relock t s) = avail s"
  "sched_wf (clear_fn t s) = sched_wf s" "avail (clear_fn t s) = avail s"
  by (simp_all add: upd_task_pool)

lemma sched_wf_current [simp]: "sched_wf (s\<lparr>tl_current_task := x\<rparr>) = sched_wf s"
  by (simp add: sched_wf_def)

text \<open>The last dependency of the root is gone: the finishing hook runs, and the root is released.\<close>

lemma climb_root:
  assumes wf: "sched_wf s" and live: "live_tasks s = {root}" and root: "root_waiting j (task_at s root)"
    and deps: "unfinished_dependencies (task_at s root) = 1"
  shows "\<exists>s'. climb dev tid (Some root) s = Some s' \<and> finished j s s' \<and> sched_wf s' \<and> worker_pool s' = worker_pool s \<and> calls s' = calls s"
proof -
  let ?s1 = "upd_task root (sub_deps 1) s"
  let ?s2 = "clear_fn root ((relock root ?s1)\<lparr>tl_current_task := (tl_current_task s)(tid := Some root)\<rparr>)"
  let ?s3 = "?s2\<lparr>jobs := (jobs s)(j := (jobs s j)\<lparr>job_state := JOB_STATE_DONE\<rparr>)\<rparr>"
  let ?s4 = "upd_task root (sub_deps 1) ?s3"
  have fields: "task_fn (task_at s root) = Some HookFn" "task_payload (task_at s root) = JobPtr j" "parent_task (task_at s root) = None"
    using root by (simp_all add: root_waiting_def)
  have at: "task_at (s\<lparr>tl_current_task := x\<rparr>) = task_at s" "task_at (s\<lparr>jobs := y\<rparr>) = task_at s" for s x y
    by (simp_all add: task_at_def fun_eq_iff)
  have wf4: "sched_wf ?s4" and av4: "avail ?s4 = avail s" using wf by simp_all
  have "root < global_task_capacity" "root \<notin> avail ?s4" using live av4 by auto
  note R = release_sched [OF wf4 this, of tid]
  have end_loop: "parent_loop dev tid root ?s4 = Some (Some root, ?s4)"
    by (subst parent_loop.simps) (simp add: at)
  have "parent_loop dev tid root ?s1 = Some (Some root, ?s4)"
    by (subst parent_loop.simps)
       (simp add: fields at run_task_fn_def hooked_job_finish_task_def drop_dep_def end_loop)
  then have "climb dev tid (Some root) s = climb dev tid None (release tid root ?s4)"
    by (subst climb.simps) (simp add: drop_dep_def deps at fields)
  moreover have "climb dev tid None (release tid root ?s4) = Some (release tid root ?s4)"
    by (subst climb.simps) simp
  moreover have "finished j s (release tid root ?s4)"
    using R(2) av4 live by (auto simp: finished_def release_def)
  ultimately show ?thesis using R(1) by (simp add: release_def)
qed

lemma climb_tree:
  assumes "sched_wf s" and "job_tree j c root Q (Some p) s"
  shows "\<exists>s'. climb dev tid (Some p) s = Some s' \<and> walked Q s s'
    \<and> (jobs s' = jobs s \<and> job_tree j c root Q None s' \<or> Q = {} \<and> finished j s s')"
  using assms
proof (induction "card (live_tasks s)" arbitrary: s p rule: less_induct)
  case less
  note T = job_treeD [OF less.prems(2)]
  let ?s1 = "upd_task p (sub_deps 1) s"
  have live: "p \<in> live_tasks s" "p \<notin> Q" using T(10) by auto
  have deps: "unat (unfinished_dependencies (task_at s p)) = card (children s p) + 1" using T(6) [OF live] by simp
  have keep: "walked Q s ?s1" using less.prems(1) live by (auto simp: walked_def)
  show ?case
  proof (cases "children s p = {}")
    case False
    then have "unfinished_dependencies (task_at s p) \<noteq> 1" using deps by (auto simp: card_gt_0_iff)
    then have "climb dev tid (Some p) s = Some ?s1" by (subst climb.simps) (simp add: drop_dep_def)
    moreover have "job_tree j c root Q None ?s1"
      using less.prems(2) False by (rule job_tree_dropped) simp_all
    ultimately show ?thesis using keep by (intro exI [of _ ?s1]) simp
  next
    case True
    then have one: "unfinished_dependencies (task_at s p) = 1"
      using deps by (simp add: word_unat_eq_iff)
    show ?thesis
    proof (cases "p = root")
      case True
      with \<open>children s p = {}\<close> have "live_tasks s = {root}" using root_alone [OF less.prems(2)] by simp
      moreover from this have "Q = {}" using T(2,3) by auto
      ultimately obtain s' where "climb dev tid (Some root) s = Some s'" "finished j s s'" "sched_wf s'"
          "worker_pool s' = worker_pool s" "calls s' = calls s"
        using climb_root [OF less.prems(1) _ T(4), of dev tid] one True by blast
      with True \<open>Q = {}\<close> show ?thesis by (intro exI [of _ s']) (simp add: walked_def)
    next
      case False
      let ?s2 = "release tid p ?s1"
      have "p < global_task_capacity" "p \<notin> avail ?s1" "sched_wf ?s1" using live less.prems(1) by auto
      note R = release_sched [OF this(3,1,2), of tid]
      have same: "same_task (task_at ?s2 u) (task_at s u)" if "u \<noteq> p" for u
        using R(4) [of u] that by (simp add: same_task_def)
      have av: "avail ?s2 = insert p (avail s)" using R(2) by simp
      obtain q where q: "parent_task (task_at s p) = Some q" "job_tree j c root Q (Some q) ?s2"
        using job_tree_remove [OF less.prems(2) True False av same] by blast
      have "live_tasks ?s2 \<subset> live_tasks s" using av live by auto
      then have "card (live_tasks ?s2) < card (live_tasks s)" by (intro psubset_card_mono) auto
      from less.hyps [OF this R(1) q(2)] obtain s' where s': "climb dev tid (Some q) ?s2 = Some s'" "walked Q ?s2 s'"
          "jobs s' = jobs ?s2 \<and> job_tree j c root Q None s' \<or> Q = {} \<and> finished j ?s2 s'" by blast
      have "parent_loop dev tid p ?s1 = Some (Some p, ?s1)"
        using T(8) [OF live False] by (subst parent_loop.simps) simp
      then have "climb dev tid (Some p) s = Some s'"
        using s'(1) q(1) one by (subst climb.simps) (simp add: drop_dep_def)
      moreover have "walked Q s s'"
      proof (rule walked_trans [OF s'(2)])
        show "\<forall>u\<in>Q. same_task (task_at ?s2 u) (task_at s u)"
        proof
          fix u assume "u \<in> Q"
          with live(2) have "u \<noteq> p" by auto
          then show "same_task (task_at ?s2 u) (task_at s u)" by (rule same)
        qed
      qed (simp_all add: release_def)
      moreover have "jobs s' = jobs s \<and> job_tree j c root Q None s' \<or> Q = {} \<and> finished j s s'"
        using s'(3) by (simp add: finished_def release_def)
      ultimately show ?thesis by blast
    qed
  qed
qed

section \<open>Running one task\<close>

text \<open>
  After a task without continuation has returned, the loop body is the walk that starts at the task
  itself.
\<close>

lemma execute_climbs:
  assumes "task_fn (task_at s t) = Some g" and "run_task_fn dev tid g t (clear_fn t s) = Some s1"
    and "tl_current_task s1 tid = Some t" and "task_fn (task_at s1 t) = None"
  shows "execute_task dev tid t s = climb dev tid (Some t) s1"
proof (cases "unfinished_dependencies (task_at s1 t) = 1")
  case True
  let ?s2 = "upd_task t (sub_deps 1) s1"
  have "continuation_loop dev tid ?s2 = Some (1, ?s2)" using assms(3,4) by (subst continuation_loop.simps) simp
  moreover have "parent_loop dev tid t ?s2 = Some (Some t, ?s2)" using assms(4) by (subst parent_loop.simps) simp
  ultimately show ?thesis
    using assms True by (subst climb.simps) (simp add: execute_task_def drop_dep_def)
next
  case False
  with assms show ?thesis by (subst climb.simps) (simp add: execute_task_def drop_dep_def)
qed

text \<open>
  The splitter, seen as a step of the tree: the task that runs becomes an inner node with one count too
  many, and its new children join the tasks that wait.
\<close>

lemma splitter_tree:
  assumes run: "running tid t s" and tree: "job_tree j c root Q None s" and t: "t \<in> Q"
    and disp: "dispatched tid t ts cs (clear_fn t s) s1"
    and s2: "avail s2 = avail s1" "\<And>u. u \<noteq> t \<Longrightarrow> task_at s2 u = task_at s1 u"
      "start_inx (task_at s2 t) = start_inx (task_at s t)" "parent_task (task_at s2 t) = parent_task (task_at s t)"
      "task_fn (task_at s2 t) = None" "unfinished_dependencies (task_at s2 t) = 1 + of_nat (length ts)"
    and kids: "\<And>u. u \<in> set ts \<Longrightarrow> split_child j t c (task_at s2 u) \<and> start_inx (task_at s t) < start_inx (task_at s2 u)"
  shows "job_tree j c root (Q - {t} \<union> set ts) (Some t) s2"
proof -
  note T = job_treeD [OF tree] and D = dispatchedD [OF disp]
  have bound: "avail s \<subseteq> {..<global_task_capacity}" using run by (simp add: running_def avail_bound)
  have live2: "live_tasks s2 = live_tasks s \<union> set ts" and new: "set ts \<inter> live_tasks s = {}"
    using D(6,7) s2(1) bound by auto
  have tl: "t \<in> live_tasks s" using T(3) t by auto
  have "t \<noteq> root" using T(2) t by auto
  have same: "same_task (task_at s2 u) (task_at s u)" if "u \<in> live_tasks s" "u \<noteq> t" for u
    using that D(9) [of u] s2(2) [of u] by simp
  note F = same_task_fields [OF same]
  have kidD: "task_fn (task_at s2 u) = Some SplitterFn" "task_payload (task_at s2 u) = JobPtr j" "parent_task (task_at s2 u) = Some t"
      "unfinished_dependencies (task_at s2 u) = 1" "start_inx (task_at s2 u) \<le> end_inx (task_at s2 u)"
      "unat (start_inx (task_at s2 u)) mod unat c = 0" if "u \<in> set ts" for u
    using kids [OF that] by (simp_all add: split_child_def less_imp_le)
  have par: "parent_task (task_at s2 u) = parent_task (task_at s u)" if "u \<in> live_tasks s" for u
    using F(6) [OF that] s2(4) by (cases "u = t") simp_all
  have start: "start_inx (task_at s2 u) = start_inx (task_at s u)" if "u \<in> live_tasks s" for u
    using F(2) [OF that] s2(3) by (cases "u = t") simp_all
  have none: "children s t = {}" by (rule queued_childless [OF tree t])
  have chi: "children s2 u = children s u \<union> (if u = t then set ts else {})" for u
    using live2 par kidD(3) by (auto simp: children_def)
  have cards: "card (children s2 t) = length ts" "u \<noteq> t \<Longrightarrow> card (children s2 u) = card (children s u)" for u
    using none D(5) by (simp_all add: chi distinct_card)
  have len: "length ts \<le> 65536"
    using card_children_bound [of s2 t] cards(1) by (simp add: global_task_capacity_def)
  show ?thesis
  proof (rule job_treeI)
    show "root \<in> live_tasks s2" "root \<notin> Q - {t} \<union> set ts" "Q - {t} \<union> set ts \<subseteq> live_tasks s2"
      using T(1,2,3) live2 new by auto
    show "root_waiting j (task_at s2 root)"
      using T(4) F [OF T(1)] \<open>t \<noteq> root\<close> by (simp add: root_waiting_def)
    show "p \<in> live_tasks s2 \<and> p \<notin> Q - {t} \<union> set ts" if "Some t = Some p" for p using that tl live2 new by auto
    fix u assume u: "u \<in> live_tasks s2"
    show "\<exists>p. p \<in> live_tasks s2 \<and> p \<notin> Q - {t} \<union> set ts \<and> parent_task (task_at s2 u) = Some p
          \<and> (p = root \<or> start_inx (task_at s2 p) < start_inx (task_at s2 u))" if "u \<noteq> root"
    proof (cases "u \<in> set ts")
      case True
      with kidD(3) kids tl new live2 start [OF tl] show ?thesis by (intro exI [of _ t]) auto
    next
      case False
      with u live2 have ul: "u \<in> live_tasks s" by auto
      from T(5) [OF this that] obtain p where p: "p \<in> live_tasks s" "p \<notin> Q" "parent_task (task_at s u) = Some p"
          "p = root \<or> start_inx (task_at s p) < start_inx (task_at s u)" by blast
      then show ?thesis using par [OF ul] start [OF ul] start [OF p(1)] live2 new by (intro exI [of _ p]) auto
    qed
    assume notQ: "u \<notin> Q - {t} \<union> set ts"
    with u live2 have ul: "u \<in> live_tasks s" by auto
    show "unat (unfinished_dependencies (task_at s2 u)) = card (children s2 u) + of_bool (Some t = Some u)
        \<and> 0 < card (children s2 u) + of_bool (Some t = Some u)"
    proof (cases "u = t")
      case True
      have "unat (1 + word_of_nat (length ts) :: size_t) = 1 + length ts"
        using len by (subst unat_add_no_wrap) (simp_all add: unat_of_nat)
      with True s2(6) cards(1) show ?thesis by simp
    next
      case False
      with notQ have "u \<notin> Q" by simp
      with T(6,7) [OF ul this] F(5) [OF ul False] cards(2) [OF False] False show ?thesis by simp
    qed
    show "task_fn (task_at s2 u) = None" if "u \<noteq> root"
    proof (cases "u = t")
      case False
      with notQ have "u \<notin> Q" by simp
      with T(8) [OF ul this that] F(4) [OF ul False] show ?thesis by simp
    qed (simp add: s2(5))
  next
    fix u assume u: "u \<in> Q - {t} \<union> set ts"
    show "queued_task j c (task_at s2 u)"
    proof (cases "u \<in> set ts")
      case True
      with kidD show ?thesis by (simp add: queued_task_def)
    next
      case False
      with u have "u \<in> Q" "u \<noteq> t" by auto
      with T(3) T(9) [of u] F [of u] show ?thesis by (auto simp: queued_task_def)
    qed
  qed
qed

text \<open>How much work the waiting tasks hold: at least one unit each.\<close>

definition weight :: "sched \<Rightarrow> task_ref list \<Rightarrow> nat" where
  "weight s q = (\<Sum>t\<leftarrow>q. max 1 (unat (end_inx (task_at s t)) - unat (start_inx (task_at s t))))"

lemma weight_append [simp]: "weight s (q @ ts) = weight s q + weight s ts"
  by (simp add: weight_def)

lemma weight_same:
  assumes "\<forall>u\<in>set q. same_task (task_at s' u) (task_at s u)"
  shows "weight s' q = weight s q"
  unfolding weight_def
proof (intro arg_cong [of _ _ sum_list] map_cong refl)
  fix u assume "u \<in> set q"
  with assms have "same_task (task_at s' u) (task_at s u)" by blast
  from same_task_fields(2,3) [OF this]
  show "max 1 (unat (end_inx (task_at s' u)) - unat (start_inx (task_at s' u))) = max 1 (unat (end_inx (task_at s u)) - unat (start_inx (task_at s u)))"
    by simp
qed

lemma weight_cells:
  assumes "\<And>t. t \<in> set ts \<Longrightarrow> start_inx (task_at s t) < end_inx (task_at s t)"
  shows "weight s ts = size (\<Sum>t\<in>#mset ts. task_cells (task_at s t))"
  using assms
proof (induction ts)
  case (Cons u ts)
  have "start_inx (task_at s u) < end_inx (task_at s u)" by (rule Cons.prems) simp
  then have "max 1 (unat (end_inx (task_at s u)) - unat (start_inx (task_at s u))) = size (task_cells (task_at s u))"
    by (simp add: task_cells_def cells_def word_less_nat_alt)
  with Cons show ?case by (simp add: weight_def)
qed (simp add: weight_def)

text \<open>What one execution of the task \<open>t\<close>, taken from the waiting tasks \<open>t # q\<close>, achieves.\<close>

definition progress :: "job_ref \<Rightarrow> size_t \<Rightarrow> task_ref \<Rightarrow> nat \<Rightarrow> task_ref list \<Rightarrow> task_ref \<Rightarrow> sched \<Rightarrow> sched \<Rightarrow> bool" where
  "progress j c root tid q t s s' \<longleftrightarrow> sched_wf s' \<and> is_worker tid s' \<and>
     (\<exists>ts cs. own_deque tid s' = q @ ts \<and> distinct (q @ ts) \<and> calls s' = calls s @ cs
        \<and> (\<forall>x\<in>set cs. call_of (job_function (jobs s j)) (job_payload (jobs s j)) x)
        \<and> (jobs s' = jobs s \<and> job_tree j c root (set (q @ ts)) None s' \<or> q @ ts = [] \<and> finished j s s')
        \<and> (\<forall>u\<in>set q. same_task (task_at s' u) (task_at s u))
        \<and> task_cells (task_at s t) = (\<Sum>u\<in>#mset ts. task_cells (task_at s' u)) + (\<Sum>x\<in>#mset cs. call_cells x)
        \<and> weight s' (q @ ts) < weight s (t # q))"

lemma execute_tree:
  assumes wf: "sched_wf s" and w: "is_worker tid s" and cur: "tl_current_task s tid = Some t"
    and tree: "job_tree j c root (insert t (set q)) None s" and q: "own_deque tid s = q" "distinct (t # q)"
    and leaf: "leaf_dev dev" and c: "chunk_size (jobs s j) = c" "c \<noteq> 0"
  obtains s' where "execute_task dev tid t s = Some s'" and "progress j c root tid q t s s'"
proof -
  let ?f = "job_function (jobs s j)" and ?p = "job_payload (jobs s j)"
  let ?s0 = "clear_fn t s" and ?a = "start_inx (task_at s t)" and ?b = "end_inx (task_at s t)"
  note T = job_treeD [OF tree]
  have qt: "queued_task j c (task_at s t)" by (rule T(9)) simp
  have live: "t < global_task_capacity" "t \<notin> avail s" using T(3) by auto
  have run: "running tid t s" using wf w cur live by (simp add: running_def)
  then have run0: "running tid t ?s0" by (simp add: running_def)
  obtain s1 s2 ts cs e where R: "internal_macro_job_splitter dev tid (JobPtr j) ?a ?b ?s0 = Some s2" "dispatched tid t ts cs ?s0 s1"
      "s2 = (upd_task t (task_payload_update (\<lambda>_. ?p)) s1)\<lparr>calls := calls s1 @ [(?f, ?p, ?a, e)]\<rparr>"
      "running tid t s2" "?a \<le> e" "?a < ?b \<longrightarrow> ?a < e"
      "covered (split_child j t c) (call_of ?f ?p) ts (cs @ [(?f, ?p, ?a, e)]) s2 (cells ?a ?b)"
      "\<forall>u\<in>set ts. ?a < start_inx (task_at s2 u)"
    by (rule splitter_result [OF run0 leaf, of j ?a ?b ?f ?p]) (use qt c in \<open>auto simp: queued_task_def\<close>)
  note D = dispatchedD [OF R(2)]
  have at2: "task_at s2 u = (if u = t then task_payload_update (\<lambda>_. ?p) (task_at s1 t) else task_at s1 u)" for u
    by (simp add: R(3) task_at_def upd_task_def)
  note cur2 = same_task_fields [OF D(8)]
  have kids: "split_child j t c (task_at s2 u) \<and> ?a < start_inx (task_at s2 u)" if "u \<in> set ts" for u
    using R(7,8) that by (simp add: covered_def)
  have tree2: "job_tree j c root (insert t (set q) - {t} \<union> set ts) (Some t) s2"
  proof (rule splitter_tree [OF run tree _ R(2)])
    show "avail s2 = avail s1" by (simp add: R(3) upd_task_pool)
  qed (use cur2 qt kids in \<open>simp_all add: at2 queued_task_def\<close>)
  moreover have Q': "insert t (set q) - {t} \<union> set ts = set (q @ ts)" using q(2) by auto
  ultimately have tree': "job_tree j c root (set (q @ ts)) (Some t) s2" by simp
  have wf2: "sched_wf s2" and w2: "is_worker tid s2" and tl2: "tl_current_task s2 tid = Some t" using R(4) by (simp_all add: running_def)
  obtain s' where C: "climb dev tid (Some t) s2 = Some s'" "walked (set (q @ ts)) s2 s'"
      "jobs s' = jobs s2 \<and> job_tree j c root (set (q @ ts)) None s' \<or> set (q @ ts) = {} \<and> finished j s2 s'"
    using climb_tree [OF wf2 tree'] by blast
  have jobs2: "jobs s2 = jobs s" using D(2) by (simp add: R(3))
  have "task_fn (task_at s t) = Some SplitterFn" "run_task_fn dev tid SplitterFn t ?s0 = Some s2" "task_fn (task_at s2 t) = None"
    using qt R(1) cur2(4) by (simp_all add: queued_task_def run_task_fn_def at2)
  note E = execute_climbs [OF this(1,2) tl2 this(3)]
  have own: "own_deque tid s' = q @ ts" using C(2) D(3) q(1) by (simp add: walked_def own_deque_def R(3))
  have same: "\<forall>u\<in>set q. same_task (task_at s' u) (task_at s u)"
  proof
    fix u assume u: "u \<in> set q"
    then have "u \<noteq> t" "u \<notin> avail s" using q(2) T(3) by auto
    then have "same_task (task_at s2 u) (task_at s u)" using D(9) [of u] by (simp add: at2)
    moreover have "same_task (task_at s' u) (task_at s2 u)" using C(2) u by (simp add: walked_def)
    ultimately show "same_task (task_at s' u) (task_at s u)" using same_task_trans by blast
  qed
  have samets: "same_task (task_at s' u) (task_at s2 u)" if "u \<in> set ts" for u using C(2) that by (simp add: walked_def)
  let ?cs = "cs @ [(?f, ?p, ?a, e)]"
  have sums: "(\<Sum>u\<in>#mset ts. task_cells (task_at s' u)) = (\<Sum>u\<in>#mset ts. task_cells (task_at s2 u))"
    using samets by (intro arg_cong [of _ _ sum_mset] image_mset_cong) (auto simp: same_task_split(2))
  have cov: "cells ?a ?b = (\<Sum>u\<in>#mset ts. task_cells (task_at s' u)) + (\<Sum>x\<in>#mset ?cs. call_cells x)"
    using R(7) unfolding covered_def sums by blast
  have "start_inx (task_at s' u) < end_inx (task_at s' u)" if "u \<in> set ts" for u
    using kids [OF that] same_task_fields(2,3) [OF samets [OF that]] by (simp add: split_child_def)
  note wts = weight_cells [OF this]
  have size: "unat ?b - unat ?a = weight s' ts + size (\<Sum>x\<in>#mset ?cs. call_cells x)"
    using arg_cong [OF cov, of size] wts by (simp add: cells_def)
  have "0 < size (\<Sum>x\<in>#mset ?cs. call_cells x)" if "?a < ?b"
    using R(6) that by (simp add: cells_def word_less_nat_alt)
  then have less: "weight s' ts < max 1 (unat ?b - unat ?a)"
    using size by (cases "?a < ?b") (auto simp: word_less_nat_alt)
  have "progress j c root tid q t s s'"
    unfolding progress_def
  proof (intro conjI exI [of _ ts] exI [of _ ?cs])
    show "sched_wf s'" using C(2) by (simp add: walked_def)
    show "is_worker tid s'" using C(2) w2 by (simp add: walked_def is_worker_def)
    show "own_deque tid s' = q @ ts" by (rule own)
    show "distinct (q @ ts)" using q(2) D(5,6) T(3) by auto
    show "calls s' = calls s @ ?cs" using C(2) D(4) by (simp add: walked_def R(3))
    show "\<forall>x\<in>set ?cs. call_of ?f ?p x" using R(7) by (simp add: covered_def)
    show "jobs s' = jobs s \<and> job_tree j c root (set (q @ ts)) None s' \<or> q @ ts = [] \<and> finished j s s'"
      using C(3) jobs2 by (simp add: finished_def)
    show "\<forall>u\<in>set q. same_task (task_at s' u) (task_at s u)" by (rule same)
    show "task_cells (task_at s t) = (\<Sum>u\<in>#mset ts. task_cells (task_at s' u)) + (\<Sum>x\<in>#mset ?cs. call_cells x)"
      using cov by (simp add: task_cells_def)
    show "weight s' (q @ ts) < weight s (t # q)" using less weight_same [OF same] by (simp add: weight_def)
  qed
  then show thesis using E C(1) that by simp
qed

section \<open>Running a job\<close>

text \<open>Some task waits to be run as long as the job has live tasks.\<close>

lemma job_tree_queue:
  assumes "job_tree j c root Q None s"
  shows "Q \<noteq> {}"
proof
  assume "Q = {}"
  note T = job_treeD [OF assms]
  have child: "\<exists>u\<in>live_tasks s. u \<noteq> root \<and> parent_task (task_at s u) = Some t \<and> (t = root \<or> start_inx (task_at s t) < start_inx (task_at s u))"
    if "t \<in> live_tasks s" for t
  proof -
    have "0 < card (children s t)" using T(7) [OF that] \<open>Q = {}\<close> by simp
    then obtain u where "u \<in> children s t" by (auto simp: card_gt_0_iff)
    then have u: "u \<in> live_tasks s" "parent_task (task_at s u) = Some t" by (simp_all add: children_def)
    have "u \<noteq> root" using u(2) T(4) by (auto simp: root_waiting_def)
    with T(5) [OF u(1)] u show ?thesis by auto
  qed
  let ?S = "live_tasks s - {root}" and ?key = "\<lambda>u. unat (start_inx (task_at s u))"
  have "?S \<noteq> {}" using child [OF T(1)] by blast
  then have fin: "finite (?key ` ?S)" "?key ` ?S \<noteq> {}" by simp_all
  from Max_in [OF this] obtain t where t: "Max (?key ` ?S) = ?key t" "t \<in> ?S" by (rule imageE)
  moreover from this have "\<forall>u\<in>?S. ?key u \<le> ?key t" using Max_ge [OF fin(1)] by (simp only: t(1) [symmetric]) blast
  ultimately have t: "t \<in> ?S" "\<forall>u\<in>?S. \<not> ?key t < ?key u" by (simp_all add: not_less)
  with child [of t] show False by (auto simp: word_less_nat_alt)
qed

text \<open>A worker with a task in its own deque takes the newest one.\<close>

lemma find_own:
  assumes "sched_wf s" and "is_worker tid s" and "own_deque tid s = q @ [t]"
  obtains s1 where "find_task tid n rng (set_current tid None s) = Some (Some t, rng, s1)" and "sched_wf s1" and "is_worker tid s1"
    and "own_deque tid s1 = q" and "s1 = (set_current tid None s)\<lparr>worker_pool := worker_pool s1\<rparr>"
    and "shared_view tid s1 = shared_view tid s"
proof -
  obtain ws where ws: "worker_pool s = Some ws" "tid < length ws"
    using assms(2) by (auto simp: is_worker_def split: option.splits)
  have wok: "worker_ok w" if "w \<in> set ws" for w using assms(1) ws that by (auto simp: sched_wf_def)
  let ?d = "cl_deque (ws ! tid)"
  obtain r d where pop: "chase_lev_pop ?d = (r, d)" by (cases "chase_lev_pop ?d")
  let ?w = "(ws ! tid)\<lparr>cl_deque := d\<rparr>"
  let ?s = "(set_current tid None s)\<lparr>worker_pool := Some (ws[tid := ?w])\<rparr>"
  have inv: "deque_inv ?d" using wok ws(2) by (simp add: worker_ok_def)
  have items: "deque_items ?d = q @ [t]" using assms(3) ws by (simp add: own_deque_def)
  have d: "r = Some t" "deque_items d = q" "deque_inv d"
    using cl.pop_result [OF inv] cl.pop_items [OF inv] cl.pop_keeps [OF inv] pop items by simp_all
  have "rb_inv ?w" using wok [of "ws ! tid"] ws(2) by (simp add: worker_ok_def rb_inv_def rb_shape_def rb_capacity_def)
  then have "worker_ok ?w" using d(3) by (simp add: worker_ok_def)
  then have "sched_wf ?s"
    using assms(1) ws wok by (auto simp: sched_wf_def dest!: set_update_subset_insert [THEN subsetD])
  moreover have "find_task tid n rng (set_current tid None s) = Some (Some t, rng, ?s)"
    using ws pop d(1) by (simp add: find_task_def on_worker_def deque_pop_def)
  moreover have "own_deque tid ?s = q" "is_worker tid ?s" using ws d(2) by (simp_all add: own_deque_def is_worker_def)
  moreover have "shared_view tid ?s = shared_view tid s"
    using shared.deque [of "set_current tid None s" ws tid d] ws mask_pop [OF pop] by (simp add: shared.current)
  ultimately show thesis by (intro that [of ?s]) simp_all
qed

text \<open>The job \<open>j\<close> has run to its end: nothing is live or queued, and the calls \<open>cs\<close> covered the cells \<open>M\<close>.\<close>

definition job_done :: "job_ref \<Rightarrow> nat \<Rightarrow> nat multiset \<Rightarrow> sched \<Rightarrow> sched \<Rightarrow> bool" where
  "job_done j tid M s s' \<longleftrightarrow> finished j s s' \<and> sched_wf s' \<and> own_deque tid s' = []
     \<and> shared_view tid s' = shared_view tid s
     \<and> (\<exists>cs. calls s' = calls s @ cs \<and> (\<forall>x\<in>set cs. call_of (job_function (jobs s j)) (job_payload (jobs s j)) x)
        \<and> (\<Sum>x\<in>#mset cs. call_cells x) = M)"

text \<open>In the rounds before the last of \<open>n\<close>, no job's record has changed.\<close>

definition still_running :: "dev \<Rightarrow> nat \<Rightarrow> size_t \<Rightarrow> uint32 \<Rightarrow> nat \<Rightarrow> sched \<Rightarrow> sched \<Rightarrow> bool" where
  "still_running dev tid cores rng n s s1 \<longleftrightarrow>
     (\<forall>m<n. \<exists>s2. worker_iterations dev tid cores m rng s1 = Some (rng, s2) \<and> jobs s2 = jobs s)"

lemma still_running_Suc:
  assumes "worker_iteration dev tid cores rng s1 = Some (rng, s4)" and "jobs s1 = jobs s" and "still_running dev tid cores rng n s s4"
  shows "still_running dev tid cores rng (Suc n) s s1"
  using assms by (auto simp: still_running_def less_Suc_eq_0_disj)

lemma job_done_later:
  assumes "job_done j tid N s1 s'" and "jobs s1 = jobs s" and "shared_view tid s1 = shared_view tid s" and "calls s1 = calls s @ cs"
    and "\<forall>x\<in>set cs. call_of (job_function (jobs s j)) (job_payload (jobs s j)) x" and "(\<Sum>x\<in>#mset cs. call_cells x) + N = M"
  shows "job_done j tid M s s'"
proof -
  obtain ds where "calls s' = calls s1 @ ds" "\<forall>x\<in>set ds. call_of (job_function (jobs s j)) (job_payload (jobs s j)) x"
      "(\<Sum>x\<in>#mset ds. call_cells x) = N"
    using assms(1,2) by (auto simp: job_done_def)
  then show ?thesis using assms by (auto simp: job_done_def finished_def intro!: exI [of _ "cs @ ds"])
qed

abbreviation queue_cells :: "sched \<Rightarrow> task_ref list \<Rightarrow> nat multiset" where
  "queue_cells s q \<equiv> (\<Sum>u\<in>#mset q. task_cells (task_at s u))"

lemma queue_cells_same:
  assumes "\<forall>u\<in>set q. same_task (task_at s' u) (task_at s u)"
  shows "queue_cells s' q = queue_cells s q"
  using assms by (intro arg_cong [of _ _ sum_mset] image_mset_cong) (auto simp: same_task_split(2))

text \<open>Once a task has been taken, the job finishes within as many executions as the weight of what waits.\<close>

lemma runs_to_end:
  assumes "sched_wf s" and "is_worker tid s" and "tl_current_task s tid = Some t"
    and "job_tree j c root (insert t (set q)) None s" and "own_deque tid s = q" and "distinct (t # q)"
    and leaf: "leaf_dev dev" and "chunk_size (jobs s j) = c" and c: "c \<noteq> 0"
  shows "\<exists>s1 s' n. execute_task dev tid t s = Some s1 \<and> worker_iterations dev tid cores n rng s1 = Some (rng, s')
    \<and> n < weight s (t # q) \<and> job_done j tid (queue_cells s (t # q)) s s' \<and> still_running dev tid cores rng n s s1"
  using assms(1-6,8)
proof (induction "weight s (t # q)" arbitrary: s t q rule: less_induct)
  case less
  obtain s1 where ex: "execute_task dev tid t s = Some s1" and pr: "progress j c root tid q t s s1"
    by (rule execute_tree [OF less.prems(1-6) leaf less.prems(7) c])
  from pr obtain ts cs where P: "sched_wf s1" "is_worker tid s1" "own_deque tid s1 = q @ ts" "distinct (q @ ts)" "calls s1 = calls s @ cs"
      "\<forall>x\<in>set cs. call_of (job_function (jobs s j)) (job_payload (jobs s j)) x"
      "jobs s1 = jobs s \<and> job_tree j c root (set (q @ ts)) None s1 \<or> q @ ts = [] \<and> finished j s s1"
      "\<forall>u\<in>set q. same_task (task_at s1 u) (task_at s u)"
      "task_cells (task_at s t) = queue_cells s1 ts + (\<Sum>x\<in>#mset cs. call_cells x)" "weight s1 (q @ ts) < weight s (t # q)"
    unfolding progress_def by blast
  have view1: "shared_view tid s1 = shared_view tid s" by (rule shared.view_execute [OF ex shared.leaf_keeps [OF leaf]])
  have cells: "queue_cells s (t # q) = (\<Sum>x\<in>#mset cs. call_cells x) + queue_cells s1 (q @ ts)"
    using P(9) queue_cells_same [OF P(8)] by (simp add: ac_simps)
  show ?case
  proof (cases "q @ ts" rule: rev_cases)
    case Nil
    then have "finished j s s1" using P(7) job_tree_queue [of j c root "{}" s1] by auto
    then have "job_done j tid (queue_cells s (t # q)) s s1"
      using P(1,3,5,6) Nil cells view1 by (auto simp: job_done_def)
    with ex P(10) show ?thesis by (intro exI [of _ s1] exI [of _ "0 :: nat"]) (simp add: still_running_def)
  next
    case (snoc q' u)
    then have tree: "jobs s1 = jobs s" "job_tree j c root (set (q @ ts)) None s1" using P(7) by auto
    have own: "own_deque tid s1 = q' @ [u]" using P(3) snoc by simp
    obtain s2 where F: "find_task tid cores rng (set_current tid None s1) = Some (Some u, rng, s2)" "sched_wf s2" "is_worker tid s2"
        "own_deque tid s2 = q'" "s2 = (set_current tid None s1)\<lparr>worker_pool := worker_pool s2\<rparr>"
        "shared_view tid s2 = shared_view tid s1"
      by (rule find_own [OF P(1,2) own])
    let ?s3 = "set_current tid (Some u) s2"
    have pool3: "pool ?s3 = pool s1" "jobs ?s3 = jobs s" "calls ?s3 = calls s1"
      using tree(1) by (subst F(5), simp)+
    then have at3: "task_at ?s3 v = task_at s1 v" for v by (simp add: task_at_def)
    have set: "set (q @ ts) = insert u (set q')" and dist: "distinct (u # q')" using snoc P(4) by auto
    have tree3: "job_tree j c root (insert u (set q')) None ?s3"
      using tree(2) unfolding set job_tree_def children_def at3 pool3 .
    have "weight ?s3 (u # q') = weight s1 (q @ ts)" unfolding snoc by (simp add: weight_def at3)
    with P(10) have wless: "weight ?s3 (u # q') < weight s (t # q)" by simp
    have c3: "chunk_size (jobs ?s3 j) = c" using pool3(2) less.prems(7) by simp
    have own3: "own_deque tid ?s3 = q'" "is_worker tid ?s3" "sched_wf ?s3"
      using F(2,3,4) by (simp_all add: own_deque_def is_worker_def)
    obtain s4 s' n where IH: "execute_task dev tid u ?s3 = Some s4" "worker_iterations dev tid cores n rng s4 = Some (rng, s')"
        "n < weight ?s3 (u # q')" "job_done j tid (queue_cells ?s3 (u # q')) ?s3 s'" "still_running dev tid cores rng n ?s3 s4"
      using less.hyps [OF wless own3(3,2) _ tree3 own3(1) dist c3] by auto
    have iter: "worker_iteration dev tid cores rng s1 = Some (rng, s4)"
      using F(1) IH(1) by (simp add: worker_iteration_def)
    then have "worker_iterations dev tid cores (Suc n) rng s1 = Some (rng, s')" using IH(2) by simp
    moreover have "still_running dev tid cores rng (Suc n) s s1"
      using iter tree(1) IH(5) pool3(2) by (intro still_running_Suc [OF iter]) (simp_all add: still_running_def)
    moreover have "Suc n < weight s (t # q)" using IH(3) wless by simp
    moreover have "queue_cells ?s3 (u # q') = queue_cells s1 (q @ ts)" unfolding snoc by (simp add: at3)
    then have "job_done j tid (queue_cells s (t # q)) s s'"
      using IH(4) cells P(5,6) pool3 F(6) view1 by (intro job_done_later [OF IH(4)]) (simp_all add: shared.current)
    ultimately show ?thesis using ex by blast
  qed
qed

definition ring_tail :: "sched \<Rightarrow> nat" where
  "ring_tail s = (case worker_pool s of Some (w # _) \<Rightarrow> unat (rb_tail w) | _ \<Rightarrow> 0)"

text \<open>A worker with an empty deque takes the oldest task of its ring.\<close>

lemma find_ring:
  assumes "sched_wf s" and "worker_pool s = Some [w]" and "deque_items (cl_deque w) = []" and "rb_items w = [t]"
  obtains s1 where "find_task 0 n rng (set_current 0 None s) = Some (Some t, rng, s1)" and "sched_wf s1" and "is_worker 0 s1"
    and "own_deque 0 s1 = []" and "s1 = (set_current 0 None s)\<lparr>worker_pool := worker_pool s1\<rparr>"
    and "rings s1 = [[]]" and "ring_tail s1 = unat (rb_tail w)" and "own_room 0 s1 = own_room 0 s"
proof -
  have ok: "deque_inv (cl_deque w)" "rb_inv w" using assms(1,2) by (auto simp: sched_wf_def worker_ok_def)
  obtain d where pop: "chase_lev_pop (cl_deque w) = (None, d)" and d: "deque_inv d" "deque_items d = []"
      "deque_capacity d = deque_capacity (cl_deque w)"
    using cl.pop_result [OF ok(1)] cl.pop_items [OF ok(1)] cl.pop_keeps [OF ok(1)] assms(3)
    by (cases "chase_lev_pop (cl_deque w)") auto
  let ?w = "w\<lparr>cl_deque := d\<rparr>"
  have rb: "rb_inv ?w" "rb_items ?w = [t]"
    using ok(2) assms(4) by (simp_all add: rb_inv_def rb_shape_def rb_capacity_def rb_items_def rb_slots_def)
  obtain w2 where pop2: "spmc_consumer_pop ?w = (Some t, w2)" and w2: "rb_inv w2" "rb_items w2 = []" "rb_tail w2 = rb_tail w"
    using rb_pop [OF rb(1)] rb(2) by (cases "spmc_consumer_pop ?w") auto
  have "cl_deque w2 = d" using pop2 by (auto simp: spmc_consumer_pop_def Let_def split: if_splits)
  with w2(1) d(1) have "worker_ok w2" by (simp add: worker_ok_def)
  let ?s = "(set_current 0 None s)\<lparr>worker_pool := Some [w2]\<rparr>"
  have "sched_wf ?s" using assms(1,2) \<open>worker_ok w2\<close> by (simp add: sched_wf_def)
  moreover have "find_task 0 n rng (set_current 0 None s) = Some (Some t, rng, ?s)"
    using assms(2) pop pop2 by (simp add: find_task_def on_worker_def deque_pop_def)
  moreover have "own_deque 0 ?s = []" "is_worker 0 ?s" using d(2) \<open>cl_deque w2 = d\<close> by (simp_all add: own_deque_def is_worker_def)
  moreover have "rings ?s = [[]]" "ring_tail ?s = unat (rb_tail w)" using w2 by (simp_all add: rings_def ring_tail_def)
  moreover have "own_room 0 ?s = own_room 0 s" using assms(2,3) d(2,3) \<open>cl_deque w2 = d\<close> by (simp add: own_room_def)
  ultimately show thesis by (intro that [of ?s]) simp_all
qed

lemma submit_keeps:
  assumes "scheduler_submit_job tid j chunk s = (ok, s')"
  shows "calls s' = calls s \<and> own_deque i s' = own_deque i s \<and> own_room i s' = own_room i s
    \<and> map_option length (worker_pool s') = map_option length (worker_pool s)"
proof -
  have acq: "worker_pool y = worker_pool x \<and> calls y = calls x" if "acquire tid x = (r, y)" for x y r
    using that by (auto simp: acquire_def split: prod.splits)
  have same: "cl_deque (ws[k := w] ! i) = cl_deque (ws ! i)" if "spmc_producer_push (ws ! k) t = (b, w)" for ws k t b w
    using push_deque_same [of "ws ! k" t] that
    by (cases "k < length ws"; cases "i = k") (simp_all add: not_less list_update_beyond)
  show ?thesis
    using assms
    by (auto simp: same scheduler_submit_job_def Let_def own_deque_def own_room_def ring_push_def release_def dest!: acq
        split: option.splits prod.splits if_splits)
qed

text \<open>An idle scheduler with one worker: nothing queued, no task live.\<close>

definition idle_single :: "sched \<Rightarrow> bool" where
  "idle_single s \<longleftrightarrow> sched_wf s \<and> rings_bounded s \<and> avail s = {..<global_task_capacity}
     \<and> (\<exists>w. worker_pool s = Some [w] \<and> deque_items (cl_deque w) = [] \<and> rb_items w = [])"

lemma submitted_tree:
  assumes "sched_wf s" and "avail s = {..<global_task_capacity}" and "root \<noteq> child" and "{root, child} \<subseteq> avail s"
    and "avail s' = avail s - {root, child}" and "pool s1 = pool s'" and "task_at s' root = root_task j job x"
    and "task_at s' child = splitter_task j job root y"
  shows "job_tree j c root (insert child (set [])) None s1"
proof -
  have at1: "task_at s1 u = task_at s' u" for u by (simp add: task_at_def assms(6))
  have live: "live_tasks s1 = {root, child}" using assms(2,4,5,6) by auto
  have fields: "parent_task (task_at s1 root) = None" "parent_task (task_at s1 child) = Some root"
    using assms(7,8) by (simp_all add: at1 root_task_def splitter_task_def)
  then have "children s1 root = {child}" using assms(3) unfolding children_def live by auto
  then show ?thesis
    using assms(3,7,8) live fields
    by (intro job_treeI) (auto simp: at1 root_task_def splitter_task_def root_waiting_def queued_task_def)
qed

text \<open>The first round after a submission to an idle worker finds the job's first task.\<close>

lemma submitted_found:
  assumes "idle_single s" and "scheduler_submit_job tid j chunk s = (True, s')"
  obtains root child x s2 s1 where "find_task 0 cores rng (set_current 0 None s') = Some (Some child, rng, s1)"
    and "s2 = set_current 0 (Some child) s1" and "sched_wf s2" and "is_worker 0 s2" and "tl_current_task s2 0 = Some child"
    and "own_deque 0 s2 = []" and "job_tree j (normal_chunk (jobs s j) chunk) root (insert child (set [])) None s2"
    and "jobs s2 = jobs (with_chunk j chunk s)" and "calls s2 = calls s" and "task_at s2 child = splitter_task j (jobs s2 j) root x"
    and "rings s2 = [[]]" and "ring_tail s2 = ring_tail s'" and "task_cache (pool s2) = task_cache (pool s')"
    and "jobs s' = jobs (with_chunk j chunk s)" and "root \<noteq> child" and "live_tasks s2 = {root, child}"
    and "unfinished_dependencies (task_at s2 root) = 1" and "own_room 0 s2 = own_room 0 s"
proof -
  have wf: "sched_wf s" and bound: "rings_bounded s" and av: "avail s = {..<global_task_capacity}" using assms(1) by (simp_all add: idle_single_def)
  obtain w where w: "worker_pool s = Some [w]" "deque_items (cl_deque w) = []" "rb_items w = []"
    using assms(1) by (auto simp: idle_single_def)
  have outcome: "submit_outcome tid j chunk s True s'" by (rule submit_result [OF wf bound assms(2)])
  then have wf': "sched_wf s'" and jobs': "jobs s' = jobs (with_chunk j chunk s)" and sub: "submitted j s s'"
    by (simp_all add: submit_outcome_def)
  obtain root child i x y where sub': "root \<noteq> child" "{root, child} \<subseteq> avail s" "avail s' = avail s - {root, child}"
      "task_at s' root = root_task j (jobs s' j) x" "task_at s' child = splitter_task j (jobs s' j) root y"
      "i < length (rings s)" "rings s' = (rings s)[i := rings s ! i @ [child]]"
    using sub unfolding submitted_def by (elim exE conjE) (rule that; assumption)
  note K = submit_keeps [OF assms(2)]
  have "rings s' = [[child]]" using sub'(6,7) w by (simp add: rings_def)
  then obtain w' where w': "worker_pool s' = Some [w']" "rb_items w' = [child]"
    by (auto simp: rings_def split: option.splits)
  have "deque_items (cl_deque w') = []" using K [of 0] w w'(1) by (simp add: own_deque_def)
  then obtain s1 where F: "find_task 0 cores rng (set_current 0 None s') = Some (Some child, rng, s1)" "sched_wf s1" "is_worker 0 s1"
      "own_deque 0 s1 = []" "s1 = (set_current 0 None s')\<lparr>worker_pool := worker_pool s1\<rparr>"
      "rings s1 = [[]]" "ring_tail s1 = unat (rb_tail w')" "own_room 0 s1 = own_room 0 s'"
    using find_ring [OF wf' w'(1) _ w'(2)] by blast
  let ?s2 = "set_current 0 (Some child) s1"
  have same: "pool ?s2 = pool s'" "jobs ?s2 = jobs s'" "calls ?s2 = calls s"
    using K by (subst F(5), simp)+
  have tree: "job_tree j (normal_chunk (jobs s j) chunk) root (insert child (set [])) None ?s2"
    by (rule submitted_tree [OF wf av sub'(1,2,3) same(1) sub'(4,5)])
  have fields: "task_at ?s2 child = splitter_task j (jobs s' j) root y" using sub'(5) same(1) by (simp add: task_at_def)
  have pre: "sched_wf ?s2" "is_worker 0 ?s2" "tl_current_task ?s2 0 = Some child" "own_deque 0 ?s2 = []"
    using F(2-4) by (simp_all add: is_worker_def own_deque_def)
  have ring: "rings ?s2 = [[]]" "ring_tail ?s2 = ring_tail s'" "own_room 0 ?s2 = own_room 0 s"
    using F(6,7,8) w'(1) K [of 0] by (simp_all add: rings_def ring_tail_def own_room_def)
  have live: "live_tasks ?s2 = {root, child}" using av sub'(2,3) same(1) by auto
  have deps: "unfinished_dependencies (task_at ?s2 root) = 1" using sub'(4) same(1) by (simp add: task_at_def root_task_def)
  show thesis
    by (rule that [OF F(1) refl pre tree]) (use same jobs' fields ring sub'(1) live deps in simp_all)
qed

text \<open>
  The run of an accepted job, with everything that is known of its end: the rounds it takes, the state it
  leaves and the calls it made.
\<close>

definition job_ran :: "dev \<Rightarrow> job_ref \<Rightarrow> size_t \<Rightarrow> uint32 \<Rightarrow> nat \<Rightarrow> sched \<Rightarrow> sched \<Rightarrow> sched \<Rightarrow> bool" where
  "job_ran dev j cores rng n s s' s'' \<longleftrightarrow> 0 < n \<and> n \<le> max 1 (unat (payload_size (jobs s j)))
    \<and> worker_iterations dev 0 cores n rng s' = Some (rng, s'')
    \<and> (\<forall>m<n. \<exists>s2. worker_iterations dev 0 cores m rng s' = Some (rng, s2) \<and> jobs s2 = jobs s')
    \<and> jobs s'' = (jobs s')(j := (jobs s' j)\<lparr>job_state := JOB_STATE_DONE\<rparr>)
    \<and> sched_wf s'' \<and> avail s'' = {..<global_task_capacity} \<and> own_deque 0 s'' = [] \<and> rings s'' = [[]]
    \<and> ring_tail s'' = ring_tail s' \<and> (\<forall>u. u \<noteq> 0 \<longrightarrow> task_cache (pool s'') u = task_cache (pool s') u)
    \<and> (\<exists>cs. calls s'' = calls s @ cs \<and> (\<forall>x\<in>set cs. call_of (job_function (jobs s j)) (job_payload (jobs s j)) x)
         \<and> (\<Sum>x\<in>#mset cs. call_cells x) = cells 0 (payload_size (jobs s j)))"

lemma shared_view_same:
  assumes "shared_view 0 s' = shared_view 0 s"
  shows "rings s' = rings s" "ring_tail s' = ring_tail s" "u \<noteq> 0 \<Longrightarrow> task_cache (pool s') u = task_cache (pool s) u"
proof -
  have "map_option (map worker_frame) (worker_pool s') = map_option (map worker_frame) (worker_pool s)"
    and cache: "(task_cache (pool s'))(0 := []) = (task_cache (pool s))(0 := [])"
    using assms by (simp_all add: shared_view_def)
  then have "rel_option (list_all2 (\<lambda>w' w. worker_frame w' = worker_frame w)) (worker_pool s') (worker_pool s)"
    by (cases "worker_pool s"; cases "worker_pool s'") (auto simp: list_all2_conv_all_nth list_eq_iff_nth_eq)
  then show "rings s' = rings s" "ring_tail s' = ring_tail s"
    by (cases rule: option.rel_cases;
        auto simp: rings_def ring_tail_def worker_frame_def list_all2_conv_all_nth intro!: nth_equalityI split: list.splits;
        force)+
  show "task_cache (pool s') u = task_cache (pool s) u" if "u \<noteq> 0"
    using fun_cong [OF cache, of u] that by simp
qed

lemma job_run_result:
  assumes "idle_single s" and "leaf_dev dev" and "scheduler_submit_job tid j chunk s = (True, s')"
  shows "\<exists>n s''. job_ran dev j cores rng n s s' s''"
proof -
  let ?N = "payload_size (jobs s j)"
  let ?c = "normal_chunk (jobs s j) chunk"
  obtain root child x s2 s1 where F: "find_task 0 cores rng (set_current 0 None s') = Some (Some child, rng, s1)"
      "s2 = set_current 0 (Some child) s1" and pre: "sched_wf s2" "is_worker 0 s2" "tl_current_task s2 0 = Some child" "own_deque 0 s2 = []"
      and tree: "job_tree j ?c root (insert child (set [])) None s2"
      and same: "jobs s2 = jobs (with_chunk j chunk s)" "calls s2 = calls s" "task_at s2 child = splitter_task j (jobs s2 j) root x"
      and ring: "rings s2 = [[]]" "ring_tail s2 = ring_tail s'" "task_cache (pool s2) = task_cache (pool s')"
      and jobs': "jobs s' = jobs (with_chunk j chunk s)"
    by (rule submitted_found [OF assms(1,3)]) (rule that; assumption)
  have c: "chunk_size (jobs s2 j) = ?c" "?c \<noteq> 0" using same(1) by (simp_all add: normal_chunk_def DEFAULT_CHUNK_SIZE_def)
  obtain s3 s'' n where R: "execute_task dev 0 child s2 = Some s3" "worker_iterations dev 0 cores n rng s3 = Some (rng, s'')"
      "n < weight s2 [child]" "job_done j 0 (queue_cells s2 [child]) s2 s''" "still_running dev 0 cores rng n s2 s3"
  proof -
    have "distinct [child]" by simp
    from runs_to_end [OF pre(1-3) tree pre(4) this assms(2) c, of cores rng] show thesis
      by (elim exE conjE) (rule that)
  qed
  have iter: "worker_iteration dev 0 cores rng s' = Some (rng, s3)" using F R(1) by (simp add: worker_iteration_def)
  then have "worker_iterations dev 0 cores (Suc n) rng s' = Some (rng, s'')" using R(2) by simp
  moreover have "Suc n \<le> max 1 (unat ?N)"
    using R(3) same by (simp add: weight_def splitter_task_def)
  moreover have "queue_cells s2 [child] = cells 0 ?N" using same by (simp add: task_cells_def splitter_task_def)
  with R(4) have "finished j s2 s''" "sched_wf s''" "own_deque 0 s'' = []" "shared_view 0 s'' = shared_view 0 s2" and
    "\<exists>cs. calls s'' = calls s @ cs \<and> (\<forall>x\<in>set cs. call_of (job_function (jobs s j)) (job_payload (jobs s j)) x)
         \<and> (\<Sum>x\<in>#mset cs. call_cells x) = cells 0 ?N"
    using same(1,2) by (simp_all add: job_done_def)
  moreover have "avail s'' = {..<global_task_capacity}"
    using \<open>finished j s2 s''\<close> avail_bound [OF \<open>sched_wf s''\<close>] by (auto simp: finished_def)
  moreover have "jobs s'' = (jobs s')(j := (jobs s' j)\<lparr>job_state := JOB_STATE_DONE\<rparr>)"
    using \<open>finished j s2 s''\<close> same(1) jobs' by (simp add: finished_def)
  moreover have "\<forall>m<Suc n. \<exists>s2. worker_iterations dev 0 cores m rng s' = Some (rng, s2) \<and> jobs s2 = jobs s'"
    using still_running_Suc [OF iter _ R(5)] same(1) jobs' by (simp add: still_running_def)
  moreover note shared_view_same [OF \<open>shared_view 0 s'' = shared_view 0 s2\<close>]
  ultimately show ?thesis
    unfolding job_ran_def using ring by (intro exI [of _ "Suc n"] exI [of _ s'']) simp
qed

text \<open>
  C13: a job that one worker runs is run exactly once, to its end. From an idle scheduler with one worker,
  for any job that \<open>scheduler_submit_job\<close> accepts, with any chunk size and any payload size, and a
  developer function that works on its own data only, the worker needs at most as many rounds of its
  main loop as the payload has elements (one for an empty payload); after them the job is complete, all
  tasks are back in the pool, the deque is empty, and the calls of the job's function cover every index
  of the payload exactly once and nothing else.
\<close>

theorem job_runs_to_completion:
  assumes "idle_single s" and "leaf_dev dev" and "scheduler_submit_job tid j chunk s = (True, s')"
  shows "\<exists>n s''. n \<le> max 1 (unat (payload_size (jobs s j))) \<and> worker_iterations dev 0 cores n rng s' = Some (rng, s'')
    \<and> scheduler_is_job_complete (job_state (jobs s'' j)) \<and> avail s'' = {..<global_task_capacity} \<and> own_deque 0 s'' = []
    \<and> (\<exists>cs. calls s'' = calls s @ cs \<and> (\<forall>x\<in>set cs. call_of (job_function (jobs s j)) (job_payload (jobs s j)) x)
         \<and> (\<Sum>x\<in>#mset cs. call_cells x) = cells 0 (payload_size (jobs s j)))"
proof -
  obtain n s'' where "job_ran dev j cores rng n s s' s''" using job_run_result [OF assms] by blast
  then show ?thesis
    unfolding job_ran_def by (intro exI [of _ n] exI [of _ s'']) (simp add: scheduler_is_job_complete_def)
qed

lemma submits_booted: "fst (scheduler_submit_job 1 0 64 booted)"
  using submit_result [OF booted_facts(2,5) prod.collapse [symmetric], of 1 0 64]
    booted_facts(6) [of 1] booted_facts(7,10)
  by (auto simp: submit_outcome_def global_task_capacity_def)

lemma idle_booted: "idle_single booted"
  using booted_facts(2,3,5,10) by (auto simp: idle_single_def fresh_worker_def)

theorem job_runs_to_completion_witness:
  "let s' = snd (scheduler_submit_job 1 0 64 booted) in
     \<exists>n s''. worker_iterations idle_dev 0 1 n 7 s' = Some (7, s'') \<and> scheduler_is_job_complete (job_state (jobs s'' 0))
       \<and> avail s'' = {..<global_task_capacity}"
proof -
  have "scheduler_submit_job 1 0 64 booted = (True, snd (scheduler_submit_job 1 0 64 booted))"
    using submits_booted by (simp add: prod_eq_iff)
  from job_runs_to_completion [OF idle_booted idle_dev_leaf this, of 1 7] show ?thesis unfolding Let_def by blast
qed
end
