(* ===== verification/Continuations.thy ===== *)
theory Continuations
  imports WorkerRun
begin

text \<open>
  What \<open>execute_task\<close> and \<open>climb\<close> do with continuations: a chain of them on a task without children ends,
  and the continuation of a parent is queued when its last dependency is gone.
\<close>

section \<open>Continuations\<close>

text \<open>
  A chain of developer functions: each but the last registers the next one as continuation and does
  nothing else with the scheduler.
\<close>

fun chained :: "dev \<Rightarrow> nat list \<Rightarrow> bool" where
  "chained dev [] \<longleftrightarrow> False"
| "chained dev [f] \<longleftrightarrow> (\<forall>tid p a b s. dev tid (UserFn f) p a b s = Some s)"
| "chained dev (f # g # fs) \<longleftrightarrow>
     (\<forall>tid p a b s. dev tid (UserFn f) p a b s = scheduler_set_continuation tid (UserFn g) s) \<and> chained dev (g # fs)"

definition chain_call :: "sc_task \<Rightarrow> nat \<Rightarrow> sc_fn \<times> ptr \<times> size_t \<times> size_t" where
  "chain_call x f = (UserFn f, task_payload x, start_inx x, end_inx x)"

text \<open>The state after the functions \<open>fs\<close> have run with the data of task \<open>t\<close>.\<close>

definition chain_done :: "task_ref \<Rightarrow> nat list \<Rightarrow> sched \<Rightarrow> sched" where
  "chain_done t fs s =
     upd_task t (\<lambda>x. x\<lparr>task_fn := None, unfinished_dependencies := 0\<rparr>) (s\<lparr>calls := calls s @ map (chain_call (task_at s t)) fs\<rparr>)"

lemma upd_task_twice: "upd_task t f (upd_task t g s) = upd_task t (\<lambda>x. f (g x)) s"
  by (simp add: upd_task_def task_at_def)

lemma upd_task_calls: "(upd_task t f s)\<lparr>calls := c\<rparr> = upd_task t f (s\<lparr>calls := c\<rparr>)"
  by (simp add: upd_task_def task_at_def)

lemma upd_task_cong: "f (task_at s t) = g (task_at s t) \<Longrightarrow> upd_task t f s = upd_task t g s"
  by (simp add: upd_task_def)

lemma clear_relock: "relock t (clear_fn t s) = clear_fn t (relock t s)"
  unfolding upd_task_twice by (rule upd_task_cong) simp

lemma task_at_calls [simp]: "task_at (s\<lparr>calls := c\<rparr>) u = task_at s u"
  by (simp add: task_at_def)

text \<open>One function of the chain and the drop of the task's own lock after it.\<close>

definition chain_next :: "task_ref \<Rightarrow> nat \<Rightarrow> nat list \<Rightarrow> sched \<Rightarrow> sched" where
  "chain_next t f fs s = upd_task t (\<lambda>x. x\<lparr>task_fn := (case fs of [] \<Rightarrow> None | g # _ \<Rightarrow> Some (UserFn g)), unfinished_dependencies := 0\<rparr>)
     (s\<lparr>calls := calls s @ [chain_call (task_at s t) f]\<rparr>)"

lemma chain_round:
  assumes "chained dev (f # fs)" and "tl_current_task s tid = Some t" and "unfinished_dependencies (task_at s t) = 1"
  obtains s' where "run_task_fn dev tid (UserFn f) t (clear_fn t s) = Some s'" and "unfinished_dependencies (task_at s' t) = 1"
    and "tl_current_task s' tid = Some t" and "upd_task t (sub_deps 1) s' = chain_next t f fs s"
proof -
  let ?s = "upd_task t (\<lambda>x. x\<lparr>task_fn := case fs of [] \<Rightarrow> None | g # _ \<Rightarrow> Some (UserFn g)\<rparr>)
      (s\<lparr>calls := calls s @ [chain_call (task_at s t) f]\<rparr>)"
  have "run_task_fn dev tid (UserFn f) t (clear_fn t s) = Some ?s"
    using assms(1,2)
    by (cases fs) (simp_all add: run_task_fn_def Let_def call_dev_def scheduler_set_continuation_def upd_task_calls upd_task_twice
        chain_call_def)
  moreover have "upd_task t (sub_deps 1) ?s = chain_next t f fs s"
    unfolding chain_next_def upd_task_twice by (rule upd_task_cong) (simp add: assms(3))
  ultimately show thesis by - (rule that, simp_all add: assms(2,3))
qed

lemma chain_next_simps:
  "tl_current_task (chain_next t f fs s) = tl_current_task s"
  "task_fn (task_at (chain_next t f fs s) t) = (case fs of [] \<Rightarrow> None | g # _ \<Rightarrow> Some (UserFn g))"
  "chain_next t f fs (relock t s) = chain_next t f fs s"
  "chain_next t f [] s = chain_done t [f] s"
  "chain_done t fs (chain_next t f fs s) = chain_done t (f # fs) s"
  by (simp_all add: chain_next_def chain_done_def upd_task_twice upd_task_calls chain_call_def [abs_def])

lemma continuation_chain:
  assumes "chained dev (f # fs)" and "tl_current_task s tid = Some t" and "task_fn (task_at s t) = Some (UserFn f)"
  shows "continuation_loop dev tid s = Some (1, chain_done t (f # fs) s)"
  using assms
proof (induction fs arbitrary: f s)
  case Nil
  obtain s' where R: "run_task_fn dev tid (UserFn f) t (clear_fn t (relock t s)) = Some s'" "unfinished_dependencies (task_at s' t) = 1"
      "tl_current_task s' tid = Some t" "upd_task t (sub_deps 1) s' = chain_next t f [] (relock t s)"
    by (rule chain_round [OF Nil.prems(1), of "relock t s" tid t]) (use Nil.prems in auto)
  have "continuation_loop dev tid s = continuation_loop dev tid (chain_next t f [] s)"
    by (subst continuation_loop.simps) (use Nil.prems R in \<open>simp add: drop_dep_def clear_relock chain_next_simps(3)\<close>)
  also have "\<dots> = Some (1, chain_next t f [] s)"
    by (subst continuation_loop.simps) (use Nil.prems in \<open>simp add: chain_next_simps(1,2)\<close>)
  finally show ?case by (simp add: chain_next_simps)
next
  case (Cons g fs)
  obtain s' where R: "run_task_fn dev tid (UserFn f) t (clear_fn t (relock t s)) = Some s'" "unfinished_dependencies (task_at s' t) = 1"
      "tl_current_task s' tid = Some t" "upd_task t (sub_deps 1) s' = chain_next t f (g # fs) (relock t s)"
    by (rule chain_round [OF Cons.prems(1), of "relock t s" tid t]) (use Cons.prems in auto)
  have "continuation_loop dev tid s = continuation_loop dev tid (chain_next t f (g # fs) s)"
    by (subst continuation_loop.simps) (use Cons.prems R in \<open>simp add: drop_dep_def clear_relock chain_next_simps(3)\<close>)
  also have "\<dots> = Some (1, chain_done t (g # fs) (chain_next t f (g # fs) s))"
    by (rule Cons.IH) (use Cons.prems in \<open>simp_all add: chain_next_simps\<close>)
  finally show ?case by (simp add: chain_next_simps)
qed

lemma execute_chain:
  assumes "chained dev (f # fs)" and "tl_current_task s tid = Some t" and "task_fn (task_at s t) = Some (UserFn f)"
    and "unfinished_dependencies (task_at s t) = 1"
  shows "execute_task dev tid t s =
    climb dev tid (parent_task (task_at s t)) (release tid t (chain_done t (f # fs) s))"
proof -
  obtain s' where R: "run_task_fn dev tid (UserFn f) t (clear_fn t s) = Some s'" "unfinished_dependencies (task_at s' t) = 1"
      "tl_current_task s' tid = Some t" "upd_task t (sub_deps 1) s' = chain_next t f fs s"
    by (rule chain_round [OF assms(1,2,4)])
  have "continuation_loop dev tid (chain_next t f fs s) = Some (1, chain_done t (f # fs) s)"
  proof (cases fs)
    case Nil
    then have "continuation_loop dev tid (chain_next t f fs s) = Some (1, chain_next t f fs s)"
      by (subst continuation_loop.simps) (simp add: assms(2) chain_next_simps(1,2))
    with Nil show ?thesis by (simp add: chain_next_simps)
  next
    case (Cons g gs)
    have "continuation_loop dev tid (chain_next t f fs s) = Some (1, chain_done t (g # gs) (chain_next t f fs s))"
      by (rule continuation_chain) (use assms Cons in \<open>simp_all add: chain_next_simps\<close>)
    then show ?thesis by (simp add: Cons chain_next_simps)
  qed
  then show ?thesis
    using R assms(2,3) by (simp add: execute_task_def drop_dep_def) (simp add: chain_done_def)
qed

text \<open>
  A chain of continuations ends. A task whose function registers a continuation, which registers the
  next one and so on, and that spawns nothing, runs all of them inline, in order, each with the payload
  and range of the task, and is then returned to the pool; the walk to its parent, which has other
  dependencies left, drops exactly one of them and stops.
\<close>

theorem continuation_chain_ends:
  assumes "sched_wf s" and "chained dev (f # fs)" and "tl_current_task s tid = Some t" and "task_fn (task_at s t) = Some (UserFn f)"
    and "unfinished_dependencies (task_at s t) = 1" and "t < global_task_capacity" "t \<notin> avail s"
    and "parent_task (task_at s t) = Some p" "p \<noteq> t" "unfinished_dependencies (task_at s p) \<noteq> 1"
  shows "\<exists>s'. execute_task dev tid t s = Some s' \<and> calls s' = calls s @ map (chain_call (task_at s t)) (f # fs)
    \<and> sched_wf s' \<and> avail s' = insert t (avail s)
    \<and> unfinished_dependencies (task_at s' p) = unfinished_dependencies (task_at s p) - 1"
proof -
  let ?s = "chain_done t (f # fs) s"
  have wf: "sched_wf ?s" and av: "avail ?s = avail s"
    using assms(1) by (simp_all add: chain_done_def upd_task_pool sched_wf_def)
  note R = release_sched [OF wf assms(6), of tid, unfolded av, OF assms(7)]
  let ?r = "release tid t ?s"
  have at: "unfinished_dependencies (task_at ?r u) = unfinished_dependencies (task_at ?s u)" for u
    using R(4) [of u] by (metis sc_task.select_convs(5) sc_task.surjective sc_task.update_convs)
  have p: "unfinished_dependencies (task_at ?r p) = unfinished_dependencies (task_at s p)"
    unfolding at using assms(9) by (simp add: chain_done_def)
  have "climb dev tid (Some p) ?r = Some (upd_task p (sub_deps 1) ?r)"
    by (subst climb.simps) (use assms(10) p in \<open>simp add: drop_dep_def\<close>)
  then have "execute_task dev tid t s = Some (upd_task p (sub_deps 1) ?r)"
    using execute_chain [OF assms(2-5)] assms(8) by simp
  moreover have "calls ?r = calls s @ map (chain_call (task_at s t)) (f # fs)"
    by (subst R(3)) (simp add: chain_done_def)
  ultimately show ?thesis
    using R(1,2) p by (simp add: upd_task_pool)
qed

lemma own_push_room:
  assumes "sched_wf s" and "is_worker tid s" and "deque_push tid t s = Some (ok, s')"
  shows "ok \<longleftrightarrow> 0 < own_room tid s"
proof -
  obtain ws where ws: "worker_pool s = Some ws" "tid < length ws"
    using assms(2) by (auto simp: is_worker_def split: option.splits)
  then have "deque_inv (cl_deque (ws ! tid))" using assms(1) by (auto simp: sched_wf_def worker_ok_def)
  from cl.push_result [OF this, of t] show ?thesis
    using assms(3) ws by (auto simp: deque_push_def own_room_def split: prod.splits)
qed

lemma climb_parks_result:
  assumes "sched_wf s" and "is_worker tid s" and "0 < own_room tid s"
    and "unfinished_dependencies (task_at s p) = 1" and "task_fn (task_at s p) = Some f" and "parent_task (task_at s p) \<noteq> None"
  shows "\<exists>s'. climb dev tid (Some p) s = Some s' \<and> own_deque tid s' = own_deque tid s @ [p] \<and> sched_wf s'
    \<and> (\<forall>u. task_at s' u = task_at s u) \<and> avail s' = avail s \<and> calls s' = calls s \<and> jobs s' = jobs s \<and> is_worker tid s'"
proof -
  let ?s = "relock p (upd_task p (sub_deps 1) s)"
  have pre: "sched_wf ?s" "is_worker tid ?s" using assms(1,2) by (simp_all add: upd_task_pool is_worker_def)
  have same: "task_at ?s u = task_at s u" "avail ?s = avail s" "calls ?s = calls s" "own_deque tid ?s = own_deque tid s" for u
    using assms(4) by (simp_all add: upd_task_pool own_deque_def)
  obtain ok s' where P: "deque_push tid p ?s = Some (ok, s')" "sched_wf s'" "is_worker tid s'"
      "own_deque tid s' = (if ok then own_deque tid ?s @ [p] else own_deque tid ?s)" "s' = ?s\<lparr>worker_pool := worker_pool s'\<rparr>"
    by (rule deque_push_sched [OF pre, of p])
  have ok
    using own_push_room [OF pre P(1)] assms(3) by (simp add: own_room_def)
  have "task_at s' u = task_at s u" "avail s' = avail s" "calls s' = calls s" "jobs s' = jobs s" for u
    using same by (subst P(5), simp add: task_at_def)+
  moreover have "climb dev tid (Some p) s = Some s'"
    using assms(4-6) P(1) \<open>ok\<close> by (subst climb.simps, subst parent_loop.simps) (simp add: drop_dep_def)
  ultimately show ?thesis using P(2,3,4) \<open>ok\<close> same(4) by auto
qed

text \<open>
  The last dependency of a parent hands its continuation over. When the dropped dependency was the
  last one of a task that is not the root of its job and has a continuation, and the worker's deque has
  room, the parent goes to the end of that deque, locked by its own dependency and with its continuation
  still in place, and nothing else changes.
\<close>

theorem climb_parks_continuation:
  assumes "sched_wf s" and "is_worker tid s" and "0 < own_room tid s"
    and "unfinished_dependencies (task_at s p) = 1" and "task_fn (task_at s p) = Some f" and "parent_task (task_at s p) \<noteq> None"
  shows "\<exists>s'. climb dev tid (Some p) s = Some s' \<and> own_deque tid s' = own_deque tid s @ [p] \<and> sched_wf s'
    \<and> (\<forall>u. task_at s' u = task_at s u) \<and> avail s' = avail s \<and> calls s' = calls s"
  using climb_parks_result [OF assms] by blast

section \<open>Witnesses\<close>

definition relay_dev :: dev where
  "relay_dev tid f p a b s = (case f of UserFn (Suc n) \<Rightarrow> scheduler_set_continuation tid (UserFn n) s | _ \<Rightarrow> Some s)"

theorem continuation_chain_ends_witness:
  "\<exists>t x s'. execute_task relay_dev 0 t
       (upd_task (Suc t) (unfinished_dependencies_update (\<lambda>_. 2))
         (upd_task t (\<lambda>x. x\<lparr>task_fn := Some (UserFn 2), unfinished_dependencies := 1, parent_task := Some (Suc t)\<rparr>) working)) = Some s'
     \<and> calls s' = calls working @ map (chain_call x) [2, 1, 0]"
proof -
  obtain t where t: "running 0 t working" using working_running by blast
  let ?s = "upd_task (Suc t) (unfinished_dependencies_update (\<lambda>_. 2))
      (upd_task t (\<lambda>x. x\<lparr>task_fn := Some (UserFn 2), unfinished_dependencies := 1, parent_task := Some (Suc t)\<rparr>) working)"
  have "chained relay_dev [2, 1, 0]" by (simp add: relay_dev_def numeral_2_eq_2)
  then have "\<exists>s'. execute_task relay_dev 0 t ?s = Some s' \<and> calls s' = calls ?s @ map (chain_call (task_at ?s t)) [2, 1, 0]"
    using continuation_chain_ends [of ?s relay_dev 2 "[1, 0]" 0 t "Suc t"] t
    by (auto simp: running_def upd_task_pool)
  then show ?thesis by auto
qed

theorem climb_parks_continuation_witness:
  "\<exists>s'. climb idle_dev 0 (Some 5)
       (upd_task 5 (\<lambda>x. x\<lparr>task_fn := Some (UserFn 0), unfinished_dependencies := 1, parent_task := Some 0\<rparr>) working) = Some s'
     \<and> own_deque 0 s' = own_deque 0 working @ [5]"
proof -
  let ?s = "upd_task 5 (\<lambda>x. x\<lparr>task_fn := Some (UserFn 0), unfinished_dependencies := 1, parent_task := Some 0\<rparr>) working"
  obtain t where t: "running 0 t working" using working_running by blast
  then have "sched_wf ?s" "is_worker 0 ?s" by (simp_all add: running_def upd_task_pool is_worker_def)
  moreover have "0 < own_room 0 ?s" using working_room by (simp add: own_room_def)
  ultimately have "\<exists>s'. climb idle_dev 0 (Some 5) ?s = Some s' \<and> own_deque 0 s' = own_deque 0 ?s @ [5]"
    using climb_parks_continuation [of ?s 0 5 "UserFn 0" idle_dev] by auto
  then show ?thesis by (simp add: own_deque_def)
qed

section \<open>Running out of tasks\<close>

lemma alloc_batch_none:
  assumes "sched_wf s" and "obtainable tid s = 0"
  shows "alloc_batch tid payload a b c f parent k n s = ([], s)"
proof (cases n)
  case (Suc m)
  obtain r s' where a: "acquire tid s = (r, s')" by (cases "acquire tid s")
  then have "r = None" using acquire_obtainable(1) [OF assms(1)] assms(2) by blast
  with acquire_sched(4) [OF assms(1) a] a Suc show ?thesis by simp
qed simp

lemma spawn_exhausted:
  assumes "sched_wf s" and "obtainable tid s = 0" and "a < b" and "c = (if chunk = 0 then DEFAULT_CHUNK_SIZE else chunk)"
    and "unat b + unat c < 2 ^ 64"
  shows "scheduler_spawn_subtasks dev tid payload a b chunk f s = call_dev dev tid f payload a b s"
proof -
  have c: "c \<noteq> 0" using assms(4) by (simp add: DEFAULT_CHUNK_SIZE_def)
  let ?N = "(b - a + c - 1) div c"
  have "unat ?N = chunk_count a b c" by (rule chunk_count_word [OF assms(3) c assms(5)])
  moreover have "0 < chunk_count a b c"
    using chunk_count_props(2,3) [of a b c] assms(3) c by (cases "chunk_count a b c") (auto simp: word_less_nat_alt unat_gt_0)
  ultimately have pos: "0 < ?N" by (simp add: word_less_nat_alt)
  have "spawn_pass dev tid payload a b c f parent ?N 0 s = map_option Inl (call_dev dev tid f payload a b s)" for parent
    by (simp add: spawn_pass_def Let_def alloc_batch_none [OF assms(1,2)] chunk_start_def)
  then have "spawn_loop dev tid payload a b c f parent ?N 0 s = call_dev dev tid f payload a b s" for parent
    using pos by (subst spawn_loop.simps) (simp split: option.split)
  moreover have "\<not> b \<le> a" using assms(3) by simp
  ultimately show ?thesis by (simp add: scheduler_spawn_subtasks_def Let_def assms(4) [symmetric])
qed

text \<open>
  A spawn without free tasks does not split. When the pool and the thread's cache are empty, a spawn is
  one call of the function on the whole range, in the caller's task, whatever the chunk size: a function
  that splits its range by spawning itself over all of it is called again on the range it was called on.
\<close>

theorem spawn_without_tasks_does_not_split:
  assumes "sched_wf s" and "obtainable tid s = 0" and "a < b" and "c = (if chunk = 0 then DEFAULT_CHUNK_SIZE else chunk)"
    and "unat b + unat c < 2 ^ 64"
  shows "scheduler_spawn_subtasks dev tid f_data a b chunk f s = dev tid f f_data a b (s\<lparr>calls := calls s @ [(f, f_data, a, b)]\<rparr>)"
  using spawn_exhausted [OF assms] by (simp add: call_dev_def)

text \<open>
  C29: A child that is run inline registers its continuation on its parent. When a task has registered the
  continuation \<open>h\<close> and spawns a function that registers \<open>g\<close>, and no task is free, then \<open>g\<close> takes the place
  of \<open>h\<close> in the parent, with the parent's range; the child's own continuation is queued nowhere.
\<close>

theorem inline_child_replaces_continuation:
  assumes "sched_wf s" and "obtainable tid s = 0" and "a < b" and "c = (if chunk = 0 then DEFAULT_CHUNK_SIZE else chunk)"
    and "unat b + unat c < 2 ^ 64" and "tl_current_task s tid = Some cur"
    and child: "\<And>s. dev tid f f_data a b s = scheduler_set_continuation tid g s"
  shows "\<exists>s1 s'. scheduler_set_continuation tid h s = Some s1 \<and> task_fn (task_at s1 cur) = Some h
    \<and> scheduler_spawn_subtasks dev tid f_data a b chunk f s1 = Some s' \<and> task_fn (task_at s' cur) = Some g
    \<and> start_inx (task_at s' cur) = start_inx (task_at s cur) \<and> end_inx (task_at s' cur) = end_inx (task_at s cur)
    \<and> worker_pool s' = worker_pool s \<and> unfinished_dependencies (task_at s' cur) = unfinished_dependencies (task_at s cur)"
proof -
  let ?s1 = "upd_task cur (task_fn_update (\<lambda>_. Some h)) s"
  have set: "scheduler_set_continuation tid h s = Some ?s1" by (simp add: scheduler_set_continuation_def assms(6))
  have "scheduler_spawn_subtasks dev tid f_data a b chunk f ?s1 = call_dev dev tid f f_data a b ?s1"
    by (rule spawn_exhausted [OF _ _ assms(3-5)]) (simp_all add: assms(1,2) upd_task_pool)
  also have "\<dots> = Some (upd_task cur (task_fn_update (\<lambda>_. Some g)) (?s1\<lparr>calls := calls s @ [(f, f_data, a, b)]\<rparr>))"
    by (simp add: call_dev_def child scheduler_set_continuation_def assms(6))
  finally show ?thesis using set by (simp add: task_at_def upd_task_def)
qed

definition exhausted :: sched where
  "exhausted = snd (acquire 0 scarce)"

lemma exhausted_facts: "sched_wf exhausted" "obtainable 0 exhausted = 0" "tl_current_task exhausted 0 = Some 8"
proof -
  have wf: "sched_wf scarce" and cur: "tl_current_task scarce 0 = Some 8" using scarce_facts(1) by (simp_all add: running_def)
  note A = acquire_sched [OF wf prod.collapse [symmetric], of 0]
  show "sched_wf exhausted" using A(1) by (simp add: exhausted_def)
  show "obtainable 0 exhausted = 0"
    using acquire_obtainable(2) [OF wf prod.collapse [symmetric], of 0] scarce_facts(2) by (simp add: exhausted_def)
  show "tl_current_task exhausted 0 = Some 8" unfolding exhausted_def by (subst A(2)) (simp add: cur)
qed

theorem spawn_without_tasks_does_not_split_witness:
  "scheduler_spawn_subtasks idle_dev 0 (UserPtr 1) 0 1000 500 (UserFn 3) exhausted
     = Some (exhausted\<lparr>calls := calls exhausted @ [(UserFn 3, UserPtr 1, 0, 1000)]\<rparr>)"
  using spawn_without_tasks_does_not_split [OF exhausted_facts(1,2), of 0 1000 500 500 idle_dev "UserPtr 1" "UserFn 3"]
  by (simp add: idle_dev_def)

theorem inline_child_replaces_continuation_witness:
  "\<exists>s1 s'. scheduler_set_continuation 0 (UserFn 5) exhausted = Some s1
     \<and> scheduler_spawn_subtasks (\<lambda>tid f p a b. scheduler_set_continuation tid (UserFn 6)) 0 (UserPtr 1) 0 1000 500 (UserFn 3) s1 = Some s'
     \<and> task_fn (task_at s' 8) = Some (UserFn 6)"
  using inline_child_replaces_continuation [OF exhausted_facts(1,2) _ _ _ exhausted_facts(3), of 0 1000 500 500
      "\<lambda>tid f p a b. scheduler_set_continuation tid (UserFn 6)" "UserFn 3" "UserPtr 1" "UserFn 6" "UserFn 5"]
  by auto

end
