(* ===== verification/Kernels.thy ===== *)
theory Kernels
  imports Prelude "HOL-Library.Multiset"
begin

text \<open>
  The task functions of the examples that work on an array: \<open>process_array_chunk\<close>, the three systems of
  \<open>multiple_jobs_ex.c\<close> and \<open>render_mandelbrot_chunk\<close>. Each loops over its range and writes one element
  per index. Floating-point arithmetic is a parameter; a store outside the array is \<open>None\<close>.
\<close>

section \<open>Arrays and loops\<close>

definition store :: "size_t \<Rightarrow> 'e \<Rightarrow> 'e list \<Rightarrow> 'e list option" where
  "store i v xs = (if unat i < length xs then Some (xs[unat i := v]) else None)"

definition load :: "size_t \<Rightarrow> 'e list \<Rightarrow> 'e option" where
  "load i xs = (if unat i < length xs then Some (xs ! unat i) else None)"

lemma unat_bound: "unat (w :: 'a::len word) < 2 ^ LENGTH('a)"
  by (rule unsigned_less)

lemma unat_Suc:
  fixes i e :: "'a::len word"
  assumes "i < e"
  shows "unat (i + 1) = Suc (unat i)"
proof -
  have "Suc (unat i) \<le> unat e" using assms by (simp add: word_less_nat_alt)
  also have "\<dots> < 2 ^ LENGTH('a)" by (rule unat_bound)
  finally have "Suc (unat i) < 2 ^ LENGTH('a)" .
  then show ?thesis using unat_add_no_wrap [of i 1] by simp
qed

text \<open>\<open>for (size_t i = start; i < end; i++)\<close> around a body that may fail.\<close>

function for_range :: "(size_t \<Rightarrow> 'm \<Rightarrow> 'm option) \<Rightarrow> size_t \<Rightarrow> size_t \<Rightarrow> 'm \<Rightarrow> 'm option" where
  "for_range body i e m = (if i < e then (case body i m of None \<Rightarrow> None | Some m \<Rightarrow> for_range body (i + 1) e m) else Some m)"
  by pat_completeness auto
termination
proof (relation "measure (\<lambda>(body, i, e, m). unat e - unat i)")
  fix i e :: size_t
  assume lt: "i < e"
  with lt show "((body, i + 1, e, m'), body, i, e, m) \<in> measure (\<lambda>(body, i, e, m). unat e - unat i)" for body m m'
    by (simp add: word_less_nat_alt unat_Suc)
qed simp

declare for_range.simps [simp del]

text \<open>
  The effect of one index on the array, and of a list of indices in their order. An interleaving of
  several loops is such a list.
\<close>

definition touch :: "(nat \<Rightarrow> 'e \<Rightarrow> 'e) \<Rightarrow> nat \<Rightarrow> 'e list \<Rightarrow> 'e list" where
  "touch g i xs = xs[i := g i (xs ! i)]"

definition touch_all :: "(nat \<Rightarrow> 'e \<Rightarrow> 'e) \<Rightarrow> nat list \<Rightarrow> 'e list \<Rightarrow> 'e list" where
  "touch_all g is xs = fold (touch g) is xs"

lemma length_touch [simp]: "length (touch g i xs) = length xs"
  by (simp add: touch_def)

lemma length_touch_all [simp]: "length (touch_all g is xs) = length xs"
  by (induction "is" arbitrary: xs) (simp_all add: touch_all_def)

lemma touch_all_append [simp]: "touch_all g (is @ js) xs = touch_all g js (touch_all g is xs)"
  by (simp add: touch_all_def)

lemma touch_all_Cons [simp]: "touch_all g [] xs = xs" "touch_all g (i # is) xs = touch_all g is (touch g i xs)"
  by (simp_all add: touch_all_def)

lemma touch_nth: "k < length xs \<Longrightarrow> touch g i xs ! k = (if k = i then g i (xs ! i) else xs ! k)"
  by (simp add: touch_def nth_list_update)

text \<open>Distinct indices: every element of the list is changed once, from its first value.\<close>

lemma touch_all_nth:
  assumes "distinct is" and "k < length xs"
  shows "touch_all g is xs ! k = (if k \<in> set is then g k (xs ! k) else xs ! k)"
  using assms by (induction "is" arbitrary: xs) (auto simp: touch_nth)

text \<open>The order does not matter when every index occurs once.\<close>

lemma touch_all_order:
  assumes "mset is = mset js" and "distinct js"
  shows "touch_all g is xs = touch_all g js xs"
proof (rule nth_equalityI)
  have d: "distinct is" "set is = set js" using assms by (auto dest: mset_eq_setD mset_eq_imp_distinct_iff)
  fix k assume "k < length (touch_all g is xs)"
  then show "touch_all g is xs ! k = touch_all g js xs ! k" using d assms(2) by (simp add: touch_all_nth)
qed simp

lemma upt_unat: "i < (e :: size_t) \<Longrightarrow> [unat i..<unat e] = unat i # [unat (i + 1)..<unat e]"
  by (simp add: unat_Suc upt_conv_Cons word_less_nat_alt)

text \<open>Loops over several ranges, one after the other.\<close>

fun run_ranges :: "(size_t \<Rightarrow> 'm \<Rightarrow> 'm option) \<Rightarrow> (size_t \<times> size_t) list \<Rightarrow> 'm \<Rightarrow> 'm option" where
  "run_ranges body [] m = Some m"
| "run_ranges body ((a, b) # rs) m = (case for_range body a b m of None \<Rightarrow> None | Some m \<Rightarrow> run_ranges body rs m)"

section \<open>Kernels that work cell by cell\<close>

text \<open>
  The contract of these task functions: the body for index \<open>i\<close> replaces element \<open>i\<close> by \<open>g i\<close> of itself,
  and needs nothing but that the index is in range.
\<close>

locale cell_kernel =
  fixes body :: "size_t \<Rightarrow> 'e list \<Rightarrow> 'e list option" and g :: "nat \<Rightarrow> 'e \<Rightarrow> 'e"
  assumes body: "unat i < length xs \<Longrightarrow> body i xs = Some (touch g (unat i) xs)"
    and body_out: "length xs \<le> unat i \<Longrightarrow> body i xs = None"
begin

lemma range_run:
  assumes "i < e \<Longrightarrow> unat e \<le> length xs"
  shows "for_range body i e xs = Some (touch_all g [unat i..<unat e] xs)"
  using assms
proof (induction "unat e - unat i" arbitrary: i xs)
  case 0
  then show ?case by (subst for_range.simps) (simp add: word_less_nat_alt)
next
  case (Suc n)
  then have lt: "i < e" by (simp add: word_less_nat_alt)
  then have i: "unat i < length xs" using Suc.prems by (simp add: word_less_nat_alt)
  have "for_range body (i + 1) e (touch g (unat i) xs) = Some (touch_all g [unat (i + 1)..<unat e] (touch g (unat i) xs))"
    using Suc lt by (intro Suc.hyps(1)) (simp_all add: unat_Suc)
  with lt show ?case by (subst for_range.simps) (simp add: body [OF i] upt_unat)
qed

text \<open>A range that ends outside the array is an access outside it.\<close>

lemma range_out:
  assumes "i < e" and "length xs < unat e"
  shows "for_range body i e xs = None"
  using assms
proof (induction "unat e - unat i" arbitrary: i xs)
  case (Suc n)
  show ?case
  proof (cases "unat i < length xs")
    case True
    then have "i + 1 < e" using Suc.prems unat_Suc [OF Suc.prems(1)] by (simp add: word_less_nat_alt)
    then have "for_range body (i + 1) e (touch g (unat i) xs) = None"
      using Suc by (intro Suc.hyps(1)) (simp_all add: unat_Suc)
    then show ?thesis by (subst for_range.simps) (simp add: Suc.prems body [OF True])
  next
    case False
    then show ?thesis using Suc.prems by (subst for_range.simps) (simp add: body_out)
  qed
qed (simp add: word_less_nat_alt)

text \<open>The whole array in one range.\<close>

lemma range_all:
  assumes "length xs = unat e"
  shows "for_range body 0 e xs = Some (map (\<lambda>i. g i (xs ! i)) [0..<unat e])"
proof -
  have "touch_all g [0..<unat e] xs = map (\<lambda>i. g i (xs ! i)) [0..<unat e]"
    by (rule nth_equalityI) (simp_all add: assms touch_all_nth)
  then show ?thesis using range_run [of 0 e xs] assms by simp
qed

text \<open>
  Ranges that together have every index of the array once give what one loop over the array gives.
\<close>

lemma ranges_run:
  assumes "\<forall>(a, b)\<in>set rs. a < b \<longrightarrow> unat b \<le> length xs"
  shows "run_ranges body rs xs = Some (touch_all g (concat (map (\<lambda>(a, b). [unat a..<unat b]) rs)) xs)"
  using assms by (induction rs arbitrary: xs) (auto simp: range_run)

lemma ranges_cover:
  assumes "(\<Sum>(a, b)\<in>#mset rs. mset [unat a..<unat b]) = mset [0..<unat e]" and "unat e \<le> length xs"
  shows "run_ranges body rs xs = for_range body 0 e xs"
proof -
  have ok: "\<forall>(a, b)\<in>set rs. a < b \<longrightarrow> unat b \<le> length xs"
  proof (clarify)
    fix a b assume "(a, b) \<in> set rs" and lt: "a < b"
    then have "mset [unat a..<unat b] \<subseteq># (\<Sum>(a, b)\<in>#mset rs. mset [unat a..<unat b])"
      by (induction rs) (auto intro: subset_mset.add_increasing subset_mset.add_increasing2)
    then have "set_mset (mset [unat a..<unat b]) \<subseteq> set_mset (mset [0..<unat e])"
      unfolding assms(1) by (rule set_mset_mono)
    then have "unat b - 1 < unat e" using lt by (auto simp: word_less_nat_alt)
    then show "unat b \<le> length xs" using assms(2) by simp
  qed
  have "mset (concat (map (\<lambda>(a, b). [unat a..<unat b]) rs)) = (\<Sum>(a, b)\<in>#mset rs. mset [unat a..<unat b])"
    by (induction rs) auto
  then have "touch_all g (concat (map (\<lambda>(a, b). [unat a..<unat b]) rs)) xs = touch_all g [0..<unat e] xs"
    using assms(1) by (intro touch_all_order) simp_all
  then show ?thesis using range_run [of 0 e xs] assms(2) by (simp add: ranges_run [OF ok])
qed

end

section \<open>The task functions of the examples\<close>

text \<open>
  The floating-point operations, \<open>float\<close> or \<open>double\<close>, are a parameter: conversions from the integer types,
  the literal \<open>lit n d\<close> with the value \<open>n\<close> over ten to the \<open>d\<close>, and the arithmetic.
\<close>

record 'f arith =
  of_size :: "size_t \<Rightarrow> 'f"
  of_u32 :: "uint32 \<Rightarrow> 'f"
  lit :: "int \<Rightarrow> nat \<Rightarrow> 'f"
  fadd :: "'f \<Rightarrow> 'f \<Rightarrow> 'f"
  fsub :: "'f \<Rightarrow> 'f \<Rightarrow> 'f"
  fmul :: "'f \<Rightarrow> 'f \<Rightarrow> 'f"
  fdiv :: "'f \<Rightarrow> 'f \<Rightarrow> 'f"
  fle :: "'f \<Rightarrow> 'f \<Rightarrow> bool"

subsection \<open>Array writing\<close>

record 'f math_payload =
  data_array :: "'f list"
  multiplier :: 'f

definition array_body :: "'f arith \<Rightarrow> 'f \<Rightarrow> size_t \<Rightarrow> 'f list \<Rightarrow> 'f list option" where
  "array_body F factor i arr = store i (fmul F (of_size F i) factor) arr"

definition process_array_chunk :: "'f arith \<Rightarrow> 'f math_payload \<Rightarrow> size_t \<Rightarrow> size_t \<Rightarrow> 'f math_payload option" where
  "process_array_chunk F payload start_idx end_idx =
     map_option (\<lambda>arr. payload\<lparr>data_array := arr\<rparr>)
       (for_range (array_body F (multiplier payload)) start_idx end_idx (data_array payload))"

interpretation arr: cell_kernel "array_body F factor" "\<lambda>i _. fmul F (of_size F (word_of_nat i)) factor" for F factor
  by unfold_locales (auto simp: array_body_def store_def touch_def)

subsection \<open>Three systems that update their values in place\<close>

record 'f sys_payload =
  vals :: "'f list"

definition update_at :: "('f \<Rightarrow> 'f) \<Rightarrow> size_t \<Rightarrow> 'f list \<Rightarrow> 'f list option" where
  "update_at f i xs = (case load i xs of None \<Rightarrow> None | Some v \<Rightarrow> store i (f v) xs)"

definition update_values :: "('f \<Rightarrow> 'f) \<Rightarrow> 'f sys_payload \<Rightarrow> size_t \<Rightarrow> size_t \<Rightarrow> 'f sys_payload option" where
  "update_values f p start_idx end_idx = map_option (\<lambda>xs. p\<lparr>vals := xs\<rparr>) (for_range (update_at f) start_idx end_idx (vals p))"

definition physics_system_task :: "'f arith \<Rightarrow> 'f sys_payload \<Rightarrow> size_t \<Rightarrow> size_t \<Rightarrow> 'f sys_payload option" where
  "physics_system_task F = update_values (\<lambda>v. fadd F v (lit F 981 2))"

definition ai_system_task :: "'f arith \<Rightarrow> 'f sys_payload \<Rightarrow> size_t \<Rightarrow> size_t \<Rightarrow> 'f sys_payload option" where
  "ai_system_task F = update_values (\<lambda>v. fmul F v (lit F 105 2))"

definition particle_system_task :: "'f arith \<Rightarrow> 'f sys_payload \<Rightarrow> size_t \<Rightarrow> size_t \<Rightarrow> 'f sys_payload option" where
  "particle_system_task F = update_values (\<lambda>v. fsub F v (lit F 1 1))"

interpretation upd: cell_kernel "update_at f" "\<lambda>_. f" for f :: "'f \<Rightarrow> 'f"
  by unfold_locales (auto simp: update_at_def load_def store_def touch_def)

subsection \<open>The Mandelbrot renderer\<close>

record 'f mandelbrot_payload =
  output_buffer :: "16 word list"
  width :: uint32
  height :: uint32
  max_iter :: uint32
  x_min :: 'f
  x_max :: 'f
  y_min :: 'f
  y_max :: 'f

text \<open>The escape loop, from any state of its variables.\<close>

function escape :: "'f arith \<Rightarrow> 'f \<Rightarrow> 'f \<Rightarrow> uint32 \<Rightarrow> 'f \<Rightarrow> 'f \<Rightarrow> 'f \<Rightarrow> 'f \<Rightarrow> uint32 \<Rightarrow> uint32" where
  "escape F cr ci m zr zi zr2 zi2 iter =
     (if fle F (fadd F zr2 zi2) (lit F 4 0) \<and> iter < m then
        (let zi = fadd F (fmul F (fmul F (lit F 2 0) zr) zi) ci;
             zr = fadd F (fsub F zr2 zi2) cr
         in escape F cr ci m zr zi (fmul F zr zr) (fmul F zi zi) (iter + 1))
      else iter)"
  by pat_completeness auto
termination
proof (relation "measure (\<lambda>(F, cr, ci, m, zr, zi, zr2, zi2, iter). unat m - unat iter)")
  fix F :: "'f arith" and cr ci zr zi zr2 zi2 x y :: 'f and m iter :: uint32
  assume "fle F (fadd F zr2 zi2) (lit F 4 0) \<and> iter < m"
  then have "unat (iter + 1) = unat iter + 1" "unat iter < unat m"
    using unat_Suc [of iter m] by (simp_all add: word_less_nat_alt)
  then show "((F, cr, ci, m, y, x, fmul F y y, fmul F x x, iter + 1), F, cr, ci, m, zr, zi, zr2, zi2, iter)
      \<in> measure (\<lambda>(F, cr, ci, m, zr, zi, zr2, zi2, iter). unat m - unat iter)"
    by simp
qed simp

declare escape.simps [simp del]

text \<open>One index: its pixel, the point of the plane, and the 16 bits that are stored. The remainder by a zero width is undefined.\<close>

definition pixel_x :: "uint32 \<Rightarrow> size_t \<Rightarrow> uint32" where
  "pixel_x w idx = ucast (idx mod ucast w)"

definition pixel_y :: "uint32 \<Rightarrow> size_t \<Rightarrow> uint32" where
  "pixel_y w idx = ucast (idx div ucast w)"

definition pixel_point :: "'f arith \<Rightarrow> 'f mandelbrot_payload \<Rightarrow> uint32 \<Rightarrow> uint32 \<Rightarrow> 'f \<times> 'f" where
  "pixel_point F p px py =
     (let dx = fdiv F (fsub F (x_max p) (x_min p)) (of_u32 F (width p));
          dy = fdiv F (fsub F (y_max p) (y_min p)) (of_u32 F (height p))
      in (fadd F (x_min p) (fmul F (of_u32 F px) dx), fadd F (y_min p) (fmul F (of_u32 F py) dy)))"

definition pixel_iterations :: "'f arith \<Rightarrow> 'f mandelbrot_payload \<Rightarrow> size_t \<Rightarrow> uint32" where
  "pixel_iterations F p idx =
     (case pixel_point F p (pixel_x (width p) idx) (pixel_y (width p) idx) of
        (cr, ci) \<Rightarrow> escape F cr ci (max_iter p) (lit F 0 0) (lit F 0 0) (lit F 0 0) (lit F 0 0) 0)"

definition render_body :: "'f arith \<Rightarrow> 'f mandelbrot_payload \<Rightarrow> size_t \<Rightarrow> 16 word list \<Rightarrow> 16 word list option" where
  "render_body F p idx out = (if width p = 0 then None else store idx (ucast (pixel_iterations F p idx)) out)"

definition render_mandelbrot_chunk ::
  "'f arith \<Rightarrow> 'f mandelbrot_payload \<Rightarrow> size_t \<Rightarrow> size_t \<Rightarrow> 'f mandelbrot_payload option" where
  "render_mandelbrot_chunk F payload start_idx end_idx =
     map_option (\<lambda>out. payload\<lparr>output_buffer := out\<rparr>) (for_range (render_body F payload) start_idx end_idx (output_buffer payload))"

lemma render_cells:
  "width p \<noteq> 0 \<Longrightarrow> cell_kernel (render_body F p) (\<lambda>i _. ucast (pixel_iterations F p (word_of_nat i)))"
  by unfold_locales (auto simp: render_body_def store_def touch_def)

text \<open>An index below \<open>width * height\<close> names one pixel of the image, and the casts to 32 bits lose nothing.\<close>

lemma pixel_coordinates_result:
  fixes w h :: uint32
  assumes "unat idx < unat w * unat h"
  shows "unat (pixel_x w idx) = unat idx mod unat w" "unat (pixel_y w idx) = unat idx div unat w"
proof -
  have w: "0 < unat w" using assms by (cases "unat w = 0") simp_all
  have "unat w < 2 ^ 64" using unat_bound [of w] by simp
  then have up: "take_bit 64 (unat w) = unat w" by (simp add: take_bit_nat_eq_self)
  have "unat idx mod unat w < 2 ^ 32" using unat_bound [of w] less_trans [OF mod_less_divisor [OF w]] by simp
  then show "unat (pixel_x w idx) = unat idx mod unat w"
    by (simp add: pixel_x_def unsigned_ucast_eq unat_mod_distrib up take_bit_nat_eq_self)
  have "unat idx div unat w < unat h" using assms by (simp add: less_mult_imp_div_less mult.commute)
  then have "unat idx div unat w < 2 ^ 32" using less_trans [OF _ unat_bound [of h]] by simp
  then show "unat (pixel_y w idx) = unat idx div unat w"
    by (simp add: pixel_y_def unsigned_ucast_eq unat_div_distrib up take_bit_nat_eq_self)
qed

section \<open>What the renderer computes\<close>

text \<open>The orbit of 0 under \<open>z \<mapsto> z * z + c\<close>, in the arithmetic of the program, and the test that it has not escaped.\<close>

definition orbit :: "'f arith \<Rightarrow> 'f \<Rightarrow> 'f \<Rightarrow> nat \<Rightarrow> 'f \<times> 'f" where
  "orbit F cr ci n = ((\<lambda>(zr, zi). (fadd F (fsub F (fmul F zr zr) (fmul F zi zi)) cr,
      fadd F (fmul F (fmul F (lit F 2 0) zr) zi) ci)) ^^ n) (lit F 0 0, lit F 0 0)"

definition bounded_orbit :: "'f arith \<Rightarrow> 'f \<Rightarrow> 'f \<Rightarrow> nat \<Rightarrow> bool" where
  "bounded_orbit F cr ci n \<longleftrightarrow> (case orbit F cr ci n of (zr, zi) \<Rightarrow> fle F (fadd F (fmul F zr zr) (fmul F zi zi)) (lit F 4 0))"

definition escape_time :: "'f arith \<Rightarrow> 'f \<Rightarrow> 'f \<Rightarrow> uint32 \<Rightarrow> nat" where
  "escape_time F cr ci m = length (takeWhile (bounded_orbit F cr ci) [0..<unat m])"

text \<open>The loop with \<open>iter\<close> iterations behind it goes on from there.\<close>

lemma escape_from:
  assumes "orbit F cr ci (unat iter) = (zr, zi)" and "iter \<le> m"
  shows "unat (escape F cr ci m zr zi (fmul F zr zr) (fmul F zi zi) iter) =
    unat iter + length (takeWhile (bounded_orbit F cr ci) [unat iter..<unat m])"
  using assms
proof (induction "unat m - unat iter" arbitrary: iter zr zi)
  case 0
  then have "iter = m" by (simp add: word_le_nat_alt word_unat_eq_iff)
  then show ?case by (subst escape.simps) simp
next
  case (Suc n)
  then have lt: "iter < m" by (simp add: word_less_nat_alt)
  have b: "bounded_orbit F cr ci (unat iter) \<longleftrightarrow> fle F (fadd F (fmul F zr zr) (fmul F zi zi)) (lit F 4 0)"
    by (simp add: bounded_orbit_def Suc.prems)
  show ?case
  proof (cases "bounded_orbit F cr ci (unat iter)")
    case True
    let ?zi = "fadd F (fmul F (fmul F (lit F 2 0) zr) zi) ci" and ?zr = "fadd F (fsub F (fmul F zr zr) (fmul F zi zi)) cr"
    have step: "unat (iter + 1) = Suc (unat iter)" by (rule unat_Suc [OF lt])
    have "orbit F cr ci (unat (iter + 1)) = (?zr, ?zi)" using Suc.prems(1) by (simp add: step orbit_def)
    with Suc.hyps(1) [of "iter + 1" ?zr ?zi] Suc.hyps(2) lt step True b
    show ?thesis by (subst escape.simps) (simp add: Let_def upt_conv_Cons word_less_nat_alt word_le_nat_alt)
  next
    case False
    with b show ?thesis using lt by (subst escape.simps) (simp add: upt_conv_Cons word_less_nat_alt)
  qed
qed

lemma escape_result:
  assumes "fmul F (lit F 0 0) (lit F 0 0) = lit F 0 0"
  shows "unat (escape F cr ci m (lit F 0 0) (lit F 0 0) (lit F 0 0) (lit F 0 0) 0) = escape_time F cr ci m"
  using escape_from [of F cr ci 0 "lit F 0 0" "lit F 0 0" m] by (simp add: assms orbit_def escape_time_def)

text \<open>
  C34: The renderer stores escape times. A call on a range inside the buffer leaves in element \<open>i\<close> of the
  range the number of iterations after which the orbit of the point of pixel \<open>(i mod width, i div width)\<close>
  has left the disc of radius 2, cut off at \<open>max_iter\<close>; every other element is as it was. The hypotheses
  are that \<open>0.0 * 0.0\<close> is \<open>0.0\<close>, that the limit fits the 16 bits of a pixel, and that the range is part
  of the image.
\<close>

theorem mandelbrot_renders_escape_times:
  assumes "fmul F (lit F 0 0) (lit F 0 0) = lit F 0 0" and "max_iter p < 2 ^ 16" and "unat b \<le> length (output_buffer p)"
    and "unat b \<le> unat (width p) * unat (height p)" and "width p \<noteq> 0"
  shows "\<exists>out. render_mandelbrot_chunk F p a b = Some (p\<lparr>output_buffer := out\<rparr>) \<and> length out = length (output_buffer p)
    \<and> (\<forall>i<length out. if unat a \<le> i \<and> i < unat b
         then unat (out ! i) = (case pixel_point F p (word_of_nat (i mod unat (width p))) (word_of_nat (i div unat (width p))) of
                (cr, ci) \<Rightarrow> escape_time F cr ci (max_iter p))
         else out ! i = output_buffer p ! i)"
proof -
  let ?g = "\<lambda>i _. ucast (pixel_iterations F p (word_of_nat i)) :: 16 word"
  let ?out = "touch_all ?g [unat a..<unat b] (output_buffer p)"
  have run: "render_mandelbrot_chunk F p a b = Some (p\<lparr>output_buffer := ?out\<rparr>)"
    using cell_kernel.range_run [OF render_cells [OF assms(5)], of a b "output_buffer p" F] assms(3)
    by (simp add: render_mandelbrot_chunk_def)
  have px: "unat (ucast (pixel_iterations F p (word_of_nat i)) :: 16 word) =
      (case pixel_point F p (word_of_nat (i mod unat (width p))) (word_of_nat (i div unat (width p))) of
        (cr, ci) \<Rightarrow> escape_time F cr ci (max_iter p))" if "i < unat b" for i
  proof -
    have i: "unat (word_of_nat i :: size_t) = i" using that unat_bound [of b] by (simp add: unat_of_nat)
    have lt: "unat (word_of_nat i :: size_t) < unat (width p) * unat (height p)" using that assms(4) by (simp add: i)
    have xy: "pixel_x (width p) (word_of_nat i) = word_of_nat (i mod unat (width p))"
        "pixel_y (width p) (word_of_nat i) = word_of_nat (i div unat (width p))"
      using pixel_coordinates_result [OF lt, THEN arg_cong [of _ _ "word_of_nat :: nat \<Rightarrow> uint32"]] by (simp_all add: i)
    obtain cr ci where pt: "pixel_point F p (word_of_nat (i mod unat (width p))) (word_of_nat (i div unat (width p))) = (cr, ci)"
      by (cases "pixel_point F p (word_of_nat (i mod unat (width p))) (word_of_nat (i div unat (width p)))")
    have n: "unat (pixel_iterations F p (word_of_nat i)) = escape_time F cr ci (max_iter p)"
      using escape_result [OF assms(1)] by (simp add: pixel_iterations_def xy pt)
    have "escape_time F cr ci (max_iter p) \<le> unat (max_iter p)"
      unfolding escape_time_def by (rule order.trans [OF length_takeWhile_le]) simp
    also have "\<dots> < 2 ^ 16" using assms(2) by (simp add: word_less_nat_alt)
    finally show ?thesis using n by (simp add: pt unsigned_ucast_eq take_bit_nat_eq_self)
  qed
  show ?thesis
    by (intro exI [of _ ?out] conjI run) (auto simp: touch_all_nth px)
qed

text \<open>Integers as a stand-in for the floating-point numbers.\<close>

definition int_arith :: "int arith" where
  "int_arith = \<lparr>of_size = uint, of_u32 = uint, lit = (\<lambda>n d. n div 10 ^ d), fadd = (+), fsub = (-), fmul = (*),
     fdiv = (div), fle = (\<le>)\<rparr>"

definition small_image :: "int mandelbrot_payload" where
  "small_image = \<lparr>output_buffer = replicate 6 0, width = 3, height = 2, max_iter = 5, x_min = -3, x_max = 3, y_min = 0, y_max = 2\<rparr>"

theorem mandelbrot_renders_escape_times_witness:
  "\<exists>out. render_mandelbrot_chunk int_arith small_image 1 5 = Some (small_image\<lparr>output_buffer := out\<rparr>)
     \<and> map unat out = [0, 5, 3, 1, 3, 0]"
proof -
  let ?t = "\<lambda>i. case pixel_point int_arith small_image (word_of_nat (i mod unat (width small_image))) (word_of_nat (i div unat (width small_image))) of
      (cr, ci) \<Rightarrow> escape_time int_arith cr ci (max_iter small_image)"
  define t where "t = ?t"
  have eval: "map t [1, 2, 3, 4] = [5, 3, 1, 3]" unfolding t_def by code_simp
  have pre: "fmul int_arith (lit int_arith 0 0) (lit int_arith 0 0) = lit int_arith 0 0" "max_iter small_image < 2 ^ 16"
    "unat (5 :: size_t) \<le> length (output_buffer small_image)"
    "unat (5 :: size_t) \<le> unat (width small_image) * unat (height small_image)" "width small_image \<noteq> 0"
    by (simp_all add: int_arith_def small_image_def)
  obtain out where run: "render_mandelbrot_chunk int_arith small_image 1 5 = Some (small_image\<lparr>output_buffer := out\<rparr>)"
      and len: "length out = length (output_buffer small_image)"
      and cells: "\<forall>i<length out. if unat (1 :: size_t) \<le> i \<and> i < unat (5 :: size_t) then unat (out ! i) = ?t i else out ! i = output_buffer small_image ! i"
    using mandelbrot_renders_escape_times [OF pre, of 1] by blast
  have six: "length out = 6" using len by (simp add: small_image_def)
  have words: "unat (1 :: size_t) = 1" "unat (5 :: size_t) = 5" by simp_all
  have "\<forall>i<6. if 1 \<le> i \<and> i < 5 then unat (out ! i) = t i else out ! i = output_buffer small_image ! i"
    using cells unfolding six words t_def .
  note at = this [rule_format]
  obtain a b c d e f where list: "out = [a, b, c, d, e, f]" using six by (auto simp: numeral_eq_Suc length_Suc_conv)
  have first: "a = 0" "f = 0" using at [of 0] at [of 5] by (simp_all add: list small_image_def)
  have "unat b = t 1" "unat c = t 2" "unat d = t 3" "unat e = t 4"
    using at [of 1] at [of 2] at [of 3] at [of 4] by (simp_all only: list) simp_all
  with eval first have "map unat out = [0, 5, 3, 1, 3, 0]" by (simp add: list)
  then show ?thesis by (intro exI [of _ out] conjI run)
qed

section \<open>The comparison of the timings\<close>

definition compare_ll :: "64 word \<Rightarrow> 64 word \<Rightarrow> int" where
  "compare_ll arg1 arg2 = of_bool (arg2 <s arg1) - of_bool (arg1 <s arg2)"

lemma compare_ll_sign: "compare_ll a b = sgn (sint a - sint b)"
  by (simp add: compare_ll_def word_sless_alt sgn_if)

text \<open>What \<open>qsort\<close> asks of its comparison.\<close>

lemma compare_ll_order:
  shows "compare_ll a b = - compare_ll b a" and "compare_ll a b = 0 \<longleftrightarrow> a = b"
    and "compare_ll a b \<le> 0 \<Longrightarrow> compare_ll b c \<le> 0 \<Longrightarrow> compare_ll a c \<le> 0"
proof -
  have "sint a = sint b \<Longrightarrow> a = b" by (metis scast_eq scast_id)
  then show "compare_ll a b = 0 \<longleftrightarrow> a = b" by (auto simp: compare_ll_sign sgn_if split: if_splits)
qed (auto simp: compare_ll_sign sgn_if split: if_splits)

end
