(* ===== verification/StaticPool.thy ===== *)
theory StaticPool
  imports Kernels
begin

text \<open>
  The static thread pool of \<open>src/examples/mandelbrot_work_stealing_ex.c\<close>: every thread owns one slice of
  the image and a generation counter is the barrier between the runs. Threads and main interleave at
  their atomic operations and at every pixel.
\<close>

section \<open>The slices\<close>

definition slice_start :: "size_t \<Rightarrow> size_t \<Rightarrow> nat \<Rightarrow> size_t" where
  "slice_start pixels num_cores i = word_of_nat i * (pixels div num_cores)"

definition slice_end :: "size_t \<Rightarrow> size_t \<Rightarrow> nat \<Rightarrow> size_t" where
  "slice_end pixels num_cores i = (if word_of_nat i = num_cores - 1 then pixels else (word_of_nat i + 1) * (pixels div num_cores))"

lemma slice_nat:
  assumes "i < unat n"
  shows "unat (slice_start pixels n i) = i * (unat pixels div unat n)"
    and "unat (slice_end pixels n i) = (if Suc i = unat n then unat pixels else Suc i * (unat pixels div unat n))"
proof -
  let ?q = "unat pixels div unat n"
  have i: "i < 2 ^ 64" "Suc i < 2 ^ 64 \<or> Suc i = unat n" using assms unat_bound [of n] by auto
  have le: "k * ?q < 2 ^ 64" if "k \<le> unat n" for k
  proof -
    have "k * ?q \<le> unat n * ?q" using that by simp
    also have "\<dots> \<le> unat pixels" by (simp add: mult.commute div_times_less_eq_dividend)
    finally show ?thesis using unat_bound [of pixels] by simp
  qed
  show "unat (slice_start pixels n i) = i * ?q"
    using le [of i] i assms by (simp add: slice_start_def unat_mult_no_wrap unat_div_distrib unat_of_nat)
  have one: "n \<noteq> 0" using assms by auto
  then have n1: "unat (n - 1) = unat n - 1" by (simp add: unat_minus_one)
  have last: "word_of_nat i = n - 1 \<longleftrightarrow> Suc i = unat n"
    using n1 i(1) assms by (auto simp: word_unat_eq_iff unat_of_nat)
  show "unat (slice_end pixels n i) = (if Suc i = unat n then unat pixels else Suc i * ?q)"
  proof (cases "Suc i = unat n")
    case False
    then have "Suc i < unat n" using assms by simp
    then have s: "Suc i < 2 ^ 64" using unat_bound [of n] by simp
    have "(word_of_nat i + 1 :: size_t) = word_of_nat (Suc i)" by simp
    then have "slice_end pixels n i = word_of_nat (Suc i) * (pixels div n)" using False last by (simp only: slice_end_def if_False)
    then show ?thesis using False le [of "Suc i"] s \<open>Suc i < unat n\<close>
      by (simp add: unat_mult_no_wrap unat_div_distrib unat_of_nat del: of_nat_Suc)
  qed (simp add: slice_end_def last)
qed

abbreviation slice :: "size_t \<Rightarrow> size_t \<Rightarrow> nat \<Rightarrow> nat set" where
  "slice pixels n t \<equiv> {unat (slice_start pixels n t)..<unat (slice_end pixels n t)}"

lemma slice_order:
  assumes "t < unat n"
  shows "unat (slice_start pixels n t) \<le> unat (slice_end pixels n t)" "unat (slice_end pixels n t) \<le> unat pixels"
proof -
  let ?q = "unat pixels div unat n"
  have "Suc t * ?q \<le> unat n * ?q" using assms by (intro mult_le_mono1) simp
  also have "\<dots> \<le> unat pixels" by simp
  finally have "Suc t * ?q \<le> unat pixels" .
  then show "unat (slice_start pixels n t) \<le> unat (slice_end pixels n t)" "unat (slice_end pixels n t) \<le> unat pixels"
    by (simp_all add: slice_nat [OF assms])
qed

lemma slice_disjoint:
  assumes "t < unat n" and "u < unat n" and "t < u"
  shows "unat (slice_end pixels n t) \<le> unat (slice_start pixels n u)"
proof -
  have "Suc t * (unat pixels div unat n) \<le> u * (unat pixels div unat n)" using assms by (intro mult_le_mono1) simp
  then show ?thesis using assms by (simp add: slice_nat)
qed

text \<open>Every index of the image is in exactly one slice.\<close>

lemma slice_cover:
  assumes "0 < unat n"
  shows "concat (map (\<lambda>t. [unat (slice_start pixels n t)..<unat (slice_end pixels n t)]) [0..<unat n]) = [0..<unat pixels]"
proof -
  have "concat (map (\<lambda>t. [unat (slice_start pixels n t)..<unat (slice_end pixels n t)]) [0..<k]) =
      [0..<if k = unat n then unat pixels else k * (unat pixels div unat n)]" if "k \<le> unat n" for k
    using that
  proof (induction k)
    case (Suc k)
    then have k: "k < unat n" by simp
    have "k * (unat pixels div unat n) \<le> unat (slice_end pixels n k)"
      using slice_order(1) [OF k, of pixels] by (simp add: slice_nat [OF k])
    from upt_add_eq_append [OF le0, of "k * (unat pixels div unat n)"] le_add_diff_inverse [OF this]
    have "[0..<unat (slice_end pixels n k)] = [0..<k * (unat pixels div unat n)] @ [k * (unat pixels div unat n)..<unat (slice_end pixels n k)]"
      by metis
    with Suc k show ?case by (simp add: slice_nat)
  qed (use assms in simp)
  from this [of "unat n"] show ?thesis by simp
qed

lemma slice_unique:
  assumes "0 < unat n" and "i < unat pixels"
  obtains t where "t < unat n" and "i \<in> slice pixels n t"
proof -
  have "i \<in> set (concat (map (\<lambda>t. [unat (slice_start pixels n t)..<unat (slice_end pixels n t)]) [0..<unat n]))"
    unfolding slice_cover [OF assms(1)] using assms(2) by simp
  then show thesis using that by auto
qed

section \<open>The generation barrier\<close>

text \<open>
  A thread checks the stop flag, loads the generation, and when it is new renders its slice index by
  index and then counts itself. Main runs \<open>k\<close> more runs, each a reset of the count, a new generation
  and a wait, and then stops the threads, joins them in order and frees the slices.
\<close>

datatype thread_pc = TCheck | TLoad | TRender size_t | TAdd | TExit

datatype main_pc = Reset nat | Bump nat | Wait nat | Stop | Join nat | Freed

record 'e static_pool =
  static_generation :: size_t
  static_completed_count :: size_t
  static_stop_flag :: bool
  canvas :: "'e list"
  thread_at :: "nat \<Rightarrow> thread_pc"
  thread_gen :: "nat \<Rightarrow> size_t"
  main_at :: main_pc

text \<open>\<open>K\<close> runs on an image \<open>xs\<close>.\<close>

definition static_init :: "nat \<Rightarrow> 'e list \<Rightarrow> 'e static_pool" where
  "static_init K xs = \<lparr>static_generation = 0, static_completed_count = 0, static_stop_flag = False, canvas = xs,
     thread_at = (\<lambda>_. TCheck), thread_gen = (\<lambda>_. 0), main_at = Reset K\<rparr>"

abbreviation goto :: "nat \<Rightarrow> thread_pc \<Rightarrow> 'e static_pool \<Rightarrow> 'e static_pool" where
  "goto t pc s \<equiv> s\<lparr>thread_at := (thread_at s)(t := pc)\<rparr>"

inductive thread_step :: "(size_t \<Rightarrow> 'e list \<Rightarrow> 'e list option) \<Rightarrow> size_t \<Rightarrow> size_t \<Rightarrow> nat \<Rightarrow> 'e static_pool \<Rightarrow> 'e static_pool \<Rightarrow> bool"
  for body pixels num_cores t where
  check: "thread_at s t = TCheck \<Longrightarrow>
    thread_step body pixels num_cores t s (goto t (if static_stop_flag s then TExit else TLoad) s)"
| fresh: "thread_at s t = TLoad \<Longrightarrow> thread_gen s t < static_generation s \<Longrightarrow>
    thread_step body pixels num_cores t s
      (goto t (TRender (slice_start pixels num_cores t)) (s\<lparr>thread_gen := (thread_gen s)(t := static_generation s)\<rparr>))"
| relax: "thread_at s t = TLoad \<Longrightarrow> \<not> thread_gen s t < static_generation s \<Longrightarrow>
    thread_step body pixels num_cores t s (goto t TCheck s)"
| pixel: "thread_at s t = TRender i \<Longrightarrow> i < slice_end pixels num_cores t \<Longrightarrow> body i (canvas s) = Some out \<Longrightarrow>
    thread_step body pixels num_cores t s (goto t (TRender (i + 1)) (s\<lparr>canvas := out\<rparr>))"
| rendered: "thread_at s t = TRender i \<Longrightarrow> \<not> i < slice_end pixels num_cores t \<Longrightarrow>
    thread_step body pixels num_cores t s (goto t TAdd s)"
| add: "thread_at s t = TAdd \<Longrightarrow>
    thread_step body pixels num_cores t s (goto t TCheck (s\<lparr>static_completed_count := static_completed_count s + 1\<rparr>))"

inductive main_step :: "size_t \<Rightarrow> 'e static_pool \<Rightarrow> 'e static_pool \<Rightarrow> bool" for num_cores where
  reset: "main_at s = Reset (Suc k) \<Longrightarrow> main_step num_cores s (s\<lparr>static_completed_count := 0, main_at := Bump k\<rparr>)"
| bump: "main_at s = Bump k \<Longrightarrow> main_step num_cores s (s\<lparr>static_generation := static_generation s + 1, main_at := Wait k\<rparr>)"
| wait: "main_at s = Wait k \<Longrightarrow> \<not> static_completed_count s < num_cores \<Longrightarrow> main_step num_cores s (s\<lparr>main_at := Reset k\<rparr>)"
| runs_over: "main_at s = Reset 0 \<Longrightarrow> main_step num_cores s (s\<lparr>main_at := Stop\<rparr>)"
| stop: "main_at s = Stop \<Longrightarrow> main_step num_cores s (s\<lparr>static_stop_flag := True, main_at := Join 0\<rparr>)"
| join: "main_at s = Join i \<Longrightarrow> i < unat num_cores \<Longrightarrow> thread_at s i = TExit \<Longrightarrow> main_step num_cores s (s\<lparr>main_at := Join (Suc i)\<rparr>)"
| free: "main_at s = Join i \<Longrightarrow> \<not> i < unat num_cores \<Longrightarrow> main_step num_cores s (s\<lparr>main_at := Freed\<rparr>)"

definition static_step :: "(size_t \<Rightarrow> 'e list \<Rightarrow> 'e list option) \<Rightarrow> size_t \<Rightarrow> size_t \<Rightarrow> 'e static_pool \<Rightarrow> 'e static_pool \<Rightarrow> bool" where
  "static_step body pixels num_cores s s' \<longleftrightarrow>
     main_step num_cores s s' \<or> (\<exists>t<unat num_cores. thread_step body pixels num_cores t s s')"

inductive_cases thread_stepE: "thread_step body pixels num_cores t s s'"
inductive_cases main_stepE: "main_step num_cores s s'"

section \<open>The invariant\<close>

fun idle_thread :: "thread_pc \<Rightarrow> bool" where
  "idle_thread (TRender i) = False"
| "idle_thread TAdd = False"
| "idle_thread _ = True"

text \<open>The number of generations main has started, and whether it waits for the last one.\<close>

fun started :: "nat \<Rightarrow> main_pc \<Rightarrow> nat" where
  "started K (Reset k) = K - k"
| "started K (Bump k) = K - Suc k"
| "started K (Wait k) = K - k"
| "started K _ = K"

fun waiting :: "main_pc \<Rightarrow> bool" where
  "waiting (Wait k) = True"
| "waiting _ = False"

fun runs_left_ok :: "nat \<Rightarrow> main_pc \<Rightarrow> bool" where
  "runs_left_ok K (Reset k) \<longleftrightarrow> k \<le> K"
| "runs_left_ok K (Bump k) \<longleftrightarrow> k < K"
| "runs_left_ok K (Wait k) \<longleftrightarrow> k < K"
| "runs_left_ok K _ \<longleftrightarrow> True"

text \<open>How often thread \<open>t\<close> has rendered index \<open>i\<close> of its slice.\<close>

definition rendered_times :: "thread_pc \<Rightarrow> size_t \<Rightarrow> nat \<Rightarrow> nat" where
  "rendered_times pc gen i = (case pc of TRender p \<Rightarrow> if i < unat p then unat gen else unat gen - 1 | _ \<Rightarrow> unat gen)"

definition has_counted :: "'e static_pool \<Rightarrow> nat \<Rightarrow> bool" where
  "has_counted s t \<longleftrightarrow> thread_gen s t = static_generation s \<and> idle_thread (thread_at s t)"

text \<open>How far main and a thread are from their next milestone.\<close>

fun main_rank :: "nat \<Rightarrow> main_pc \<Rightarrow> nat" where
  "main_rank n (Reset k) = 3 * k + n + 4"
| "main_rank n (Bump k) = 3 * k + n + 6"
| "main_rank n (Wait k) = 3 * k + n + 5"
| "main_rank n Stop = n + 3"
| "main_rank n (Join i) = Suc (n - i)"
| "main_rank n Freed = 0"

definition thread_rank :: "size_t \<Rightarrow> size_t \<Rightarrow> 'e static_pool \<Rightarrow> nat \<Rightarrow> nat" where
  "thread_rank pixels n s t = (case thread_at s t of
       TExit \<Rightarrow> 0
     | TAdd \<Rightarrow> 1
     | TRender p \<Rightarrow> 2 + (unat (slice_end pixels n t) - unat p)
     | TLoad \<Rightarrow> (if static_stop_flag s then 2 else if thread_gen s t < static_generation s then 3 + unat (slice_end pixels n t) else 0)
     | TCheck \<Rightarrow> (if static_stop_flag s then 1 else if thread_gen s t < static_generation s then 4 + unat (slice_end pixels n t) else 0))"

context cell_kernel
begin

definition thread_ok :: "size_t \<Rightarrow> size_t \<Rightarrow> 'e list \<Rightarrow> 'e static_pool \<Rightarrow> nat \<Rightarrow> bool" where
  "thread_ok pixels n xs s t \<longleftrightarrow>
     (thread_gen s t = static_generation s
        \<or> waiting (main_at s) \<and> unat (static_generation s) = Suc (unat (thread_gen s t)) \<and> idle_thread (thread_at s t))
     \<and> (\<not> idle_thread (thread_at s t) \<longrightarrow> waiting (main_at s) \<and> 0 < unat (thread_gen s t))
     \<and> (\<forall>p. thread_at s t = TRender p \<longrightarrow> slice_start pixels n t \<le> p \<and> p \<le> slice_end pixels n t)
     \<and> (\<forall>i\<in>slice pixels n t. canvas s ! i = (g i ^^ rendered_times (thread_at s t) (thread_gen s t) i) (xs ! i))
     \<and> (thread_at s t = TExit \<longrightarrow> static_stop_flag s)"

definition static_ok :: "nat \<Rightarrow> size_t \<Rightarrow> size_t \<Rightarrow> 'e list \<Rightarrow> 'e static_pool \<Rightarrow> bool" where
  "static_ok K pixels n xs s \<longleftrightarrow> length (canvas s) = unat pixels
     \<and> unat (static_generation s) = started K (main_at s) \<and> runs_left_ok K (main_at s)
     \<and> (\<forall>t<unat n. thread_ok pixels n xs s t)
     \<and> (waiting (main_at s) \<longrightarrow> unat (static_completed_count s) = card {t. t < unat n \<and> has_counted s t})
     \<and> (\<forall>k. main_at s = Bump k \<longrightarrow> static_completed_count s = 0)
     \<and> (static_stop_flag s \<longleftrightarrow> (case main_at s of Join i \<Rightarrow> True | Freed \<Rightarrow> True | _ \<Rightarrow> False))
     \<and> (\<forall>i. main_at s = Join i \<longrightarrow> (\<forall>t<unat n. t < i \<longrightarrow> thread_at s t = TExit))
     \<and> (main_at s = Freed \<longrightarrow> (\<forall>t<unat n. thread_at s t = TExit))"

lemma static_okD:
  assumes "static_ok K pixels n xs s"
  shows "length (canvas s) = unat pixels" "unat (static_generation s) = started K (main_at s)" "runs_left_ok K (main_at s)"
    and "t < unat n \<Longrightarrow> thread_ok pixels n xs s t"
    and "waiting (main_at s) \<Longrightarrow> unat (static_completed_count s) = card {t. t < unat n \<and> has_counted s t}"
    and "main_at s = Bump k \<Longrightarrow> static_completed_count s = 0"
    and "static_stop_flag s \<longleftrightarrow> (\<exists>i. main_at s = Join i) \<or> main_at s = Freed"
    and "main_at s = Join i \<Longrightarrow> t < unat n \<Longrightarrow> t < i \<Longrightarrow> thread_at s t = TExit"
    and "main_at s = Freed \<Longrightarrow> t < unat n \<Longrightarrow> thread_at s t = TExit"
  using assms by (auto simp: static_ok_def split: main_pc.splits)

lemma thread_okD:
  assumes "thread_ok pixels n xs s t"
  shows "thread_gen s t = static_generation s
        \<or> waiting (main_at s) \<and> unat (static_generation s) = Suc (unat (thread_gen s t)) \<and> idle_thread (thread_at s t)"
    and "\<not> idle_thread (thread_at s t) \<Longrightarrow> waiting (main_at s) \<and> 0 < unat (thread_gen s t)"
    and "thread_at s t = TRender p \<Longrightarrow> slice_start pixels n t \<le> p \<and> p \<le> slice_end pixels n t"
    and "i \<in> slice pixels n t \<Longrightarrow> canvas s ! i = (g i ^^ rendered_times (thread_at s t) (thread_gen s t) i) (xs ! i)"
    and "thread_at s t = TExit \<Longrightarrow> static_stop_flag s"
  using assms by (auto simp: thread_ok_def)

text \<open>A thread that leaves the image, the generations and main alone only moves its own program counter.\<close>

lemma slices_apart:
  assumes "t < unat n" and "u < unat n" and "t \<noteq> u" and "i \<in> slice pixels n u"
  shows "i \<notin> slice pixels n t"
  using slice_disjoint [of t n u pixels] slice_disjoint [of u n t pixels] assms by (cases "t < u") auto

lemma thread_ok_other:
  assumes "thread_ok pixels n xs s u" and "t \<noteq> u" and "t < unat n" and "u < unat n"
    and "static_generation s' = static_generation s" and "main_at s' = main_at s" and "static_stop_flag s' = static_stop_flag s"
    and "thread_at s' u = thread_at s u" and "thread_gen s' u = thread_gen s u"
    and "\<And>i. i \<notin> slice pixels n t \<Longrightarrow> canvas s' ! i = canvas s ! i"
  shows "thread_ok pixels n xs s' u"
proof -
  have "canvas s' ! i = canvas s ! i" if "i \<in> slice pixels n u" for i
    using slices_apart [OF assms(3,4,2) that] by (rule assms(10))
  with assms(1) show ?thesis by (simp add: thread_ok_def assms(5-9))
qed

lemma static_ok_thread:
  assumes ok: "static_ok K pixels n xs s" and t: "t < unat n"
    and same: "static_generation s' = static_generation s" "main_at s' = main_at s" "static_stop_flag s' = static_stop_flag s"
      "length (canvas s') = length (canvas s)" "\<And>i. i \<notin> slice pixels n t \<Longrightarrow> canvas s' ! i = canvas s ! i"
      "\<And>u. u \<noteq> t \<Longrightarrow> thread_at s' u = thread_at s u \<and> thread_gen s' u = thread_gen s u"
    and own: "thread_ok pixels n xs s' t" and stay: "thread_at s t \<noteq> TExit"
    and count: "waiting (main_at s) \<Longrightarrow> unat (static_completed_count s') = unat (static_completed_count s) + of_bool (has_counted s' t \<and> \<not> has_counted s t)"
      "has_counted s t \<Longrightarrow> has_counted s' t" "\<not> waiting (main_at s) \<Longrightarrow> static_completed_count s' = static_completed_count s"
  shows "static_ok K pixels n xs s'"
proof -
  note S = static_okD [OF ok]
  have "thread_ok pixels n xs s' u" if "u < unat n" for u
  proof (cases "u = t")
    case False
    then show ?thesis using thread_ok_other [OF S(4) [OF that] _ t that same(1,2,3) _ _ same(5)] same(6) by auto
  qed (simp add: own)
  moreover have "unat (static_completed_count s') = card {u. u < unat n \<and> has_counted s' u}" if "waiting (main_at s)"
  proof -
    have others: "has_counted s' u = has_counted s u" if "u \<noteq> t" for u
      using same(6) [OF that] by (simp add: has_counted_def same(1))
    have "{u. u < unat n \<and> has_counted s' u} = {u. u < unat n \<and> has_counted s u} \<union> (if has_counted s' t then {t} else {})"
    proof (rule set_eqI)
      show "u \<in> {u. u < unat n \<and> has_counted s' u} \<longleftrightarrow> u \<in> {u. u < unat n \<and> has_counted s u} \<union> (if has_counted s' t then {t} else {})" for u
        using others [of u] count(2) t by (cases "u = t") auto
    qed
    moreover have "card ({u. u < unat n \<and> has_counted s u} \<union> (if has_counted s' t then {t} else {})) =
        card {u. u < unat n \<and> has_counted s u} + of_bool (has_counted s' t \<and> \<not> has_counted s t)"
      using t by (auto simp: card_insert_if)
    ultimately show ?thesis using count(1) [OF that] S(5) [OF that] by simp
  qed
  moreover have "(\<forall>i. main_at s' = Join i \<longrightarrow> (\<forall>u<unat n. u < i \<longrightarrow> thread_at s' u = TExit)) \<and> (main_at s' = Freed \<longrightarrow> (\<forall>u<unat n. thread_at s' u = TExit))"
    using S(8,9) same(2,6) stay t by (metis (no_types))
  moreover have "static_stop_flag s' \<longleftrightarrow> (case main_at s' of Join i \<Rightarrow> True | Freed \<Rightarrow> True | _ \<Rightarrow> False)"
    using S(7) same(2,3) by (cases "main_at s") auto
  moreover have "static_completed_count s' = 0" if "main_at s' = Bump k" for k
    using that count(3) S(6) same(2) by simp
  ultimately show ?thesis using S(1-3) same by (simp add: static_ok_def)
qed

lemma thread_keeps:
  assumes ok: "static_ok K pixels n xs s" and t: "t < unat n" and step: "thread_step body pixels n t s s'"
  shows "static_ok K pixels n xs s'"
proof -
  note S = static_okD [OF ok] and T = thread_okD [OF static_okD(4) [OF ok t]]
  from step show ?thesis
  proof cases
    case check
    show ?thesis
    proof (rule static_ok_thread [OF ok t])
      show "thread_ok pixels n xs s' t" using static_okD(4) [OF ok t] check
        by (auto simp: thread_ok_def rendered_times_def)
    qed (auto simp: check has_counted_def)
  next
    case fresh
    have G: "unat (static_generation s) = Suc (unat (thread_gen s t))" "waiting (main_at s)" using T(1) fresh by auto
    show ?thesis
    proof (rule static_ok_thread [OF ok t])
      show "thread_ok pixels n xs s' t" using T(4,5) fresh G slice_order(1) [OF t, of pixels]
        by (auto simp: thread_ok_def rendered_times_def word_le_nat_alt)
    qed (use G in \<open>auto simp: fresh has_counted_def\<close>)
  next
    case relax
    show ?thesis
    proof (rule static_ok_thread [OF ok t])
      show "thread_ok pixels n xs s' t" using static_okD(4) [OF ok t] relax
        by (auto simp: thread_ok_def rendered_times_def)
    qed (auto simp: relax has_counted_def)
  next
    case (pixel i out)
    have i: "unat (slice_start pixels n t) \<le> unat i" "unat i < unat (slice_end pixels n t)"
      using T(3) [OF pixel(2)] pixel(3) by (simp_all add: word_le_nat_alt word_less_nat_alt)
    then have len: "unat i < length (canvas s)" using slice_order(2) [OF t, of pixels] S(1) by simp
    then have out: "out = touch g (unat i) (canvas s)" using pixel(4) body by simp
    have W: "waiting (main_at s)" "0 < unat (thread_gen s t)" "thread_gen s t = static_generation s"
      using T(1,2) pixel(2) by auto
    show ?thesis
    proof (rule static_ok_thread [OF ok t])
      have "out ! k = (g k ^^ rendered_times (TRender (i + 1)) (thread_gen s t) k) (xs ! k)" if "k \<in> slice pixels n t" for k
        using T(4) [OF that] pixel(2) W(2) len unat_Suc [OF pixel(3)]
        by (cases "unat (thread_gen s t)") (auto simp: out touch_nth rendered_times_def less_Suc_eq touch_def)
      then show "thread_ok pixels n xs s' t" using i W pixel(2) T(5) unat_Suc [OF pixel(3)]
        by (auto simp: thread_ok_def pixel(1) word_le_nat_alt)
      show "canvas s' ! k = canvas s ! k" if "k \<notin> slice pixels n t" for k
        using that i by (auto simp: pixel(1) out touch_def)
    qed (use W in \<open>auto simp: pixel out has_counted_def\<close>)
  next
    case (rendered i)
    show ?thesis
    proof (rule static_ok_thread [OF ok t])
      show "thread_ok pixels n xs s' t" using T rendered by (auto simp: thread_ok_def rendered_times_def word_less_nat_alt)
    qed (auto simp: rendered has_counted_def)
  next
    case add
    have W: "waiting (main_at s)" "thread_gen s t = static_generation s" using T(1,2) add by auto
    have not: "\<not> has_counted s t" using add by (simp add: has_counted_def)
    have "card {u. u < unat n \<and> has_counted s u} \<le> card ({..<unat n} - {t})"
      using not by (intro card_mono) auto
    also have "\<dots> < unat n" using t by simp
    finally have "unat (static_completed_count s) < unat n" using S(5) [OF W(1)] by simp
    then have one: "unat (static_completed_count s + 1) = Suc (unat (static_completed_count s))"
      by (intro unat_Suc [of _ n]) (simp add: word_less_nat_alt)
    show ?thesis
    proof (rule static_ok_thread [OF ok t])
      show "thread_ok pixels n xs s' t" using T add W by (auto simp: thread_ok_def rendered_times_def)
    qed (use W one in \<open>auto simp: add has_counted_def\<close>)
  qed
qed

lemma static_count:
  assumes ok: "static_ok K pixels n xs s" and w: "waiting (main_at s)" and over: "\<not> static_completed_count s < n"
    and t: "t < unat n"
  shows "has_counted s t"
proof -
  have "{u. u < unat n \<and> has_counted s u} = {..<unat n}"
    by (rule card_subset_eq) (use static_okD(5) [OF ok w] over in \<open>auto simp: word_less_nat_alt not_less intro!: antisym card_mono [of "{..<unat n}", simplified]\<close>)
  with t show ?thesis by auto
qed

lemma main_keeps:
  assumes ok: "static_ok K pixels n xs s" and K: "K < 2 ^ 64" and step: "main_step n s s'"
  shows "static_ok K pixels n xs s'"
proof -
  note S = static_okD [OF ok] and T = thread_okD [OF static_okD(4) [OF ok]]
  from step show ?thesis
  proof cases
    case (reset k)
    with ok show ?thesis by (auto simp: static_ok_def thread_ok_def)
  next
    case (bump k)
    have start: "unat (static_generation s) = K - Suc k" and k: "k < K" using S(2,3) bump(2) by auto
    then have gen: "unat (static_generation s + 1) = Suc (K - Suc k)"
      using K by (subst unat_add_no_wrap) simp_all
    have ne: "static_generation s \<noteq> static_generation s + 1" using gen start by auto
    have "thread_ok pixels n xs s' t" if "t < unat n" for t
      using S(4) [OF that] bump start gen by (auto simp: thread_ok_def)
    moreover have "{t. t < unat n \<and> has_counted s' t} = {}"
      using T(1) bump ne by (auto simp: has_counted_def) 
    ultimately show ?thesis using S(1,6,7) bump gen k start by (auto simp: static_ok_def)
  next
    case (wait k)
    have "has_counted s t" if "t < unat n" for t
      using static_count [OF ok _ wait(3) that] wait(2) by simp
    with ok wait show ?thesis by (auto simp: static_ok_def thread_ok_def has_counted_def)
  next
    case runs_over
    with ok show ?thesis by (auto simp: static_ok_def thread_ok_def)
  next
    case stop
    with ok show ?thesis by (auto simp: static_ok_def thread_ok_def)
  next
    case (join i)
    with ok show ?thesis by (auto simp: static_ok_def thread_ok_def less_Suc_eq)
  next
    case (free i)
    with ok show ?thesis by (auto simp: static_ok_def thread_ok_def)
  qed
qed

lemma static_ok_init:
  assumes "length xs = unat pixels"
  shows "static_ok K pixels n xs (static_init K xs)"
  using assms by (auto simp: static_ok_def thread_ok_def static_init_def rendered_times_def)

lemma static_reachable:
  assumes "length xs = unat pixels" and "K < 2 ^ 64" and "(static_step body pixels n)\<^sup>*\<^sup>* (static_init K xs) s"
  shows "static_ok K pixels n xs s"
  using assms(3)
  by (induction rule: rtranclp_induct)
    (auto simp: static_step_def intro: static_ok_init assms(1) main_keeps [OF _ assms(2)] thread_keeps)

text \<open>Between the runs, and after them, every pixel has been rendered once in each run.\<close>

lemma static_rounds:
  assumes "length xs = unat pixels" and "K < 2 ^ 64" and "0 < n"
    and "(static_step body pixels n)\<^sup>*\<^sup>* (static_init K xs) s" and "\<not> waiting (main_at s)"
  shows "canvas s = map (\<lambda>i. (g i ^^ started K (main_at s)) (xs ! i)) [0..<unat pixels]"
proof (rule nth_equalityI)
  note S = static_okD [OF static_reachable [OF assms(1,2,4)]]
  show "length (canvas s) = length (map (\<lambda>i. (g i ^^ started K (main_at s)) (xs ! i)) [0..<unat pixels])" using S(1) by simp
  fix i assume "i < length (canvas s)"
  then have i: "i < unat pixels" using S(1) by simp
  have "0 < unat n" using assms(3) by (simp add: word_less_nat_alt)
  then obtain t where t: "t < unat n" "i \<in> slice pixels n t" using i by (rule slice_unique)
  note T = thread_okD [OF S(4) [OF t(1)]]
  have idle: "idle_thread (thread_at s t)" "thread_gen s t = static_generation s" using T(1,2) assms(5) by auto
  then have "rendered_times (thread_at s t) (thread_gen s t) i = started K (main_at s)"
    using S(2) by (auto simp: rendered_times_def split: thread_pc.splits)
  with T(4) [OF t(2)] i show "canvas s ! i = map (\<lambda>i. (g i ^^ started K (main_at s)) (xs ! i)) [0..<unat pixels] ! i" by simp
qed

text \<open>From every reachable state there is a step towards the end: no thread and no counter is left behind.\<close>

lemma waited_step:
  assumes ok: "static_ok K pixels n xs s" and w: "main_at s = Wait k" and t: "t < unat n" and not: "\<not> has_counted s t"
  obtains s' where "thread_step body pixels n t s s'" and "thread_rank pixels n s' t < thread_rank pixels n s t"
proof -
  note S = static_okD [OF ok] and T = thread_okD [OF static_okD(4) [OF ok t]]
  have flag: "\<not> static_stop_flag s" using S(7) w by auto
  have old: "thread_gen s t < static_generation s" if "idle_thread (thread_at s t)"
    using T(1) not that by (auto simp: has_counted_def word_less_nat_alt)
  show thesis
  proof (cases "thread_at s t")
    case TCheck
    from thread_step.check [OF this, of body pixels n] show thesis
      by (rule that) (use TCheck flag old in \<open>auto simp: thread_rank_def\<close>)
  next
    case TLoad
    then have "thread_gen s t < static_generation s" by (intro old) simp
    from thread_step.fresh [OF TLoad this, of body pixels n] show thesis
      by (rule that) (use TLoad flag old in \<open>auto simp: thread_rank_def\<close>)
  next
    case (TRender p)
    show thesis
    proof (cases "p < slice_end pixels n t")
      case True
      have "unat p < length (canvas s)" using True slice_order(2) [OF t, of pixels] S(1) by (simp add: word_less_nat_alt)
      from thread_step.pixel [where s = s and body = body and t = t, OF TRender True body [OF this]] show thesis
        by (rule that) (use TRender True unat_Suc [OF True] in \<open>auto simp: thread_rank_def word_less_nat_alt\<close>)
    next
      case False
      from thread_step.rendered [OF TRender this, of body] show thesis
        by (rule that) (use TRender in \<open>auto simp: thread_rank_def\<close>)
    qed
  next
    case TAdd
    from thread_step.add [OF this, of body pixels n] show thesis
      by (rule that) (use TAdd T(1) flag in \<open>auto simp: thread_rank_def\<close>)
  next
    case TExit
    with T(5) flag show thesis by simp
  qed
qed

lemma joined_step:
  assumes ok: "static_ok K pixels n xs s" and w: "main_at s = Join i" and t: "t < unat n" and "thread_at s t \<noteq> TExit"
  obtains s' where "thread_step body pixels n t s s'" and "thread_rank pixels n s' t < thread_rank pixels n s t"
proof -
  note T = thread_okD [OF static_okD(4) [OF ok t]]
  have cur: "\<not> thread_gen s t < static_generation s" "idle_thread (thread_at s t)" using T(1,2) w by auto
  have flag: "static_stop_flag s" using static_okD(7) [OF ok] w by simp
  show thesis
  proof (cases "thread_at s t")
    case TCheck
    from thread_step.check [OF this, of body pixels n] show thesis
      by (rule that) (use TCheck flag in \<open>auto simp: thread_rank_def\<close>)
  next
    case TLoad
    from thread_step.relax [OF this cur(1), of body pixels n] show thesis
      by (rule that) (use TLoad flag in \<open>auto simp: thread_rank_def\<close>)
  qed (use assms(4) cur in auto)
qed

lemma thread_frame:
  assumes "thread_step body pixels n t s s'"
  shows "main_at s' = main_at s" and "static_stop_flag s' = static_stop_flag s" and "u \<noteq> t \<Longrightarrow> thread_rank pixels n s' u = thread_rank pixels n s u"
  using assms by (cases; simp add: thread_rank_def)+

abbreviation all_ranks :: "size_t \<Rightarrow> size_t \<Rightarrow> 'e static_pool \<Rightarrow> nat" where
  "all_ranks pixels n s \<equiv> \<Sum>t<unat n. thread_rank pixels n s t"

lemma all_ranks_step:
  assumes "thread_step body pixels n t s s'" and "thread_rank pixels n s' t < thread_rank pixels n s t" and "t < unat n"
  shows "all_ranks pixels n s' < all_ranks pixels n s"
proof (rule sum_strict_mono_ex1)
  show "\<forall>u\<in>{..<unat n}. thread_rank pixels n s' u \<le> thread_rank pixels n s u"
    using thread_frame(3) [OF assms(1)] assms(2) by (metis less_imp_le_nat order_refl)
qed (use assms in auto)

lemma towards_end:
  assumes ok: "static_ok K pixels n xs s" and unfinished: "main_at s \<noteq> Freed"
  shows "\<exists>s'. static_step body pixels n s s' \<and> (s', s) \<in> measures [\<lambda>s. main_rank (unat n) (main_at s), all_ranks pixels n]"
proof -
  have main: ?thesis if "main_step n s s'" "main_rank (unat n) (main_at s') < main_rank (unat n) (main_at s)" for s'
    using that by (auto simp: static_step_def)
  have thread: ?thesis if "thread_step body pixels n t s s'" "thread_rank pixels n s' t < thread_rank pixels n s t" "t < unat n" for t s'
    using that all_ranks_step [OF that] thread_frame(1) [OF that(1)] by (auto simp: static_step_def)
  show ?thesis
  proof (cases "main_at s")
    case (Reset k)
    show ?thesis
    proof (cases k)
      case 0
      show ?thesis by (rule main [OF main_step.runs_over]) (use Reset 0 in simp_all)
    next
      case (Suc l)
      show ?thesis by (rule main [OF main_step.reset [of s l]]) (use Reset Suc in simp_all)
    qed
  next
    case (Bump k)
    show ?thesis by (rule main [OF main_step.bump [OF Bump]]) (use Bump in simp)
  next
    case (Wait k)
    show ?thesis
    proof (cases "\<exists>t<unat n. \<not> has_counted s t")
      case True
      then obtain t where t: "t < unat n" "\<not> has_counted s t" by blast
      show ?thesis by (rule waited_step [OF ok Wait t]) (rule thread [OF _ _ t(1)])
    next
      case False
      then have "{t. t < unat n \<and> has_counted s t} = {..<unat n}" by auto
      then have "\<not> static_completed_count s < n" using static_okD(5) [OF ok] Wait by (simp add: word_less_nat_alt)
      then show ?thesis by (rule main [OF main_step.wait [OF Wait]]) (use Wait in simp)
    qed
  next
    case Stop
    show ?thesis by (rule main [OF main_step.stop [OF Stop]]) (use Stop in simp)
  next
    case (Join i)
    show ?thesis
    proof (cases "i < unat n \<and> thread_at s i \<noteq> TExit")
      case True
      then have i: "i < unat n" "thread_at s i \<noteq> TExit" by simp_all
      show ?thesis by (rule joined_step [OF ok Join i]) (rule thread [OF _ _ i(1)])
    next
      case False
      show ?thesis
      proof (cases "i < unat n")
        case True
        with False have "thread_at s i = TExit" by simp
        then show ?thesis by (rule main [OF main_step.join [OF Join True]]) (use Join True in simp)
      next
        case outside: False
        show ?thesis by (rule main [OF main_step.free [OF Join outside]]) (use Join in simp)
      qed
    qed
  qed (use unfinished in simp)
qed

lemma static_finishes:
  assumes K: "K < 2 ^ 64" and "static_ok K pixels n xs s"
  shows "\<exists>s'. (static_step body pixels n)\<^sup>*\<^sup>* s s' \<and> main_at s' = Freed"
  using assms(2)
proof (induction s rule: wf_induct_rule [OF wf_measures [of "[\<lambda>s. main_rank (unat n) (main_at s), all_ranks pixels n]"]])
  case (1 s)
  show ?case
  proof (cases "main_at s = Freed")
    case False
    obtain s' where s': "static_step body pixels n s s'"
        "(s', s) \<in> measures [\<lambda>s. main_rank (unat n) (main_at s), all_ranks pixels n]"
      using towards_end [OF 1(2) False] by blast
    have "static_ok K pixels n xs s'"
      using s'(1) 1(2) by (auto simp: static_step_def intro: main_keeps [OF _ K] thread_keeps)
    from 1(1) [OF s'(2) this] s'(1) show ?thesis by (meson converse_rtranclp_into_rtranclp)
  qed blast
qed

end

section \<open>Properties\<close>

text \<open>
  C24: The static threads render every pixel exactly once in every run. Whatever the interleaving of the
  threads' pixel writes and of main, whenever main is not waiting, each element of the image is the
  result of as many applications of the kernel to its first value as runs have been made: no slice is
  skipped, none is rendered twice, no two slices overlap, and no thread of an earlier run is still
  writing.
\<close>

theorem static_runs_render_once:
  assumes "cell_kernel body g" and "length xs = unat pixels" and "K < 2 ^ 64" and "0 < n"
    and "(static_step body pixels n)\<^sup>*\<^sup>* (static_init K xs) s" and "\<not> waiting (main_at s)"
  shows "canvas s = map (\<lambda>i. (g i ^^ started K (main_at s)) (xs ! i)) [0..<unat pixels]
    \<and> (\<forall>t<unat n. idle_thread (thread_at s t))"
proof -
  note ok = cell_kernel.static_reachable [OF assms(1,2,3,5)]
  have "idle_thread (thread_at s t)" if "t < unat n" for t
    using cell_kernel.thread_okD(2) [OF assms(1) cell_kernel.static_okD(4) [OF assms(1) ok that]] assms(6) by blast
  with cell_kernel.static_rounds [OF assms] show ?thesis by blast
qed

text \<open>
  The static pool can always come to its end: from every state that an interleaving of the threads
  and main reaches there are steps to the state in which the threads are joined and the slices freed, so
  no wait is for an event that cannot happen; and when the slices are freed every thread has left its
  loop, so none reads its slice afterwards.
\<close>

theorem static_pool_can_finish:
  assumes "cell_kernel body g" and "length xs = unat pixels" and "K < 2 ^ 64"
    and "(static_step body pixels n)\<^sup>*\<^sup>* (static_init K xs) s"
  shows "(\<exists>s'. (static_step body pixels n)\<^sup>*\<^sup>* s s' \<and> main_at s' = Freed)
    \<and> (main_at s = Freed \<longrightarrow> (\<forall>t<unat n. thread_at s t = TExit))"
proof -
  note ok = cell_kernel.static_reachable [OF assms]
  show ?thesis
    using cell_kernel.static_finishes [OF assms(1,3) ok] cell_kernel.static_okD(9) [OF assms(1) ok] by blast
qed

text \<open>Six pixels, two threads, three runs of a kernel that counts.\<close>

theorem static_runs_render_once_witness:
  "\<exists>s. (static_step (update_at Suc) 6 2)\<^sup>*\<^sup>* (static_init 3 [10, 20, 30, 40, 50, 60]) s \<and> main_at s = Freed
     \<and> canvas s = [13, 23, 33, 43, 53, 63]"
proof -
  let ?xs = "[10, 20, 30, 40, 50, 60 :: nat]"
  have len: "length ?xs = unat (6 :: size_t)" by simp
  obtain s where s: "(static_step (update_at Suc) 6 2)\<^sup>*\<^sup>* (static_init 3 ?xs) s" "main_at s = Freed"
    using upd.static_finishes [where f = Suc, OF _ upd.static_ok_init [where n = 2 and K = 3, OF len]] by auto
  have "canvas s = map (\<lambda>i. (Suc ^^ started 3 (main_at s)) (?xs ! i)) [0..<unat (6 :: size_t)]"
    using static_runs_render_once [OF upd.cell_kernel_axioms len _ _ s(1)] s(2) by simp
  also have "\<dots> = map (\<lambda>i. (Suc ^^ 3) (?xs ! i)) [0..<unat (6 :: size_t)]" by (simp only: s(2) started.simps)
  also have "\<dots> = [13, 23, 33, 43, 53, 63]" by code_simp
  finally have "canvas s = [13, 23, 33, 43, 53, 63]" .
  with s show ?thesis by blast
qed

theorem static_pool_can_finish_witness:
  "\<exists>s. (static_step (update_at Suc) 6 2)\<^sup>*\<^sup>* (static_init 3 [10, 20, 30, 40, 50, 60]) s \<and> main_at s = Freed
     \<and> thread_at s 0 = TExit \<and> thread_at s 1 = TExit"
proof -
  let ?xs = "[10, 20, 30, 40, 50, 60 :: nat]" and ?R = "(static_step (update_at Suc) 6 2)\<^sup>*\<^sup>*"
  have len: "length ?xs = unat (6 :: size_t)" by simp
  note fin = static_pool_can_finish [OF upd.cell_kernel_axioms len, of 3 Suc 2]
  obtain s where s: "?R (static_init 3 ?xs) s" "main_at s = Freed" using fin by auto
  with fin [of s] have "thread_at s 0 = TExit" "thread_at s 1 = TExit" by auto
  with s show ?thesis by blast
qed

end
