(* ===== verification/JobSequence.thy ===== *)
theory JobSequence
  imports WorkerRun Kernels StaticPool
begin

text \<open>
  The main programs of the examples that submit jobs one after the other: each job is initialised,
  submitted and awaited, on a scheduler with one worker that makes its rounds meanwhile. What the calls
  did to the developer's arrays is compared with the sequential program.
\<close>

section \<open>Submit and wait\<close>

text \<open>A job request: the job, its payload, the payload's size, its function and the chunk size.\<close>

type_synonym job_request = "job_ref \<times> ptr \<times> size_t \<times> sc_fn \<times> size_t"

definition init_job :: "job_ref \<Rightarrow> ptr \<Rightarrow> size_t \<Rightarrow> sc_fn \<Rightarrow> sched \<Rightarrow> sched" where
  "init_job j payload psize f s = s\<lparr>jobs := (jobs s)(j := scheduler_init_job payload psize f (jobs s j))\<rparr>"

text \<open>The rounds of the worker while the application waits; \<open>None\<close> when \<open>fuel\<close> rounds were not enough.\<close>

fun await_job :: "dev \<Rightarrow> size_t \<Rightarrow> job_ref \<Rightarrow> nat \<Rightarrow> uint32 \<Rightarrow> sched \<Rightarrow> (uint32 \<times> sched) option" where
  "await_job dev cores j 0 rng s = (if scheduler_is_job_complete (job_state (jobs s j)) then Some (rng, s) else None)"
| "await_job dev cores j (Suc fuel) rng s =
     (if scheduler_is_job_complete (job_state (jobs s j)) then Some (rng, s)
      else (case worker_iteration dev 0 cores rng s of
              None \<Rightarrow> None
            | Some (rng, s) \<Rightarrow> await_job dev cores j fuel rng s))"

definition enough_rounds :: "nat \<Rightarrow> job_request list \<Rightarrow> bool" where
  "enough_rounds fuel js \<longleftrightarrow> (\<forall>r\<in>set js. case r of (j, payload, psize, f, chunk) \<Rightarrow> max 1 (unat psize) \<le> fuel)"

text \<open>A rejected submission ends the program with an error, \<open>None\<close> here.\<close>

fun run_jobs :: "dev \<Rightarrow> nat \<Rightarrow> size_t \<Rightarrow> nat \<Rightarrow> job_request list \<Rightarrow> uint32 \<Rightarrow> sched \<Rightarrow> (uint32 \<times> sched) option" where
  "run_jobs dev tid cores fuel [] rng s = Some (rng, s)"
| "run_jobs dev tid cores fuel ((j, payload, psize, f, chunk) # js) rng s =
     (case scheduler_submit_job tid j chunk (init_job j payload psize f s) of
        (False, s) \<Rightarrow> None
      | (True, s) \<Rightarrow>
          (case await_job dev cores j fuel rng s of
             None \<Rightarrow> None
           | Some (rng, s) \<Rightarrow> run_jobs dev tid cores fuel js rng s))"

section \<open>A scheduler that is ready for more jobs\<close>

text \<open>
  Idle, with room for \<open>k\<close> more submissions by thread \<open>tid\<close> in the counter of the ring, and no tasks in
  the caches of threads other than the worker and \<open>tid\<close>.
\<close>

definition ready :: "nat \<Rightarrow> nat \<Rightarrow> sched \<Rightarrow> bool" where
  "ready tid k s \<longleftrightarrow> idle_single s \<and> ring_tail s + k < 2 ^ 64 - 1 \<and> (\<forall>u. u \<noteq> 0 \<longrightarrow> u \<noteq> tid \<longrightarrow> task_cache (pool s) u = [])"

lemma idle_singleD:
  assumes "idle_single s"
  obtains w where "worker_pool s = Some [w]" and "deque_items (cl_deque w) = []" and "rb_items w = []" and "worker_ok w"
    and "global_worker_count s = 1" and "sched_wf s" and "avail s = {..<global_task_capacity}" and "ring_tail s = unat (rb_tail w)"
proof -
  obtain w where w: "worker_pool s = Some [w]" "deque_items (cl_deque w) = []" "rb_items w = []" "sched_wf s" "avail s = {..<global_task_capacity}"
    using assms by (auto simp: idle_single_def)
  then have "unat (global_worker_count s) = unat (1 :: size_t)" "worker_ok w" by (auto simp: sched_wf_def)
  then show thesis using w by (intro that [of w]) (simp_all only: word_unat_eq_iff ring_tail_def option.case list.case)
qed

lemma idle_singleI:
  assumes "sched_wf s" and "avail s = {..<global_task_capacity}" and "own_deque 0 s = []" and "rings s = [[]]" and "ring_tail s < 2 ^ 64 - 1"
  shows "idle_single s"
proof -
  obtain ws where ws: "worker_pool s = Some ws" using assms(4) by (auto simp: rings_def split: option.splits)
  with assms(4) obtain w where w: "worker_pool s = Some [w]" "rb_items w = []" by (auto simp: rings_def)
  have "deque_items (cl_deque w) = []" "unat (rb_tail w) < 2 ^ 64 - 1"
    using assms(3,5) w(1) by (simp_all add: own_deque_def ring_tail_def)
  then show ?thesis using assms(1,2) w by (simp add: idle_single_def rings_bounded_def)
qed

text \<open>The tasks in the cache of one other thread are too few to starve a thread.\<close>

lemma two_caches:
  assumes "sched_wf s" and "\<And>v. v \<noteq> u \<Longrightarrow> v \<noteq> tid \<Longrightarrow> task_cache (pool s) v = []"
  shows "card (avail s) \<le> obtainable tid s + TASK_CACHE_CAPACITY"
proof -
  let ?free = "pool_free global_task_capacity (pool s)"
  have wf: "pool_wf global_task_capacity (pool s)" using assms(1) by (simp add: sched_wf_def)
  have "avail s \<subseteq> set ?free \<union> set (task_cache (pool s) tid) \<union> set (task_cache (pool s) u)"
    unfolding pool_avail_def
  proof (intro Un_least UN_least)
    show "set (task_cache (pool s) v) \<subseteq> set ?free \<union> set (task_cache (pool s) tid) \<union> set (task_cache (pool s) u)" for v
      using assms(2) [of v] by (cases "v = u"; cases "v = tid") auto
  qed auto
  from card_mono [OF _ this] have "card (avail s) \<le> card (set ?free \<union> set (task_cache (pool s) tid) \<union> set (task_cache (pool s) u))" by simp
  also have "\<dots> \<le> length ?free + length (task_cache (pool s) tid) + length (task_cache (pool s) u)"
    by (intro order.trans [OF card_Un_le] add_mono card_length)
  also have "length (task_cache (pool s) u) \<le> TASK_CACHE_CAPACITY" using wf by (simp add: pool_wf_def cache_ok_def)
  finally show ?thesis by (simp add: acquirable_def)
qed

lemma ready_obtainable:
  assumes "ready tid k s"
  shows "2 \<le> obtainable tid s"
proof -
  have "sched_wf s" "avail s = {..<global_task_capacity}" using assms by (simp_all add: ready_def idle_single_def)
  moreover have "task_cache (pool s) v = []" if "v \<noteq> 0" "v \<noteq> tid" for v using assms that by (simp add: ready_def)
  ultimately show ?thesis using two_caches [of s 0 tid] by (simp add: global_task_capacity_def TASK_CACHE_CAPACITY_def)
qed

lemma ready_accepts:
  assumes "ready tid k s"
  shows "fst (scheduler_submit_job tid j chunk s)"
proof -
  have idle: "idle_single s" using assms by (simp add: ready_def)
  obtain w where w: "worker_pool s = Some [w]" "rb_items w = []" "worker_ok w" "global_worker_count s = 1" "sched_wf s"
    by (rule idle_singleD [OF idle])
  have "rings_bounded s" using idle by (simp add: idle_single_def)
  from submit_result [OF w(5) this prod.collapse [symmetric], of tid j chunk] show ?thesis
    using w ready_obtainable [OF assms] by (simp add: submit_outcome_def target_room_def rb_capacity_def)
qed

text \<open>What a submission does to the ring's counter and to the caches.\<close>

lemma submit_leaves:
  assumes "scheduler_submit_job tid j chunk s = (ok, s')" and "worker_pool s = Some [w]" and "global_worker_count s = 1"
    and "rb_inv w" and "unat (rb_tail w) < 2 ^ 64 - 1"
  shows "ring_tail s' \<le> Suc (ring_tail s)" and "u \<noteq> tid \<Longrightarrow> task_cache (pool s') u = task_cache (pool s) u"
proof -
  have acq: "worker_pool y = worker_pool x \<and> global_worker_count y = global_worker_count x
      \<and> (u \<noteq> tid \<longrightarrow> task_cache (pool y) u = task_cache (pool x) u)" if "acquire tid x = (r, y)" for x y r
    using that by (auto simp: acquire_def memory_pool_acquire_def Let_def split: prod.splits if_splits)
  have rel: "task_cache (pool (release tid t x)) u = task_cache (pool x) u" "worker_pool (release tid t x) = worker_pool x"
    if "u \<noteq> tid" for x t using that by (auto simp: release_def memory_pool_release_def Let_def)
  have rel2: "worker_pool (release tid t x) = worker_pool x" for x t by (simp add: release_def)
  have upd: "task_cache (pool (upd_task t f x)) = task_cache (pool x)" for t f x by (simp add: upd_task_def)
  have push: "unat (rb_tail w') \<le> Suc (unat (rb_tail w))" if "spmc_producer_push w t = (b, w')" for t b w'
    using rb_push(6) [OF assms(4,5), of t w'] that by simp
  show "ring_tail s' \<le> Suc (ring_tail s)"
    using assms(1-3)
    by (auto simp: scheduler_submit_job_def Let_def ring_push_def ring_tail_def rel2 dest!: acq push split: option.splits prod.splits if_splits)
  show "task_cache (pool s') u = task_cache (pool s) u" if "u \<noteq> tid"
    using assms(1-3) that
    by (auto simp: scheduler_submit_job_def Let_def ring_push_def rel upd dest!: acq split: option.splits prod.splits if_splits)
qed

lemma ready_submits:
  assumes "ready tid (Suc k) s" and "scheduler_submit_job tid j chunk s = (ok, s')"
  shows "ok" and "ring_tail s' + k < 2 ^ 64 - 1" and "\<And>u. u \<noteq> 0 \<Longrightarrow> u \<noteq> tid \<Longrightarrow> task_cache (pool s') u = []"
proof -
  have idle: "idle_single s" using assms(1) by (simp add: ready_def)
  obtain w where w: "worker_pool s = Some [w]" "worker_ok w" "global_worker_count s = 1" "ring_tail s = unat (rb_tail w)"
    by (rule idle_singleD [OF idle])
  have inv: "rb_inv w" "unat (rb_tail w) < 2 ^ 64 - 1" using w assms(1) by (simp_all add: worker_ok_def ready_def)
  note L = submit_leaves [OF assms(2) w(1,3) inv]
  show "ring_tail s' + k < 2 ^ 64 - 1" "\<And>u. u \<noteq> 0 \<Longrightarrow> u \<noteq> tid \<Longrightarrow> task_cache (pool s') u = []"
    using L assms(1) by (simp_all add: ready_def)
  show ok using ready_accepts [OF assms(1), of j chunk] assms(2) by simp
qed

lemma ready_init_job [simp]: "ready tid k (init_job j p n f s) = ready tid k s"
  by (simp add: ready_def idle_single_def init_job_def sched_wf_def rings_bounded_def ring_tail_def)

section \<open>Waiting ends\<close>

lemma await_rounds:
  assumes "n \<le> fuel" and "worker_iterations dev 0 cores n rng s = Some (rng, s')"
    and "\<forall>m<n. \<exists>s2. worker_iterations dev 0 cores m rng s = Some (rng, s2) \<and> \<not> scheduler_is_job_complete (job_state (jobs s2 j))"
    and "scheduler_is_job_complete (job_state (jobs s' j))"
  shows "await_job dev cores j fuel rng s = Some (rng, s')"
  using assms
proof (induction n arbitrary: fuel s)
  case 0
  then show ?case by (cases fuel) auto
next
  case (Suc n)
  obtain rng1 s1 where it: "worker_iteration dev 0 cores rng s = Some (rng1, s1)" "worker_iterations dev 0 cores n rng1 s1 = Some (rng, s')"
    using Suc.prems(2) by (auto split: option.splits)
  have start: "\<not> scheduler_is_job_complete (job_state (jobs s j))" using Suc.prems(3) by (auto dest: spec [of _ 0])
  have rng: "rng1 = rng"
  proof (cases n)
    case 0
    with it(2) show ?thesis by simp
  next
    case (Suc m)
    with Suc.prems(3) it(1) show ?thesis by (auto dest: spec [of _ 1])
  qed
  obtain fuel' where fuel: "fuel = Suc fuel'" "n \<le> fuel'" using Suc.prems(1) by (cases fuel) auto
  have "\<exists>s2. worker_iterations dev 0 cores m rng s1 = Some (rng, s2) \<and> \<not> scheduler_is_job_complete (job_state (jobs s2 j))" if "m < n" for m
    using Suc.prems(3) that it(1) rng by (auto dest!: spec [of _ "Suc m"])
  with Suc.IH [OF fuel(2), of s1] it rng Suc.prems(4) have "await_job dev cores j fuel' rng s1 = Some (rng, s')" by simp
  with start it(1) rng fuel(1) show ?case by simp
qed

text \<open>One request is served: what is called, and the scheduler is ready for the next one.\<close>

definition request_calls :: "job_request \<Rightarrow> (sc_fn \<times> ptr \<times> size_t \<times> size_t) list \<Rightarrow> bool" where
  "request_calls r cs \<longleftrightarrow> (case r of (j, payload, psize, f, chunk) \<Rightarrow>
     (\<forall>x\<in>set cs. call_of f payload x) \<and> (\<Sum>x\<in>#mset cs. call_cells x) = cells 0 psize)"

lemma serve_one:
  assumes "ready tid (Suc k) s" and "leaf_dev dev" and "max 1 (unat psize) \<le> fuel"
  obtains s1 s' cs where "scheduler_submit_job tid j chunk (init_job j payload psize f s) = (True, s1)"
    and "await_job dev cores j fuel rng s1 = Some (rng, s')" and "ready tid k s'"
    and "calls s' = calls s @ cs" and "request_calls (j, payload, psize, f, chunk) cs"
    and "scheduler_is_job_complete (job_state (jobs s' j))" and "\<And>i. i \<noteq> j \<Longrightarrow> jobs s' i = jobs s i"
proof -
  let ?s = "init_job j payload psize f s"
  have rdy: "ready tid (Suc k) ?s" using assms(1) by simp
  obtain ok s1 where sub: "scheduler_submit_job tid j chunk ?s = (ok, s1)" by (cases "scheduler_submit_job tid j chunk ?s")
  note R = ready_submits [OF rdy sub]
  have idle: "idle_single ?s" using rdy by (simp add: ready_def)
  then have sub': "scheduler_submit_job tid j chunk ?s = (True, s1)" using sub R(1) by simp
  obtain n s' where ran: "job_ran dev j cores rng n ?s s1 s'" using job_run_result [OF idle assms(2) sub'] by blast
  have job: "jobs ?s = (jobs s)(j := scheduler_init_job payload psize f (jobs s j))" by (simp add: init_job_def)
  have "sched_wf ?s" "rings_bounded ?s" using idle by (simp_all add: idle_single_def)
  from submit_result [OF this sub'] have jobs1: "jobs s1 = jobs (with_chunk j chunk ?s)" by (simp add: submit_outcome_def)
  have running: "\<not> scheduler_is_job_complete (job_state (jobs s1 j))"
    by (simp add: jobs1 job scheduler_init_job_def scheduler_is_job_complete_def JOB_STATE_DONE_def JOB_STATE_RUNNING_def)
  have await: "await_job dev cores j fuel rng s1 = Some (rng, s')"
    by (rule await_rounds [of n]) (use ran assms(3) running in \<open>auto simp: job_ran_def job scheduler_init_job_def scheduler_is_job_complete_def\<close>)
  have "idle_single s'"
    using ran R(2) by (intro idle_singleI) (simp_all add: job_ran_def)
  then have "ready tid k s'" using ran R(2,3) by (simp add: ready_def job_ran_def)
  moreover obtain cs where "calls s' = calls ?s @ cs" "request_calls (j, payload, psize, f, chunk) cs"
    using ran by (auto simp: job_ran_def request_calls_def job scheduler_init_job_def)
  moreover have "scheduler_is_job_complete (job_state (jobs s' j))" using ran by (simp add: job_ran_def scheduler_is_job_complete_def)
  moreover have "jobs s' i = jobs s i" if "i \<noteq> j" for i using ran that by (simp add: job_ran_def jobs1 job)
  ultimately show thesis using that [OF sub' await] by (simp add: init_job_def)
qed

lemma run_jobs_result:
  assumes "ready tid (length js) s" and "leaf_dev dev" and "enough_rounds fuel js"
  shows "\<exists>s' css. run_jobs dev tid cores fuel js rng s = Some (rng, s') \<and> ready tid 0 s'
    \<and> calls s' = calls s @ concat css \<and> list_all2 request_calls js css
    \<and> (\<forall>r\<in>set js. scheduler_is_job_complete (job_state (jobs s' (fst r))))
    \<and> (\<forall>i. i \<notin> fst ` set js \<longrightarrow> jobs s' i = jobs s i)"
  using assms
proof (induction js arbitrary: s)
  case Nil
  then show ?case by (intro exI [of _ s] exI [of _ "[]"]) simp
next
  case (Cons r js)
  obtain j payload psize f chunk where r: "r = (j, payload, psize, f, chunk)" by (cases r) auto
  have fuel: "max 1 (unat psize) \<le> fuel" and rdy: "ready tid (Suc (length js)) s" using Cons.prems r by (simp_all add: enough_rounds_def)
  obtain s1 s2 cs where S: "scheduler_submit_job tid j chunk (init_job j payload psize f s) = (True, s1)"
      "await_job dev cores j fuel rng s1 = Some (rng, s2)" "ready tid (length js) s2" "calls s2 = calls s @ cs" "request_calls r cs"
      "scheduler_is_job_complete (job_state (jobs s2 j))" "\<And>i. i \<noteq> j \<Longrightarrow> jobs s2 i = jobs s i"
    using serve_one [OF rdy Cons.prems(2) fuel, of j chunk payload f cores rng] unfolding r by metis
  obtain s' css where I: "run_jobs dev tid cores fuel js rng s2 = Some (rng, s')" "ready tid 0 s'" "calls s' = calls s2 @ concat css"
      "list_all2 request_calls js css" "\<forall>r\<in>set js. scheduler_is_job_complete (job_state (jobs s' (fst r)))"
      "\<forall>i. i \<notin> fst ` set js \<longrightarrow> jobs s' i = jobs s2 i"
    using Cons.IH [OF S(3) Cons.prems(2)] Cons.prems(3) by (auto simp: enough_rounds_def)
  have "run_jobs dev tid cores fuel (r # js) rng s = Some (rng, s')" using S(1,2) I(1) by (simp add: r)
  moreover have "scheduler_is_job_complete (job_state (jobs s' j))"
    using S(6) I(5,6) by (cases "j \<in> fst ` set js") auto
  ultimately show ?case
    using S I by (intro exI [of _ s'] exI [of _ "cs # css"]) (auto simp: r)
qed

section \<open>What the jobs do to the arrays\<close>

text \<open>
  The developer's arrays by payload pointer, and the effect of a call on them: \<open>K f\<close> is the loop body of
  function \<open>f\<close>. The calls of a worker happen in the order in which \<open>calls\<close> lists them.
\<close>

fun apply_calls :: "(sc_fn \<Rightarrow> size_t \<Rightarrow> 'e list \<Rightarrow> 'e list option) \<Rightarrow> (sc_fn \<times> ptr \<times> size_t \<times> size_t) list
     \<Rightarrow> (ptr \<Rightarrow> 'e list) \<Rightarrow> (ptr \<Rightarrow> 'e list) option" where
  "apply_calls K [] mem = Some mem"
| "apply_calls K ((f, p, a, b) # cs) mem =
     (case for_range (K f) a b (mem p) of None \<Rightarrow> None | Some xs \<Rightarrow> apply_calls K cs (mem(p := xs)))"

definition payloads_fit :: "job_request list \<Rightarrow> (ptr \<Rightarrow> 'e list) \<Rightarrow> bool" where
  "payloads_fit js mem \<longleftrightarrow> (\<forall>r\<in>set js. case r of (j, p, n, f, chunk) \<Rightarrow> unat n \<le> length (mem p))"

text \<open>The sequential program: each request is one loop over its payload.\<close>

fun run_sequential :: "(sc_fn \<Rightarrow> size_t \<Rightarrow> 'e list \<Rightarrow> 'e list option) \<Rightarrow> job_request list
     \<Rightarrow> (ptr \<Rightarrow> 'e list) \<Rightarrow> (ptr \<Rightarrow> 'e list) option" where
  "run_sequential K [] mem = Some mem"
| "run_sequential K ((j, payload, psize, f, chunk) # js) mem =
     (case for_range (K f) 0 psize (mem payload) of None \<Rightarrow> None | Some xs \<Rightarrow> run_sequential K js (mem(payload := xs)))"

lemma apply_calls_append:
  "apply_calls K (cs @ ds) mem = (case apply_calls K cs mem of None \<Rightarrow> None | Some mem \<Rightarrow> apply_calls K ds mem)"
proof (induction cs arbitrary: mem)
  case (Cons c cs)
  then show ?case by (cases c) (simp del: fun_upd_apply split: option.splits)
qed simp

lemma apply_calls_ranges:
  assumes "\<forall>x\<in>set cs. call_of f p x"
  shows "apply_calls K cs mem = map_option (\<lambda>xs. mem(p := xs)) (run_ranges (K f) (map (snd \<circ> snd) cs) (mem p))"
  using assms
proof (induction cs arbitrary: mem)
  case (Cons c cs)
  obtain a b where c: "c = (f, p, a, b)" using Cons.prems by (cases c) (auto simp: call_of_def)
  have "fun_upd (mem(p := xs)) p = fun_upd mem p" for xs by (simp add: fun_eq_iff)
  with Cons show ?case by (simp add: c del: fun_upd_apply split: option.splits) simp
qed simp

lemma request_effect:
  assumes "request_calls (j, p, n, f, chunk) cs" and "cell_kernel (K f) g" and "unat n \<le> length (mem p)"
  shows "apply_calls K cs mem = map_option (\<lambda>xs. mem(p := xs)) (for_range (K f) 0 n (mem p))"
proof -
  have calls: "\<forall>x\<in>set cs. call_of f p x" and sum: "(\<Sum>x\<in>#mset cs. call_cells x) = cells 0 n"
    using assms(1) by (simp_all add: request_calls_def)
  have "(\<Sum>(a, b)\<in>#mset (map (snd \<circ> snd) cs). mset [unat a..<unat b]) = (\<Sum>x\<in>#mset cs. call_cells x)"
    by (induction cs) (auto simp: cells_def)
  then have "(\<Sum>(a, b)\<in>#mset (map (snd \<circ> snd) cs). mset [unat a..<unat b]) = mset [0..<unat n]" using sum by (simp add: cells_def)
  from cell_kernel.ranges_cover [OF assms(2) this assms(3)] show ?thesis by (simp add: apply_calls_ranges [OF calls])
qed

lemma for_range_length:
  assumes "cell_kernel body g" and "unat n \<le> length xs" and "for_range body 0 n xs = Some ys"
  shows "length ys = length xs"
  using cell_kernel.range_run [OF assms(1), of 0 n xs] assms(2,3) by auto

lemma requests_effect:
  assumes "list_all2 request_calls js css" and "\<And>f. cell_kernel (K f) (g f)"
    and "payloads_fit js mem"
  shows "apply_calls K (concat css) mem = run_sequential K js mem"
  using assms(1,3)
proof (induction arbitrary: mem rule: list_all2_induct)
  case (Cons r js cs css)
  obtain j p n f chunk where r: "r = (j, p, n, f, chunk)" by (cases r) auto
  have n: "unat n \<le> length (mem p)" using Cons.prems r by (simp add: payloads_fit_def)
  obtain xs where xs: "for_range (K f) 0 n (mem p) = Some xs"
    using cell_kernel.range_run [OF assms(2), of 0 n "mem p" f] n by auto
  have "apply_calls K cs mem = Some (mem(p := xs))"
    using request_effect [OF Cons.hyps(1) [unfolded r], of K "g f"] assms(2) n xs by simp
  moreover have "payloads_fit js (mem(p := xs))"
    using Cons.prems for_range_length [OF assms(2) n xs] by (auto simp: payloads_fit_def)
  ultimately show ?case using Cons.IH [of "mem(p := xs)"] by (simp add: apply_calls_append r xs del: fun_upd_apply)
qed simp

lemma run_sequential_defined:
  assumes "\<And>f. cell_kernel (K f) (g f)" and "payloads_fit js mem"
  shows "run_sequential K js mem \<noteq> None"
  using assms(2)
proof (induction js arbitrary: mem)
  case (Cons r js)
  obtain j p n f chunk where r: "r = (j, p, n, f, chunk)" by (cases r) auto
  have n: "unat n \<le> length (mem p)" using Cons.prems r by (simp add: payloads_fit_def)
  obtain xs where xs: "for_range (K f) 0 n (mem p) = Some xs"
    using cell_kernel.range_run [OF assms(1), of 0 n "mem p" f] n by auto
  have "payloads_fit js (mem(p := xs))"
    using Cons.prems for_range_length [OF assms(1) n xs] by (auto simp: payloads_fit_def)
  with Cons.IH [of "mem(p := xs)"] show ?case by (simp add: r xs del: fun_upd_apply)
qed simp

text \<open>One request after the other on the same array of the size of the payload.\<close>

lemma run_sequential_same:
  assumes "cell_kernel body (\<lambda>i _. h i)" and "length xs = unat n"
  shows "run_sequential (\<lambda>_. body) (replicate (Suc k) (j, p, n, f, chunk)) (mem(p := xs)) = Some (mem(p := map h [0..<unat n]))"
  using assms(2)
proof (induction k arbitrary: xs)
  case 0
  then show ?case using cell_kernel.range_all [OF assms(1) 0] by (simp add: fun_upd_same del: fun_upd_apply)
next
  case (Suc k)
  have "run_sequential (\<lambda>_. body) (replicate (Suc (Suc k)) (j, p, n, f, chunk)) (mem(p := xs)) =
      run_sequential (\<lambda>_. body) (replicate (Suc k) (j, p, n, f, chunk)) (mem(p := map h [0..<unat n]))"
    using cell_kernel.range_all [OF assms(1) Suc.prems] by (simp add: fun_upd_same del: fun_upd_apply)
  also have "\<dots> = Some (mem(p := map h [0..<unat n]))" by (rule Suc.IH) simp
  finally show ?case .
qed

section \<open>Properties\<close>

text \<open>
  The scheduler serves one job after the other. An idle scheduler with one worker accepts every job of
  a list, whatever their sizes, functions, payloads and chunk sizes, as long as the ring's 64-bit counter
  lasts: no submission is rejected, every wait ends within as many rounds as the payload has elements,
  every job is complete, the calls of each job cover its payload exactly once and come before those of
  the next job, and the scheduler is idle again at the end.
\<close>

theorem job_sequence_served:
  assumes "ready tid (length js) s" and "leaf_dev dev" and "enough_rounds fuel js"
  shows "\<exists>s' css. run_jobs dev tid cores fuel js rng s = Some (rng, s') \<and> idle_single s'
    \<and> calls s' = calls s @ concat css \<and> list_all2 request_calls js css
    \<and> (\<forall>r\<in>set js. scheduler_is_job_complete (job_state (jobs s' (fst r))))"
proof -
  obtain s' css where "run_jobs dev tid cores fuel js rng s = Some (rng, s')" "ready tid 0 s'"
      "calls s' = calls s @ concat css" "list_all2 request_calls js css"
      "\<forall>r\<in>set js. scheduler_is_job_complete (job_state (jobs s' (fst r)))"
    using run_jobs_result [OF assms] by blast
  then show ?thesis by (intro exI [of _ s'] exI [of _ css]) (simp add: ready_def)
qed

text \<open>
  Jobs on the scheduler compute what the sequential program computes. When the function of each job
  replaces every element of its range by a function of its index and its old value, as all task functions
  of the examples do, the calls of a sequence of jobs, in whatever ranges the splitter cut them and in
  whatever order the worker ran them, leave the arrays as plain loops over the payloads do; no access is
  outside an array.
\<close>

theorem jobs_match_sequential:
  assumes "ready tid (length js) s" and "leaf_dev dev" and "enough_rounds fuel js"
    and "\<And>f. cell_kernel (K f) (g f)" and "payloads_fit js mem"
  shows "\<exists>s' cs mem'. run_jobs dev tid cores fuel js rng s = Some (rng, s') \<and> calls s' = calls s @ cs
    \<and> apply_calls K cs mem = Some mem' \<and> run_sequential K js mem = Some mem'"
proof -
  obtain s' css where R: "run_jobs dev tid cores fuel js rng s = Some (rng, s')"
      "calls s' = calls s @ concat css" "list_all2 request_calls js css"
    using run_jobs_result [OF assms(1-3)] by blast
  have "apply_calls K (concat css) mem = run_sequential K js mem" by (rule requests_effect [OF R(3) assms(4,5)])
  then show ?thesis using R run_sequential_defined [of K g, OF assms(4,5)] by auto
qed

text \<open>A sequence of equal jobs on one array that a kernel overwrites.\<close>

lemma repeated_jobs:
  assumes "ready tid (Suc k) s" and "leaf_dev dev" and "max 1 (unat n) \<le> fuel"
    and ker: "cell_kernel body (\<lambda>i _. h i)" and len: "length (mem p) = unat n"
  shows "\<exists>s' cs. run_jobs dev tid cores fuel (replicate (Suc k) (j, p, n, f, chunk)) rng s = Some (rng, s') \<and> calls s' = calls s @ cs
    \<and> apply_calls (\<lambda>_. body) cs mem = Some (mem(p := map h [0..<unat n]))"
proof -
  let ?js = "replicate (Suc k) (j, p, n, f, chunk)"
  obtain s' css where R: "run_jobs dev tid cores fuel ?js rng s = Some (rng, s')"
      "calls s' = calls s @ concat css" "list_all2 request_calls ?js css"
    using run_jobs_result [of tid ?js s dev fuel cores rng] assms(1-3) by (auto simp: enough_rounds_def)
  have "apply_calls (\<lambda>_. body) (concat css) mem = run_sequential (\<lambda>_. body) ?js mem"
    by (rule requests_effect [OF R(3), where g = "\<lambda>_ i _. h i"]) (use ker len in \<open>auto simp: payloads_fit_def\<close>)
  also have "\<dots> = Some (mem(p := map h [0..<unat n]))"
    using run_sequential_same [OF ker len, of k j p f chunk mem] by simp
  finally show ?thesis using R by blast
qed

text \<open>
  The array benchmark writes \<open>i * multiplier\<close> to every element. After any number of jobs with
  \<open>process_array_chunk\<close>, whatever the array held before, element \<open>i\<close> is the floating-point product of \<open>i\<close>
  and the multiplier, which is what the sequential baseline of the benchmark leaves, too.
\<close>

theorem array_benchmark_agrees:
  assumes "ready tid (Suc k) s" and "leaf_dev dev" and "max 1 (unat n) \<le> fuel"
    and "length (mem p) = unat n" and "length (data_array base) = unat n"
  shows "\<exists>s' cs xs. run_jobs dev tid cores fuel (replicate (Suc k) (j, p, n, f, chunk)) rng s = Some (rng, s') \<and> calls s' = calls s @ cs
    \<and> apply_calls (\<lambda>_. array_body F (multiplier base)) cs mem = Some (mem(p := xs))
    \<and> process_array_chunk F base 0 n = Some (base\<lparr>data_array := xs\<rparr>)
    \<and> (\<forall>i<unat n. xs ! i = fmul F (of_size F (word_of_nat i)) (multiplier base))"
proof -
  let ?h = "\<lambda>i. fmul F (of_size F (word_of_nat i)) (multiplier base)"
  have "process_array_chunk F base 0 n = Some (base\<lparr>data_array := map ?h [0..<unat n]\<rparr>)"
    using arr.range_all [OF assms(5), of F "multiplier base"] by (simp add: process_array_chunk_def)
  moreover obtain s' cs where "run_jobs dev tid cores fuel (replicate (Suc k) (j, p, n, f, chunk)) rng s = Some (rng, s')"
      "calls s' = calls s @ cs" "apply_calls (\<lambda>_. array_body F (multiplier base)) cs mem = Some (mem(p := map ?h [0..<unat n]))"
    using repeated_jobs [OF assms(1-3) arr.cell_kernel_axioms [of F "multiplier base"], of mem p cores j f chunk rng] assms(4) by blast
  ultimately show ?thesis by auto
qed


text \<open>A scheduler that has just been booted is ready.\<close>

lemma ready_booted: "k < 2 ^ 64 - 1 \<Longrightarrow> ready tid k booted"
proof -
  assume k: "k < 2 ^ 64 - 1"
  obtain w where w: "worker_pool booted = Some [w]" "fresh_worker 16 64 0 w" using booted_facts(10) by blast
  obtain ws where "unbooted\<lparr>global_worker_count := boot_worker_count 1, task_array_allocated := True,
      pool := init_task_pool global_task_capacity ((pool unbooted)\<lparr>global_task_array := global_task_array empty_pool\<rparr>),
      worker_pool := Some ws\<rparr> = booted"
    using booted_facts(1) by (auto simp: scheduler_boot_def Let_def split: option.splits)
  from arg_cong [OF this [symmetric], of pool]
  have "pool booted = init_task_pool global_task_capacity ((pool unbooted)\<lparr>global_task_array := global_task_array empty_pool\<rparr>)" by simp
  then have "task_cache (pool booted) u = []" for u by (simp add: init_task_pool_def unbooted_def empty_pool_def)
  then show ?thesis using k w idle_booted by (simp add: ready_def ring_tail_def fresh_worker_def)
qed

theorem job_sequence_served_witness:
  "\<exists>s' css. run_jobs idle_dev 1 1 300 [(0, UserPtr 0, 300, UserFn 0, 64), (1, UserPtr 1, 0, UserFn 1, 0)] 7 booted = Some (7, s')
     \<and> idle_single s' \<and> scheduler_is_job_complete (job_state (jobs s' 0)) \<and> scheduler_is_job_complete (job_state (jobs s' 1))"
proof -
  have "ready 1 (length [(0 :: nat, UserPtr 0, 300 :: size_t, UserFn 0, 64 :: size_t), (1, UserPtr 1, 0, UserFn 1, 0)]) booted"
    by (rule ready_booted) simp
  from job_sequence_served [OF this idle_dev_leaf, of 300 1 7] show ?thesis by (auto simp: enough_rounds_def)
qed

theorem jobs_match_sequential_witness:
  "\<exists>s' cs mem'. run_jobs idle_dev 1 1 4 [(0, UserPtr 0, 4, UserFn 0, 1), (1, UserPtr 1, 3, UserFn 0, 2)] 7 booted = Some (7, s')
     \<and> calls s' = calls booted @ cs \<and> apply_calls (\<lambda>_. update_at Suc) cs (\<lambda>_. [1, 2, 3, 4 :: nat]) = Some mem'
     \<and> run_sequential (\<lambda>_. update_at Suc) [(0, UserPtr 0, 4, UserFn 0, 1), (1, UserPtr 1, 3, UserFn 0, 2)] (\<lambda>_. [1, 2, 3, 4]) = Some mem'"
  by (rule jobs_match_sequential [OF _ idle_dev_leaf _ upd.cell_kernel_axioms])
    (simp_all add: ready_booted enough_rounds_def payloads_fit_def)

theorem array_benchmark_agrees_witness:
  "\<exists>s' cs xs. run_jobs idle_dev 1 1 5 (replicate (Suc 2) (0, UserPtr 0, 5, UserFn 0, 2)) 7 booted = Some (7, s')
     \<and> calls s' = calls booted @ cs
     \<and> apply_calls (\<lambda>_. array_body int_arith 3) cs (\<lambda>_. replicate 5 9) = Some ((\<lambda>_. replicate 5 9)(UserPtr 0 := xs)) \<and> xs ! 4 = 12"
proof -
  let ?base = "\<lparr>data_array = replicate 5 9, multiplier = 3 :: int\<rparr>"
  obtain s' cs xs where "run_jobs idle_dev 1 1 5 (replicate (Suc 2) (0, UserPtr 0, 5, UserFn 0, 2)) 7 booted = Some (7, s')"
      "calls s' = calls booted @ cs"
      "apply_calls (\<lambda>_. array_body int_arith (multiplier ?base)) cs (\<lambda>_. replicate 5 9) = Some ((\<lambda>_. replicate 5 9)(UserPtr 0 := xs))"
      "\<forall>i<unat (5 :: size_t). xs ! i = fmul int_arith (of_size int_arith (word_of_nat i)) (multiplier ?base)"
    using array_benchmark_agrees [OF ready_booted idle_dev_leaf, of 2 5 5 "\<lambda>_. replicate 5 9" "UserPtr 0" ?base 1 1 0 "UserFn 0" 2 7 int_arith]
    by auto
  moreover from this(4) have "xs ! 4 = 12" by (simp add: int_arith_def)
  ultimately show ?thesis by auto
qed


end
