(* ===== verification/ForkJoin.thy ===== *)
theory ForkJoin
  imports Continuations JobSequence
begin

text \<open>
  Fork and join as the examples \<open>simple_subtask_ex.c\<close> and \<open>multi_continuation.c\<close> do it: a task function
  registers a continuation and spawns children, which may have continuations of their own; the
  continuation of the parent runs after all of them. One worker runs the job, from the submission to the
  end.
\<close>

section \<open>A spawn with room for all its children\<close>

text \<open>The child of chunk \<open>i\<close>.\<close>

definition chunk_child :: "sc_fn \<Rightarrow> ptr \<Rightarrow> task_ref \<Rightarrow> size_t \<Rightarrow> size_t \<Rightarrow> size_t \<Rightarrow> nat \<Rightarrow> sc_task \<Rightarrow> bool" where
  "chunk_child f payload cur a b c i x \<longleftrightarrow> task_fn x = Some f \<and> task_payload x = payload \<and> parent_task x = Some cur
     \<and> unfinished_dependencies x = 1 \<and> start_inx x = chunk_start a c (word_of_nat i) \<and> end_inx x = chunk_end a b c (word_of_nat i)"

lemma same_task_chunk: "same_task x y \<Longrightarrow> chunk_child f p cur a b c i y \<Longrightarrow> chunk_child f p cur a b c i x"
  using same_task_fields [of x y] by (simp add: chunk_child_def)

lemma own_room_pushed:
  assumes "sched_wf s" and "is_worker tid s" and "deque_push_batch tid ts s = Some (n, s')"
  shows "own_room tid s' = own_room tid s - n"
proof -
  obtain ws where ws: "worker_pool s = Some ws" "tid < length ws"
    using assms(2) by (auto simp: is_worker_def split: option.splits)
  let ?d = "cl_deque (ws ! tid)"
  have inv: "deque_inv ?d" using assms(1) ws by (auto simp: sched_wf_def worker_ok_def)
  obtain m d where push: "chase_lev_push_batch ?d ts = (m, d)" by (cases "chase_lev_push_batch ?d ts")
  note R = push_batch_result [OF inv refl, of ts]
  have "m = n" "s' = s\<lparr>worker_pool := Some (ws[tid := (ws ! tid)\<lparr>cl_deque := d\<rparr>])\<rparr>"
    using assms(3) ws push by (simp_all add: deque_push_batch_def)
  then show ?thesis using R push ws by (simp add: own_room_def)
qed

text \<open>A pass whose batch is allocated and pushed in full calls no function.\<close>

lemma spawn_pass_room:
  assumes run: "running tid cur s" and ab: "a < b" "c \<noteq> 0" "unat b + unat c < 2 ^ 64"
    and tot: "unat N = chunk_count a b c" "k < N" and n: "n = min 256 (unat N - unat k)"
    and room: "n \<le> obtainable tid s" "n \<le> own_room tid s"
  obtains k' s' ts where "spawn_pass dev tid payload a b c f (Some cur) N k s = Some (Inr (k', s'))"
    and "dispatched tid cur ts [] s s'" and "length ts = n" and "unat k' = unat k + n"
    and "\<And>i. i < n \<Longrightarrow> chunk_child f payload cur a b c (unat k + i) (task_at s' (ts ! i))"
    and "obtainable tid s' = obtainable tid s - n" and "own_room tid s' = own_room tid s - n"
proof -
  let ?n = "if BATCH_SIZE < N - k then BATCH_SIZE else N - k"
  note size = pass_size [OF tot(2)]
  have n_word: "unat ?n = n" using size(1) n by simp
  have wf: "sched_wf s" and cur: "cur \<notin> avail s" "cur < global_task_capacity" using run by (simp_all add: running_def)
  obtain ts s1 where alloc: "alloc_batch tid payload a b c f (Some cur) k (unat ?n) s = (ts, s1)" by (cases "alloc_batch tid payload a b c f (Some cur) k (unat ?n) s")
  note A = alloc_batch_result [OF wf alloc]
  have len: "length ts = n" using A room(1) n_word by simp
  have ts: "set ts \<subseteq> avail s" "distinct ts" using A by blast+
  have only: "s1 = s\<lparr>pool := pool s1\<rparr>" using A by blast
  let ?s2 = "upd_task cur (add_deps (word_of_nat (length ts))) s1"
  obtain m s3 where O: "deque_push_batch tid ts ?s2 = Some (m, s3)"
    "m \<le> length ts" "m = min (length ts) (own_room tid s)" "sched_wf s3" "is_worker tid s3" "own_deque tid s3 = own_deque tid s @ take m ts"
    "avail s3 = avail s - set ts" "obtainable tid s3 = obtainable tid s - length ts" "jobs s3 = jobs s" "calls s3 = calls s"
    "tl_current_task s3 = tl_current_task s" "task_at s3 cur = add_deps (word_of_nat (length ts)) (task_at s cur)"
    "\<And>u. u \<noteq> cur \<Longrightarrow> u \<notin> set ts \<Longrightarrow> task_at s3 u = task_at s u" "\<And>t. t \<in> set ts \<Longrightarrow> task_at s3 t = task_at s1 t"
    by (rule batch_offered [OF run alloc]) (rule that; assumption)
  have m: "m = length ts" using O(3) room(2) len by simp
  have "running tid cur s3" using O by (intro running_intro [OF O(4,5) _ _ run]) auto
  moreover have "u \<notin> set ts" if "u \<notin> avail s" for u using that ts by auto
  ultimately have disp: "dispatched tid cur ts [] s s3" using O ts m by (simp add: dispatched_def)
  have pos: "ts \<noteq> []" using len n_word size(2) by auto
  then have pass: "spawn_pass dev tid payload a b c f (Some cur) N k s = Some (Inr (k + ?n, s3))"
    unfolding spawn_pass_def Let_def using alloc O(1) m by simp
  have k': "unat (k + ?n) = unat k + n" using size(3) n_word by simp
  have child: "chunk_child f payload cur a b c (unat k + i) (task_at s3 (ts ! i))" if "i < n" for i
  proof -
    have i: "i < length ts" using that len by simp
    have idx: "(k + word_of_nat i :: size_t) = word_of_nat (unat k + i)" by simp
    obtain x where x: "task_at s1 (ts ! i) = child_task payload (chunk_start a c (k + word_of_nat i))
          (chunk_end a b c (k + word_of_nat i)) f (Some cur) x" using A i by blast
    have "task_at s3 (ts ! i) = task_at s1 (ts ! i)" by (rule O(14)) (rule nth_mem [OF i])
    with x show ?thesis unfolding idx chunk_child_def by (simp add: child_task_def)
  qed
  have wf2: "sched_wf ?s2" using A by (simp add: upd_task_pool)
  have wp: "worker_pool ?s2 = worker_pool s" by (simp, subst only, simp)
  then have w2: "is_worker tid ?s2" and room2: "own_room tid ?s2 = own_room tid s"
    using run by (simp_all add: running_def is_worker_def own_room_def)
  have "own_room tid s3 = own_room tid s - n" using own_room_pushed [OF wf2 w2 O(1)] room2 m len by simp
  with pass disp len k' child O(8) show thesis by (intro that) auto
qed

lemma spawn_loop_room:
  assumes "running tid cur s" and "a < b" "c \<noteq> 0" "unat b + unat c < 2 ^ 64" and "unat N = chunk_count a b c" and "k \<le> N"
    and "unat N - unat k \<le> obtainable tid s" and "unat N - unat k \<le> own_room tid s"
  shows "\<exists>s' ts. spawn_loop dev tid payload a b c f (Some cur) N k s = Some s' \<and> dispatched tid cur ts [] s s'
    \<and> length ts = unat N - unat k \<and> (\<forall>i<length ts. chunk_child f payload cur a b c (unat k + i) (task_at s' (ts ! i)))"
  using assms
proof (induction "unat N - unat k" arbitrary: k s rule: less_induct)
  case less
  note prems = less.prems
  show ?case
  proof (cases "k < N")
    case False
    then have "spawn_loop dev tid payload a b c f (Some cur) N k s = Some s" by (simp add: spawn_loop.simps)
    with False show ?thesis using dispatched_refl [OF prems(1)]
      by (intro exI [of _ s] exI [of _ "[]"]) (simp add: word_less_nat_alt)
  next
    case True
    let ?n = "min 256 (unat N - unat k)"
    have rooms: "?n \<le> obtainable tid s" "?n \<le> own_room tid s" using prems(7,8) by auto
    obtain k' s1 ts where P: "spawn_pass dev tid payload a b c f (Some cur) N k s = Some (Inr (k', s1))"
        "dispatched tid cur ts [] s s1" "length ts = ?n" "unat k' = unat k + ?n"
        "\<And>i. i < ?n \<Longrightarrow> chunk_child f payload cur a b c (unat k + i) (task_at s1 (ts ! i))"
        "obtainable tid s1 = obtainable tid s - ?n" "own_room tid s1 = own_room tid s - ?n"
      by (rule spawn_pass_room [OF prems(1-5) True refl rooms, of dev payload f]) (rule that; assumption)
    have cur: "cur \<notin> avail s" using prems(1) by (simp add: running_def)
    have less': "unat N - unat k' < unat N - unat k" "k' \<le> N" using P(4) True by (auto simp: word_less_nat_alt word_le_nat_alt)
    have "unat N - unat k' \<le> obtainable tid s1" "unat N - unat k' \<le> own_room tid s1"
      unfolding P(4,6,7) diff_diff_left [symmetric] by (rule diff_le_mono, fact)+
    from less.hyps [OF less'(1) dispatchedD(1) [OF P(2)] prems(2-5) less'(2) this]
    obtain s' us where IH: "spawn_loop dev tid payload a b c f (Some cur) N k' s1 = Some s'" "dispatched tid cur us [] s1 s'"
        "length us = unat N - unat k'" "\<forall>i<length us. chunk_child f payload cur a b c (unat k' + i) (task_at s' (us ! i))" by blast
    note trans = dispatched_trans [OF P(2) IH(2) cur]
    have "spawn_loop dev tid payload a b c f (Some cur) N k s = Some s'"
      using True P(1) IH(1) by (simp add: spawn_loop.simps [of dev tid payload a b c f "Some cur" N k s])
    moreover have "chunk_child f payload cur a b c (unat k + i) (task_at s' ((ts @ us) ! i))" if "i < length (ts @ us)" for i
    proof (cases "i < length ts")
      case True
      then have "same_task (task_at s' (ts ! i)) (task_at s1 (ts ! i))" using trans(2) by simp
      moreover have "chunk_child f payload cur a b c (unat k + i) (task_at s1 (ts ! i))" using P(3,5) True by simp
      ultimately show ?thesis using True by (simp add: nth_append same_task_chunk)
    next
      case False
      with IH(4) that P(3,4) show ?thesis by (auto simp: nth_append dest!: spec [of _ "i - length ts"])
    qed
    moreover have "length (ts @ us) = unat N - unat k" using P(3,4) IH(3) less'(1) by (simp add: min_def split: if_splits)
    ultimately show ?thesis using trans(1) by (intro exI [of _ s'] exI [of _ "ts @ us"]) simp
  qed
qed

lemma spawn_room_result:
  assumes run: "running tid cur s" and ab: "a < b" "c \<noteq> 0" "unat b + unat c < 2 ^ 64"
    and room: "chunk_count a b c \<le> obtainable tid s" "chunk_count a b c \<le> own_room tid s"
  shows "\<exists>s' ts. scheduler_spawn_subtasks dev tid payload a b c f s = Some s' \<and> dispatched tid cur ts [] s s'
    \<and> length ts = chunk_count a b c \<and> (\<forall>i<length ts. chunk_child f payload cur a b c i (task_at s' (ts ! i)))"
proof -
  let ?N = "(b - a + c - 1) div c"
  have N: "unat ?N = chunk_count a b c" by (rule chunk_count_word [OF ab])
  have "\<not> b \<le> a" using ab(1) by simp
  have "tl_current_task s tid = Some cur" using run by (simp add: running_def)
  then have "scheduler_spawn_subtasks dev tid payload a b c f s = spawn_loop dev tid payload a b c f (Some cur) ?N 0 s"
    using \<open>\<not> b \<le> a\<close> ab(2) by (simp add: scheduler_spawn_subtasks_def Let_def)
  with spawn_loop_room [OF run ab N, of 0 dev payload f] room N show ?thesis by simp
qed

section \<open>The children and the join\<close>

text \<open>The forked task: its continuation \<open>F\<close> waits, \<open>n\<close> children are unfinished.\<close>

definition forked :: "sc_fn \<Rightarrow> ptr \<Rightarrow> size_t \<Rightarrow> size_t \<Rightarrow> task_ref \<Rightarrow> nat \<Rightarrow> sc_task \<Rightarrow> bool" where
  "forked F p a b root n x \<longleftrightarrow> task_fn x = Some F \<and> task_payload x = p \<and> start_inx x = a \<and> end_inx x = b
     \<and> parent_task x = Some root \<and> unat (unfinished_dependencies x) = n"

text \<open>The state between two rounds: \<open>q\<close> are the tasks in the worker's deque, \<open>k\<close> of the children unfinished.\<close>

definition joining :: "nat \<Rightarrow> job_ref \<Rightarrow> task_ref \<Rightarrow> task_ref \<Rightarrow> sc_fn \<Rightarrow> ptr \<Rightarrow> size_t \<Rightarrow> size_t \<Rightarrow> task_ref set \<Rightarrow> nat \<Rightarrow> task_ref list \<Rightarrow> sched \<Rightarrow> bool" where
  "joining tid j root t F p a b K n q s \<longleftrightarrow> sched_wf s \<and> is_worker tid s \<and> own_deque tid s = q \<and> live_tasks s = insert root (insert t K)
     \<and> root \<noteq> t \<and> root \<notin> K \<and> t \<notin> K \<and> root_waiting j (task_at s root) \<and> unfinished_dependencies (task_at s root) = 1
     \<and> forked F p a b root n (task_at s t)"

definition child_waits :: "sc_fn \<Rightarrow> ptr \<Rightarrow> task_ref \<Rightarrow> sc_task \<Rightarrow> bool" where
  "child_waits f p t x \<longleftrightarrow> task_fn x = Some f \<and> task_payload x = p \<and> parent_task x = Some t \<and> unfinished_dependencies x = 1"

lemma child_waits_same: "same_task x y \<Longrightarrow> child_waits f p t y \<Longrightarrow> child_waits f p t x"
  using same_task_fields [of x y] by (simp add: child_waits_def)

lemma forked_same: "same_task x y \<Longrightarrow> forked F p a b root n y \<Longrightarrow> forked F p a b root n x"
  using same_task_fields [of x y] by (simp add: forked_def)

lemma root_waiting_same: "same_task x y \<Longrightarrow> root_waiting j y \<Longrightarrow> root_waiting j x"
  using same_task_fields [of x y] by (simp add: root_waiting_def)

text \<open>A task without children and parent links to it leaves, after its chain of functions.\<close>

lemma chain_leaves:
  assumes "sched_wf s" and "is_worker tid s" and "chained dev (f # fs)" and "tl_current_task s tid = Some u"
    and "child_waits (UserFn f) p t (task_at s u)" and "u \<in> live_tasks s" and "t \<noteq> u"
  obtains s' where "execute_task dev tid u s = climb dev tid (Some t) s'" and "sched_wf s'" and "is_worker tid s'"
    and "avail s' = insert u (avail s)" and "own_deque tid s' = own_deque tid s" and "own_room tid s' = own_room tid s"
    and "jobs s' = jobs s" and "calls s' = calls s @ map (chain_call (task_at s u)) (f # fs)"
    and "\<And>v. v \<noteq> u \<Longrightarrow> same_task (task_at s' v) (task_at s v)"
proof -
  let ?s1 = "chain_done u (f # fs) s"
  have child: "task_fn (task_at s u) = Some (UserFn f)" "unfinished_dependencies (task_at s u) = 1" "parent_task (task_at s u) = Some t"
    using assms(5) by (simp_all add: child_waits_def)
  have wf: "sched_wf ?s1" and av: "avail ?s1 = avail s"
    using assms(1) by (simp_all add: chain_done_def upd_task_pool sched_wf_def)
  have u: "u < global_task_capacity" "u \<notin> avail s" using assms(6) by auto
  note R = release_sched [OF wf u(1), of tid, unfolded av, OF u(2)]
  let ?r = "release tid u ?s1"
  have same: "worker_pool ?r = worker_pool s" "jobs ?r = jobs s" "calls ?r = calls s @ map (chain_call (task_at s u)) (f # fs)"
    by (subst R(3), simp add: chain_done_def)+
  have other: "same_task (task_at ?r v) (task_at s v)" if "v \<noteq> u" for v
  proof -
    have "task_at ?s1 v = task_at s v" using that by (simp add: chain_done_def)
    with R(4) [of v] show ?thesis by (simp add: same_task_def)
  qed
  show thesis
    by (rule that [of ?r])
      (use execute_chain [OF assms(3,4) child(1,2)] child(3) R(1,2) same other assms(2) in
        \<open>simp_all add: is_worker_def own_deque_def own_room_def\<close>)
qed

text \<open>The parent after one of its children: one dependency less.\<close>

lemma forked_drop:
  assumes "forked F p a b root (Suc n) x"
  shows "forked F p a b root n (sub_deps 1 x)"
proof -
  have "1 \<le> unfinished_dependencies x" using assms by (simp add: forked_def word_le_nat_alt)
  then have "unat (unfinished_dependencies x - 1) = n" using assms by (simp add: forked_def unat_diff_le)
  then show ?thesis using assms by (simp add: forked_def)
qed

lemma empty_deque_room:
  assumes "sched_wf s" and "is_worker tid s" and "own_deque tid s = []"
  shows "0 < own_room tid s"
proof -
  obtain ws where ws: "worker_pool s = Some ws" "tid < length ws"
    using assms(2) by (auto simp: is_worker_def split: option.splits)
  have "deque_inv (cl_deque (ws ! tid))" using assms(1) ws by (auto simp: sched_wf_def worker_ok_def)
  then have "0 < deque_capacity (cl_deque (ws ! tid))"
    using ring_ok_capacity by (auto simp: deque_inv_def deque_capacity_def)
  with ws assms(3) show ?thesis by (simp add: own_room_def own_deque_def)
qed

text \<open>
  One round takes the newest child, runs its functions and drops one dependency of the parent; the last
  one puts the parent with its continuation into the deque.
\<close>

lemma join_round:
  assumes J: "joining tid j root t F p a b (insert u K) (Suc n) (q @ [u]) s" and u: "u \<notin> K"
    and child: "child_waits (UserFn f) p t (task_at s u)" and chain: "chained dev (f # fs)" and last: "n = 0 \<Longrightarrow> q = []"
  obtains s' where "worker_iteration dev tid cores rng s = Some (rng, s')"
    and "joining tid j root t F p a b K (if n = 0 then 1 else n) (if n = 0 then [t] else q) s'" and "jobs s' = jobs s"
    and "calls s' = calls s @ map (chain_call (task_at s u)) (f # fs)"
    and "\<And>v. v \<in> K \<Longrightarrow> same_task (task_at s' v) (task_at s v)"
proof -
  have J': "sched_wf s" "is_worker tid s" "own_deque tid s = q @ [u]" "live_tasks s = insert root (insert t (insert u K))"
    "root \<noteq> t" "root \<noteq> u" "t \<noteq> u" "root \<notin> K" "t \<notin> K" "root_waiting j (task_at s root)" "unfinished_dependencies (task_at s root) = 1"
    "forked F p a b root (Suc n) (task_at s t)" using J by (auto simp: joining_def)
  obtain s1 where F1: "find_task tid cores rng (set_current tid None s) = Some (Some u, rng, s1)" "sched_wf s1" "is_worker tid s1"
      "own_deque tid s1 = q" "s1 = (set_current tid None s)\<lparr>worker_pool := worker_pool s1\<rparr>"
    by (rule find_own [OF J'(1,2,3)])
  let ?s2 = "set_current tid (Some u) s1"
  have at2: "task_at ?s2 v = task_at s v" "avail ?s2 = avail s" "jobs ?s2 = jobs s" "calls ?s2 = calls s" for v
    by (subst F1(5), simp add: task_at_def)+
  have pre: "sched_wf ?s2" "is_worker tid ?s2" "own_deque tid ?s2 = q" using F1(2-4) by (simp_all add: is_worker_def own_deque_def)
  have cur: "tl_current_task ?s2 tid = Some u" by simp
  have child2: "child_waits (UserFn f) p t (task_at ?s2 u)" and live2: "u \<in> live_tasks ?s2" using child J'(4) at2(1,2) by auto
  obtain s3 where E: "execute_task dev tid u ?s2 = climb dev tid (Some t) s3" "sched_wf s3" "is_worker tid s3"
      "avail s3 = insert u (avail ?s2)" "own_deque tid s3 = own_deque tid ?s2" "own_room tid s3 = own_room tid ?s2"
      "jobs s3 = jobs ?s2" "calls s3 = calls ?s2 @ map (chain_call (task_at ?s2 u)) (f # fs)"
      "\<And>v. v \<noteq> u \<Longrightarrow> same_task (task_at s3 v) (task_at ?s2 v)"
    by (rule chain_leaves [OF pre(1,2) chain cur child2 live2 J'(7)]) (rule that; assumption)
  have same3: "same_task (task_at s3 v) (task_at s v)" if "v \<noteq> u" for v using E(9) [OF that] at2(1) by simp
  have sameK: "same_task (task_at s3 v) (task_at s v)" if "v \<in> K" for v by (rule same3) (use that u in auto)
  have live3: "live_tasks s3 = insert root (insert t K)" using E(4) at2(2) J'(4,6,7) u by auto
  have parent: "forked F p a b root (Suc n) (task_at s3 t)" by (rule forked_same [OF same3 [OF J'(7)] J'(12)])
  have root: "root_waiting j (task_at s3 root)" "unfinished_dependencies (task_at s3 root) = 1"
    using root_waiting_same [OF same3 [OF J'(6)] J'(10)] same_task_fields(5) [OF same3 [OF J'(6)]] J'(11) by simp_all
  have iter: "worker_iteration dev tid cores rng s = Some (rng, s')" if "climb dev tid (Some t) s3 = Some s'" for s'
    using F1(1) E(1) that by (simp add: worker_iteration_def)
  show thesis
  proof (cases n)
    case 0
    have one: "unfinished_dependencies (task_at s3 t) = 1" "task_fn (task_at s3 t) = Some F" "parent_task (task_at s3 t) \<noteq> None"
      using parent 0 by (simp_all add: forked_def word_unat_eq_iff)
    have "own_deque tid s3 = []" using E(5) pre(3) last 0 by simp
    from empty_deque_room [OF E(2,3) this] obtain s' where C: "climb dev tid (Some t) s3 = Some s'" "own_deque tid s' = own_deque tid s3 @ [t]"
        "sched_wf s'" "\<forall>v. task_at s' v = task_at s3 v" "avail s' = avail s3" "calls s' = calls s3" "jobs s' = jobs s3" "is_worker tid s'"
      using climb_parks_result [OF E(2,3) _ one] by blast
    show thesis
      by (rule that [OF iter [OF C(1)]])
        (use C E(7,8) at2 live3 root parent J'(5,8,9) sameK 0 \<open>own_deque tid s3 = []\<close> in \<open>auto simp: joining_def\<close>)
  next
    case (Suc m)
    let ?s' = "upd_task t (sub_deps 1) s3"
    have "unfinished_dependencies (task_at s3 t) \<noteq> 1" using parent Suc by (auto simp: forked_def)
    then have C: "climb dev tid (Some t) s3 = Some ?s'" by (subst climb.simps) (simp add: drop_dep_def)
    have "forked F p a b root n (task_at ?s' t)" using forked_drop [OF parent] by simp
    moreover have "sched_wf ?s'" "is_worker tid ?s'" "own_deque tid ?s' = q" "avail ?s' = avail s3" using E(2,3,5) pre(3) by simp_all
    ultimately have "joining tid j root t F p a b K n q ?s'"
      using live3 root J'(5,8,9) by (simp add: joining_def)
    then show thesis
      by (intro that [OF iter [OF C]]) (use E(7,8) at2 sameK J'(9) Suc in auto)
  qed
qed

lemma joining_mono: "joining tid j root t F p a b K n q s \<Longrightarrow> K = K' \<Longrightarrow> n = n' \<Longrightarrow> q = q' \<Longrightarrow> joining tid j root t F p a b K' n' q' s"
  by simp

lemma join_children:
  assumes "joining tid j root t F p a b (set q) (length q) q s" and "distinct q" and "q \<noteq> []"
    and "\<forall>u\<in>set q. child_waits (UserFn f) p t (task_at s u)" and "chained dev (f # fs)"
  shows "\<exists>s'. worker_iterations dev tid cores (length q) rng s = Some (rng, s') \<and> joining tid j root t F p a b {} 1 [t] s' \<and> jobs s' = jobs s
    \<and> calls s' = calls s @ concat (map (\<lambda>u. map (chain_call (task_at s u)) (f # fs)) (rev q))"
  using assms(1-4)
proof (induction q arbitrary: s rule: rev_induct)
  case (snoc u q)
  have J: "joining tid j root t F p a b (insert u (set q)) (Suc (length q)) (q @ [u]) s" and u: "u \<notin> set q"
    and w: "child_waits (UserFn f) p t (task_at s u)"
    using snoc.prems by simp_all
  obtain s1 where R: "worker_iteration dev tid cores rng s = Some (rng, s1)"
      "joining tid j root t F p a b (set q) (if length q = 0 then 1 else length q) (if length q = 0 then [t] else q) s1" "jobs s1 = jobs s"
      "calls s1 = calls s @ map (chain_call (task_at s u)) (f # fs)" "\<And>v. v \<in> set q \<Longrightarrow> same_task (task_at s1 v) (task_at s v)"
    by (rule join_round [OF J u w assms(5)]) auto
  show ?case
  proof (cases "q = []")
    case True
    with R show ?thesis by (intro exI [of _ s1]) simp
  next
    case False
    have "\<forall>v\<in>set q. child_waits (UserFn f) p t (task_at s1 v)"
      using snoc.prems(4) R(5) by (auto intro: child_waits_same)
    then obtain s' where I: "worker_iterations dev tid cores (length q) rng s1 = Some (rng, s')" "joining tid j root t F p a b {} 1 [t] s'"
        "jobs s' = jobs s1" "calls s' = calls s1 @ concat (map (\<lambda>u. map (chain_call (task_at s1 u)) (f # fs)) (rev q))"
      using snoc.IH [of s1] R(2) snoc.prems(2) False by auto
    have "chain_call (task_at s1 v) = chain_call (task_at s v)" if "v \<in> set q" for v
      using same_task_fields(1,2,3) [OF R(5) [OF that]] by (simp add: chain_call_def fun_eq_iff)
    then have "map (\<lambda>u. map (chain_call (task_at s1 u)) (f # fs)) (rev q) = map (\<lambda>u. map (chain_call (task_at s u)) (f # fs)) (rev q)"
      by (intro map_cong) auto
    note same = this
    have "calls s' = calls s @ concat (map (\<lambda>u. map (chain_call (task_at s u)) (f # fs)) (rev (q @ [u])))"
      unfolding I(4) R(4) same by simp
    then show ?thesis using R(1,3) I(1-3) by (intro exI [of _ s']) simp
  qed
qed simp

text \<open>The last round runs the parent's continuation and finishes the job.\<close>

lemma join_last:
  assumes J: "joining tid j root t (UserFn g) p a b {} 1 [t] s" and chain: "chained dev [g]"
  obtains s' where "worker_iteration dev tid cores rng s = Some (rng, s')" and "finished j s s'" and "sched_wf s'"
    and "own_deque tid s' = []" and "calls s' = calls s @ [(UserFn g, p, a, b)]"
proof -
  have J': "sched_wf s" "is_worker tid s" "own_deque tid s = [] @ [t]" "live_tasks s = {root, t}" "root \<noteq> t"
    "root_waiting j (task_at s root)" "unfinished_dependencies (task_at s root) = 1" "forked (UserFn g) p a b root 1 (task_at s t)"
    using J by (auto simp: joining_def)
  obtain s1 where F1: "find_task tid cores rng (set_current tid None s) = Some (Some t, rng, s1)" "sched_wf s1" "is_worker tid s1"
      "own_deque tid s1 = []" "s1 = (set_current tid None s)\<lparr>worker_pool := worker_pool s1\<rparr>"
    by (rule find_own [OF J'(1,2,3)])
  let ?s2 = "set_current tid (Some t) s1"
  have at2: "task_at ?s2 v = task_at s v" "avail ?s2 = avail s" "jobs ?s2 = jobs s" "calls ?s2 = calls s" for v
    by (subst F1(5), simp add: task_at_def)+
  have pre: "sched_wf ?s2" "is_worker tid ?s2" "own_deque tid ?s2 = []" using F1(2-4) by (simp_all add: is_worker_def own_deque_def)
  have cur: "tl_current_task ?s2 tid = Some t" by simp
  have t: "child_waits (UserFn g) p root (task_at ?s2 t)" "t \<in> live_tasks ?s2"
    using J'(4,8) at2(1,2) by (auto simp: child_waits_def forked_def word_unat_eq_iff)
  obtain s3 where E: "execute_task dev tid t ?s2 = climb dev tid (Some root) s3" "sched_wf s3" "is_worker tid s3"
      "avail s3 = insert t (avail ?s2)" "own_deque tid s3 = own_deque tid ?s2" "own_room tid s3 = own_room tid ?s2"
      "jobs s3 = jobs ?s2" "calls s3 = calls ?s2 @ map (chain_call (task_at ?s2 t)) [g]"
      "\<And>v. v \<noteq> t \<Longrightarrow> same_task (task_at s3 v) (task_at ?s2 v)"
    by (rule chain_leaves [OF pre(1,2) chain cur t J'(5)]) (rule that; assumption)
  have same: "same_task (task_at s3 root) (task_at s root)" using E(9) [OF J'(5)] at2(1) by simp
  have live: "live_tasks s3 = {root}" using E(4) at2(2) J'(4,5) by auto
  have root: "root_waiting j (task_at s3 root)" "unfinished_dependencies (task_at s3 root) = 1"
    using root_waiting_same [OF same J'(6)] same_task_fields(5) [OF same] J'(7) by simp_all
  obtain s' where C: "climb dev tid (Some root) s3 = Some s'" "finished j s3 s'" "sched_wf s'" "worker_pool s' = worker_pool s3" "calls s' = calls s3"
    using climb_root [OF E(2) live root] by blast
  have "chain_call (task_at s t) g = (UserFn g, p, a, b)" using J'(8) by (simp add: chain_call_def forked_def)
  then show thesis
    using F1(1) E C at2 pre(3)
    by (intro that [of s']) (simp_all add: worker_iteration_def finished_def own_deque_def)
qed

section \<open>The fork\<close>

text \<open>
  A task function \<open>P\<close> that registers the continuation \<open>G\<close> and spawns \<open>C\<close> over its own range, where \<open>C\<close>
  continues with the chain \<open>fs\<close>.
\<close>

definition fork_join :: "dev \<Rightarrow> nat \<Rightarrow> nat \<Rightarrow> nat \<Rightarrow> nat list \<Rightarrow> size_t \<Rightarrow> bool" where
  "fork_join dev P G C fs chunk \<longleftrightarrow>
     (\<exists>child_dev. \<forall>tid p a b s. dev tid (UserFn P) p a b s =
        (case scheduler_set_continuation tid (UserFn G) s of
           None \<Rightarrow> None
         | Some s \<Rightarrow> scheduler_spawn_subtasks child_dev tid p a b chunk (UserFn C) s))
     \<and> chained dev (C # fs) \<and> chained dev [G]"

lemma fork_round:
  assumes wf: "sched_wf s" and w: "is_worker tid s" and cur: "tl_current_task s tid = Some t" and own: "own_deque tid s = []"
    and live: "live_tasks s = {root, t}" "root \<noteq> t" and root: "root_waiting j (task_at s root)" "unfinished_dependencies (task_at s root) = 1"
    and t: "task_at s t = splitter_task j (jobs s j) root x"
    and job: "payload_size (jobs s j) = N" "chunk_size (jobs s j) = N" "job_function (jobs s j) = UserFn P" "job_payload (jobs s j) = p"
    and dev: "fork_join dev P G C fs c" and N: "0 < N" "c \<noteq> 0" "unat N + unat c < 2 ^ 64"
    and room: "chunk_count 0 N c \<le> obtainable tid s" "chunk_count 0 N c \<le> own_room tid s"
  obtains s' q where "execute_task dev tid t s = Some s'" and "joining tid j root t (UserFn G) p 0 N (set q) (length q) q s'" and "distinct q"
    and "length q = chunk_count 0 N c" and "\<forall>i<length q. chunk_child (UserFn C) p t 0 N c i (task_at s' (q ! i))"
    and "jobs s' = jobs s" and "calls s' = calls s @ [(UserFn P, p, 0, N)]"
proof -
  let ?f = "\<lambda>x. x\<lparr>task_payload := p, task_fn := Some (UserFn G)\<rparr>"
  let ?s0 = "clear_fn t s" and ?c = "(UserFn P, p, 0, N)"
  let ?s1 = "upd_task t ?f (s\<lparr>calls := calls s @ [?c]\<rparr>)"
  have tl: "t < global_task_capacity" "t \<notin> avail s" "root \<notin> avail s" using live(1) by auto
  have run: "running tid t ?s1" using wf w cur tl by (simp add: running_def upd_task_pool sched_wf_def is_worker_def)
  have room1: "chunk_count 0 N c \<le> obtainable tid ?s1" "chunk_count 0 N c \<le> own_room tid ?s1"
    using room by (simp_all add: upd_task_pool own_room_def)
  obtain child_dev where P: "\<And>tid p a b s. dev tid (UserFn P) p a b s =
        (case scheduler_set_continuation tid (UserFn G) s of
           None \<Rightarrow> None
         | Some s \<Rightarrow> scheduler_spawn_subtasks child_dev tid p a b c (UserFn C) s)"
    using dev unfolding fork_join_def by blast
  obtain s2 q where S: "scheduler_spawn_subtasks child_dev tid p 0 N c (UserFn C) ?s1 = Some s2" "dispatched tid t q [] ?s1 s2"
      "length q = chunk_count 0 N c" "\<forall>i<length q. chunk_child (UserFn C) p t 0 N c i (task_at s2 (q ! i))"
    using spawn_room_result [OF run N(1,2,3) room1] by blast
  note D = dispatchedD [OF S(2)]
  have fields: "task_fn (task_at s t) = Some SplitterFn" "task_payload (task_at s t) = JobPtr j" "start_inx (task_at s t) = 0"
      "end_inx (task_at s t) = N" "parent_task (task_at s t) = Some root" "unfinished_dependencies (task_at s t) = 1"
    using t job(1) by (simp_all add: splitter_task_def)
  have "splitter_loop dev tid j 0 N ?s0 = Some (N, ?s0)" by (subst splitter_loop.simps) (simp add: job(2))
  then have "internal_macro_job_splitter dev tid (JobPtr j) 0 N ?s0 = Some s2"
    using cur job(3,4) S(1) by (simp add: internal_macro_job_splitter_def Let_def call_dev_def P scheduler_set_continuation_def
        upd_task_twice upd_task_calls)
  then have ran: "run_task_fn dev tid SplitterFn t ?s0 = Some s2" using fields by (simp add: run_task_fn_def)
  note t2 = same_task_fields [OF D(8)]
  have len: "0 < length q" "length q < 2 ^ 64 - 1"
  proof -
    have "0 < unat N" "0 < unat c" using N by (simp_all add: unat_gt_0 word_gt_0)
    then have "chunk_count 0 N c \<noteq> 0" using chunk_count_props(2,3) [of 0 N c] by (cases "chunk_count 0 N c") auto
    then show "0 < length q" using S(3) by simp
    have "length q = card (set q)" using D(5) by (simp add: distinct_card)
    also have "\<dots> \<le> global_task_capacity"
      using card_mono [of "{..<global_task_capacity}" "set q"] D(6) avail_bound [OF wf] by (simp add: upd_task_pool)
    finally show "length q < 2 ^ 64 - 1" by (simp add: global_task_capacity_def)
  qed
  have deps: "unat (unfinished_dependencies (task_at s2 t)) = Suc (length q)"
    using t2(5) fields(6) len by (simp add: unat_add_no_wrap unat_of_nat)
  let ?s3 = "upd_task t (sub_deps 1) s2"
  have "unfinished_dependencies (task_at s2 t) \<noteq> 1" using deps len by auto
  then have ex: "execute_task dev tid t s = Some ?s3"
    using fields(1) ran D(1) by (simp add: execute_task_def drop_dep_def running_def)
  have forked: "forked (UserFn G) p 0 N root (length q) (task_at ?s3 t)"
    using forked_drop [of "UserFn G" p 0 N root "length q" "task_at s2 t"] t2 deps fields by (simp add: forked_def)
  have av: "avail ?s3 = avail s - set q" using D(7) by (simp add: upd_task_pool)
  have q: "root \<notin> set q" "t \<notin> set q" using D(6) tl by (auto simp: upd_task_pool)
  have "same_task (task_at ?s3 root) (task_at s root)" using D(9) [of root] tl(3) live(2) by (simp add: upd_task_pool)
  note r = root_waiting_same [OF this root(1)] same_task_fields(5) [OF this]
  have "live_tasks ?s3 = insert root (insert t (set q))"
    using av live(1) D(6) avail_bound [OF wf] by (auto simp: upd_task_pool)
  moreover have "sched_wf ?s3" "is_worker tid ?s3" "own_deque tid ?s3 = q"
    using D(1,3) own by (simp_all add: running_def upd_task_pool own_deque_def)
  ultimately have J: "joining tid j root t (UserFn G) p 0 N (set q) (length q) q ?s3"
    using forked q r root(2) live(2) by (simp add: joining_def)
  have kids: "\<forall>i<length q. chunk_child (UserFn C) p t 0 N c i (task_at ?s3 (q ! i))"
  proof (intro allI impI)
    fix i assume i: "i < length q"
    then have "q ! i \<noteq> t" using q(2) nth_mem [OF i] by auto
    then show "chunk_child (UserFn C) p t 0 N c i (task_at ?s3 (q ! i))" using S(4) i by simp
  qed
  show thesis
    by (rule that [OF ex J D(5) S(3) kids]) (use D(2,4) in simp_all)
qed

lemma worker_iterations_append:
  assumes "worker_iterations dev tid cores m rng s = Some (rng1, s1)"
  shows "worker_iterations dev tid cores (m + n) rng s = worker_iterations dev tid cores n rng1 s1"
  using assms by (induction m arbitrary: rng s) (auto split: option.splits)

section \<open>A job that forks and joins\<close>

text \<open>The calls of such a job: the parent, the children with their chains from the last chunk to the first, and the continuation.\<close>

definition chunk_calls :: "nat list \<Rightarrow> ptr \<Rightarrow> size_t \<Rightarrow> size_t \<Rightarrow> nat \<Rightarrow> (sc_fn \<times> ptr \<times> size_t \<times> size_t) list" where
  "chunk_calls fs p N c i = map (\<lambda>f. (UserFn f, p, chunk_start 0 c (word_of_nat i), chunk_end 0 N c (word_of_nat i))) fs"

definition fork_join_calls :: "nat \<Rightarrow> nat \<Rightarrow> nat list \<Rightarrow> ptr \<Rightarrow> size_t \<Rightarrow> size_t \<Rightarrow> (sc_fn \<times> ptr \<times> size_t \<times> size_t) list" where
  "fork_join_calls P G fs p N c =
     (UserFn P, p, 0, N) # concat (map (chunk_calls fs p N c) (rev [0..<chunk_count 0 N c])) @ [(UserFn G, p, 0, N)]"

lemma chunk_child_calls:
  assumes "chunk_child (UserFn f) p t 0 N c i x"
  shows "map (chain_call x) fs = chunk_calls fs p N c i" and "child_waits (UserFn f) p t x"
  using assms by (simp_all add: chunk_child_def child_waits_def chain_call_def chunk_calls_def)

lemma fork_join_ran:
  assumes ready: "ready tid (Suc k) s" and submit: "scheduler_submit_job tid j N s = (True, s')"
    and job: "payload_size (jobs s j) = N" "job_function (jobs s j) = UserFn P"
    and dev: "fork_join dev P G C fs c" and N: "0 < N" "c \<noteq> 0" "unat N + unat c < 2 ^ 64"
    and room: "chunk_count 0 N c \<le> own_room 0 s" "chunk_count 0 N c \<le> 65000"
  shows "\<exists>s''. worker_iterations dev 0 cores (chunk_count 0 N c + 2) rng s' = Some (rng, s'')
    \<and> scheduler_is_job_complete (job_state (jobs s'' j)) \<and> avail s'' = {..<global_task_capacity} \<and> own_deque 0 s'' = []
    \<and> calls s'' = calls s @ fork_join_calls P G (C # fs) (job_payload (jobs s j)) N c"
proof -
  let ?p = "job_payload (jobs s j)" and ?n = "chunk_count 0 N c"
  have idle: "idle_single s" using ready by (simp add: ready_def)
  obtain root t x s2 s1 where F: "find_task 0 cores rng (set_current 0 None s') = Some (Some t, rng, s1)"
      "s2 = set_current 0 (Some t) s1" and pre: "sched_wf s2" "is_worker 0 s2" "tl_current_task s2 0 = Some t" "own_deque 0 s2 = []"
      and tree: "job_tree j (normal_chunk (jobs s j) N) root (insert t (set [])) None s2"
      and same: "jobs s2 = jobs (with_chunk j N s)" "calls s2 = calls s" "task_at s2 t = splitter_task j (jobs s2 j) root x"
      and caches: "task_cache (pool s2) = task_cache (pool s')"
      and live: "root \<noteq> t" "live_tasks s2 = {root, t}" "unfinished_dependencies (task_at s2 root) = 1" and own: "own_room 0 s2 = own_room 0 s"
    by (rule submitted_found [OF idle submit]) (rule that; assumption)
  have job2: "payload_size (jobs s2 j) = N" "chunk_size (jobs s2 j) = N" "job_function (jobs s2 j) = UserFn P" "job_payload (jobs s2 j) = ?p"
    using same(1) job N(1) by (auto simp: normal_chunk_def)
  have "card (avail s2) = global_task_capacity - 2"
  proof -
    have "avail s2 = {..<global_task_capacity} - {root, t}" "{root, t} \<subseteq> {..<global_task_capacity}"
      using live(2) avail_bound [OF pre(1)] by auto
    then show ?thesis using live(1) by (simp add: card_Diff_subset)
  qed
  moreover have "card (avail s2) \<le> obtainable 0 s2 + TASK_CACHE_CAPACITY"
    by (rule two_caches [OF pre(1)]) (use ready_submits(3) [OF ready submit] caches in auto)
  ultimately have obt: "?n \<le> obtainable 0 s2" using room(2) by (simp add: global_task_capacity_def TASK_CACHE_CAPACITY_def)
  have room2: "?n \<le> own_room 0 s2" using room(1) own by simp
  obtain s3 q where K: "execute_task dev 0 t s2 = Some s3" "joining 0 j root t (UserFn G) ?p 0 N (set q) (length q) q s3" "distinct q"
      "length q = ?n" "\<forall>i<length q. chunk_child (UserFn C) ?p t 0 N c i (task_at s3 (q ! i))" "jobs s3 = jobs s2"
      "calls s3 = calls s2 @ [(UserFn P, ?p, 0, N)]"
    by (rule fork_round [OF pre(1,2,3,4) live(2,1) job_treeD(4) [OF tree] live(3) same(3) job2 dev N obt room2]) (rule that; assumption)
  have pos: "q \<noteq> []"
  proof -
    have "0 < unat N" "0 < unat c" using N by (simp_all add: unat_gt_0 word_gt_0)
    then have "?n \<noteq> 0" using chunk_count_props(2,3) [of 0 N c] by (cases "?n") auto
    then show ?thesis using K(4) by auto
  qed
  have waits: "\<forall>u\<in>set q. child_waits (UserFn C) ?p t (task_at s3 u)"
    unfolding all_set_conv_all_nth using K(5) chunk_child_calls(2) by blast
  have chains: "chained dev (C # fs)" "chained dev [G]" using dev by (simp_all add: fork_join_def)
  obtain s4 where L: "worker_iterations dev 0 cores (length q) rng s3 = Some (rng, s4)" "joining 0 j root t (UserFn G) ?p 0 N {} 1 [t] s4"
      "jobs s4 = jobs s3" "calls s4 = calls s3 @ concat (map (\<lambda>u. map (chain_call (task_at s3 u)) (C # fs)) (rev q))"
    using join_children [OF K(2,3) pos waits chains(1), of cores rng] by blast
  obtain s'' where E: "worker_iteration dev 0 cores rng s4 = Some (rng, s'')" "finished j s4 s''" "sched_wf s''" "own_deque 0 s'' = []"
      "calls s'' = calls s4 @ [(UserFn G, ?p, 0, N)]"
    by (rule join_last [OF L(2) chains(2)]) (rule that; assumption)
  have first: "worker_iteration dev 0 cores rng s' = Some (rng, s3)" using F K(1) by (simp add: worker_iteration_def)
  have "worker_iterations dev 0 cores (length q + 1) rng s3 = Some (rng, s'')"
    using worker_iterations_append [OF L(1), of 1] E(1) by simp
  then have "worker_iterations dev 0 cores (?n + 2) rng s' = Some (rng, s'')" using first K(4) by simp
  moreover have "map (\<lambda>u. map (chain_call (task_at s3 u)) (C # fs)) q = map (chunk_calls (C # fs) ?p N c) [0..<?n]"
    by (rule nth_equalityI) (use K(4,5) chunk_child_calls(1) in \<open>auto simp del: list.map(2)\<close>)
  then have "calls s'' = calls s @ fork_join_calls P G (C # fs) ?p N c"
    using E(5) L(4) K(7) same(2) by (simp add: fork_join_calls_def rev_map [symmetric] del: list.map(2))
  moreover have "avail s'' = {..<global_task_capacity}"
    using E(2) avail_bound [OF E(3)] by (auto simp: finished_def)
  ultimately show ?thesis using E(2,4) by (auto simp: finished_def scheduler_is_job_complete_def)
qed

section \<open>The examples\<close>

definition TOTAL_ELEMENTS :: size_t where
  "TOTAL_ELEMENTS = 16"

text \<open>
  The functions of \<open>simple_subtask_ex.c\<close>; what they print does not concern the scheduler. Number 0 is
  \<open>parent_spawner_task\<close>, 1 \<open>final_merge_task\<close>, 2 \<open>child_worker_task\<close>. A task function of the examples gets
  the thread that runs it, its payload and its range.
\<close>

type_synonym user_task = "nat \<Rightarrow> ptr \<Rightarrow> size_t \<Rightarrow> size_t \<Rightarrow> sched \<Rightarrow> sched option"

definition child_worker_task :: user_task where
  "child_worker_task tid user_data start_idx end_idx s = Some s"

definition final_merge_task :: user_task where
  "final_merge_task tid user_data start_idx end_idx s = Some s"

text \<open>A child that a spawn runs inline is called with \<open>inline\<close>.\<close>

definition parent_spawner_task :: "dev \<Rightarrow> user_task" where
  "parent_spawner_task inline tid user_data start_idx end_idx s =
     (case scheduler_set_continuation tid (UserFn 1) s of
        None \<Rightarrow> None
      | Some s \<Rightarrow> scheduler_spawn_subtasks inline tid user_data start_idx end_idx (TOTAL_ELEMENTS div 4) (UserFn 2) s)"

definition subtask_children :: dev where
  "subtask_children tid f = (if f = UserFn 2 then child_worker_task tid else final_merge_task tid)"

definition subtask_dev :: dev where
  "subtask_dev tid f = (if f = UserFn 0 then parent_spawner_task subtask_children tid else subtask_children tid f)"

text \<open>
  The functions of \<open>multi_continuation.c\<close>: parent and merge are the same, the child is continued by
  \<open>child_continuation\<close>, number 3, and that by \<open>child_continuation_2\<close>, number 4.
\<close>

definition multi_child_worker_task :: user_task where
  "multi_child_worker_task tid user_data start_idx end_idx s = scheduler_set_continuation tid (UserFn 3) s"

definition child_continuation :: user_task where
  "child_continuation tid user_data start_idx end_idx s = scheduler_set_continuation tid (UserFn 4) s"

definition child_continuation_2 :: user_task where
  "child_continuation_2 tid user_data start_idx end_idx s = Some s"

definition multi_children :: dev where
  "multi_children tid f = (if f = UserFn 2 then multi_child_worker_task tid else if f = UserFn 3 then child_continuation tid
     else if f = UserFn 4 then child_continuation_2 tid else final_merge_task tid)"

definition multi_dev :: dev where
  "multi_dev tid f = (if f = UserFn 0 then parent_spawner_task multi_children tid else multi_children tid f)"

lemma quarter: "TOTAL_ELEMENTS div 4 = 4"
  by (simp add: TOTAL_ELEMENTS_def)

lemma subtask_forks: "fork_join subtask_dev 0 1 2 [] 4"
  by (auto simp: fork_join_def subtask_dev_def subtask_children_def parent_spawner_task_def quarter
      child_worker_task_def final_merge_task_def intro!: exI [of _ subtask_children] split: option.split)

lemma multi_forks: "fork_join multi_dev 0 1 2 [3, 4] 4"
  by (auto simp: fork_join_def multi_dev_def multi_children_def parent_spawner_task_def quarter
      multi_child_worker_task_def child_continuation_def child_continuation_2_def final_merge_task_def
      intro!: exI [of _ multi_children] split: option.split)

section \<open>Properties\<close>

text \<open>
  C14: With one worker, a fork-join job runs to its end, in the order that its continuations demand. The
  job's function registers a continuation and spawns children over its range, and each child goes on with a
  chain of continuations; the hypotheses are that the scheduler is ready, that the worker's deque has room for
  all children, that there are no more than 65000 of them, so that none is run inline, and that the end of
  the range plus one chunk does not wrap around. Then the worker finishes the job in two rounds more than
  there are children: the parent is called first, each child is followed at once by its whole chain, the chunks run from the last to the
  first, and the continuation of the parent is called once, with the range of the parent, after all of
  them. Then the job is complete, every task is free again and the deque is empty.
\<close>

theorem fork_join_runs:
  assumes "ready tid (Suc k) s" and "scheduler_submit_job tid j N s = (True, s')"
    and "payload_size (jobs s j) = N" and "job_function (jobs s j) = UserFn P"
    and "fork_join dev P G C fs c" and "0 < N" and "c \<noteq> 0" and "unat N + unat c < 2 ^ 64"
    and "chunk_count 0 N c \<le> own_room 0 s" and "chunk_count 0 N c \<le> 65000"
  shows "\<exists>s''. worker_iterations dev 0 cores (chunk_count 0 N c + 2) rng s' = Some (rng, s'')
    \<and> scheduler_is_job_complete (job_state (jobs s'' j)) \<and> avail s'' = {..<global_task_capacity} \<and> own_deque 0 s'' = []
    \<and> calls s'' = calls s @ fork_join_calls P G (C # fs) (job_payload (jobs s j)) N c"
  by (rule fork_join_ran [OF assms])

text \<open>
  The example \<open>multi_continuation.c\<close> prints what it means to print: with one worker, a ready scheduler
  and room for four tasks in the deque, the job is accepted and done after six rounds, and the calls
  are the parent, then for each quarter of the range, from the last to the first, the child and its two
  continuations, then the final merge over the whole range.
\<close>

theorem multi_continuation_trace:
  assumes "ready tid (Suc k) s" and "4 \<le> own_room 0 s"
  shows "\<exists>s' s''. scheduler_submit_job tid j TOTAL_ELEMENTS (init_job j Null TOTAL_ELEMENTS (UserFn 0) s) = (True, s')
    \<and> worker_iterations multi_dev 0 cores 6 rng s' = Some (rng, s'') \<and> scheduler_is_job_complete (job_state (jobs s'' j))
    \<and> calls s'' = calls s @ [(UserFn 0, Null, 0, 16),
        (UserFn 2, Null, 12, 16), (UserFn 3, Null, 12, 16), (UserFn 4, Null, 12, 16),
        (UserFn 2, Null, 8, 12), (UserFn 3, Null, 8, 12), (UserFn 4, Null, 8, 12),
        (UserFn 2, Null, 4, 8), (UserFn 3, Null, 4, 8), (UserFn 4, Null, 4, 8),
        (UserFn 2, Null, 0, 4), (UserFn 3, Null, 0, 4), (UserFn 4, Null, 0, 4),
        (UserFn 1, Null, 0, 16)]"
proof -
  let ?s = "init_job j Null TOTAL_ELEMENTS (UserFn 0) s"
  have ready: "ready tid (Suc k) ?s" using assms(1) by simp
  obtain ok s' where sub: "scheduler_submit_job tid j TOTAL_ELEMENTS ?s = (ok, s')" by (cases "scheduler_submit_job tid j TOTAL_ELEMENTS ?s")
  then have sub': "scheduler_submit_job tid j TOTAL_ELEMENTS ?s = (True, s')" using ready_submits(1) [OF ready sub] by simp
  have job: "payload_size (jobs ?s j) = TOTAL_ELEMENTS" "job_function (jobs ?s j) = UserFn 0" "job_payload (jobs ?s j) = Null"
    "calls ?s = calls s" "own_room 0 ?s = own_room 0 s"
    by (simp_all add: init_job_def scheduler_init_job_def own_room_def)
  have count: "chunk_count 0 TOTAL_ELEMENTS 4 = 4" by (simp add: chunk_count_def TOTAL_ELEMENTS_def)
  have "0 < TOTAL_ELEMENTS" "(4 :: size_t) \<noteq> 0" "unat TOTAL_ELEMENTS + unat (4 :: size_t) < 2 ^ 64"
    by (simp_all add: TOTAL_ELEMENTS_def)
  from fork_join_ran [OF ready sub' job(1,2) multi_forks this, of cores rng] obtain s'' where
    "worker_iterations multi_dev 0 cores 6 rng s' = Some (rng, s'')" "scheduler_is_job_complete (job_state (jobs s'' j))"
    "calls s'' = calls s @ fork_join_calls 0 1 [2, 3, 4] Null TOTAL_ELEMENTS 4"
    using count job assms(2) by auto
  moreover have "[0..<4] = [0, 1, 2, 3 :: nat]" by (simp add: upt_rec)
  then have "fork_join_calls 0 1 [2, 3, 4] Null TOTAL_ELEMENTS 4 = [(UserFn 0, Null, 0, 16),
        (UserFn 2, Null, 12, 16), (UserFn 3, Null, 12, 16), (UserFn 4, Null, 12, 16),
        (UserFn 2, Null, 8, 12), (UserFn 3, Null, 8, 12), (UserFn 4, Null, 8, 12),
        (UserFn 2, Null, 4, 8), (UserFn 3, Null, 4, 8), (UserFn 4, Null, 4, 8),
        (UserFn 2, Null, 0, 4), (UserFn 3, Null, 0, 4), (UserFn 4, Null, 0, 4), (UserFn 1, Null, 0, 16)]"
    unfolding fork_join_calls_def chunk_calls_def count by (simp add: chunk_start_def chunk_end_def TOTAL_ELEMENTS_def)
  ultimately show ?thesis using sub' by simp
qed

lemma booted_room: "64 \<le> own_room 0 booted"
proof -
  obtain w where "worker_pool booted = Some [w]" "fresh_worker 16 64 0 w" using booted_facts(10) by blast
  then show ?thesis by (simp add: own_room_def fresh_worker_def)
qed

theorem fork_join_runs_witness:
  "\<exists>s' s''. scheduler_submit_job 1 0 16 (init_job 0 Null 16 (UserFn 0) booted) = (True, s')
     \<and> worker_iterations subtask_dev 0 1 6 7 s' = Some (7, s'') \<and> scheduler_is_job_complete (job_state (jobs s'' 0))"
proof -
  let ?s = "init_job 0 Null 16 (UserFn 0) booted"
  have ready: "ready 1 (Suc 0) ?s" by (simp add: ready_booted)
  obtain ok s' where sub: "scheduler_submit_job 1 0 16 ?s = (ok, s')" by (cases "scheduler_submit_job 1 0 16 ?s")
  then have sub': "scheduler_submit_job 1 0 16 ?s = (True, s')" using ready_submits(1) [OF ready sub] by simp
  have "payload_size (jobs ?s 0) = 16" "job_function (jobs ?s 0) = UserFn 0" "own_room 0 ?s = own_room 0 booted"
    by (simp_all add: init_job_def scheduler_init_job_def own_room_def)
  moreover have "chunk_count 0 16 4 = 4" by (simp add: chunk_count_def)
  ultimately show ?thesis
    using fork_join_runs [OF ready sub' _ _ subtask_forks, of 1 7] sub' booted_room by auto
qed

theorem multi_continuation_trace_witness:
  "\<exists>s' s''. scheduler_submit_job 1 0 TOTAL_ELEMENTS (init_job 0 Null TOTAL_ELEMENTS (UserFn 0) booted) = (True, s')
     \<and> worker_iterations multi_dev 0 1 6 7 s' = Some (7, s'') \<and> length (calls s'') = length (calls booted) + 14"
proof -
  have "ready 1 (Suc 0) booted" by (simp add: ready_booted)
  from multi_continuation_trace [OF this, of 0 1 7] booted_room show ?thesis by auto
qed

end
