(* ===== verification/Programs.thy ===== *)
theory Programs
  imports GraphCode ForkJoin
begin

text \<open>
  The code of a worker is a refinement of the task graph: every round of \<open>worker_main_loop\<close>, with whatever
  it calls, and every submission is a sequence of steps of \<open>TaskGraph\<close>. So what \<open>TaskGraphInv\<close> proves of
  the protocol holds for the scheduler's own functions, with any number of workers that take turns round
  by round, and with developer functions that spawn and continue.
\<close>

section \<open>A round\<close>

definition took :: "task_ref option \<Rightarrow> sched \<Rightarrow> sched \<Rightarrow> bool" where
  "took r s s' \<longleftrightarrow> sched_wf s' \<and> only_workers s s' \<and> queued_tasks s = queued_tasks s' + task_bag r \<and> (\<forall>v. is_worker v s' = is_worker v s)"

lemma took_trans: "took None s s1 \<Longrightarrow> took r s1 s2 \<Longrightarrow> took r s s2"
  by (auto simp: took_def task_bag_def intro: only_workers_trans)

context task_source begin

lemma look_took:
  assumes "sched_wf s" and "on_worker i get s = Some (r, s')"
  shows "took r s s'"
proof -
  obtain ws where ws: "worker_pool s = Some ws" "i < length ws" "s' = s\<lparr>worker_pool := Some (ws[i := snd (get (ws ! i))])\<rparr>"
    using assms(2) by (auto simp: on_worker_def split: option.splits if_splits prod.splits)
  obtain r2 s2 where "on_worker i get s = Some (r2, s2)" "looked i ws r2 s s2" by (rule look [OF assms(1) ws(1,2)])
  with assms(2) have "looked i ws r s s'" by simp
  with ws show ?thesis by (simp add: took_def looked_def task_bag_def is_worker_def)
qed

end

lemma steal_took:
  assumes "sched_wf s" and "steal_task tid cores rng s = Some (r, rng', s')"
  shows "took r s s'"
proof (cases "1 < cores")
  case False
  with assms show ?thesis by (simp add: steal_task_def took_def task_bag_def only_workers_refl)
next
  case True
  let ?v = "unat (steal_victim cores (own_core_id tid s) (xorshift32 rng))"
  obtain r1 s1 where A: "on_worker ?v deque_steal s = Some (r1, s1)"
    using assms(2) True by (auto simp: steal_task_def Let_def split: option.splits prod.splits)
  note T = steal_source.look_took [OF assms(1) A]
  show ?thesis
  proof (cases r1)
    case (Some t)
    with assms(2) True A T show ?thesis by (simp add: steal_task_def Let_def)
  next
    case None
    with assms(2) True A have B: "on_worker ?v spmc_consumer_pop s1 = Some (r, s')"
      by (auto simp: steal_task_def Let_def)
    have "sched_wf s1" using T by (simp add: took_def)
    from ring_source.look_took [OF this B] T None show ?thesis by (auto intro: took_trans)
  qed
qed

lemma find_took:
  assumes "sched_wf s" and "find_task tid cores rng s = Some (r, rng', s')"
  shows "took r s s'"
proof -
  obtain r1 s1 where A: "on_worker tid deque_pop s = Some (r1, s1)"
    using assms(2) by (auto simp: find_task_def split: option.splits prod.splits)
  note T = own_source.look_took [OF assms(1) A]
  show ?thesis
  proof (cases r1)
    case (Some t)
    with assms(2) A T show ?thesis by (simp add: find_task_def)
  next
    case None
    with T have T1: "took None s s1" and wf1: "sched_wf s1" by (simp_all add: took_def)
    obtain r2 s2 where B: "on_worker tid spmc_consumer_pop s1 = Some (r2, s2)"
      using assms(2) A None by (auto simp: find_task_def split: option.splits prod.splits)
    note T2 = took_trans [OF T1 ring_source.look_took [OF wf1 B]]
    show ?thesis
    proof (cases r2)
      case (Some t)
      with assms(2) A B None T2 show ?thesis by (simp add: find_task_def)
    next
      case none: None
      with assms(2) A B None have steal: "steal_task tid cores rng s2 = Some (r, rng', s')" by (simp add: find_task_def)
      have "sched_wf s2" using T2 by (simp add: took_def)
      from steal_took [OF this steal] T2 none show ?thesis by (auto intro: took_trans)
    qed
  qed
qed

text \<open>Without a task only the shared state matters.\<close>

definition at_rest :: "sched \<Rightarrow> graph \<Rightarrow> bool" where
  "at_rest s g \<longleftrightarrow> graph_reachable tasks_total g \<and> wpc g = (\<lambda>_. WIdle) \<and> agrees s g \<and> sched_wf s"

lemma at_rest_sim: "sim tid WIdle s g \<longleftrightarrow> at_rest s g \<and> is_worker tid s"
  by (auto simp: sim_def at_rest_def on_ok_def fun_eq_iff)

lemma at_rest_same:
  assumes "at_rest s g" and "pool s' = pool s" and "worker_pool s' = worker_pool s" and "global_worker_count s' = global_worker_count s"
  shows "at_rest s' g"
  using assms by (simp add: at_rest_def agrees_def sched_wf_def queued_tasks_def task_at_def)

lemma follows_take:
  assumes "took (Some t) s s'"
  shows "follows tid WIdle s (WTake t) (set_current tid (Some t) s')"
proof (rule follows_step)
  let ?s = "set_current tid (Some t) s'"
  fix g assume g: "sim tid WIdle s g"
  note D = simD [OF g]
  have T: "sched_wf s'" "queued_tasks s = add_mset t (queued_tasks s')" "is_worker tid s'" "only_workers s s'"
    using assms D(6) by (simp_all add: took_def task_bag_def)
  have same: "task_at ?s u = task_at s u" "avail ?s = avail s" for u
    using only_workersD(1) [OF T(4)] by (simp_all add: task_at_def)
  have q: "t \<in># queue g" using T(2) D(3) by simp
  note role = queued_role [OF D(7) q]
  have live: "t < tasks_total" "t \<notin> free g" using roles_okD(4,5) [OF D(7), of t] role by simp_all
  have "parent g t \<noteq> None" using reachableD(6) [OF D(1), of t] role by (auto simp: root_at_def)
  moreover have "task_agrees (task_at s t) (deps g t) (fn g t) (parent g t)" using g live D(4) by (simp add: sim_def agrees_def)
  ultimately have on: "on_ok tid (WTake t) ?s" using same by (simp add: on_ok_def task_agrees_def)
  let ?g = "g\<lparr>queue := queue g - {#t#}, wpc := (wpc g)(tid := WTake t), role := (role g)(t := Taken tid)\<rparr>"
  have "graph_step g ?g" using D(2) q by (rule graph_step.take)
  moreover have "agrees ?s ?g" by (rule agreesI [OF g]) (use D(3,4) T(2) same in auto)
  ultimately show "\<exists>g'. graph_step g g' \<and> wpc g' = (wpc g)(tid := WTake t) \<and> agrees ?s g' \<and> sched_wf ?s \<and> is_worker tid ?s \<and> on_ok tid (WTake t) ?s"
    using on T(1,3) by (intro exI [of _ ?g]) (simp add: sched_wf_def is_worker_def)
qed

lemma round_refines:
  assumes dev: "graph_dev dev" and it: "worker_iteration dev tid cores rng s = Some (rng', s')"
    and g: "at_rest s g" and w: "is_worker tid s"
  shows "\<exists>g'. graph_step\<^sup>*\<^sup>* g g' \<and> at_rest s' g' \<and> is_worker tid s'"
proof -
  let ?s = "set_current tid None s"
  have g0: "at_rest ?s g" using g by (rule at_rest_same) simp_all
  have w0: "is_worker tid ?s" using w by (simp add: is_worker_def)
  obtain r rng1 s1 where F: "find_task tid cores rng ?s = Some (r, rng1, s1)"
    using it by (auto simp: worker_iteration_def split: option.splits)
  have "sched_wf ?s" using g0 by (simp add: at_rest_def)
  note T = find_took [OF this F]
  show ?thesis
  proof (cases r)
    case None
    with it F have s': "s' = set_current tid None s1" by (simp add: worker_iteration_def)
    have "agrees s' g"
      using g0 T None only_workersD(1) [of ?s s1] by (simp add: at_rest_def agrees_def took_def task_bag_def s' task_at_def)
    then have "at_rest s' g" using g0 T s' by (simp add: at_rest_def took_def sched_wf_def)
    moreover have "is_worker tid s'" using T w0 s' by (simp add: took_def is_worker_def)
    ultimately show ?thesis by blast
  next
    case (Some t)
    then have ex: "execute_task dev tid t (set_current tid (Some t) s1) = Some s'"
      using it F by (auto simp: worker_iteration_def Let_def)
    have "follows tid WIdle ?s WIdle s'"
      using follows_trans [OF follows_take follows_execute [OF dev ex]] T Some by blast
    with g0 w0 show ?thesis unfolding follows_def at_rest_sim by blast
  qed
qed

section \<open>A submission\<close>

lemma set_next_same: "same_task (a u) x \<Longrightarrow> same_task (set_next t v a u) x"
  by (auto simp: set_next_def same_task_def)

lemma link_evicted_same: "same_task (link_evicted c k a u) (a u)"
proof -
  have "same_task (fold (\<lambda>i a. set_next (c ! i) (word_of_nat (c ! (i - 1))) a) ks a u) x" if "same_task (a u) x" for ks a x
    using that by (induction ks arbitrary: a) (simp_all add: set_next_same)
  then show ?thesis by (simp add: link_evicted_def)
qed

lemma release_same: "same_task (task_at (release tid t s) u) (task_at s u)"
  by (simp add: release_def task_at_def memory_pool_release_def Let_def set_next_same link_evicted_same)

text \<open>A submission does not touch tasks in use.\<close>

lemma submit_others:
  assumes wf: "sched_wf s" and bound: "rings_bounded s" and sub: "scheduler_submit_job tid j chunk s = (ok, s')" and u: "u \<notin> avail s"
  shows "same_task (task_at s' u) (task_at s u)"
proof (cases "worker_pool s")
  case None
  with sub show ?thesis by (auto simp: submit_no_pool task_at_def)
next
  case (Some ws)
  note ws = Some
  have wf0: "sched_wf (with_chunk j chunk s)" using wf by simp
  have at0: "task_at (with_chunk j chunk s) v = task_at s v" for v by (simp add: task_at_def)
  obtain r1 s1 where a1: "acquire tid (with_chunk j chunk s) = (r1, s1)" by (cases "acquire tid (with_chunk j chunk s)")
  note A = acquire_sched [OF wf0 a1]
  show ?thesis
  proof (cases r1)
    case None
    with sub ws a1 A(3) show ?thesis by (auto simp: scheduler_submit_job_def Let_def at0)
  next
    case (Some root)
    note S = submit_root [OF wf ws a1 [unfolded Some]]
    let ?s2 = "upd_task root (root_task j (jobs s1 j)) s1"
    have at2: "task_at ?s2 u = task_at s u" using A(3) S(3) u by (auto simp: at0)
    obtain r3 s3 where a3: "acquire tid ?s2 = (r3, s3)" by (cases "acquire tid ?s2")
    note B = acquire_sched [OF S(1) a3]
    show ?thesis
    proof (cases r3)
      case None
      with B(4) have "s3 = ?s2" by simp
      then have "s' = release tid root ?s2" using sub ws a1 Some a3 None by (auto simp: scheduler_submit_job_def Let_def)
      then show ?thesis using release_same [of tid root ?s2 u] at2 by metis
    next
      case child: (Some child)
      let ?s4 = "upd_task child (splitter_task j (jobs s3 j) root) s3"
      have c: "child \<in> avail s" "child \<noteq> root" "avail s3 = avail s - {root, child}" using B(5) [OF child] S(2) by auto
      have at4: "task_at ?s4 u = task_at s u" using B(3) at2 c(1) u by auto
      obtain b ws' where push: "ring_push (unat (rr_worker_index s3 mod global_worker_count s3)) child ws = (b, ws')"
        by (cases "ring_push (unat (rr_worker_index s3 mod global_worker_count s3)) child ws")
      let ?s5 = "?s4\<lparr>rr_worker_index := rr_worker_index s3 + 1, worker_pool := Some ws'\<rparr>"
      have at5: "task_at ?s5 u = task_at s u" using at4 by (simp add: task_at_def)
      have res: "(ok, s') = (if b then (True, ?s5) else (False, release tid child (release tid root ?s5)))"
        using sub ws a1 Some a3 child push by (auto simp: scheduler_submit_job_def Let_def)
      show ?thesis
      proof (cases b)
        case True
        with res at5 show ?thesis by simp
      next
        case False
        with res have "s' = release tid child (release tid root ?s5)" by simp
        then show ?thesis using same_task_trans [OF release_same release_same, of tid child tid root ?s5 u] at5 by metis
      qed
    qed
  qed
qed

text \<open>What is queued, deques and rings apart.\<close>

definition deques :: "sched \<Rightarrow> task_ref list list" where
  "deques s = (case worker_pool s of None \<Rightarrow> [] | Some ws \<Rightarrow> map (\<lambda>w. deque_items (cl_deque w)) ws)"

lemma queued_split: "queued_tasks s = (\<Sum>xs\<in>#mset (deques s). mset xs) + (\<Sum>xs\<in>#mset (rings s). mset xs)"
proof (cases "worker_pool s")
  case (Some ws)
  have "(\<Sum>w\<in>#mset ws. worker_queued w)
      = (\<Sum>w\<in>#mset ws. mset (deque_items (cl_deque w))) + (\<Sum>w\<in>#mset ws. mset (rb_items w))"
    by (induction ws) (simp_all add: worker_queued_def ac_simps)
  with Some show ?thesis by (simp add: queued_tasks_def deques_def rings_def image_mset.compositionality comp_def)
qed (simp add: queued_tasks_def deques_def rings_def)

lemma submit_deques:
  assumes "scheduler_submit_job tid j chunk s = (ok, s')"
  shows "deques s' = deques s"
proof -
  note K = submit_keeps [OF assms]
  show ?thesis
  proof (cases "worker_pool s")
    case None
    with K show ?thesis by (simp add: deques_def)
  next
    case (Some ws)
    with K obtain ws' where ws': "worker_pool s' = Some ws'" "length ws' = length ws" by (auto split: option.splits)
    have "deque_items (cl_deque (ws' ! i)) = deque_items (cl_deque (ws ! i))" for i
      using K [of i] Some ws' by (simp add: own_deque_def)
    with ws' Some show ?thesis by (auto simp: deques_def intro!: nth_equalityI)
  qed
qed

lemma submit_queued:
  assumes "scheduler_submit_job tid j chunk s = (ok, s')" and "i < length (rings s)" and "rings s' = (rings s)[i := rings s ! i @ [c]]"
  shows "queued_tasks s' = add_mset c (queued_tasks s)"
proof -
  have "(\<Sum>xs\<in>#mset (rings s'). mset xs) + mset (rings s ! i) = (\<Sum>xs\<in>#mset (rings s). mset xs) + mset (rings s ! i @ [c])"
    unfolding assms(3) by (rule sum_update [OF assms(2)])
  then have "(\<Sum>xs\<in>#mset (rings s'). mset xs) = add_mset c (\<Sum>xs\<in>#mset (rings s). mset xs)" by simp
  then show ?thesis by (simp add: queued_split submit_deques [OF assms(1)])
qed

lemma same_agrees: "same_task x y \<Longrightarrow> task_agrees x d f p = task_agrees y d f p"
  using same_task_fields [of x y] by (simp add: task_agrees_def)

lemma submit_refines:
  assumes g: "at_rest s g" and bound: "rings_bounded s" and sub: "scheduler_submit_job tid j chunk s = (ok, s')"
  shows "\<exists>g'. graph_step\<^sup>*\<^sup>* g g' \<and> at_rest s' g'"
proof -
  have wf: "sched_wf s" and ag: "agrees s g" using g by (simp_all add: at_rest_def)
  have out: "submit_outcome tid j chunk s ok s'" by (rule submit_result [OF wf bound sub])
  then have wf': "sched_wf s'" by (simp add: submit_outcome_def)
  have other: "task_agrees (task_at s' t) (deps g t) (fn g t) (parent g t)" if "t < tasks_total" "t \<notin> avail s" for t
    using same_agrees [OF submit_others [OF wf bound sub that(2)]] ag that by (simp add: agrees_def)
  show ?thesis
  proof (cases ok)
    case False
    then have "avail s' = avail s" "queued_tasks s' = queued_tasks s"
      using out submit_deques [OF sub] by (simp_all add: submit_outcome_def rejected_def queued_split)
    with ag other have "agrees s' g" by (simp add: agrees_def)
    with g wf' show ?thesis unfolding at_rest_def by blast
  next
    case True
    then have "submitted j s s'" using out by (simp add: submit_outcome_def)
    then obtain r c i x y where S: "r \<noteq> c" "{r, c} \<subseteq> avail s" "avail s' = avail s - {r, c}" "task_at s' r = root_task j (jobs s' j) x"
        "task_at s' c = splitter_task j (jobs s' j) r y" "i < length (rings s)" "rings s' = (rings s)[i := rings s ! i @ [c]]"
      unfolding submitted_def by (elim exE conjE) (rule that; assumption)
    let ?g = "g\<lparr>queue := add_mset c (queue g), free := free g - {r, c}, deps := (deps g)(r := 1, c := 1),
      fn := (fn g)(r := Some HookFn, c := Some SplitterFn), parent := (parent g)(r := None, c := Some r),
      role := (role g)(r := Waiting, c := Queued), depth := (depth g)(r := 0, c := 1), hooked := (hooked g)(r := 0)\<rparr>"
    have step: "graph_step g ?g" using S(1,2) ag by (intro graph_step.submit) (simp_all add: agrees_def)
    have "task_agrees (task_at s' t) (deps ?g t) (fn ?g t) (parent ?g t)" if "t < tasks_total" "t \<notin> avail s'" for t
    proof -
      consider "t = r" | "t = c" | "t \<noteq> r" "t \<noteq> c" "t \<notin> avail s" using \<open>t \<notin> avail s'\<close> S(3) by blast
      then show ?thesis
      proof cases
        case 1
        with S(1,4) show ?thesis by (simp add: task_agrees_def root_task_def)
      next
        case 2
        with S(1,5) show ?thesis by (simp add: task_agrees_def splitter_task_def)
      next
        case 3
        with other [OF that(1) 3(3)] show ?thesis by simp
      qed
    qed
    moreover have "queue ?g = queued_tasks s'" "free ?g = avail s'"
      using ag S(3) submit_queued [OF sub S(6,7)] by (simp_all add: agrees_def)
    ultimately have "agrees s' ?g" by (simp add: agrees_def)
    then have "at_rest s' ?g" using g wf' step by (auto simp: at_rest_def intro: rtranclp.rtrancl_into_rtrancl)
    with step show ?thesis by blast
  qed
qed

section \<open>Programs\<close>

text \<open>
  What can happen between two states in which every worker is about to look for a task: a worker makes a
  round, an application thread submits a job, or it writes to its job records.
\<close>

inductive program_step :: "dev \<Rightarrow> sched \<Rightarrow> sched \<Rightarrow> bool" for dev :: dev where
  round: "is_worker tid s \<Longrightarrow> worker_iteration dev tid cores rng s = Some (rng', s') \<Longrightarrow> program_step dev s s'"
| submit: "rings_bounded s \<Longrightarrow> scheduler_submit_job tid j chunk s = (ok, s') \<Longrightarrow> program_step dev s s'"
| write_jobs: "program_step dev s (s\<lparr>jobs := js\<rparr>)"

lemma program_step_refines:
  assumes "program_step dev s s'" and "graph_dev dev" and "at_rest s g"
  shows "\<exists>g'. graph_step\<^sup>*\<^sup>* g g' \<and> at_rest s' g'"
  using assms(1)
proof cases
  case (round tid cores rng rng')
  with round_refines [OF assms(2) round(2) assms(3) round(1)] show ?thesis by blast
next
  case (submit tid j chunk ok)
  with assms(3) show ?thesis by (blast intro: submit_refines)
next
  case (write_jobs js)
  then have "at_rest s' g" by (intro at_rest_same [OF assms(3)]) simp_all
  then show ?thesis by blast
qed

definition fresh_boot :: "sched \<Rightarrow> bool" where
  "fresh_boot s \<longleftrightarrow> sched_wf s \<and> avail s = {..<tasks_total} \<and> queued_tasks s = {#}"

lemma fresh_boot_at_rest: "fresh_boot s \<Longrightarrow> at_rest s (graph_start tasks_total)"
  by (auto simp: fresh_boot_def at_rest_def agrees_def graph_start_def)

lemma program_refines:
  assumes "(program_step dev)\<^sup>*\<^sup>* s s'" and "graph_dev dev" and "at_rest s g"
  shows "\<exists>g'. graph_step\<^sup>*\<^sup>* g g' \<and> at_rest s' g'"
  using assms(1)
proof (induction rule: rtranclp_induct)
  case base
  with assms(3) show ?case by blast
next
  case (step s1 s2)
  then show ?case using program_step_refines [OF step.hyps(2) assms(2)] by (meson rtranclp_trans)
qed

lemma iterations_program:
  assumes dev: "graph_dev dev"
  shows "worker_iterations dev tid cores n rng s = Some (rng', s') \<Longrightarrow> at_rest s g \<Longrightarrow> is_worker tid s \<Longrightarrow> (program_step dev)\<^sup>*\<^sup>* s s'"
proof (induction n arbitrary: rng s g)
  case (Suc n)
  obtain rng1 s1 where it: "worker_iteration dev tid cores rng s = Some (rng1, s1)" "worker_iterations dev tid cores n rng1 s1 = Some (rng', s')"
    using Suc.prems(1) by (auto split: option.splits)
  obtain g1 where "at_rest s1 g1" "is_worker tid s1" using round_refines [OF dev it(1) Suc.prems(2,3)] by blast
  from converse_rtranclp_into_rtranclp [OF program_step.round [OF Suc.prems(3) it(1)] Suc.IH [OF it(2) this]] show ?case .
qed simp

section \<open>States at rest\<close>

text \<open>Between rounds every task is free, queued, or waits for its children.\<close>

lemma rest_roles:
  assumes "at_rest s g"
  shows "role g t \<in> {Free, Queued, Waiting}" and "climbers g t = {}"
proof -
  have ok: "roles_ok tasks_total g" and idle: "wpc g w = WIdle" for w
    using assms reachableD(1) by (simp_all add: at_rest_def)
  show "climbers g t = {}" using idle by (simp add: climbers_def)
  have "role_owner (role g t) = None" using roles_okD(2) [OF ok, of t] idle by (cases "role_owner (role g t)") auto
  then show "role g t \<in> {Free, Queued, Waiting}" by (cases "role g t") auto
qed

lemma rest_counts:
  assumes g: "at_rest s g" and t: "t < tasks_total" "t \<notin> avail s"
  shows "unat (unfinished_dependencies (task_at s t)) =
      card {u. u < tasks_total \<and> u \<notin> avail s \<and> parent_task (task_at s u) = Some t} + of_bool (t \<in># queued_tasks s)"
    and "0 < unat (unfinished_dependencies (task_at s t))"
proof -
  have reach: "graph_reachable tasks_total g" and ok: "roles_ok tasks_total g" and idle: "{w. wpc g w \<noteq> WIdle} = {}"
    and ag: "queue g = queued_tasks s" "free g = avail s"
      "\<And>u. u < tasks_total \<Longrightarrow> u \<notin> avail s \<Longrightarrow> task_agrees (task_at s u) (deps g u) (fn g u) (parent g u)"
    using g reachableD(1) by (simp_all add: at_rest_def agrees_def)
  note D = roles_okD [OF ok] and R = rest_roles [OF g]
  have live: "u < tasks_total \<and> u \<notin> avail s \<longleftrightarrow> role g u \<noteq> Free" for u using D(4,5) [of u] ag(2) by auto
  have counted: "is_counted (role g u) \<longleftrightarrow> role g u \<noteq> Free" for u using R(1) [of u] by auto
  have "is_counted (role g u) \<and> parent g u = Some t \<longleftrightarrow> u < tasks_total \<and> u \<notin> avail s \<and> parent_task (task_at s u) = Some t" for u
    using counted [of u] live [of u] ag(3) [of u] by (auto simp: task_agrees_def)
  then have "kids g t = {u. u < tasks_total \<and> u \<notin> avail s \<and> parent_task (task_at s u) = Some t}" by (simp add: kids_def)
  moreover have "t \<in># queued_tasks s \<longleftrightarrow> role g t = Queued"
    using D(3) [of t] ag(1) by (simp add: count_greater_zero_iff [symmetric] del: count_greater_zero_iff)
  then have "is_locked (role g t) \<longleftrightarrow> t \<in># queued_tasks s" using R(1) [of t] by auto
  moreover have "role g t \<noteq> Free" using live t by blast
  ultimately have count: "deps g t = int (card {u. u < tasks_total \<and> u \<notin> avail s \<and> parent_task (task_at s u) = Some t}
      + of_bool (t \<in># queued_tasks s))"
    using reachableD(2) [OF reach, of t] R(2) [of t] by (simp add: count_at_def ref_count_def)
  have "t \<notin> free g" using t ag(2) by simp
  from counts_bounded [OF reach t(1) this, of 0 Body "[]" "[]"] idle have "deps g t < 2 ^ 64" "0 \<le> deps g t"
    by (simp_all add: global_task_capacity_def)
  then have "uint (word_of_int (deps g t) :: size_t) = deps g t" by (simp add: uint_word_of_int)
  then have unat: "int (unat (unfinished_dependencies (task_at s t))) = deps g t"
    using ag(3) [OF t] by (simp add: task_agrees_def)
  from trans [OF unat count] show "unat (unfinished_dependencies (task_at s t)) =
      card {u. u < tasks_total \<and> u \<notin> avail s \<and> parent_task (task_at s u) = Some t} + of_bool (t \<in># queued_tasks s)"
    by (simp only: of_nat_eq_iff)
  have "0 < ref_count g t"
    using reachableD(2) [OF reach, of t] R(1) [of t] \<open>role g t \<noteq> Free\<close> by (auto simp: count_at_def ref_count_def)
  with reachableD(2) [OF reach, of t] \<open>role g t \<noteq> Free\<close> have "0 < deps g t" by (simp add: count_at_def)
  with unat show "0 < unat (unfinished_dependencies (task_at s t))" by (metis of_nat_0_less_iff)
qed

section \<open>The developer functions of the examples\<close>

lemma leaf_graph: "leaf_dev dev \<Longrightarrow> graph_dev dev"
  by (simp add: leaf_dev_def graph_dev_def)

lemma parent_spawner_graph:
  assumes "graph_dev inline" and "parent_spawner_task inline tid p a b s = Some s'"
  shows "follows tid (WRun t m R []) s (WRun t m R []) s'"
  using assms(2)
  by (auto simp: parent_spawner_task_def split: option.splits
      intro: follows_trans [OF follows_continuation follows_spawn [OF assms(1)]])

lemma subtask_graph: "graph_dev subtask_dev"
proof -
  have "graph_dev subtask_children"
    by (simp add: graph_dev_def subtask_children_def child_worker_task_def final_merge_task_def)
  then show ?thesis
    by (auto simp: graph_dev_def [of subtask_dev] subtask_dev_def intro: parent_spawner_graph)
      (simp add: graph_dev_def)
qed

lemma multi_graph: "graph_dev multi_dev"
proof -
  have "graph_dev multi_children"
    by (auto simp: graph_dev_def multi_children_def multi_child_worker_task_def child_continuation_def child_continuation_2_def
        final_merge_task_def intro: follows_continuation)
  then show ?thesis
    by (auto simp: graph_dev_def [of multi_dev] multi_dev_def intro: parent_spawner_graph) (simp add: graph_dev_def)
qed

text \<open>
  All functions that do nothing with the scheduler but call its two functions for tasks, in any order and
  number. \<open>code n p a b h\<close> are the calls that function \<open>n\<close> makes, which may depend on its arguments and,
  by way of the developer's data, on the calls \<open>h\<close> made before. \<open>k\<close> bounds how deep calls that a
  spawn runs inline are nested; beyond it the call does not return.
\<close>

datatype api_call = SetContinuation nat | SpawnSubtasks ptr size_t size_t size_t nat

fun api_calls :: "dev \<Rightarrow> nat \<Rightarrow> api_call list \<Rightarrow> sched \<Rightarrow> sched option" where
  "api_calls dev tid [] s = Some s"
| "api_calls dev tid (SetContinuation n # cs) s =
     (case scheduler_set_continuation tid (UserFn n) s of None \<Rightarrow> None | Some s \<Rightarrow> api_calls dev tid cs s)"
| "api_calls dev tid (SpawnSubtasks p a b chunk n # cs) s =
     (case scheduler_spawn_subtasks dev tid p a b chunk (UserFn n) s of None \<Rightarrow> None | Some s \<Rightarrow> api_calls dev tid cs s)"

primrec api_dev :: "(nat \<Rightarrow> ptr \<Rightarrow> size_t \<Rightarrow> size_t \<Rightarrow> (sc_fn \<times> ptr \<times> size_t \<times> size_t) list \<Rightarrow> api_call list) \<Rightarrow> nat \<Rightarrow> dev" where
  "api_dev code 0 = (\<lambda>tid f p a b s. None)"
| "api_dev code (Suc k) = (\<lambda>tid f p a b s.
     case f of UserFn n \<Rightarrow> api_calls (api_dev code k) tid (code n p a b (calls s)) s | _ \<Rightarrow> None)"

lemma api_calls_follow:
  assumes "graph_dev dev"
  shows "api_calls dev tid cs s = Some s' \<Longrightarrow> follows tid (WRun t m R []) s (WRun t m R []) s'"
proof (induction cs arbitrary: s)
  case (Cons c cs)
  show ?case
  proof (cases c)
    case (SetContinuation n)
    with Cons.prems obtain s1 where "scheduler_set_continuation tid (UserFn n) s = Some s1" "api_calls dev tid cs s1 = Some s'"
      by (auto split: option.splits)
    with follows_trans [OF follows_continuation Cons.IH] show ?thesis by blast
  next
    case (SpawnSubtasks p a b chunk n)
    with Cons.prems obtain s1 where "scheduler_spawn_subtasks dev tid p a b chunk (UserFn n) s = Some s1" "api_calls dev tid cs s1 = Some s'"
      by (auto split: option.splits)
    with follows_trans [OF follows_spawn [OF assms] Cons.IH] show ?thesis by blast
  qed
qed simp

lemma api_graph: "graph_dev (api_dev code k)"
proof (induction k)
  case (Suc k)
  show ?case
    unfolding graph_dev_def
    using api_calls_follow [OF Suc] by (auto split: sc_fn.splits)
qed (simp add: graph_dev_def)

section \<open>Properties\<close>

text \<open>
  C1: The scheduler's code refines the task graph. Whatever sequence of rounds of any workers, of
  submissions and of writes to job records follows a boot, and whatever the developer's functions spawn
  and continue, the state is one that the task graph reaches by its own steps: its queue is what lies in
  the deques and rings, its free tasks are those of the pool, and every task in use has the function, the
  parent and the count of the graph. So every theorem on the protocol under full interleaving is one on
  the code.
\<close>

theorem rounds_refine_task_graph:
  assumes "graph_dev dev" and "fresh_boot s0" and "(program_step dev)\<^sup>*\<^sup>* s0 s"
  shows "\<exists>g. graph_reachable tasks_total g \<and> (\<forall>w. wpc g w = WIdle) \<and> agrees s g"
proof -
  obtain g where "at_rest s g" using program_refines [OF assms(3,1) fresh_boot_at_rest [OF assms(2)]] by blast
  then show ?thesis by (auto simp: at_rest_def)
qed

text \<open>
  C2: No task is lost. After any such sequence, as soon as all deques and rings are empty every task of
  the array is back in the pool, whatever was spawned and continued on the way.
\<close>

theorem program_leaves_nothing:
  assumes "graph_dev dev" and "fresh_boot s0" and "(program_step dev)\<^sup>*\<^sup>* s0 s" and "queued_tasks s = {#}"
  shows "avail s = {..<global_task_capacity}"
proof -
  obtain g where g: "at_rest s g" using program_refines [OF assms(3,1) fresh_boot_at_rest [OF assms(2)]] by blast
  with quiescent_free [of tasks_total g] assms(4) show ?thesis by (auto simp: at_rest_def agrees_def)
qed

text \<open>
  C3: Between rounds the counts are exact. After any such sequence the count of every task in use is the
  number of its children in use, plus one if it is queued itself, and is never 0; a queued task is queued
  once, is in use, and has a function to run.
\<close>

theorem program_counts_exact:
  assumes "graph_dev dev" and "fresh_boot s0" and "(program_step dev)\<^sup>*\<^sup>* s0 s" and "t < global_task_capacity"
  shows "(t \<notin> avail s \<longrightarrow> 0 < unfinished_dependencies (task_at s t) \<and> unat (unfinished_dependencies (task_at s t)) =
        card {u. u < global_task_capacity \<and> u \<notin> avail s \<and> parent_task (task_at s u) = Some t} + of_bool (t \<in># queued_tasks s))
    \<and> count (queued_tasks s) t \<le> 1 \<and> (t \<in># queued_tasks s \<longrightarrow> t \<notin> avail s \<and> task_fn (task_at s t) \<noteq> None)"
proof -
  obtain g where g: "at_rest s g" using program_refines [OF assms(3,1) fresh_boot_at_rest [OF assms(2)]] by blast
  then have reach: "graph_reachable tasks_total g" and ag: "queue g = queued_tasks s" "free g = avail s"
      "t \<notin> avail s \<Longrightarrow> task_agrees (task_at s t) (deps g t) (fn g t) (parent g t)"
    using assms(4) by (simp_all add: at_rest_def agrees_def)
  note D = roles_okD [OF reachableD(1) [OF reach]]
  have "t \<notin> avail s \<and> task_fn (task_at s t) \<noteq> None" if q: "t \<in># queued_tasks s"
  proof -
    have "role g t = Queued" using q ag(1) queued_role [OF reachableD(1) [OF reach]] by simp
    then have "t \<notin> avail s" using D(4) [of t] ag(2) by auto
    with ready_fn [OF reach, of t] q ag show ?thesis by (auto simp: task_agrees_def)
  qed
  moreover have "count (queued_tasks s) t \<le> 1" using D(3) [of t] ag(1) by simp
  ultimately show ?thesis using rest_counts [OF g assms(4)] by (auto simp: word_less_nat_alt)
qed

lemma booted_fresh: "fresh_boot booted"
proof -
  obtain w where "worker_pool booted = Some [w]" "fresh_worker 16 64 0 w" using booted_facts(10) by blast
  then show ?thesis using booted_facts(2,3) by (simp add: fresh_boot_def queued_tasks_def worker_queued_def fresh_worker_def)
qed

text \<open>A job of four children with two continuations each: submitted, and run by six rounds.\<close>

lemma multi_run:
  obtains s1 s2 where "scheduler_submit_job 1 0 16 (init_job 0 Null 16 (UserFn 0) booted) = (True, s1)"
    and "(program_step multi_dev)\<^sup>*\<^sup>* booted s1" and "worker_iterations multi_dev 0 1 6 7 s1 = Some (7, s2)"
    and "(program_step multi_dev)\<^sup>*\<^sup>* booted s2" and "calls s2 = calls booted @ fork_join_calls 0 1 [2, 3, 4] Null 16 4"
proof -
  let ?s = "init_job 0 Null 16 (UserFn 0) booted"
  have ready: "ready 1 (Suc 0) ?s" by (simp add: ready_booted)
  obtain ok s1 where sub: "scheduler_submit_job 1 0 16 ?s = (ok, s1)" by (cases "scheduler_submit_job 1 0 16 ?s")
  then have sub': "scheduler_submit_job 1 0 16 ?s = (True, s1)" using ready_submits(1) [OF ready sub] by simp
  have job: "payload_size (jobs ?s 0) = 16" "job_function (jobs ?s 0) = UserFn 0" "own_room 0 ?s = own_room 0 booted" "calls ?s = calls booted"
      "job_payload (jobs ?s 0) = Null" "rings_bounded ?s"
    using booted_facts(5) by (simp_all add: init_job_def scheduler_init_job_def own_room_def rings_bounded_def)
  have count: "chunk_count 0 16 4 = 4" by (simp add: chunk_count_def)
  obtain s2 where s2: "worker_iterations multi_dev 0 1 6 7 s1 = Some (7, s2)" "calls s2 = calls booted @ fork_join_calls 0 1 [2, 3, 4] Null 16 4"
    using fork_join_ran [OF ready sub' job(1,2) multi_forks, of 1 7] job(3-5) booted_room count by auto
  have "program_step multi_dev booted ?s" unfolding init_job_def by (rule program_step.write_jobs)
  then have one: "(program_step multi_dev)\<^sup>*\<^sup>* booted s1"
    using program_step.submit [OF job(6) sub', of multi_dev] by (simp add: rtranclp.rtrancl_into_rtrancl)
  obtain g where "at_rest s1 g" using program_refines [OF one multi_graph fresh_boot_at_rest [OF booted_fresh]] by blast
  moreover have "is_worker 0 s1"
    using submit_keeps [OF sub', of 0] booted_facts(10) by (auto simp: init_job_def is_worker_def split: option.splits)
  ultimately have "(program_step multi_dev)\<^sup>*\<^sup>* booted s2"
    using rtranclp_trans [OF one iterations_program [OF multi_graph s2(1)]] by blast
  with that sub' one s2 show thesis by blast
qed

theorem rounds_refine_task_graph_witness:
  "\<exists>s1 s2 g. scheduler_submit_job 1 0 16 (init_job 0 Null 16 (UserFn 0) booted) = (True, s1)
     \<and> worker_iterations multi_dev 0 1 6 7 s1 = Some (7, s2) \<and> graph_reachable tasks_total g \<and> agrees s2 g"
proof -
  obtain s1 s2 where R: "scheduler_submit_job 1 0 16 (init_job 0 Null 16 (UserFn 0) booted) = (True, s1)"
      "worker_iterations multi_dev 0 1 6 7 s1 = Some (7, s2)" "(program_step multi_dev)\<^sup>*\<^sup>* booted s2"
    by (rule multi_run)
  from rounds_refine_task_graph [OF multi_graph booted_fresh R(3)] R(1,2) show ?thesis by blast
qed

theorem program_leaves_nothing_witness:
  "\<exists>n s1 s2. scheduler_submit_job 1 0 64 booted = (True, s1) \<and> worker_iterations idle_dev 0 1 n 7 s1 = Some (7, s2)
     \<and> avail s2 = {..<global_task_capacity}"
proof -
  obtain s1 where sub: "scheduler_submit_job 1 0 64 booted = (True, s1)" using submits_booted by (metis prod.collapse)
  obtain n s2 where ran: "job_ran idle_dev 0 1 7 n booted s1 s2" using job_run_result [OF idle_booted idle_dev_leaf sub] by blast
  note dev = leaf_graph [OF idle_dev_leaf]
  have one: "(program_step idle_dev)\<^sup>*\<^sup>* booted s1" 
    using program_step.submit [OF booted_facts(5) sub, of idle_dev] by simp
  obtain g where g: "at_rest s1 g" using program_refines [OF one dev fresh_boot_at_rest [OF booted_fresh]] by blast
  have w: "is_worker 0 s1" using submit_keeps [OF sub, of 0] booted_facts(10) by (auto simp: is_worker_def split: option.splits)
  have it: "worker_iterations idle_dev 0 1 n 7 s1 = Some (7, s2)" and empty: "own_deque 0 s2 = []" "rings s2 = [[]]"
    using ran by (simp_all add: job_ran_def)
  have "queued_tasks s2 = {#}"
    using empty by (auto simp: queued_split deques_def own_deque_def rings_def split: option.splits)
  from program_leaves_nothing [OF dev booted_fresh rtranclp_trans [OF one iterations_program [OF dev it g w]] this] sub it
  show ?thesis by blast
qed

theorem program_counts_exact_witness:
  "\<exists>s1 t. scheduler_submit_job 1 0 64 booted = (True, s1) \<and> t \<in># queued_tasks s1 \<and> t \<notin> avail s1 \<and> task_fn (task_at s1 t) \<noteq> None
     \<and> unat (unfinished_dependencies (task_at s1 t)) =
         card {u. u < global_task_capacity \<and> u \<notin> avail s1 \<and> parent_task (task_at s1 u) = Some t} + 1"
proof -
  obtain s1 where sub: "scheduler_submit_job 1 0 64 booted = (True, s1)" using submits_booted by (metis prod.collapse)
  have "submitted 0 booted s1" using submit_result [OF booted_facts(2,5) sub] by (simp add: submit_outcome_def)
  then obtain t i where t: "t \<in> avail booted" "i < length (rings booted)" "rings s1 = (rings booted)[i := rings booted ! i @ [t]]"
    unfolding submitted_def by auto
  have q: "t \<in># queued_tasks s1" using submit_queued [OF sub t(2,3)] by simp
  have t_less: "t < global_task_capacity" using t(1) booted_facts(3) by simp
  have "(program_step idle_dev)\<^sup>*\<^sup>* booted s1" using program_step.submit [OF booted_facts(5) sub, of idle_dev] by simp
  from program_counts_exact [OF leaf_graph [OF idle_dev_leaf] booted_fresh this t_less]
    q sub show ?thesis by auto
qed

end
