(* ===== verification/CrowdTask.thy ===== *)
theory CrowdTask
  imports Programs
begin

text \<open>
  One task of one job, run by one of many workers while other jobs are in the scheduler: what the run and the
  walk to the ancestors do to the task's own job, and that they leave the other jobs alone. \<open>Crowd\<close> builds on it.
\<close>

section \<open>The walk of a worker, without knowledge of the other jobs\<close>

text \<open>Equal up to the dependency count and the link of the free list.\<close>

definition kin :: "sc_task \<Rightarrow> sc_task \<Rightarrow> bool" where
  "kin x y \<longleftrightarrow> task_fn x = task_fn y \<and> task_payload x = task_payload y \<and> start_inx x = start_inx y \<and> end_inx x = end_inx y
     \<and> parent_task x = parent_task y"

lemma kin_refl [simp]: "kin x x"
  by (simp add: kin_def)

lemma kin_trans: "kin x y \<Longrightarrow> kin y z \<Longrightarrow> kin x z"
  by (simp add: kin_def)

lemma same_kin: "same_task x y \<Longrightarrow> kin x y"
  using same_task_fields [of x y] by (simp add: kin_def)

lemma kin_sub [simp]: "kin (sub_deps n x) x"
  by (simp add: kin_def)

text \<open>
  \<open>jo\<close> assigns a job to every task. The root of a job waits with its hook; every other task that is not
  queued, save \<open>X\<close>, has given its function away.
\<close>

definition tidy :: "(task_ref \<Rightarrow> job_ref) \<Rightarrow> task_ref set \<Rightarrow> sched \<Rightarrow> bool" where
  "tidy jo X s \<longleftrightarrow> (\<forall>t<tasks_total. t \<notin> avail s \<longrightarrow> t \<notin> X \<longrightarrow>
     (if parent_task (task_at s t) = None then root_waiting (jo t) (task_at s t)
      else t \<notin># queued_tasks s \<longrightarrow> task_fn (task_at s t) = None))"

lemma tidyD:
  assumes "tidy jo X s" "t < tasks_total" "t \<notin> avail s" "t \<notin> X"
  shows "parent_task (task_at s t) = None \<Longrightarrow> root_waiting (jo t) (task_at s t)"
    and "parent_task (task_at s t) \<noteq> None \<Longrightarrow> t \<notin># queued_tasks s \<Longrightarrow> task_fn (task_at s t) = None"
  using assms by (auto simp: tidy_def split: if_splits)

lemma kin_tidy:
  assumes "tidy jo X s" "queued_tasks s' = queued_tasks s" "avail s \<subseteq> avail s'"
    and "\<And>u. u < tasks_total \<Longrightarrow> u \<notin> avail s' \<Longrightarrow> kin (task_at s' u) (task_at s u)"
  shows "tidy jo X s'"
  unfolding tidy_def
proof (intro allI impI)
  fix t assume t: "t < tasks_total" "t \<notin> avail s'" "t \<notin> X"
  then have "t \<notin> avail s" using assms(3) by blast
  with t assms(1) assms(4) [OF t(1,2)] show "if parent_task (task_at s' t) = None then root_waiting (jo t) (task_at s' t)
      else t \<notin># queued_tasks s' \<longrightarrow> task_fn (task_at s' t) = None"
    by (auto simp: tidy_def kin_def root_waiting_def assms(2))
qed

text \<open>The jobs whose roots have been released are done.\<close>

definition released_root :: "(task_ref \<Rightarrow> job_ref) \<Rightarrow> sched \<Rightarrow> sched \<Rightarrow> job_ref \<Rightarrow> bool" where
  "released_root jo s s' j \<longleftrightarrow> (\<exists>r. r \<notin> avail s \<and> r \<in> avail s' \<and> parent_task (task_at s r) = None \<and> jo r = j)"

definition walks :: "(task_ref \<Rightarrow> job_ref) \<Rightarrow> sched \<Rightarrow> sched \<Rightarrow> bool" where
  "walks jo s s' \<longleftrightarrow> worker_pool s' = worker_pool s \<and> calls s' = calls s \<and> avail s \<subseteq> avail s'
     \<and> (\<forall>u. u \<notin> avail s' \<longrightarrow> kin (task_at s' u) (task_at s u))
     \<and> jobs s' = (\<lambda>j. if released_root jo s s' j then (jobs s j)\<lparr>job_state := JOB_STATE_DONE\<rparr> else jobs s j)"

lemma walks_refl: "walks jo s s"
  by (auto simp: walks_def released_root_def)

lemma walksD:
  assumes "walks jo s s'"
  shows "worker_pool s' = worker_pool s" "calls s' = calls s" "avail s \<subseteq> avail s'"
    and "u \<notin> avail s' \<Longrightarrow> kin (task_at s' u) (task_at s u)"
    and "jobs s' j = (if released_root jo s s' j then (jobs s j)\<lparr>job_state := JOB_STATE_DONE\<rparr> else jobs s j)"
  using assms by (simp_all add: walks_def)

lemma walks_trans:
  assumes "walks jo s s1" and "walks jo s1 s2"
  shows "walks jo s s2"
proof -
  note A = walksD [OF assms(1)] and B = walksD [OF assms(2)]
  have par: "parent_task (task_at s1 r) = parent_task (task_at s r)" if "r \<notin> avail s1" for r
    using A(4) [OF that] by (simp add: kin_def)
  have rel: "released_root jo s s2 j \<longleftrightarrow> released_root jo s s1 j \<or> released_root jo s1 s2 j" for j
  proof
    assume "released_root jo s s2 j"
    then obtain r where r: "r \<notin> avail s" "r \<in> avail s2" "parent_task (task_at s r) = None" "jo r = j"
      by (auto simp: released_root_def)
    then show "released_root jo s s1 j \<or> released_root jo s1 s2 j"
      using par [of r] unfolding released_root_def by (cases "r \<in> avail s1") (blast, metis)
  next
    assume "released_root jo s s1 j \<or> released_root jo s1 s2 j"
    then obtain r where "r \<notin> avail s" "r \<in> avail s2" "parent_task (task_at s r) = None" "jo r = j"
    proof
      assume "released_root jo s s1 j"
      with that B(3) show thesis unfolding released_root_def by blast
    next
      assume "released_root jo s1 s2 j"
      then obtain r where r: "r \<notin> avail s1" "r \<in> avail s2" "parent_task (task_at s1 r) = None" "jo r = j"
        unfolding released_root_def by blast
      moreover have "r \<notin> avail s" using r(1) A(3) by blast
      ultimately show thesis using that [of r] par [OF r(1)] by simp
    qed
    then show "released_root jo s s2 j" unfolding released_root_def by blast
  qed
  have "kin (task_at s2 u) (task_at s u)" if "u \<notin> avail s2" for u
  proof (rule kin_trans)
    show "kin (task_at s2 u) (task_at s1 u)" by (rule B(4) [OF that])
    show "kin (task_at s1 u) (task_at s u)" using A(4) B(3) that by blast
  qed
  moreover have "jobs s2 j = (if released_root jo s s2 j then (jobs s j)\<lparr>job_state := JOB_STATE_DONE\<rparr> else jobs s j)" for j
    using A(5) [of j] B(5) [of j] unfolding rel by simp
  ultimately show ?thesis using A(1-3) B(1-3) by (simp add: walks_def fun_eq_iff)
qed

lemma drop_walks: "drop_dep p s = (r, s') \<Longrightarrow> walks jo s s'"
  by (auto simp: drop_dep_def walks_def released_root_def upd_task_pool)

lemma release_walks:
  assumes "sched_wf s" "t < tasks_total" "t \<notin> avail s" "parent_task (task_at s t) \<noteq> None"
  shows "walks jo s (release tid t s)"
proof -
  note R = release_sched [OF assms(1-3), of tid]
  have "same_task (task_at (release tid t s) u) (task_at s u)" for u using R(4) by (simp add: same_task_def)
  moreover have "\<not> released_root jo s (release tid t s) j" for j using assms(4) R(2) by (auto simp: released_root_def)
  ultimately show ?thesis using R(2) by (auto simp: walks_def release_def intro: same_kin)
qed

text \<open>The root: its hook runs, and it is released.\<close>

lemma root_walks:
  assumes wf: "sched_wf s" and p: "p < tasks_total" "p \<notin> avail s" and root: "root_waiting j (task_at s p)" and jo: "jo p = j"
  shows "\<exists>s'. parent_loop dev tid p s = Some (Some p, s') \<and> task_fn (task_at s' p) = None \<and> parent_task (task_at s' p) = None
    \<and> walks jo s (release tid p s')"
proof -
  let ?s2 = "clear_fn p ((relock p s)\<lparr>tl_current_task := (tl_current_task s)(tid := Some p)\<rparr>)"
  let ?s3 = "?s2\<lparr>jobs := (jobs s)(j := (jobs s j)\<lparr>job_state := JOB_STATE_DONE\<rparr>)\<rparr>"
  let ?s4 = "upd_task p (sub_deps 1) ?s3"
  have fields: "task_fn (task_at s p) = Some HookFn" "task_payload (task_at s p) = JobPtr j" "parent_task (task_at s p) = None"
    using root by (simp_all add: root_waiting_def)
  have at: "task_at (s\<lparr>tl_current_task := x\<rparr>) = task_at s" "task_at (s\<lparr>jobs := y\<rparr>) = task_at s" for s x y
    by (simp_all add: task_at_def fun_eq_iff)
  have wf4: "sched_wf ?s4" and av4: "avail ?s4 = avail s" using wf by simp_all
  have "p \<notin> avail ?s4" using p av4 by auto
  note R = release_sched [OF wf4 p(1) this, of tid]
  have end_loop: "parent_loop dev tid p ?s4 = Some (Some p, ?s4)"
    by (subst parent_loop.simps) (simp add: at)
  have loop: "parent_loop dev tid p s = Some (Some p, ?s4)"
    by (subst parent_loop.simps)
       (simp add: fields at run_task_fn_def hooked_job_finish_task_def drop_dep_def end_loop)
  have other: "kin (task_at (release tid p ?s4) u) (task_at s u)" if "u \<noteq> p" for u
  proof -
    have "same_task (task_at (release tid p ?s4) u) (task_at ?s4 u)" using R(4) by (simp add: same_task_def)
    then show ?thesis using that by (auto simp: at dest!: same_kin)
  qed
  have "released_root jo s (release tid p ?s4) i \<longleftrightarrow> i = j" for i
    using R(2) av4 p fields(3) jo by (auto simp: released_root_def)
  then have "walks jo s (release tid p ?s4)"
    using R(2) av4 other by (auto simp: walks_def release_def fun_eq_iff)
  with loop show ?thesis by (intro exI [of _ ?s4]) (simp add: at fields)
qed

lemma after_root: "after_release (parent_task x) = WIdle \<longleftrightarrow> parent_task x = None"
  by (cases "parent_task x") simp_all

lemma climb_walks:
  assumes dev: "graph_dev dev" and "sim tid (after_release q) s g" and "tidy jo {} s"
  shows "\<exists>s' g'. climb dev tid q s = Some s' \<and> walks jo s s' \<and> sim tid WIdle s' g'"
  using assms(2,3)
proof (induction "card ({..<tasks_total} - avail s)" arbitrary: q s g rule: less_induct)
  case less
  show ?case
  proof (cases q)
    case None
    then show ?thesis using less.prems(1) walks_refl by (subst climb.simps) auto
  next
    case (Some p)
    have g: "sim tid (WClimb p) s g" using less.prems(1) Some by simp
    have P: "p < tasks_total" "p \<notin> avail s" using held_live [OF g, of p] by (simp_all add: held_def)
    obtain r s1 where drop: "drop_dep p s = (r, s1)" by (cases "drop_dep p s")
    note W1 = drop_walks [OF drop, of jo]
    have same1: "avail s1 = avail s" "queued_tasks s1 = queued_tasks s" "kin (task_at s1 u) (task_at s u)" for u
      using drop by (auto simp: drop_dep_def upd_task_pool)
    have tidy1: "tidy jo {} s1" by (rule kin_tidy [OF less.prems(2) same1(2)]) (simp_all add: same1)
    obtain g1 where g1: "sim tid (if r = 1 then WAtParent p else WIdle) s1 g1"
      using follows_climb [OF drop, of tid] g by (auto simp: follows_def)
    show ?thesis
    proof (cases "r = 1")
      case False
      then have "climb dev tid q s = Some s1" using Some drop by (subst climb.simps) simp
      with W1 g1 False show ?thesis by auto
    next
      case True
      with g1 have g1: "sim tid (WAtParent p) s1 g1" by simp
      have wf1: "sched_wf s1" using simD(5) [OF g1] .
      show ?thesis
      proof (cases "parent_task (task_at s1 p)")
        case None
        have "root_waiting (jo p) (task_at s1 p)" using tidyD(1) [OF tidy1 P(1)] P(2) same1(1) None by simp
        then obtain s2 where s2: "parent_loop dev tid p s1 = Some (Some p, s2)" "task_fn (task_at s2 p) = None"
            "parent_task (task_at s2 p) = None" "walks jo s1 (release tid p s2)"
          using root_walks [OF wf1 P(1), of "jo p" jo dev tid] P(2) same1(1) by auto
        have "climb dev tid None (release tid p s2) = Some (release tid p s2)" by (subst climb.simps) simp
        then have climb: "climb dev tid q s = Some (release tid p s2)"
          using Some drop True s2(1,3) by (subst climb.simps) simp
        have W: "walks jo s (release tid p s2)" by (rule walks_trans [OF W1 s2(4)])
        have "follows tid (WAtParent p) s1 (WAtParent p) s2"
          using follows_parent_loop [OF dev s2(1)] by (simp add: ends_parent_def)
        from follows_trans [OF this follows_finish [OF disjI2 [OF refl] s2(2)]] s2(3)
        have "follows tid (WAtParent p) s1 WIdle (release tid p s2)" by simp
        with g1 obtain g2 where "sim tid WIdle (release tid p s2) g2" by (auto simp: follows_def)
        with climb W show ?thesis by blast
      next
        case (Some q')
        let ?s2 = "release tid p s1"
        have live1: "p \<notin> avail s1" using P(2) same1(1) by simp
        have "p \<notin># queued_tasks s1" using owned_live(4) [OF simD(7) [OF g1], of p tid] simD(2,3) [OF g1] by simp
        then have fn: "task_fn (task_at s1 p) = None" using tidyD(2) [OF tidy1 P(1) live1] Some by simp
        then have loop: "parent_loop dev tid p s1 = Some (Some p, s1)" by (subst parent_loop.simps) simp
        obtain g2 where g2: "sim tid (after_release (Some q')) ?s2 g2"
          using follows_finish [OF disjI2 [OF refl] fn, of tid] g1 Some unfolding follows_def by metis
        note R = release_sched [OF wf1 P(1) live1, of tid]
        have W2: "walks jo s1 ?s2" using wf1 P(1) live1 Some by (intro release_walks) simp_all
        have tidy2: "tidy jo {} ?s2"
          by (rule kin_tidy [OF tidy1]) (use walksD(3,4) [OF W2] in \<open>simp_all\<close>)
        have "{..<tasks_total} - avail ?s2 \<subset> {..<tasks_total} - avail s" using R(2) P same1(1) by auto
        then have "card ({..<tasks_total} - avail ?s2) < card ({..<tasks_total} - avail s)" by (intro psubset_card_mono) simp_all
        from less.hyps [OF this g2 tidy2] obtain s' g' where IH: "climb dev tid (Some q') ?s2 = Some s'" "walks jo ?s2 s'" "sim tid WIdle s' g'"
          by blast
        have "climb dev tid q s = Some s'"
          using \<open>q = Some p\<close> drop True loop IH(1) Some by (subst climb.simps) simp
        moreover have "walks jo s s'" by (rule walks_trans [OF W1 walks_trans [OF W2 IH(2)]])
        ultimately show ?thesis using IH(3) by blast
      qed
    qed
  qed
qed

section \<open>One task is run\<close>

text \<open>A task that the splitter made for job \<open>j\<close>, as it waits in a queue.\<close>

definition waits_for :: "job_ref \<Rightarrow> size_t \<Rightarrow> sc_task \<Rightarrow> bool" where
  "waits_for j c x \<longleftrightarrow> task_fn x = Some SplitterFn \<and> task_payload x = JobPtr j \<and> start_inx x \<le> end_inx x
     \<and> unat (start_inx x) mod unat c = 0"

lemma kin_waits: "kin x y \<Longrightarrow> waits_for j c x = waits_for j c y" "kin x y \<Longrightarrow> task_cells x = task_cells y"
  by (simp_all add: kin_def waits_for_def task_cells_def)

text \<open>
  The task \<open>t\<close> of job \<open>j\<close> has been run: it has left the tasks \<open>ts\<close> in the worker's deque and made the calls
  \<open>cs\<close>, which together have its indices.
\<close>

definition ran :: "(task_ref \<Rightarrow> job_ref) \<Rightarrow> nat \<Rightarrow> task_ref \<Rightarrow> task_ref list \<Rightarrow> (sc_fn \<times> ptr \<times> size_t \<times> size_t) list \<Rightarrow> sched \<Rightarrow> sched \<Rightarrow> bool" where
  "ran jo tid t ts cs s s' \<longleftrightarrow> own_deque tid s' = own_deque tid s @ ts \<and> others_view tid s' = others_view tid s
     \<and> distinct ts \<and> set ts \<subseteq> avail s \<and> avail s - set ts \<subseteq> avail s' \<and> calls s' = calls s @ cs
     \<and> (\<forall>x\<in>set cs. call_of (job_function (jobs s (jo t))) (job_payload (jobs s (jo t))) x)
     \<and> task_cells (task_at s t) = (\<Sum>u\<in>#mset ts. task_cells (task_at s' u)) + (\<Sum>x\<in>#mset cs. call_cells x)
     \<and> (start_inx (task_at s t) < end_inx (task_at s t) \<longrightarrow> (\<Sum>x\<in>#mset cs. call_cells x) \<noteq> {#})
     \<and> (\<forall>u\<in>set ts. waits_for (jo t) (chunk_size (jobs s (jo t))) (task_at s' u) \<and> parent_task (task_at s' u) = Some t
          \<and> start_inx (task_at s' u) < end_inx (task_at s' u))
     \<and> (\<forall>u. u \<notin> avail s' \<longrightarrow> u \<notin> set ts \<longrightarrow> u \<noteq> t \<longrightarrow> kin (task_at s' u) (task_at s u))
     \<and> (t \<notin> avail s' \<longrightarrow> task_fn (task_at s' t) = None \<and> parent_task (task_at s' t) = parent_task (task_at s t))
     \<and> jobs s' = (\<lambda>j. if released_root jo s s' j then (jobs s j)\<lparr>job_state := JOB_STATE_DONE\<rparr> else jobs s j)"

lemma ranD:
  assumes "ran jo tid t ts cs s s'"
  shows "own_deque tid s' = own_deque tid s @ ts" "others_view tid s' = others_view tid s" "distinct ts" "set ts \<subseteq> avail s"
    and "avail s - set ts \<subseteq> avail s'" "calls s' = calls s @ cs"
    and "x \<in> set cs \<Longrightarrow> call_of (job_function (jobs s (jo t))) (job_payload (jobs s (jo t))) x"
    and "task_cells (task_at s t) = (\<Sum>u\<in>#mset ts. task_cells (task_at s' u)) + (\<Sum>x\<in>#mset cs. call_cells x)"
    and "start_inx (task_at s t) < end_inx (task_at s t) \<Longrightarrow> (\<Sum>x\<in>#mset cs. call_cells x) \<noteq> {#}"
    and "u \<in> set ts \<Longrightarrow> waits_for (jo t) (chunk_size (jobs s (jo t))) (task_at s' u)" "u \<in> set ts \<Longrightarrow> parent_task (task_at s' u) = Some t"
    and "u \<in> set ts \<Longrightarrow> start_inx (task_at s' u) < end_inx (task_at s' u)"
    and "u \<notin> avail s' \<Longrightarrow> u \<notin> set ts \<Longrightarrow> u \<noteq> t \<Longrightarrow> kin (task_at s' u) (task_at s u)"
    and "t \<notin> avail s' \<Longrightarrow> task_fn (task_at s' t) = None" "t \<notin> avail s' \<Longrightarrow> parent_task (task_at s' t) = parent_task (task_at s t)"
    and "jobs s' j = (if released_root jo s s' j then (jobs s j)\<lparr>job_state := JOB_STATE_DONE\<rparr> else jobs s j)"
  using assms by (simp_all add: ran_def)

text \<open>What a worker adds to its own deque is what is queued more.\<close>

lemma queued_grow:
  assumes "is_worker tid s" "others_view tid s' = others_view tid s" "own_deque tid s' = own_deque tid s @ ts"
  shows "queued_tasks s' = queued_tasks s + mset ts"
proof -
  let ?dq = "\<lambda>w :: task_ref sc_worker. deque_items (cl_deque w)"
  obtain ws where ws: "worker_pool s = Some ws" "tid < length ws" using assms(1) by (auto simp: is_worker_def split: option.splits)
  obtain ws' where ws': "worker_pool s' = Some ws'" "(map ?dq ws')[tid := []] = (map ?dq ws)[tid := []]" "map rb_items ws' = map rb_items ws"
    using assms(2) ws by (auto simp: others_view_def)
  have len: "length ws' = length ws" using arg_cong [OF ws'(3), of length] by simp
  have own: "?dq (ws' ! tid) = ?dq (ws ! tid) @ ts" using assms(3) ws ws' by (simp add: own_deque_def)
  have "map ?dq ws' = (map ?dq ws)[tid := ?dq (ws ! tid) @ ts]"
  proof (rule nth_equalityI)
    fix i assume "i < length (map ?dq ws')"
    then show "map ?dq ws' ! i = (map ?dq ws)[tid := ?dq (ws ! tid) @ ts] ! i"
      using own len arg_cong [OF ws'(2), of "\<lambda>xs. xs ! i"] by (cases "i = tid") simp_all
  qed (simp add: len)
  then have "deques s' = (deques s)[tid := deques s ! tid @ ts]" using ws ws' by (simp add: deques_def)
  moreover have "tid < length (deques s)" using ws by (simp add: deques_def)
  ultimately have "(\<Sum>xs\<in>#mset (deques s'). mset xs) + mset (deques s ! tid) = (\<Sum>xs\<in>#mset (deques s). mset xs) + mset (deques s ! tid @ ts)"
    using sum_update [of tid "deques s" mset "deques s ! tid @ ts"] by simp
  then have "(\<Sum>xs\<in>#mset (deques s'). mset xs) = (\<Sum>xs\<in>#mset (deques s). mset xs) + mset ts" by (simp add: ac_simps)
  moreover have "rings s' = rings s" using ws ws' by (simp add: rings_def)
  ultimately show ?thesis by (simp add: queued_split ac_simps)
qed

lemma queued_live:
  assumes "sim tid pc s g" "t \<in># queued_tasks s" shows "t < tasks_total" "t \<notin> avail s"
proof -
  note D = simD [OF assms(1)]
  have "role g t = Queued" using queued_role [OF D(7)] assms(2) D(3) by simp
  then show "t < tasks_total" "t \<notin> avail s" using roles_okD(4,5) [OF D(7), of t] D(4) by auto
qed

text \<open>After the function has returned: the count of the task is dropped, and perhaps the walk begins.\<close>

lemma ends_execute:
  assumes dev: "graph_dev dev" and fn: "task_fn (task_at s t) = Some f" and run: "run_task_fn dev tid f t (clear_fn t s) = Some s2"
    and g2: "sim tid (WRun t Body [] []) s2 g2" and none: "task_fn (task_at s2 t) = None" "parent_task (task_at s2 t) \<noteq> None"
    and tidy: "tidy jo {} s2"
  shows "\<exists>s' g'. execute_task dev tid t s = Some s' \<and> sim tid WIdle s' g' \<and> walks jo s2 s'"
proof -
  have cur: "tl_current_task s2 tid = Some t" using simD(8) [OF g2, of t] by simp
  obtain r s3 where drop: "drop_dep t s2 = (r, s3)" by (cases "drop_dep t s2")
  note W3 = drop_walks [OF drop, of jo]
  have same3: "avail s3 = avail s2" "queued_tasks s3 = queued_tasks s2" "kin (task_at s3 u) (task_at s2 u)" "tl_current_task s3 = tl_current_task s2" for u
    using drop by (auto simp: drop_dep_def upd_task_pool)
  obtain g3 where g3: "sim tid (if r = 1 then WLast t else WIdle) s3 g3"
    using follows_return [OF drop, of tid Body] g2 unfolding follows_def last_pc.simps by blast
  show ?thesis
  proof (cases "r = 1")
    case False
    then have "execute_task dev tid t s = Some s3" using fn run cur drop by (simp add: execute_task_def)
    with False g3 W3 show ?thesis by auto
  next
    case True
    with g3 have g3: "sim tid (WLast t) s3 g3" by simp
    have t3: "task_fn (task_at s3 t) = None" "parent_task (task_at s3 t) \<noteq> None" using same3(3) [of t] none by (simp_all add: kin_def)
    let ?s4 = "release tid t s3"
    have loop: "continuation_loop dev tid s3 = Some (1, s3)" using cur same3(4) t3(1) by (subst continuation_loop.simps) simp
    obtain g4 where g4: "sim tid (after_release (parent_task (task_at s3 t))) ?s4 g4"
      using follows_finish [OF disjI1 [OF refl] t3(1), of tid] g3 by (auto simp: follows_def)
    have live: "t < tasks_total" "t \<notin> avail s3" using held_live [OF g3, of t] by (simp_all add: held_def)
    have W4: "walks jo s3 ?s4" by (rule release_walks [OF simD(5) [OF g3] live t3(2)])
    have "tidy jo {} ?s4"
      by (rule kin_tidy [OF tidy]) (use walksD(3,4) [OF walks_trans [OF W3 W4]] same3(2) in \<open>simp_all\<close>)
    from climb_walks [OF dev g4 this] obtain s' g' where X: "climb dev tid (parent_task (task_at s3 t)) ?s4 = Some s'"
        "walks jo ?s4 s'" "sim tid WIdle s' g'" by blast
    have "execute_task dev tid t s = Some s'"
      using fn run cur drop True loop same3(4) X(1) by (simp add: execute_task_def)
    with X(3) walks_trans [OF W3 walks_trans [OF W4 X(2)]] show ?thesis by blast
  qed
qed

lemma execute_ran:
  assumes leaf: "leaf_dev dev" and g: "sim tid (WTake t) s g" and tidy: "tidy jo {t} s"
    and t: "waits_for (jo t) (chunk_size (jobs s (jo t))) (task_at s t)" and c: "chunk_size (jobs s (jo t)) \<noteq> 0"
  shows "\<exists>s' g' ts cs. execute_task dev tid t s = Some s' \<and> sim tid WIdle s' g' \<and> ran jo tid t ts cs s s'"
proof -
  let ?f = "job_function (jobs s (jo t))" and ?p = "job_payload (jobs s (jo t))" and ?c = "chunk_size (jobs s (jo t))"
  let ?s0 = "clear_fn t s" and ?a = "start_inx (task_at s t)" and ?b = "end_inx (task_at s t)"
  note D = simD [OF g] and dev = leaf_graph [OF leaf]
  have on: "on_task (WTake t) = Some t" by simp
  note P = held_live [OF g sim_parent(2) [OF g on]]
  have fn: "task_fn (task_at s t) = Some SplitterFn" "task_payload (task_at s t) = JobPtr (jo t)" using t by (simp_all add: waits_for_def)
  have run0: "running tid t ?s0" using D(5,6) D(8) [OF on] P(1,2) by (simp add: running_def)
  obtain s1 s2 ts cs e where R: "internal_macro_job_splitter dev tid (JobPtr (jo t)) ?a ?b ?s0 = Some s2" "dispatched tid t ts cs ?s0 s1"
      "s2 = (upd_task t (task_payload_update (\<lambda>_. ?p)) s1)\<lparr>calls := calls s1 @ [(?f, ?p, ?a, e)]\<rparr>"
      "running tid t s2" "?a \<le> e" "?a < ?b \<longrightarrow> ?a < e"
      "covered (split_child (jo t) t ?c) (call_of ?f ?p) ts (cs @ [(?f, ?p, ?a, e)]) s2 (cells ?a ?b)"
    by (rule splitter_result [OF run0 leaf, of "jo t" ?a ?b ?f ?p]) (use t c in \<open>auto simp: waits_for_def\<close>)
  note E = dispatchedD [OF R(2)]
  let ?cs = "cs @ [(?f, ?p, ?a, e)]" and ?jo = "\<lambda>u. if u \<in> set ts then jo t else jo u"
  have at2: "task_at s2 u = (if u = t then task_payload_update (\<lambda>_. ?p) (task_at s1 t) else task_at s1 u)" for u
    by (simp add: R(3) task_at_def upd_task_def)
  have avail2: "avail s2 = avail s - set ts" using E(7) by (simp add: R(3) upd_task_pool)
  have kids: "split_child (jo t) t ?c (task_at s2 u)" if "u \<in> set ts" for u using R(7) that by (simp add: covered_def)
  have t2: "task_fn (task_at s2 t) = None" "parent_task (task_at s2 t) = parent_task (task_at s t)"
    using same_task_fields [OF E(8)] by (simp_all add: at2)
  have old: "kin (task_at s2 u) (task_at s u)" if "u \<notin> avail s" "u \<noteq> t" for u
    using E(9) [of u] that by (simp add: at2 same_kin)
  have run: "run_task_fn dev tid SplitterFn t ?s0 = Some s2" using fn R(1) by (simp add: run_task_fn_def)
  have own2: "own_deque tid s2 = own_deque tid s @ ts" using E(3) by (simp add: R(3) own_deque_def)
  have oth2: "others_view tid s2 = others_view tid s"
    using others.view_run [OF others.leaf_keeps [OF leaf] run] by (simp add: others.upd)
  have "is_worker tid s2" using R(4) by (simp add: running_def)
  have q2: "queued_tasks s2 = queued_tasks s + mset ts" by (rule queued_grow [OF D(6) oth2 own2])
  have tidy2: "tidy ?jo {} s2"
    unfolding tidy_def
  proof (intro allI impI)
    fix u assume u: "u < tasks_total" "u \<notin> avail s2"
    show "if parent_task (task_at s2 u) = None then root_waiting (?jo u) (task_at s2 u)
        else u \<notin># queued_tasks s2 \<longrightarrow> task_fn (task_at s2 u) = None"
    proof (cases "u \<in> set ts \<or> u = t")
      case True
      then show ?thesis using kids [of u] q2 t2 D(9) [OF on] by (auto simp: split_child_def)
    next
      case False
      then have "u \<notin> avail s" "kin (task_at s2 u) (task_at s u)" using u(2) avail2 old [of u] by auto
      with False tidyD [OF tidy u(1), of] q2 show ?thesis by (auto simp: kin_def root_waiting_def)
    qed
  qed
  have "follows tid (WTake t) s (WRun t Body [] []) s2"
    using follows_trans [OF follows_start [OF fn(1)] follows_run_fn [OF dev _ run]] by simp
  then obtain g2 where g2: "sim tid (WRun t Body [] []) s2 g2" using g by (auto simp: follows_def)
  obtain s' g' where X: "execute_task dev tid t s = Some s'" "sim tid WIdle s' g'" "walks ?jo s2 s'"
    using ends_execute [OF dev fn(1) run g2 t2(1) _ tidy2] t2(2) D(9) [OF on] by auto
  note W = walksD [OF X(3)]
  have own': "own_deque tid s' = own_deque tid s @ ts" and oth': "others_view tid s' = others_view tid s"
    using W(1) own2 oth2 by (simp_all add: own_deque_def others_view_def)
  have live': "u \<notin> avail s'" if "u \<in> set ts" for u
    using queued_live(2) [OF X(2), of u] queued_grow [OF D(6) oth' own'] that by simp
  have kids': "kin (task_at s' u) (task_at s2 u)" if "u \<in> set ts" for u by (rule W(4) [OF live' [OF that]])
  have kid_fields: "waits_for (jo t) ?c (task_at s' u) \<and> parent_task (task_at s' u) = Some t \<and> start_inx (task_at s' u) < end_inx (task_at s' u)"
    if "u \<in> set ts" for u
    using kids [OF that] kids' [OF that] by (auto simp: split_child_def waits_for_def kin_def less_imp_le)
  have cells: "task_cells (task_at s t) = (\<Sum>u\<in>#mset ts. task_cells (task_at s' u)) + (\<Sum>x\<in>#mset ?cs. call_cells x)"
  proof -
    have "(\<Sum>u\<in>#mset ts. task_cells (task_at s' u)) = (\<Sum>u\<in>#mset ts. task_cells (task_at s2 u))"
      using kin_waits(2) [OF kids'] by (intro arg_cong [of _ _ sum_mset] image_mset_cong) simp
    moreover have "task_cells (task_at s t) = (\<Sum>u\<in>#mset ts. task_cells (task_at s2 u)) + (\<Sum>x\<in>#mset ?cs. call_cells x)"
      using R(7) unfolding covered_def task_cells_def by blast
    ultimately show ?thesis by simp
  qed
  have some: "(\<Sum>x\<in>#mset ?cs. call_cells x) \<noteq> {#}" if "?a < ?b"
    using R(6) that by (auto simp: cells_def word_less_nat_alt mset_set_empty_iff)
  have old': "kin (task_at s' u) (task_at s u)" if "u \<notin> avail s'" "u \<notin> set ts" "u \<noteq> t" for u
  proof (rule kin_trans [OF W(4) [OF that(1)]])
    show "kin (task_at s2 u) (task_at s u)" using old [OF _ that(3)] W(3) avail2 that(1,2) by blast
  qed
  have mine: "task_fn (task_at s' t) = None" "parent_task (task_at s' t) = parent_task (task_at s t)" if "t \<notin> avail s'"
    using W(4) [OF that] t2 by (simp_all add: kin_def)
  have "released_root ?jo s2 s' j \<longleftrightarrow> released_root jo s s' j" for j
  proof -
    have "r \<notin> avail s2 \<and> r \<in> avail s' \<and> parent_task (task_at s2 r) = None \<and> ?jo r = j
        \<longleftrightarrow> r \<notin> avail s \<and> r \<in> avail s' \<and> parent_task (task_at s r) = None \<and> jo r = j" for r
    proof (cases "r \<in> set ts \<or> r = t")
      case True
      then show ?thesis using live' [of r] E(6) D(9) [OF on] P(2) avail2 t2(2) by (auto simp: upd_task_pool)
    next
      case False
      then show ?thesis using avail2 old [of r] by (auto simp: kin_def)
    qed
    then show ?thesis by (simp add: released_root_def)
  qed
  then have jobs: "jobs s' = (\<lambda>j. if released_root jo s s' j then (jobs s j)\<lparr>job_state := JOB_STATE_DONE\<rparr> else jobs s j)"
    using W(5) E(2) by (simp add: fun_eq_iff R(3))
  have "ran jo tid t ts ?cs s s'"
    unfolding ran_def
    using own' oth' E(4-7) W(2,3) avail2 R(7) cells some kid_fields old' mine jobs
    by (intro conjI) (auto simp: covered_def R(3))
  with X(1,2) show ?thesis by blast
qed

end
