(* ===== verification/Crowd.thy ===== *)
theory Crowd
  imports CrowdTask
begin

text \<open>
  Any number of jobs on any number of workers. The workers make their rounds and application threads initialise and
  submit jobs in any order; developer functions work on their own data. The relation \<open>schedule\<close> has all such
  runs, and \<open>crowd\<close> is what holds between two rounds: which job each task belongs to, that queued tasks are
  parts of their jobs, and that a job is complete exactly when its root task is back in the pool.
\<close>

section \<open>All jobs\<close>

text \<open>
  The state between two rounds, with the accepted requests \<open>js\<close>: every task in use belongs to the job of its
  parent, every queued task is a part of its job, and a job is incomplete as long as its one root is in use.
\<close>

definition live_root :: "(task_ref \<Rightarrow> job_ref) \<Rightarrow> sched \<Rightarrow> job_ref \<Rightarrow> task_ref \<Rightarrow> bool" where
  "live_root jo s j r \<longleftrightarrow> r < tasks_total \<and> r \<notin> avail s \<and> parent_task (task_at s r) = None \<and> jo r = j"

definition recorded :: "(job_ref \<Rightarrow> sc_job) \<Rightarrow> job_request \<Rightarrow> bool" where
  "recorded jb r \<longleftrightarrow> (case r of (j, payload, psize, f, chunk) \<Rightarrow>
     job_function (jb j) = f \<and> job_payload (jb j) = payload \<and> payload_size (jb j) = psize \<and> chunk_size (jb j) \<noteq> 0)"

definition crowd :: "(task_ref \<Rightarrow> job_ref) \<Rightarrow> sched \<Rightarrow> job_request list \<Rightarrow> bool" where
  "crowd jo s js \<longleftrightarrow> (\<exists>g. at_rest s g) \<and> tidy jo {} s
     \<and> (\<forall>t<tasks_total. t \<notin> avail s \<longrightarrow> jo t \<in> fst ` set js \<and> (\<forall>p. parent_task (task_at s t) = Some p \<longrightarrow> jo p = jo t))
     \<and> (\<forall>t\<in>#queued_tasks s. waits_for (jo t) (chunk_size (jobs s (jo t))) (task_at s t) \<and> parent_task (task_at s t) \<noteq> None)
     \<and> (\<forall>j r r'. live_root jo s j r \<longrightarrow> live_root jo s j r' \<longrightarrow> r = r')
     \<and> distinct (map fst js) \<and> (\<forall>r\<in>set js. recorded (jobs s) r)
     \<and> (\<forall>j\<in>fst ` set js. scheduler_is_job_complete (job_state (jobs s j)) \<longleftrightarrow> (\<nexists>r. live_root jo s j r))"

lemma crowdD:
  assumes "crowd jo s js"
  shows "\<exists>g. at_rest s g" "tidy jo {} s" "t < tasks_total \<Longrightarrow> t \<notin> avail s \<Longrightarrow> jo t \<in> fst ` set js"
    and "t < tasks_total \<Longrightarrow> t \<notin> avail s \<Longrightarrow> parent_task (task_at s t) = Some p \<Longrightarrow> jo p = jo t"
    and "t \<in># queued_tasks s \<Longrightarrow> waits_for (jo t) (chunk_size (jobs s (jo t))) (task_at s t)"
    and "t \<in># queued_tasks s \<Longrightarrow> parent_task (task_at s t) \<noteq> None"
    and "live_root jo s j r \<Longrightarrow> live_root jo s j r' \<Longrightarrow> r = r'" "distinct (map fst js)" "x \<in> set js \<Longrightarrow> recorded (jobs s) x"
    and "j \<in> fst ` set js \<Longrightarrow> scheduler_is_job_complete (job_state (jobs s j)) \<longleftrightarrow> (\<nexists>r. live_root jo s j r)"
  using assms unfolding crowd_def by blast+

lemma crowdI:
  assumes "at_rest s g" "tidy jo {} s" "\<And>t. t < tasks_total \<Longrightarrow> t \<notin> avail s \<Longrightarrow> jo t \<in> fst ` set js"
    and "\<And>t p. t < tasks_total \<Longrightarrow> t \<notin> avail s \<Longrightarrow> parent_task (task_at s t) = Some p \<Longrightarrow> jo p = jo t"
    and "\<And>t. t \<in># queued_tasks s \<Longrightarrow> waits_for (jo t) (chunk_size (jobs s (jo t))) (task_at s t)"
    and "\<And>t. t \<in># queued_tasks s \<Longrightarrow> parent_task (task_at s t) \<noteq> None"
    and "\<And>j r r'. live_root jo s j r \<Longrightarrow> live_root jo s j r' \<Longrightarrow> r = r'" "distinct (map fst js)" "\<And>x. x \<in> set js \<Longrightarrow> recorded (jobs s) x"
    and "\<And>j. j \<in> fst ` set js \<Longrightarrow> scheduler_is_job_complete (job_state (jobs s j)) \<longleftrightarrow> (\<nexists>r. live_root jo s j r)"
  shows "crowd jo s js"
  unfolding crowd_def
  by (intro conjI exI [of _ g] allI ballI impI) (rule assms; assumption)+

lemma rest_live:
  assumes "at_rest s g"
  shows "t \<in># queued_tasks s \<Longrightarrow> t < tasks_total \<and> t \<notin> avail s"
    and "t < tasks_total \<Longrightarrow> t \<notin> avail s \<Longrightarrow> parent_task (task_at s t) = Some p \<Longrightarrow>
      p < tasks_total \<and> p \<notin> avail s \<and> depth g p < depth g t"
proof -
  have reach: "graph_reachable tasks_total g" and ag: "agrees s g" using assms by (simp_all add: at_rest_def)
  note D = roles_okD [OF reachableD(1) [OF reach]]
  show "t < tasks_total \<and> t \<notin> avail s" if "t \<in># queued_tasks s"
  proof -
    have "role g t = Queued" using queued_role [OF reachableD(1) [OF reach]] that ag by (simp add: agrees_def)
    then show ?thesis using D(4,5) [of t] ag by (auto simp: agrees_def)
  qed
  show "p < tasks_total \<and> p \<notin> avail s \<and> depth g p < depth g t"
    if t: "t < tasks_total" "t \<notin> avail s" "parent_task (task_at s t) = Some p"
  proof -
    have live: "role g t \<noteq> Free" using D(4) [of t] t ag by (simp add: agrees_def)
    have par: "parent g t = Some p" using t ag by (simp add: agrees_def task_agrees_def)
    have "role g p \<noteq> Free" by (rule parent_live [OF reachableD(1,2) [OF reach] live par])
    moreover have "depth g p < depth g t" using reachableD(4) [OF reach, of t] live par by (simp add: depth_at_def)
    ultimately show ?thesis using D(4,5) [of p] ag by (auto simp: agrees_def)
  qed
qed

text \<open>The jobs of the tasks after a run.\<close>

abbreviation heirs :: "(task_ref \<Rightarrow> job_ref) \<Rightarrow> task_ref \<Rightarrow> task_ref list \<Rightarrow> task_ref \<Rightarrow> job_ref" where
  "heirs jo t ts \<equiv> \<lambda>u. if u \<in> set ts then jo t else jo u"

lemma crowd_ran:
  assumes crowd: "crowd jo s js" and ran: "ran jo tid t ts cs s2 s'" and g: "sim tid (WTake t) s2 g2" and g': "sim tid WIdle s' g'"
    and same: "task_at s2 = task_at s" "avail s2 = avail s" "jobs s2 = jobs s" and q: "queued_tasks s = add_mset t (queued_tasks s2)"
  shows "crowd (heirs jo t ts) s' js"
proof -
  note C = crowdD [OF crowd] and R = ranD [OF ran, unfolded same]
  obtain g0 where g0: "at_rest s g0" using C(1) by blast
  have g1: "at_rest s' g'" using g' by (simp add: at_rest_sim)
  have q': "queued_tasks s' = queued_tasks s2 + mset ts" by (rule queued_grow [OF simD(6) [OF g] R(2,1)])
  have t: "t < tasks_total" "t \<notin> avail s" using rest_live(1) [OF g0, of t] q by simp_all
  have tq: "t \<notin># queued_tasks s2"
    using owned_live(4) [OF simD(7) [OF g], of t tid] simD(2,3) [OF g] by simp
  have par: "parent_task (task_at s t) \<noteq> None" using C(6) [of t] q by simp
  have tts: "t \<notin> set ts" using R(4) t(2) by auto
  text \<open>A live task is a new one, the one that has run, or an old one.\<close>
  have old: "u \<notin> avail s" "kin (task_at s' u) (task_at s u)" if "u \<notin> avail s'" "u \<notin> set ts" "u \<noteq> t" for u
    using R(5,13) that by blast+
  have oldt: "u \<notin> avail s" if "u \<notin> avail s'" "u \<notin> set ts" for u using R(5) that by blast
  have parent: "parent_task (task_at s' u) = (if u \<in> set ts then Some t else parent_task (task_at s u))" if "u \<notin> avail s'" for u
    using R(11) [of u] R(15) old(2) [OF that] that by (cases "u = t") (auto simp: kin_def tts)
  have tidy: "tidy (heirs jo t ts) {} s'"
    unfolding tidy_def
  proof (intro allI impI)
    fix u assume u: "u < tasks_total" "u \<notin> avail s'"
    show "if parent_task (task_at s' u) = None then root_waiting (heirs jo t ts u) (task_at s' u)
        else u \<notin># queued_tasks s' \<longrightarrow> task_fn (task_at s' u) = None"
    proof (cases "u \<in> set ts \<or> u = t")
      case True
      then show ?thesis using parent [OF u(2)] par q' R(14) u(2) by auto
    next
      case False
      then have k: "u \<notin> avail s" "kin (task_at s' u) (task_at s u)" using old [OF u(2)] by auto
      with False tidyD [OF C(2) u(1), of] q q' show ?thesis by (auto simp: kin_def root_waiting_def)
    qed
  qed
  have live: "heirs jo t ts u \<in> fst ` set js \<and> (\<forall>p. parent_task (task_at s' u) = Some p \<longrightarrow> heirs jo t ts p = heirs jo t ts u)"
    if u: "u < tasks_total" "u \<notin> avail s'" for u
  proof (cases "u \<in> set ts")
    case True
    then show ?thesis using parent [OF u(2)] C(3) [OF t] tts by simp
  next
    case False
    then have ua: "u \<notin> avail s" using oldt u(2) by blast
    have "heirs jo t ts p = jo u" if p: "parent_task (task_at s u) = Some p" for p
      using rest_live(2) [OF g0 u(1) ua p] C(4) [OF u(1) ua p] R(4) by auto
    then show ?thesis using False parent [OF u(2)] C(3) [OF u(1) ua] by simp
  qed
  have waits: "waits_for (heirs jo t ts u) (chunk_size (jobs s' (heirs jo t ts u))) (task_at s' u) \<and> parent_task (task_at s' u) \<noteq> None"
    if u: "u \<in># queued_tasks s'" for u
  proof -
    have chunk: "chunk_size (jobs s' j) = chunk_size (jobs s j)" for j using R(16) [of j] by simp
    have ua: "u \<notin> avail s'" using rest_live(1) [OF g1 u] by simp
    show ?thesis
    proof (cases "u \<in> set ts")
      case True
      then show ?thesis using R(10,11) chunk by simp
    next
      case False
      then have us: "u \<in># queued_tasks s2" using u q' by simp
      then have "u \<noteq> t" using tq by auto
      then have "kin (task_at s' u) (task_at s u)" using old(2) [OF ua False] by simp
      then have k: "waits_for j c (task_at s' u) = waits_for j c (task_at s u)" "parent_task (task_at s' u) = parent_task (task_at s u)" for j c
        by (rule kin_waits(1), simp add: kin_def)
      have "u \<in># queued_tasks s" using us q by simp
      then show ?thesis using C(5,6) [of u] False chunk by (simp add: k)
    qed
  qed
  have root: "live_root (heirs jo t ts) s' j r \<longleftrightarrow> live_root jo s j r \<and> r \<notin> avail s'" for j r
  proof (cases "r \<in> set ts \<or> r \<in> avail s'")
    case True
    then show ?thesis using parent [of r] R(4) by (auto simp: live_root_def)
  next
    case False
    then show ?thesis using parent [of r] oldt [of r] by (simp add: live_root_def)
  qed
  have rec: "recorded (jobs s') x" if "x \<in> set js" for x
    using C(9) [OF that] by (auto simp: recorded_def R(16) split: if_splits)
  have complete: "scheduler_is_job_complete (job_state (jobs s' j)) \<longleftrightarrow> (\<nexists>r. live_root (heirs jo t ts) s' j r)" if j: "j \<in> fst ` set js" for j
  proof (cases "released_root jo s2 s' j")
    case True
    then obtain r where r: "r \<notin> avail s" "r \<in> avail s'" "parent_task (task_at s r) = None" "jo r = j"
      by (auto simp: released_root_def same)
    have "avail s' \<subseteq> {..<tasks_total}" using g1 by (intro avail_bound) (simp add: at_rest_def)
    then have "live_root jo s j r" using r by (auto simp: live_root_def)
    then have "\<nexists>r. live_root (heirs jo t ts) s' j r" using C(7) [of j r] r(2) root by blast
    moreover have "jobs s' j = (jobs s j)\<lparr>job_state := JOB_STATE_DONE\<rparr>" using R(16) [of j] True by simp
    ultimately show ?thesis by (simp add: scheduler_is_job_complete_def)
  next
    case False
    then have "jobs s' j = jobs s j" using R(16) [of j] by simp
    moreover have "live_root jo s j r \<Longrightarrow> r \<notin> avail s'" for r using False by (auto simp: released_root_def live_root_def same)
    ultimately show ?thesis using C(10) [OF j] root by auto
  qed
  show ?thesis
  proof (rule crowdI [OF g1 tidy _ _ _ _ _ C(8) rec complete])
    fix u assume u: "u < tasks_total" "u \<notin> avail s'"
    show "heirs jo t ts u \<in> fst ` set js" using live [OF u] by (rule conjunct1)
    show "heirs jo t ts p = heirs jo t ts u" if "parent_task (task_at s' u) = Some p" for p using live [OF u] that by blast
  next
    fix u assume u: "u \<in># queued_tasks s'"
    show "waits_for (heirs jo t ts u) (chunk_size (jobs s' (heirs jo t ts u))) (task_at s' u)" using waits [OF u] by (rule conjunct1)
    show "parent_task (task_at s' u) \<noteq> None" using waits [OF u] by (rule conjunct2)
  next
    fix j r r' assume "live_root (heirs jo t ts) s' j r" "live_root (heirs jo t ts) s' j r'"
    then show "r = r'" unfolding root using C(7) by blast
  qed
qed

lemma live_root_kin:
  assumes "\<And>u. u \<notin> avail s \<Longrightarrow> kin (task_at s' u) (task_at s u)" "avail s' = avail s"
  shows "live_root jo s' j r \<longleftrightarrow> live_root jo s j r"
  using assms by (auto simp: live_root_def kin_def)

lemma crowd_kin:
  assumes crowd: "crowd jo s js" and g: "at_rest s' g" and kin: "\<And>u. u \<notin> avail s \<Longrightarrow> kin (task_at s' u) (task_at s u)"
    and same: "avail s' = avail s" "jobs s' = jobs s" "queued_tasks s' = queued_tasks s"
  shows "crowd jo s' js"
proof -
  note C = crowdD [OF crowd]
  obtain g0 where g0: "at_rest s g0" using C(1) by blast
  have par: "parent_task (task_at s' u) = parent_task (task_at s u)" if "u \<notin> avail s" for u
    using kin [OF that] by (simp add: kin_def)
  have tidy: "tidy jo {} s'" by (rule kin_tidy [OF C(2) same(3)]) (simp_all add: kin same(1))
  note root = live_root_kin [OF kin same(1), of jo]
  have waits: "waits_for j c (task_at s' u) = waits_for j c (task_at s u)" "parent_task (task_at s' u) = parent_task (task_at s u)"
    if "u \<in># queued_tasks s" for u j c
    using rest_live(1) [OF g0 that] kin_waits(1) [OF kin] par by simp_all
  show ?thesis
    by (rule crowdI [OF g tidy _ _ _ _ _ C(8)])
      (use C(3,4,5,6,7,9,10) par waits in \<open>simp_all add: same root\<close>)
qed

text \<open>Every task in use is below the root of its job.\<close>

lemma live_below_root:
  assumes crowd: "crowd jo s js" and "t < tasks_total" "t \<notin> avail s"
  shows "\<exists>r. live_root jo s (jo t) r"
proof -
  obtain g where g: "at_rest s g" using crowdD(1) [OF crowd] by blast
  show ?thesis
    using assms(2,3)
  proof (induction "depth g t" arbitrary: t rule: less_induct)
    case less
    show ?case
    proof (cases "parent_task (task_at s t)")
      case None
      with less.prems show ?thesis unfolding live_root_def by blast
    next
      case (Some p)
      with less.hyps [of p] rest_live(2) [OF g less.prems Some] crowdD(4) [OF crowd less.prems Some] show ?thesis by simp
    qed
  qed
qed

lemma job_over:
  assumes crowd: "crowd jo s js" and j: "j \<notin> fst ` set js \<or> scheduler_is_job_complete (job_state (jobs s j))"
    and t: "t < tasks_total" "t \<notin> avail s"
  shows "jo t \<noteq> j"
  using live_below_root [OF crowd t] crowdD(3,10) [OF crowd] j t by blast

text \<open>The record of a job without tasks may be written.\<close>

lemma crowd_forget:
  assumes crowd: "crowd jo s js" and over: "\<And>t. t < tasks_total \<Longrightarrow> t \<notin> avail s \<Longrightarrow> jo t \<noteq> j"
  shows "crowd jo (s\<lparr>jobs := (jobs s)(j := x)\<rparr>) (filter (\<lambda>r. fst r \<noteq> j) js)"
proof -
  let ?s = "s\<lparr>jobs := (jobs s)(j := x)\<rparr>"
  note C = crowdD [OF crowd]
  obtain g where g: "at_rest s g" using C(1) by blast
  have g': "at_rest ?s g" by (rule at_rest_same [OF g]) simp_all
  have same: "task_at ?s = task_at s" "queued_tasks ?s = queued_tasks s" "avail ?s = avail s" by (simp_all add: fun_eq_iff task_at_def queued_tasks_def)
  have tidy: "tidy jo {} ?s" using C(2) by (simp add: tidy_def same)
  have root: "live_root jo ?s = live_root jo s" by (simp add: fun_eq_iff live_root_def same)
  have jo: "jo t \<noteq> j" if "t \<in># queued_tasks s" for t using rest_live(1) [OF g that] over by blast
  show ?thesis
  proof (rule crowdI [OF g' tidy])
    show "jo t \<in> fst ` set (filter (\<lambda>r. fst r \<noteq> j) js)" if "t < tasks_total" "t \<notin> avail ?s" for t
      using C(3) [of t] over [of t] that by (auto simp: same)
    show "distinct (map fst (filter (\<lambda>r. fst r \<noteq> j) js))" using C(8) by (rule distinct_map_filter)
    show "recorded (jobs ?s) y" if "y \<in> set (filter (\<lambda>r. fst r \<noteq> j) js)" for y
      using C(9) [of y] that by (auto simp: recorded_def split: prod.splits)
    show "scheduler_is_job_complete (job_state (jobs ?s i)) \<longleftrightarrow> (\<nexists>r. live_root jo ?s i r)" if "i \<in> fst ` set (filter (\<lambda>r. fst r \<noteq> j) js)" for i
    proof -
      have i: "i \<in> fst ` set js" "i \<noteq> j" using that by auto
      then show ?thesis using C(10) [OF i(1)] by (simp add: root)
    qed
  qed (use C(4,5,6,7) jo in \<open>auto simp: same root\<close>)
qed

text \<open>The two tasks of a new job.\<close>

lemma crowd_add:
  assumes crowd: "crowd jo s js" and g: "at_rest s' g" and kin: "\<And>u. u \<notin> avail s \<Longrightarrow> kin (task_at s' u) (task_at s u)"
    and new: "r \<noteq> c" "{r, c} \<subseteq> avail s" "avail s' = avail s - {r, c}" "task_at s' r = root_task j (jobs s' j) x"
      "task_at s' c = splitter_task j (jobs s' j) r y" "queued_tasks s' = add_mset c (queued_tasks s)" "jobs s' = jobs s"
    and job: "j \<notin> fst ` set js" "recorded (jobs s) (j, p, n, f, k)" "\<not> scheduler_is_job_complete (job_state (jobs s j))"
  shows "crowd (jo(r := j, c := j)) s' (js @ [(j, p, n, f, k)])"
proof -
  let ?jo = "jo(r := j, c := j)"
  note C = crowdD [OF crowd]
  obtain g0 where g0: "at_rest s g0" using C(1) by blast
  have bound: "avail s \<subseteq> {..<tasks_total}" using g0 by (intro avail_bound) (simp add: at_rest_def)
  have par: "parent_task (task_at s' u) = parent_task (task_at s u)" if "u \<notin> avail s" for u
    using kin [OF that] by (simp add: kin_def)
  have pars: "parent_task (task_at s' r) = None" "parent_task (task_at s' c) = Some r" using new(4,5) by (simp_all add: root_task_def splitter_task_def)
  have other: "u \<notin> avail s" if "u \<notin> avail s'" "u \<noteq> r" "u \<noteq> c" for u using that new(3) by blast
  have jo: "?jo u = jo u" if "u \<notin> avail s" for u using that new(2) by auto
  have nq: "r \<notin># queued_tasks s" using rest_live(1) [OF g0, of r] new(2) by auto
  have tidy: "tidy ?jo {} s'"
    unfolding tidy_def
  proof (intro allI impI)
    fix u assume u: "u < tasks_total" "u \<notin> avail s'"
    show "if parent_task (task_at s' u) = None then root_waiting (?jo u) (task_at s' u)
        else u \<notin># queued_tasks s' \<longrightarrow> task_fn (task_at s' u) = None"
    proof (cases "u = r \<or> u = c")
      case True
      then show ?thesis using new(1,4,5,6) by (auto simp: root_task_def splitter_task_def root_waiting_def)
    next
      case False
      then have k: "u \<notin> avail s" using other u(2) by blast
      with kin [OF k] jo [OF k] tidyD [OF C(2) u(1) k] new(6) show ?thesis by (auto simp: kin_def root_waiting_def)
    qed
  qed
  have root: "live_root ?jo s' i u \<longleftrightarrow> live_root jo s i u \<or> i = j \<and> u = r" for i u
  proof -
    consider "u = r" | "u = c" | "u \<noteq> r" "u \<noteq> c" by blast
    then show ?thesis
      by cases (use new(1,2,3) pars bound par [of u] in \<open>auto simp: live_root_def\<close>)
  qed
  have none: "\<not> live_root jo s j u" for u using C(3) [of u] job(1) by (auto simp: live_root_def)
  show ?thesis
  proof (rule crowdI [OF g tidy])
    fix u assume u: "u < tasks_total" "u \<notin> avail s'"
    show "?jo u \<in> fst ` set (js @ [(j, p, n, f, k)])"
      using C(3) [OF u(1)] other [OF u(2)] by auto
    show "?jo q = ?jo u" if q: "parent_task (task_at s' u) = Some q" for q
    proof (cases "u = r \<or> u = c")
      case True
      then show ?thesis using pars q new(1) by auto
    next
      case False
      then have k: "u \<notin> avail s" using other u(2) by blast
      then have p: "parent_task (task_at s u) = Some q" using par q by simp
      then have "q \<notin> avail s" using rest_live(2) [OF g0 u(1) k] by blast
      then show ?thesis using C(4) [OF u(1) k p] jo k by simp
    qed
  next
    fix u assume u: "u \<in># queued_tasks s'"
    show "waits_for (?jo u) (chunk_size (jobs s' (?jo u))) (task_at s' u)"
    proof (cases "u = c")
      case True
      then show ?thesis using new(5) by (simp add: waits_for_def splitter_task_def)
    next
      case False
      then have q: "u \<in># queued_tasks s" using u new(6) by simp
      then have k: "u \<notin> avail s" using rest_live(1) [OF g0] by blast
      then show ?thesis using C(5) [OF q] kin_waits(1) [OF kin [OF k]] jo [OF k] new(7) by simp
    qed
    show "parent_task (task_at s' u) \<noteq> None"
      using u new(6) pars(2) C(6) [of u] par [of u] rest_live(1) [OF g0, of u] by auto
  next
    show "a = b" if "live_root ?jo s' i a" "live_root ?jo s' i b" for i a b
      using that none C(7) unfolding root by blast
    show "distinct (map fst (js @ [(j, p, n, f, k)]))" using C(8) job(1) by simp
    show "recorded (jobs s') z" if "z \<in> set (js @ [(j, p, n, f, k)])" for z
      using that C(9) [of z] job(2) new(7) by (cases "z \<in> set js") simp_all
    show "scheduler_is_job_complete (job_state (jobs s' i)) \<longleftrightarrow> (\<nexists>u. live_root ?jo s' i u)" if "i \<in> fst ` set (js @ [(j, p, n, f, k)])" for i
      using that C(10) [of i] job(1,3) new(7) unfolding root by (cases "i = j") auto
  qed
qed

section \<open>The indices that are left\<close>

text \<open>What a call or a task stands for: the function, the payload and the index of every element.\<close>

definition marks :: "sc_fn \<Rightarrow> ptr \<Rightarrow> nat multiset \<Rightarrow> (sc_fn \<times> ptr \<times> nat) multiset" where
  "marks f p M = image_mset (\<lambda>i. (f, p, i)) M"

definition call_marks :: "(sc_fn \<times> ptr \<times> size_t \<times> size_t) list \<Rightarrow> (sc_fn \<times> ptr \<times> nat) multiset" where
  "call_marks cs = (\<Sum>(f, p, a, b)\<in>#mset cs. marks f p (cells a b))"

definition request_marks :: "job_request list \<Rightarrow> (sc_fn \<times> ptr \<times> nat) multiset" where
  "request_marks js = (\<Sum>(j, p, n, f, chunk)\<in>#mset js. marks f p (mset [0..<unat n]))"

definition task_marks :: "sched \<Rightarrow> task_ref \<Rightarrow> (sc_fn \<times> ptr \<times> nat) multiset" where
  "task_marks s t = (case task_payload (task_at s t) of
     JobPtr j \<Rightarrow> marks (job_function (jobs s j)) (job_payload (jobs s j)) (task_cells (task_at s t)) | _ \<Rightarrow> {#})"

definition pending :: "sched \<Rightarrow> (sc_fn \<times> ptr \<times> nat) multiset" where
  "pending s = (\<Sum>t\<in>#queued_tasks s. task_marks s t)"

text \<open>The rounds that are left at most.\<close>

definition rounds_left :: "sched \<Rightarrow> nat" where
  "rounds_left s = (\<Sum>t\<in>#queued_tasks s. max 1 (size (task_cells (task_at s t))))"

lemma marks_add: "marks f p (A + B) = marks f p A + marks f p B" and marks_empty [simp]: "marks f p {#} = {#}"
  by (simp_all add: marks_def)

lemma sum_mset_eq: "(\<And>x. x \<in># M \<Longrightarrow> f x = g x) \<Longrightarrow> (\<Sum>x\<in>#M. f x) = (\<Sum>x\<in>#M. g x)"
  by (rule arg_cong [OF image_mset_cong])

lemma marks_sum: "marks f p (\<Sum>x\<in>#M. g x) = (\<Sum>x\<in>#M. marks f p (g x))"
  by (induction M) (simp_all add: marks_add)

lemma call_marks_append: "call_marks (xs @ ys) = call_marks xs + call_marks ys"
  by (simp add: call_marks_def)

lemma call_marks_of: "(\<And>x. x \<in> set cs \<Longrightarrow> call_of f p x) \<Longrightarrow> call_marks cs = marks f p (\<Sum>x\<in>#mset cs. call_cells x)"
proof (induction cs)
  case (Cons x cs)
  obtain a b where "x = (f, p, a, b)" using Cons.prems [of x] by (cases x) (auto simp: call_of_def)
  with Cons show ?case by (simp add: call_marks_def marks_add)
qed (simp add: call_marks_def)

lemma size_marks [simp]: "size (marks f p M) = size M"
  by (simp add: marks_def)

lemma kin_marks:
  assumes "kin (task_at s' u) (task_at s u)" "\<And>j. job_function (jobs s' j) = job_function (jobs s j) \<and> job_payload (jobs s' j) = job_payload (jobs s j)"
  shows "task_marks s' u = task_marks s u"
  using assms kin_waits(2) [OF assms(1)] by (auto simp: task_marks_def kin_def split: ptr.splits)

lemma waits_marks: "waits_for j c (task_at s u) \<Longrightarrow> task_marks s u = marks (job_function (jobs s j)) (job_payload (jobs s j)) (task_cells (task_at s u))"
  by (simp add: task_marks_def waits_for_def)

lemma ran_marks:
  assumes crowd: "crowd jo s js" and ran: "ran jo tid t ts cs s2 s'" and g: "sim tid (WTake t) s2 g2" and g': "sim tid WIdle s' g'"
    and same: "task_at s2 = task_at s" "avail s2 = avail s" "jobs s2 = jobs s" and q: "queued_tasks s = add_mset t (queued_tasks s2)"
  shows "call_marks cs + pending s' = pending s" and "rounds_left s' < rounds_left s"
proof -
  note C = crowdD [OF crowd] and R = ranD [OF ran, unfolded same]
  obtain g0 where g0: "at_rest s g0" using C(1) by blast
  have g1: "at_rest s' g'" using g' by (simp add: at_rest_sim)
  let ?F = "job_function (jobs s (jo t))" and ?P = "job_payload (jobs s (jo t))"
  have q': "queued_tasks s' = queued_tasks s2 + mset ts" by (rule queued_grow [OF simD(6) [OF g] R(2,1)])
  have tq: "t \<notin># queued_tasks s2"
    using owned_live(4) [OF simD(7) [OF g], of t tid] simD(2,3) [OF g] by simp
  have old: "kin (task_at s' u) (task_at s u)" if u: "u \<in># queued_tasks s2" for u
  proof (rule R(13))
    show "u \<notin> avail s'" using rest_live(1) [OF g1, of u] q' u by simp
    show "u \<notin> set ts" using rest_live(1) [OF g0, of u] q u R(4) by auto
    show "u \<noteq> t" using tq u by auto
  qed
  have job: "job_function (jobs s' j) = job_function (jobs s j) \<and> job_payload (jobs s' j) = job_payload (jobs s j)" for j
    using R(16) [of j] by simp
  have new: "task_marks s' u = marks ?F ?P (task_cells (task_at s' u))" if "u \<in># mset ts" for u
    using waits_marks [OF R(10), of u] that job by simp
  have t: "task_marks s t = marks ?F ?P (task_cells (task_at s t))" using waits_marks [OF C(5), of t] q by simp
  have cells: "task_cells (task_at s t) = (\<Sum>u\<in>#mset ts. task_cells (task_at s' u)) + (\<Sum>x\<in>#mset cs. call_cells x)" by (rule R(8))
  have calls: "call_marks cs = marks ?F ?P (\<Sum>x\<in>#mset cs. call_cells x)" by (rule call_marks_of) (rule R(7))
  have "pending s' = (\<Sum>u\<in>#queued_tasks s2. task_marks s u) + marks ?F ?P (\<Sum>u\<in>#mset ts. task_cells (task_at s' u))"
    using sum_mset_eq [of "queued_tasks s2" "task_marks s'", OF kin_marks [OF old job]] sum_mset_eq [of "mset ts" "task_marks s'", OF new]
    by (simp add: pending_def q' marks_sum)
  then show "call_marks cs + pending s' = pending s"
    unfolding pending_def q by (simp add: t cells marks_add calls ac_simps)
  have some: "start_inx (task_at s' u) < end_inx (task_at s' u)" if "u \<in> set ts" for u by (rule R(12) [OF that])
  have one: "max 1 (size (task_cells (task_at s' u))) = size (task_cells (task_at s' u))" if "u \<in># mset ts" for u
    using some [of u] that by (simp add: task_cells_def cells_def word_less_nat_alt)
  have kept: "max 1 (size (task_cells (task_at s' u))) = max 1 (size (task_cells (task_at s u)))" if "u \<in># queued_tasks s2" for u
    by (simp add: kin_waits(2) [OF old [OF that]])
  have left: "rounds_left s' = (\<Sum>u\<in>#queued_tasks s2. max 1 (size (task_cells (task_at s u)))) + size (\<Sum>u\<in>#mset ts. task_cells (task_at s' u))"
    using sum_mset_eq [of "queued_tasks s2", OF kept] sum_mset_eq [of "mset ts", OF one] by (simp add: rounds_left_def q' image_mset.compositionality comp_def)
  have "size (\<Sum>u\<in>#mset ts. task_cells (task_at s' u)) < max 1 (size (task_cells (task_at s t)))"
  proof (cases "start_inx (task_at s t) < end_inx (task_at s t)")
    case True
    then have "0 < size (\<Sum>x\<in>#mset cs. call_cells x)" using R(9) by (simp only: nonempty_has_size)
    then show ?thesis using cells by simp
  next
    case False
    then have "task_cells (task_at s t) = {#}" by (simp add: task_cells_def cells_def word_less_nat_alt)
    then show ?thesis using cells by simp
  qed
  then show "rounds_left s' < rounds_left s" using left by (simp add: rounds_left_def q)
qed

section \<open>A round\<close>

lemma round_crowd:
  assumes leaf: "leaf_dev dev" and crowd: "crowd jo s js" and w: "is_worker tid s"
    and find: "find_task tid cores rng (set_current tid None s) = Some (r, rng', s1)"
  shows "\<exists>s' jo' cs. worker_iteration dev tid cores rng s = Some (rng', s') \<and> crowd jo' s' js \<and> calls s' = calls s @ cs
    \<and> call_marks cs + pending s' = pending s \<and> rounds_left s' + of_bool (r \<noteq> None) \<le> rounds_left s"
proof -
  let ?s = "set_current tid None s" and ?s2 = "set_current tid r s1"
  obtain g where "at_rest s g" using crowdD(1) [OF crowd] by blast
  then have g: "at_rest ?s g" by (rule at_rest_same) simp_all
  have w0: "is_worker tid ?s" using w by (simp add: is_worker_def)
  have T: "took r ?s s1" by (rule find_took [OF _ find]) (use g in \<open>simp add: at_rest_def\<close>)
  then have "only_workers ?s s1" and q: "queued_tasks ?s = queued_tasks s1 + task_bag r" by (simp_all add: took_def)
  note W = only_workersD [OF this(1)]
  have same: "task_at ?s2 = task_at s" "avail ?s2 = avail s" "jobs ?s2 = jobs s" "calls ?s2 = calls s"
    using W by (simp_all add: fun_eq_iff task_at_def)
  have q2: "queued_tasks s = queued_tasks ?s2 + task_bag r" using q by (simp add: queued_tasks_def)
  show ?thesis
  proof (cases r)
    case None
    have it: "worker_iteration dev tid cores rng s = Some (rng', ?s2)" using find None by (simp add: worker_iteration_def)
    obtain g' where g': "at_rest ?s2 g'"
      using round_refines [OF leaf_graph [OF leaf] it \<open>at_rest s g\<close> w] by blast
    have q3: "queued_tasks ?s2 = queued_tasks s" using q2 None by (simp add: task_bag_def)
    have "crowd jo ?s2 js" by (rule crowd_kin [OF crowd g']) (use same q3 in simp_all)
    moreover have "task_marks ?s2 = task_marks s" by (intro ext) (simp only: task_marks_def same)
    then have "pending ?s2 = pending s" "rounds_left ?s2 = rounds_left s"
      by (simp_all only: pending_def rounds_left_def q3 same)
    ultimately show ?thesis using it same(4) None by (intro exI [of _ ?s2] exI [of _ jo] exI [of _ "[]"]) (simp add: call_marks_def)
  next
    case (Some t)
    have q3: "queued_tasks s = add_mset t (queued_tasks ?s2)" using q2 Some by (simp add: task_bag_def)
    obtain g2 where g2: "sim tid (WTake t) ?s2 g2"
      using follows_take [of t ?s s1 tid] T g w0 unfolding Some follows_def at_rest_sim by blast
    have tq: "t \<in># queued_tasks s" using q3 by simp
    have tidy: "tidy jo {t} ?s2"
      unfolding tidy_def same
    proof (intro allI impI)
      fix u assume u: "u < tasks_total" "u \<notin> avail s" "u \<notin> {t}"
      have none: "u \<notin> {}" by simp
      from u have "u \<in># queued_tasks ?s2 \<longleftrightarrow> u \<in># queued_tasks s" unfolding q3 by simp
      with crowdD(2) [OF crowd, unfolded tidy_def, rule_format, OF u(1,2) none]
      show "if parent_task (task_at s u) = None then root_waiting (jo u) (task_at s u)
          else u \<notin># queued_tasks ?s2 \<longrightarrow> task_fn (task_at s u) = None"
        by (simp only:)
    qed
    have c: "chunk_size (jobs s (jo t)) \<noteq> 0"
    proof -
      have "jo t \<in> fst ` set js" using crowdD(3) [OF crowd] rest_live(1) [OF \<open>at_rest s g\<close> tq] by blast
      then obtain x where "x \<in> set js" "jo t = fst x" by auto
      with crowdD(9) [OF crowd, of x] show ?thesis by (auto simp: recorded_def)
    qed
    obtain s' g' ts cs where X: "execute_task dev tid t ?s2 = Some s'" "sim tid WIdle s' g'" "ran jo tid t ts cs ?s2 s'"
      using execute_ran [OF leaf g2 tidy] crowdD(5) [OF crowd tq] c by (auto simp: same)
    have "worker_iteration dev tid cores rng s = Some (rng', s')" using find X(1) Some by (simp add: worker_iteration_def)
    moreover have "crowd (heirs jo t ts) s' js" by (rule crowd_ran [OF crowd X(3) g2 X(2) same(1-3) q3])
    moreover have "calls s' = calls s @ cs" using ranD(6) [OF X(3)] same(4) by simp
    ultimately show ?thesis
      using ran_marks [OF crowd X(3) g2 X(2) same(1-3) q3] Some
      by (intro exI [of _ s'] exI [of _ "heirs jo t ts"] exI [of _ cs]) simp
  qed
qed

section \<open>A submission\<close>

lemma init_crowd:
  assumes crowd: "crowd jo s js" and free: "j \<notin> fst ` set js \<or> scheduler_is_job_complete (job_state (jobs s j))"
  shows "crowd jo (init_job j p n f s) (filter (\<lambda>r. fst r \<noteq> j) js)"
    and "pending (init_job j p n f s) = pending s" and "rounds_left (init_job j p n f s) = rounds_left s"
proof -
  have over: "jo t \<noteq> j" if "t < tasks_total" "t \<notin> avail s" for t using job_over [OF crowd free that] .
  show "crowd jo (init_job j p n f s) (filter (\<lambda>r. fst r \<noteq> j) js)" unfolding init_job_def by (rule crowd_forget [OF crowd over])
  obtain g where g: "at_rest s g" using crowdD(1) [OF crowd] by blast
  let ?s = "init_job j p n f s"
  have same: "task_at ?s = task_at s" "queued_tasks ?s = queued_tasks s" by (simp_all add: fun_eq_iff task_at_def queued_tasks_def init_job_def)
  have "task_marks ?s t = task_marks s t" if t: "t \<in># queued_tasks s" for t
  proof -
    have "jo t \<noteq> j" using rest_live(1) [OF g t] over by blast
    moreover have w: "waits_for (jo t) (chunk_size (jobs s (jo t))) (task_at s t)" by (rule crowdD(5) [OF crowd t])
    moreover have "task_marks ?s t = marks (job_function (jobs ?s (jo t))) (job_payload (jobs ?s (jo t))) (task_cells (task_at ?s t))"
      by (rule waits_marks) (use w same in simp)
    ultimately show ?thesis using waits_marks [OF w] same by (simp add: init_job_def)
  qed
  then show "pending ?s = pending s" unfolding pending_def same by (rule sum_mset_eq)
  show "rounds_left ?s = rounds_left s" by (simp add: rounds_left_def same)
qed

lemma submit_crowd:
  assumes crowd: "crowd jo s js" and bound: "rings_bounded s"
    and fresh: "j \<notin> fst ` set js" and state: "\<not> scheduler_is_job_complete (job_state (jobs s j))"
    and job: "jobs s j = x0" "job_payload x0 = p" "payload_size x0 = n" "job_function x0 = f"
    and sub: "scheduler_submit_job tid j chunk s = (ok, s')"
  shows "\<exists>jo'. crowd jo' s' (js @ (if ok then [(j, p, n, f, chunk)] else [])) \<and> calls s' = calls s
    \<and> pending s' = pending s + (if ok then request_marks [(j, p, n, f, chunk)] else {#})
    \<and> rounds_left s' = rounds_left s + (if ok then max 1 (unat n) else 0)"
proof -
  obtain g where g: "at_rest s g" using crowdD(1) [OF crowd] by blast
  have wf: "sched_wf s" using g by (simp add: at_rest_def)
  obtain g' where g': "at_rest s' g'" using submit_refines [OF g bound sub] by blast
  have out: "submit_outcome tid j chunk s ok s'" by (rule submit_result [OF wf bound sub])
  have over: "jo t \<noteq> j" if "t < tasks_total" "t \<notin> avail s" for t using job_over [OF crowd disjI1 [OF fresh] that] .
  let ?x = "jobs s' j"
  let ?sj = "s\<lparr>jobs := (jobs s)(j := ?x)\<rparr>"
  have x: "job_function ?x = f" "job_payload ?x = p" "payload_size ?x = n" "chunk_size ?x \<noteq> 0" "job_state ?x = job_state x0"
      and jobs: "jobs s' = jobs ?sj"
    using out job by (auto simp: submit_outcome_def normal_chunk_def DEFAULT_CHUNK_SIZE_def)
  have keep: "filter (\<lambda>r. fst r \<noteq> j) js = js" using fresh by (auto simp: filter_id_conv)
  note sj = crowd_forget [OF crowd over, of ?x, unfolded keep]
  have same: "task_at ?sj = task_at s" "avail ?sj = avail s" "queued_tasks ?sj = queued_tasks s"
    by (simp_all add: fun_eq_iff task_at_def queued_tasks_def)
  have kin: "kin (task_at s' u) (task_at ?sj u)" if "u \<notin> avail ?sj" for u
    using submit_others [OF wf bound sub, of u] that by (simp add: same same_kin)
  have calls: "calls s' = calls s" using submit_keeps [OF sub] by blast
  have old: "task_marks s' u = task_marks s u" "task_cells (task_at s' u) = task_cells (task_at s u)" if u: "u \<in># queued_tasks s" for u
  proof -
    have live: "u < tasks_total" "u \<notin> avail s" using rest_live(1) [OF g u] by simp_all
    then have k: "kin (task_at s' u) (task_at s u)" using kin [of u] by (simp add: same)
    have j: "jo u \<noteq> j" by (rule over [OF live])
    have wu: "waits_for (jo u) (chunk_size (jobs s (jo u))) (task_at s u)" by (rule crowdD(5) [OF crowd u])
    have "task_marks s' u = marks (job_function (jobs s' (jo u))) (job_payload (jobs s' (jo u))) (task_cells (task_at s' u))"
      by (rule waits_marks) (use wu kin_waits(1) [OF k] in simp)
    moreover have "jobs s' (jo u) = jobs s (jo u)" using j arg_cong [OF jobs, of "\<lambda>f. f (jo u)"] by simp
    ultimately show "task_marks s' u = task_marks s u" using waits_marks [OF wu] kin_waits(2) [OF k] by simp
    show "task_cells (task_at s' u) = task_cells (task_at s u)" by (rule kin_waits(2) [OF k])
  qed
  have sums: "(\<Sum>u\<in>#queued_tasks s. task_marks s' u) = pending s"
      "(\<Sum>u\<in>#queued_tasks s. max 1 (size (task_cells (task_at s' u)))) = rounds_left s"
    unfolding pending_def rounds_left_def by (rule sum_mset_eq, simp add: old)+
  show ?thesis
  proof (cases ok)
    case False
    then have r: "avail s' = avail s" "queued_tasks s' = queued_tasks s"
      using out submit_deques [OF sub] same by (simp_all add: submit_outcome_def rejected_def queued_split)
    have "crowd jo s' js" by (rule crowd_kin [OF sj g' kin _ jobs]) (use same r in simp_all)
    with False calls sums r(2) show ?thesis by (intro exI [of _ jo]) (simp add: pending_def rounds_left_def)
  next
    case True
    then have "submitted j s s'" using out by (simp add: submit_outcome_def)
    then obtain r c i y z where S: "r \<noteq> c" "{r, c} \<subseteq> avail s" "avail s' = avail s - {r, c}" "task_at s' r = root_task j (jobs s' j) y"
        "task_at s' c = splitter_task j (jobs s' j) r z" "i < length (rings s)" "rings s' = (rings s)[i := rings s ! i @ [c]]"
      unfolding submitted_def by (elim exE conjE) (rule that; assumption)
    have q: "queued_tasks s' = add_mset c (queued_tasks s)" using submit_queued [OF sub S(6,7)] same by simp
    have "crowd (jo(r := j, c := j)) s' (js @ [(j, p, n, f, chunk)])"
      by (rule crowd_add [OF sj g' kin S(1) _ _ S(4,5) _ jobs])
        (use S(2,3) q x same fresh state job in \<open>auto simp: recorded_def\<close>)
    moreover have c: "task_marks s' c = marks f p (mset [0..<unat n])" "task_cells (task_at s' c) = mset [0..<unat n]"
      using S(5) x by (simp_all add: task_marks_def task_cells_def cells_def splitter_task_def)
    moreover have "pending s' = pending s + request_marks [(j, p, n, f, chunk)]" "rounds_left s' = rounds_left s + max 1 (unat n)"
      using sums c by (simp_all add: pending_def rounds_left_def q request_marks_def)
    ultimately show ?thesis using True calls by (intro exI [of _ "jo(r := j, c := j)"]) simp
  qed
qed

section \<open>Schedules\<close>

text \<open>
  The workers make rounds, and application threads initialise and submit jobs, in any order. The requests
  \<open>js\<close> are those that were accepted, and \<open>cur\<close> those whose record has not been initialised again. A record is
  initialised for a new job or after its last one is complete, and submitted only once. \<open>k\<close> counts the
  rounds that found a task.
\<close>

definition request_of :: "sched \<Rightarrow> job_ref \<Rightarrow> size_t \<Rightarrow> job_request" where
  "request_of s j chunk = (j, job_payload (jobs s j), payload_size (jobs s j), job_function (jobs s j), chunk)"

inductive schedule :: "dev \<Rightarrow> sched \<Rightarrow> sched \<Rightarrow> job_request list \<Rightarrow> job_request list \<Rightarrow> nat \<Rightarrow> bool" for dev s0 where
  boot: "schedule dev s0 s0 [] [] 0"
| round: "schedule dev s0 s js cur k \<Longrightarrow> is_worker tid s \<Longrightarrow> find_task tid cores rng (set_current tid None s) = Some (r, rng1, s1)
    \<Longrightarrow> worker_iteration dev tid cores rng s = Some (rng', s') \<Longrightarrow> schedule dev s0 s' js cur (k + of_bool (r \<noteq> None))"
| init: "schedule dev s0 s js cur k \<Longrightarrow> j \<notin> fst ` set cur \<or> scheduler_is_job_complete (job_state (jobs s j))
    \<Longrightarrow> schedule dev s0 (init_job j payload psize f s) js (filter (\<lambda>r. fst r \<noteq> j) cur) k"
| submit: "schedule dev s0 s js cur k \<Longrightarrow> rings_bounded s \<Longrightarrow> j \<notin> fst ` set cur
    \<Longrightarrow> \<not> scheduler_is_job_complete (job_state (jobs s j)) \<Longrightarrow> scheduler_submit_job tid j chunk s = (ok, s')
    \<Longrightarrow> new = (if ok then [request_of s j chunk] else []) \<Longrightarrow> schedule dev s0 s' (js @ new) (cur @ new) k"

definition total_rounds :: "job_request list \<Rightarrow> nat" where
  "total_rounds js = (\<Sum>(j, payload, psize, f, chunk)\<leftarrow>js. max 1 (unat psize))"

lemma crowd_boot: "fresh_boot s \<Longrightarrow> crowd (\<lambda>_. 0) s []"
  by (rule crowdI [OF fresh_boot_at_rest]) (auto simp: fresh_boot_def tidy_def live_root_def)

lemma request_marks_append: "request_marks (xs @ ys) = request_marks xs + request_marks ys"
  by (simp add: request_marks_def)

lemma schedule_crowd:
  assumes "schedule dev s0 s js cur k" and leaf: "leaf_dev dev" and boot: "fresh_boot s0"
  shows "\<exists>jo cs. crowd jo s cur \<and> calls s = calls s0 @ cs \<and> call_marks cs + pending s = request_marks js
    \<and> k + rounds_left s \<le> total_rounds js"
  using assms(1)
proof induction
  case boot
  have "queued_tasks s0 = {#}" using \<open>fresh_boot s0\<close> by (simp add: fresh_boot_def)
  then show ?case
    using crowd_boot [OF \<open>fresh_boot s0\<close>]
    by (intro exI [of _ "\<lambda>_. 0"] exI [of _ "[]"]) (simp add: call_marks_def pending_def request_marks_def rounds_left_def total_rounds_def)
next
  case (round s js cur k tid cores rng r rng1 s1 rng' s')
  then obtain jo cs where I: "crowd jo s cur" "calls s = calls s0 @ cs" "call_marks cs + pending s = request_marks js"
      "k + rounds_left s \<le> total_rounds js"
    by blast
  obtain jo' ds where R: "crowd jo' s' cur" "calls s' = calls s @ ds" "call_marks ds + pending s' = pending s"
      "rounds_left s' + of_bool (r \<noteq> None) \<le> rounds_left s"
    using round_crowd [OF leaf I(1) round.hyps(2,3)] round.hyps(4) by auto
  have "call_marks (cs @ ds) + pending s' = request_marks js" using I(3) R(3) by (simp add: call_marks_append add.assoc)
  then show ?case using I(2,4) R(1,2,4) by (intro exI [of _ jo'] exI [of _ "cs @ ds"]) simp
next
  case (init s js cur k j payload psize f)
  then obtain jo cs where I: "crowd jo s cur" "calls s = calls s0 @ cs" "call_marks cs + pending s = request_marks js"
      "k + rounds_left s \<le> total_rounds js"
    by blast
  with init_crowd [OF I(1) init.hyps(2), of payload psize f] show ?case
    by (intro exI [of _ jo] exI [of _ cs]) (simp add: init_job_def)
next
  case (submit s js cur k j tid chunk ok s' new)
  then obtain jo cs where I: "crowd jo s cur" "calls s = calls s0 @ cs" "call_marks cs + pending s = request_marks js"
      "k + rounds_left s \<le> total_rounds js"
    by blast
  obtain jo' where R: "crowd jo' s' (cur @ new)" "calls s' = calls s"
      "pending s' = pending s + request_marks new" "rounds_left s' = rounds_left s + total_rounds new"
    using submit_crowd [OF I(1) submit.hyps(2-4) refl refl refl refl submit.hyps(5)] submit.hyps(6)
    by (auto simp: request_of_def request_marks_def total_rounds_def split: if_splits)
  have "call_marks cs + pending s' = request_marks (js @ new)"
    unfolding R(3) request_marks_append I(3) [symmetric] by (simp add: ac_simps)
  moreover have "k + rounds_left s' \<le> total_rounds (js @ new)" using I(4) R(4) by (simp add: total_rounds_def)
  ultimately show ?case using R(1,2) I(2) by metis
qed

lemma empty_complete:
  assumes crowd: "crowd jo s js" and empty: "queued_tasks s = {#}"
  shows "avail s = {..<tasks_total}" and "j \<in> fst ` set js \<Longrightarrow> scheduler_is_job_complete (job_state (jobs s j))"
proof -
  obtain g where g: "at_rest s g" using crowdD(1) [OF crowd] by blast
  show all: "avail s = {..<tasks_total}" using g quiescent_free [of tasks_total g] empty by (auto simp: at_rest_def agrees_def)
  show "scheduler_is_job_complete (job_state (jobs s j))" if "j \<in> fst ` set js"
    using crowdD(10) [OF crowd that] all by (auto simp: live_root_def)
qed

text \<open>A worker whose deque or ring holds a task finds one, whatever the random numbers are.\<close>

lemma holder_finds:
  assumes wf: "sched_wf s" and ws: "worker_pool s = Some ws" and i: "tid < length ws"
    and q: "deque_items (cl_deque (ws ! tid)) \<noteq> [] \<or> rb_items (ws ! tid) \<noteq> []"
  shows "\<exists>t s1. find_task tid cores rng s = Some (Some t, rng, s1)"
proof -
  obtain r s1 where A: "on_worker tid deque_pop s = Some (r, s1)" "own_source.looked tid ws r s s1"
    by (rule own_source.look [OF wf ws i])
  note A2 = A(2) [unfolded own_source.looked_def]
  show ?thesis
  proof (cases r)
    case (Some t)
    with A(1) show ?thesis by (simp add: find_task_def)
  next
    case None
    with A2 obtain ws1 where ws1: "worker_pool s1 = Some ws1" "same_workers ws ws1" by auto
    note same = same_workers_sched [OF ws1(2)]
    have i1: "tid < length ws1" using i same(4) [OF i] by simp
    obtain r2 s2 where B: "on_worker tid spmc_consumer_pop s1 = Some (r2, s2)" "ring_source.looked tid ws1 r2 s1 s2"
      using ring_source.look [OF _ ws1(1) i1] A2 by metis
    have "r2 \<noteq> None"
      using B(2) [unfolded ring_source.looked_def] A2 None q same(1,2) [OF i] by (auto split: if_splits)
    with A(1) B(1) None show ?thesis by (auto simp: find_task_def)
  qed
qed

lemma holder_exists:
  assumes wf: "sched_wf s" and q: "queued_tasks s \<noteq> {#}"
  shows "\<exists>tid. is_worker tid s \<and> (\<forall>cores rng. \<exists>t s1. find_task tid cores rng (set_current tid None s) = Some (Some t, rng, s1))"
proof -
  obtain ws where ws: "worker_pool s = Some ws" using q by (auto simp: queued_tasks_def split: option.splits)
  then obtain w where "w \<in> set ws" "worker_queued w \<noteq> {#}" using q by (auto simp: queued_tasks_def)
  then obtain tid where i: "tid < length ws" "deque_items (cl_deque (ws ! tid)) \<noteq> [] \<or> rb_items (ws ! tid) \<noteq> []"
    by (auto simp: in_set_conv_nth worker_queued_def)
  have "sched_wf (set_current tid None s)" "worker_pool (set_current tid None s) = Some ws" using wf ws by (simp_all add: sched_wf_def)
  from holder_finds [OF this i] ws i(1) show ?thesis by (intro exI [of _ tid]) (simp add: is_worker_def)
qed

section \<open>Rounds alone\<close>

text \<open>
  One round of a worker, with the task that it finds, and any sequence of rounds from a state; \<open>k\<close> counts
  those that found a task.
\<close>

definition worker_round :: "dev \<Rightarrow> nat \<Rightarrow> task_ref option \<Rightarrow> sched \<Rightarrow> sched \<Rightarrow> bool" where
  "worker_round dev tid r s s' \<longleftrightarrow> is_worker tid s \<and> (\<exists>cores rng rng1 s1 rng'.
     find_task tid cores rng (set_current tid None s) = Some (r, rng1, s1) \<and> worker_iteration dev tid cores rng s = Some (rng', s'))"

inductive rounds :: "dev \<Rightarrow> sched \<Rightarrow> sched \<Rightarrow> nat \<Rightarrow> bool" for dev s where
  none: "rounds dev s s 0"
| more: "rounds dev s s1 k \<Longrightarrow> worker_round dev tid r s1 s' \<Longrightarrow> rounds dev s s' (k + of_bool (r \<noteq> None))"

lemma rounds_schedule: "rounds dev s s' m \<Longrightarrow> schedule dev s0 s js cur k \<Longrightarrow> schedule dev s0 s' js cur (k + m)"
proof (induction rule: rounds.induct)
  case (more s1 k' tid r s')
  from more.hyps(2) obtain cores rng rng1 s2 rng' where "is_worker tid s1" "find_task tid cores rng (set_current tid None s1) = Some (r, rng1, s2)"
      "worker_iteration dev tid cores rng s1 = Some (rng', s')"
    unfolding worker_round_def by blast
  from schedule.round [OF more.IH [OF more.prems] this] show ?case by (simp add: add.assoc)
qed simp

lemma worker_round_crowd:
  assumes "leaf_dev dev" "crowd jo s js" "worker_round dev tid r s s'"
  shows "\<exists>jo'. crowd jo' s' js \<and> rounds_left s' + of_bool (r \<noteq> None) \<le> rounds_left s"
proof -
  obtain cores rng rng1 s2 rng' where R: "is_worker tid s" "find_task tid cores rng (set_current tid None s) = Some (r, rng1, s2)"
      "worker_iteration dev tid cores rng s = Some (rng', s')"
    using assms(3) unfolding worker_round_def by blast
  from round_crowd [OF assms(1,2) R(1,2)] R(3) show ?thesis by auto
qed

lemma rounds_crowd:
  assumes "rounds dev s s' k" "leaf_dev dev" "crowd jo s js"
  shows "\<exists>jo'. crowd jo' s' js \<and> rounds_left s' + k \<le> rounds_left s"
  using assms(1)
proof (induction rule: rounds.induct)
  case none
  with assms(3) show ?case by auto
next
  case (more s1 k tid r s')
  then obtain jo1 where "crowd jo1 s1 js" "rounds_left s1 + k \<le> rounds_left s" by blast
  with worker_round_crowd [OF assms(2) this(1) more.hyps(2)] show ?case by fastforce
qed

text \<open>Some worker can always make a round that finds a task, as long as one waits.\<close>

lemma round_exists:
  assumes leaf: "leaf_dev dev" and crowd: "crowd jo s js" and q: "queued_tasks s \<noteq> {#}"
  shows "\<exists>tid t s'. worker_round dev tid (Some t) s s'"
proof -
  obtain g where g: "at_rest s g" using crowdD(1) [OF crowd] by blast
  obtain tid t s1 where w: "is_worker tid s" and find: "find_task tid 1 1 (set_current tid None s) = Some (Some t, 1, s1)"
    using holder_exists [OF _ q] g unfolding at_rest_def by blast
  from round_crowd [OF leaf crowd w find] w find show ?thesis unfolding worker_round_def by blast
qed

lemma rounds_drain:
  assumes leaf: "leaf_dev dev" and crowd: "crowd jo s js"
  shows "\<exists>s' k. rounds dev s s' k \<and> queued_tasks s' = {#}"
proof -
  have "\<exists>s' k'. rounds dev s s' k' \<and> queued_tasks s' = {#}" if "rounds dev s s1 k" for s1 k
    using that
  proof (induction "rounds_left s1" arbitrary: s1 k rule: less_induct)
    case less
    obtain jo1 where C: "crowd jo1 s1 js" using rounds_crowd [OF less.prems leaf crowd] by blast
    show ?case
    proof (cases "queued_tasks s1 = {#}")
      case True
      with less.prems show ?thesis by blast
    next
      case False
      obtain tid t s2 where R: "worker_round dev tid (Some t) s1 s2" using round_exists [OF leaf C False] by blast
      have "rounds_left s2 < rounds_left s1" using worker_round_crowd [OF leaf C R] by auto
      from less.hyps [OF this rounds.more [OF less.prems R]] show ?thesis .
    qed
  qed
  from this [OF rounds.none] show ?thesis .
qed

section \<open>Fair rounds\<close>

text \<open>A worker that holds a task holds one until some round finds a task.\<close>

definition holds :: "nat \<Rightarrow> sched \<Rightarrow> bool" where
  "holds tid s \<longleftrightarrow> (\<exists>ws. worker_pool s = Some ws \<and> tid < length ws
     \<and> (deque_items (cl_deque (ws ! tid)) \<noteq> [] \<or> rb_items (ws ! tid) \<noteq> []))"

lemma same_holds:
  assumes "worker_pool s = Some ws" "worker_pool s' = Some ws'" "same_workers ws ws'"
  shows "holds u s' = holds u s"
proof (cases "u < length ws")
  case True
  from same_workers_sched [OF assms(3) this] assms(1,2) True show ?thesis by (simp add: holds_def)
next
  case False
  with assms show ?thesis by (simp add: holds_def same_workers_def)
qed

context task_source
begin

lemma look_nothing:
  assumes "sched_wf s" "on_worker i get s = Some (None, s')"
  shows "sched_wf s' \<and> (\<forall>u. holds u s' = holds u s)"
proof -
  obtain ws where ws: "worker_pool s = Some ws" "i < length ws"
    using assms(2) by (auto simp: on_worker_def split: option.splits if_splits)
  obtain r s1 where "on_worker i get s = Some (r, s1)" "looked i ws r s s1" by (rule look [OF assms(1) ws])
  with assms(2) have "looked i ws None s s'" by simp
  then obtain ws' where "sched_wf s'" "worker_pool s' = Some ws'" "same_workers ws ws'" by (auto simp: looked_def)
  then show ?thesis using same_holds [OF ws(1)] by blast
qed

end

lemma find_nothing:
  assumes "sched_wf s" "find_task tid cores rng s = Some (None, rng', s')"
  shows "holds u s' = holds u s"
proof -
  obtain s1 where A: "on_worker tid deque_pop s = Some (None, s1)"
    using assms(2) by (auto simp: find_task_def split: option.splits prod.splits)
  obtain s2 where B: "on_worker tid spmc_consumer_pop s1 = Some (None, s2)"
    using assms(2) A by (auto simp: find_task_def split: option.splits prod.splits)
  have steal: "steal_task tid cores rng s2 = Some (None, rng', s')" using assms(2) A B by (simp add: find_task_def)
  note A' = own_source.look_nothing [OF assms(1) A]
  note B' = ring_source.look_nothing [OF conjunct1 [OF A'] B]
  show ?thesis
  proof (cases "1 < cores")
    case False
    with steal A' B' show ?thesis by (simp add: steal_task_def)
  next
    case True
    let ?v = "unat (steal_victim cores (own_core_id tid s2) (xorshift32 rng))"
    obtain s3 where C: "on_worker ?v deque_steal s2 = Some (None, s3)"
      using steal True by (auto simp: steal_task_def Let_def split: option.splits prod.splits)
    have D: "on_worker ?v spmc_consumer_pop s3 = Some (None, s')" using steal True C by (auto simp: steal_task_def Let_def)
    note C' = steal_source.look_nothing [OF conjunct1 [OF B'] C]
    from ring_source.look_nothing [OF conjunct1 [OF C'] D] A' B' C' show ?thesis by simp
  qed
qed

lemma holds_queued: "holds u s \<Longrightarrow> queued_tasks s \<noteq> {#}"
  by (auto simp: holds_def queued_tasks_def worker_queued_def dest!: nth_mem)

lemma queued_holds:
  assumes "queued_tasks s \<noteq> {#}" shows "\<exists>u. holds u s \<and> is_worker u s"
proof -
  obtain ws where ws: "worker_pool s = Some ws" using assms by (auto simp: queued_tasks_def split: option.splits)
  then obtain w where "w \<in> set ws" "worker_queued w \<noteq> {#}" using assms by (auto simp: queued_tasks_def)
  then obtain u where "u < length ws" "deque_items (cl_deque (ws ! u)) \<noteq> [] \<or> rb_items (ws ! u) \<noteq> []"
    by (auto simp: in_set_conv_nth worker_queued_def)
  then show ?thesis using ws by (auto simp: holds_def is_worker_def)
qed

text \<open>A round that finds nothing leaves every task with the worker that holds it; a holder's round finds one.\<close>

lemma round_nothing:
  assumes "sched_wf s" "worker_round dev tid None s s'"
  shows "holds u s' = holds u s" and "\<not> holds tid s"
proof -
  obtain cores rng rng1 s1 rng' where R: "is_worker tid s" "find_task tid cores rng (set_current tid None s) = Some (None, rng1, s1)"
      "worker_iteration dev tid cores rng s = Some (rng', s')"
    using assms(2) unfolding worker_round_def by blast
  have wf: "sched_wf (set_current tid None s)" using assms(1) by (simp add: sched_wf_def)
  have s': "s' = set_current tid None s1" using R(2,3) by (simp add: worker_iteration_def)
  have "holds u s1 = holds u (set_current tid None s)" by (rule find_nothing [OF wf R(2)])
  then show "holds u s' = holds u s" using s' by (simp add: holds_def)
  show "\<not> holds tid s"
  proof
    assume "holds tid s"
    then obtain ws where "worker_pool (set_current tid None s) = Some ws" "tid < length ws"
        "deque_items (cl_deque (ws ! tid)) \<noteq> [] \<or> rb_items (ws ! tid) \<noteq> []"
      by (auto simp: holds_def)
    from holder_finds [OF wf this, of cores rng] R(2) show False by simp
  qed
qed

lemma round_workers:
  assumes "worker_round dev tid r s s'" "layout.dev_keeps tid dev" shows "is_worker u s' = is_worker u s"
  using assms layout_workers(1) [OF layout_round] unfolding worker_round_def by blast

text \<open>
  An endless sequence of rounds is fair when every worker makes infinitely many. Then the queues are empty
  at some time.
\<close>

definition fair_rounds :: "dev \<Rightarrow> (nat \<Rightarrow> nat) \<Rightarrow> (nat \<Rightarrow> task_ref option) \<Rightarrow> (nat \<Rightarrow> sched) \<Rightarrow> bool" where
  "fair_rounds dev who found run \<longleftrightarrow> (\<forall>i. worker_round dev (who i) (found i) (run i) (run (Suc i)))
     \<and> (\<forall>tid. is_worker tid (run 0) \<longrightarrow> (\<forall>i. \<exists>j\<ge>i. who j = tid))"

lemma fair_rounds_drain:
  assumes leaf: "leaf_dev dev" and crowd: "crowd jo (run 0) js" and fair: "fair_rounds dev who found run"
  shows "\<exists>i. queued_tasks (run i) = {#}"
proof (rule ccontr)
  assume "\<nexists>i. queued_tasks (run i) = {#}"
  then have busy: "queued_tasks (run i) \<noteq> {#}" for i by blast
  have step: "worker_round dev (who i) (found i) (run i) (run (Suc i))" for i using fair by (simp add: fair_rounds_def)
  have inv: "\<exists>jo'. crowd jo' (run i) js" for i
  proof (induction i)
    case (Suc i)
    then show ?case using worker_round_crowd [OF leaf _ step [of i]] by blast
  qed (use crowd in blast)
  then have wf: "sched_wf (run i)" for i by (meson crowdD(1) at_rest_def)
  have workers: "is_worker u (run i) = is_worker u (run 0)" for u i
    by (induction i) (simp_all add: round_workers [OF step layout.leaf_keeps [OF leaf]])
  have le: "rounds_left (run (Suc i)) + of_bool (found i \<noteq> None) \<le> rounds_left (run i)" for i
    using worker_round_crowd [OF leaf _ step] inv by blast
  have "\<exists>j\<ge>i. found j \<noteq> None" for i
  proof (rule ccontr)
    assume "\<not> (\<exists>j\<ge>i. found j \<noteq> None)"
    then have none: "found j = None" if "i \<le> j" for j using that by blast
    obtain u where u: "holds u (run i)" "is_worker u (run i)" using queued_holds [OF busy] by blast
    have keeps: "holds u (run (i + m))" for m
    proof (induction m)
      case (Suc m)
      have "worker_round dev (who (i + m)) None (run (i + m)) (run (Suc (i + m)))" using step [of "i + m"] none [of "i + m"] by simp
      from round_nothing(1) [OF wf this, of u] Suc show ?case by simp
    qed (use u in simp)
    obtain j where j: "i \<le> j" "who j = u" using fair u(2) workers unfolding fair_rounds_def by blast
    have "worker_round dev u None (run j) (run (Suc j))" using step [of j] none [OF j(1)] j(2) by simp
    from round_nothing(2) [OF wf this] keeps [of "j - i"] j(1) show False by simp
  qed
  then have drop: "\<exists>j\<ge>i. rounds_left (run (Suc j)) < rounds_left (run i)" for i
  proof -
    obtain j where j: "i \<le> j" "found j \<noteq> None" using \<open>\<And>i. \<exists>j\<ge>i. found j \<noteq> None\<close> by blast
    have "rounds_left (run j) \<le> rounds_left (run i)"
      by (rule lift_Suc_antimono_le [of "\<lambda>i. rounds_left (run i)", OF _ j(1)]) (use le add_leD1 in blast)
    with le [of j] j show ?thesis by (intro exI [of _ j]) auto
  qed
  have "\<exists>i. rounds_left (run i) + n \<le> rounds_left (run 0)" for n
  proof (induction n)
    case (Suc n)
    then obtain i where "rounds_left (run i) + n \<le> rounds_left (run 0)" by blast
    with drop [of i] show ?case by (metis Suc_leI add_Suc add_Suc_right add_le_mono1 le_trans)
  qed auto
  from this [of "Suc (rounds_left (run 0))"] show False by auto
qed

text \<open>From every state of a schedule rounds alone lead to empty queues.\<close>

lemma schedule_drains:
  assumes sch: "schedule dev s0 s js cur k" and leaf: "leaf_dev dev" and boot: "fresh_boot s0"
  shows "\<exists>s' k'. schedule dev s0 s' js cur k' \<and> k' \<le> k + rounds_left s \<and> queued_tasks s' = {#}"
  using sch
proof (induction "rounds_left s" arbitrary: s k rule: less_induct)
  case less
  show ?case
  proof (cases "queued_tasks s = {#}")
    case True
    with less.prems show ?thesis by (intro exI [of _ s] exI [of _ k]) simp
  next
    case False
    obtain jo where crowd: "crowd jo s cur" using schedule_crowd [OF less.prems leaf boot] by blast
    obtain g where g: "at_rest s g" using crowdD(1) [OF crowd] by blast
    obtain tid t s1 where w: "is_worker tid s" and find: "find_task tid 1 1 (set_current tid None s) = Some (Some t, 1, s1)"
      using holder_exists [OF _ False] g unfolding at_rest_def by blast
    obtain s' cs where R: "worker_iteration dev tid 1 1 s = Some (1, s')" "rounds_left s' + of_bool (Some t \<noteq> None) \<le> rounds_left s"
      using round_crowd [OF leaf crowd w find] by blast
    have "schedule dev s0 s' js cur (k + of_bool (Some t \<noteq> None))" by (rule schedule.round [OF less.prems w find R(1)])
    then obtain s2 k2 where "schedule dev s0 s2 js cur k2" "k2 \<le> k + 1 + rounds_left s'" "queued_tasks s2 = {#}"
      using less.hyps [of s' "k + 1"] R(2) by auto
    with R(2) show ?thesis by (intro exI [of _ s2] exI [of _ k2]) simp
  qed
qed

section \<open>What the calls do to the arrays\<close>

text \<open>The functions of the calls that change element \<open>i\<close> of payload \<open>p\<close>, in their order.\<close>

fun hits :: "(sc_fn \<times> ptr \<times> size_t \<times> size_t) list \<Rightarrow> ptr \<Rightarrow> nat \<Rightarrow> sc_fn list" where
  "hits [] p i = []"
| "hits ((f, q, a, b) # cs) p i = (if q = p \<and> unat a \<le> i \<and> i < unat b then f # hits cs p i else hits cs p i)"

definition calls_fit :: "(sc_fn \<times> ptr \<times> size_t \<times> size_t) list \<Rightarrow> (ptr \<Rightarrow> 'e list) \<Rightarrow> bool" where
  "calls_fit cs mem \<longleftrightarrow> (\<forall>(f, p, a, b)\<in>set cs. a < b \<longrightarrow> unat b \<le> length (mem p))"

lemma calls_effect:
  assumes kernel: "\<And>f. cell_kernel (K f) (g f)"
  shows "calls_fit cs mem \<Longrightarrow> \<exists>mem'. apply_calls K cs mem = Some mem' \<and> (\<forall>p. length (mem' p) = length (mem p))
      \<and> (\<forall>p. \<forall>i<length (mem p). mem' p ! i = fold (\<lambda>f. g f i) (hits cs p i) (mem p ! i))"
proof (induction cs arbitrary: mem)
  case (Cons c cs)
  obtain f p a b where c: "c = (f, p, a, b)" by (cases c)
  let ?xs = "touch_all (g f) [unat a..<unat b] (mem p)"
  let ?mem = "mem(p := ?xs)"
  have run: "for_range (K f) a b (mem p) = Some ?xs"
    by (rule cell_kernel.range_run [OF kernel]) (use Cons.prems c in \<open>simp add: calls_fit_def\<close>)
  have len: "length (?mem q) = length (mem q)" for q by simp
  have "calls_fit cs ?mem" using Cons.prems unfolding calls_fit_def len by simp
  from Cons.IH [OF this] obtain mem' where M: "apply_calls K cs ?mem = Some mem'" "\<forall>q. length (mem' q) = length (mem q)"
      "\<forall>q. \<forall>i<length (mem q). mem' q ! i = fold (\<lambda>f. g f i) (hits cs q i) (?mem q ! i)"
    unfolding len by blast
  have cell: "?mem q ! i = (if q = p \<and> unat a \<le> i \<and> i < unat b then g f i (mem q ! i) else mem q ! i)" if "i < length (mem q)" for q i
    using touch_all_nth [of "[unat a..<unat b]" i "mem p" "g f"] that by auto
  have "mem' q ! i = fold (\<lambda>f. g f i) (hits (c # cs) q i) (mem q ! i)" if "i < length (mem q)" for q i
    using M(3) cell [OF that] that by (simp add: c del: fun_upd_apply)
  then show ?case using run M(1,2) by (intro exI [of _ mem']) (simp add: c del: fun_upd_apply)
qed simp

lemma filter_marks:
  "filter_mset (\<lambda>(f, q, k). q = p \<and> k = i) (marks f q (mset [m..<n])) = (if q = p \<and> m \<le> i \<and> i < n then {#(f, p, i)#} else {#})"
proof -
  have "filter_mset (\<lambda>(f, q, k). q = p \<and> k = i) (marks f q M) = (if q = p then replicate_mset (count M i) (f, p, i) else {#})" for M
    by (induction M) (auto simp: marks_def)
  moreover have "count (mset [m..<n]) i = (if m \<le> i \<and> i < n then 1 else 0)"
    using distinct_count_atmost_1 [of "[m..<n]"] by simp
  ultimately show ?thesis by simp
qed

lemma hits_marks: "mset (hits cs p i) = image_mset fst (filter_mset (\<lambda>(f, q, k). q = p \<and> k = i) (call_marks cs))"
proof (induction cs)
  case (Cons c cs)
  obtain f q a b where c: "c = (f, q, a, b)" by (cases c)
  have "call_marks (c # cs) = marks f q (mset [unat a..<unat b]) + call_marks cs" by (simp add: call_marks_def c cells_def)
  with Cons show ?case by (simp only: c hits.simps filter_union_mset filter_marks image_mset_union) simp
qed (simp add: call_marks_def)

text \<open>The sequential program as a list of calls.\<close>

definition plain_calls :: "job_request list \<Rightarrow> (sc_fn \<times> ptr \<times> size_t \<times> size_t) list" where
  "plain_calls js = map (\<lambda>(j, p, n, f, chunk). (f, p, 0, n)) js"

lemma sequential_calls: "run_sequential K js mem = apply_calls K (plain_calls js) mem"
  by (induction K js mem rule: run_sequential.induct) (auto simp: plain_calls_def simp del: fun_upd_apply split: option.splits)

lemma plain_marks: "call_marks (plain_calls js) = request_marks js"
  by (induction js) (auto simp: plain_calls_def call_marks_def request_marks_def cells_def)

lemma plain_hits_none: "p \<notin> set (map (fst \<circ> snd) js) \<Longrightarrow> hits (plain_calls js) p i = []"
  by (induction js) (auto simp: plain_calls_def)

lemma plain_hits_short: "distinct (map (fst \<circ> snd) js) \<Longrightarrow> length (hits (plain_calls js) p i) \<le> 1"
proof (induction js)
  case (Cons r js)
  obtain j q n f chunk where r: "r = (j, q, n, f, chunk)" by (cases r) auto
  show ?case
  proof (cases "q = p")
    case True
    then have "hits (plain_calls js) p i = []" using Cons.prems by (intro plain_hits_none) (simp add: r)
    then show ?thesis by (simp add: r plain_calls_def)
  next
    case False
    with Cons show ?thesis by (simp add: r plain_calls_def)
  qed
qed (simp add: plain_calls_def)

lemma short_unique:
  assumes "mset xs = mset ys" "length ys \<le> 1" shows "xs = ys"
proof -
  have "length xs = length ys" using assms(1) by (rule mset_eq_length)
  then show ?thesis using assms by (cases xs; cases ys) auto
qed

lemma mark_request:
  "(f, p, i) \<in># request_marks js \<Longrightarrow> \<exists>j n chunk. (j, p, n, f, chunk) \<in> set js \<and> i < unat n"
proof (induction js)
  case (Cons r js)
  obtain j q n h chunk where r: "r = (j, q, n, h, chunk)" by (cases r) auto
  have "(f, p, i) \<in># marks h q (mset [0..<unat n]) \<or> (f, p, i) \<in># request_marks js" using Cons.prems by (simp add: r request_marks_def)
  then show ?case
  proof
    assume "(f, p, i) \<in># marks h q (mset [0..<unat n])"
    then have "f = h" "p = q" "i < unat n" by (auto simp: marks_def)
    then show ?thesis using r by auto
  next
    assume "(f, p, i) \<in># request_marks js"
    then show ?thesis using Cons.IH by auto
  qed
qed (simp add: request_marks_def)

lemma call_mark: "(f, p, a, b) \<in> set cs \<Longrightarrow> a < b \<Longrightarrow> (f, p, unat b - 1) \<in># call_marks cs"
  by (induction cs) (auto simp: call_marks_def marks_def cells_def word_less_nat_alt)

text \<open>Calls with the indices of the requests do what the sequential program does when no payload is shared.\<close>

lemma marks_sequential:
  assumes kernel: "\<And>f. cell_kernel (K f) (g f)" and marks: "call_marks cs = request_marks js" and fit: "payloads_fit js mem"
    and distinct: "distinct (map (fst \<circ> snd) js)"
  shows "\<exists>mem'. apply_calls K cs mem = Some mem' \<and> run_sequential K js mem = Some mem'"
proof -
  have fits: "calls_fit ds mem" if ds: "call_marks ds = request_marks js" for ds
    unfolding calls_fit_def
  proof clarify
    fix f p a b assume c: "(f, p, a, b) \<in> set ds" "a < b"
    have "(f, p, unat b - 1) \<in># request_marks js" using call_mark [OF c] ds by simp
    from mark_request [OF this] obtain j n chunk where "(j, p, n, f, chunk) \<in> set js" "unat b - 1 < unat n" by blast
    with fit show "unat b \<le> length (mem p)" by (auto simp: payloads_fit_def)
  qed
  obtain m1 where m1: "apply_calls K cs mem = Some m1" "\<forall>p. length (m1 p) = length (mem p)"
      "\<forall>p. \<forall>i<length (mem p). m1 p ! i = fold (\<lambda>f. g f i) (hits cs p i) (mem p ! i)"
    using calls_effect [where K = K and g = g, OF kernel fits [OF marks]] by blast
  obtain m2 where m2: "apply_calls K (plain_calls js) mem = Some m2" "\<forall>p. length (m2 p) = length (mem p)"
      "\<forall>p. \<forall>i<length (mem p). m2 p ! i = fold (\<lambda>f. g f i) (hits (plain_calls js) p i) (mem p ! i)"
    using calls_effect [where K = K and g = g, OF kernel fits [OF plain_marks]] by blast
  have "hits cs p i = hits (plain_calls js) p i" for p i
    by (rule short_unique) (simp_all only: hits_marks marks plain_marks plain_hits_short [OF distinct])
  then have "m1 p = m2 p" for p using m1(2,3) m2(2,3) by (intro nth_equalityI) simp_all
  then have "m1 = m2" by (rule ext)
  with m1(1) m2(1) show ?thesis by (simp add: sequential_calls)
qed

section \<open>Properties\<close>

text \<open>
  C4: Every schedule serves its jobs. Whatever the order in which the workers make rounds and jobs are
  initialised and submitted, and in which records of complete jobs are used again, the calls of the developer's functions
  and the tasks in the deques and rings together have every index of every accepted request exactly once.
  No more rounds find a task than the requests have indices, an empty request counting as one, and once
  the queues are empty every index has been called, every job is complete and the pool is full. The
  developer's functions work on the developer's data (\<open>leaf_dev\<close>).
\<close>

theorem any_schedule_serves:
  assumes "leaf_dev dev" and "fresh_boot s0" and "schedule dev s0 s js cur k"
  shows "\<exists>cs. calls s = calls s0 @ cs \<and> call_marks cs + pending s = request_marks js \<and> k + rounds_left s \<le> total_rounds js
    \<and> (queued_tasks s = {#} \<longrightarrow> call_marks cs = request_marks js \<and> avail s = {..<global_task_capacity}
         \<and> (\<forall>r\<in>set cur. scheduler_is_job_complete (job_state (jobs s (fst r)))))"
proof -
  obtain jo cs where I: "crowd jo s cur" "calls s = calls s0 @ cs" "call_marks cs + pending s = request_marks js"
      "k + rounds_left s \<le> total_rounds js"
    using schedule_crowd [OF assms(3,1,2)] by blast
  moreover have "call_marks cs = request_marks js" if "queued_tasks s = {#}" using I(3) that by (simp add: pending_def)
  ultimately show ?thesis using empty_complete [OF I(1)] by auto
qed

text \<open>
  C5: A job that is complete has run. As soon as every request whose record is in use, and that calls the
  function \<open>f\<close> on the payload \<open>p\<close>, is complete, the calls of \<open>f\<close> on \<open>p\<close> have had every index of all accepted
  requests for them exactly once, while other jobs may still be waiting or running. The developer's
  functions work on the developer's data (\<open>leaf_dev\<close>).
\<close>

theorem complete_jobs_have_run:
  assumes "leaf_dev dev" and "fresh_boot s0" and "schedule dev s0 s js cur k"
    and "\<forall>(j, q, n, g, chunk)\<in>set cur. g = f \<longrightarrow> q = p \<longrightarrow> scheduler_is_job_complete (job_state (jobs s j))"
  shows "\<exists>cs. calls s = calls s0 @ cs
    \<and> filter_mset (\<lambda>(g, q, i). g = f \<and> q = p) (call_marks cs) = filter_mset (\<lambda>(g, q, i). g = f \<and> q = p) (request_marks js)"
proof -
  let ?own = "\<lambda>(g, q, i). g = f \<and> q = p"
  obtain jo cs where I: "crowd jo s cur" "calls s = calls s0 @ cs" "call_marks cs + pending s = request_marks js"
    using schedule_crowd [OF assms(3,1,2)] by blast
  obtain g where g: "at_rest s g" using crowdD(1) [OF I(1)] by blast
  have none: "filter_mset ?own (task_marks s t) = {#}" if t: "t \<in># queued_tasks s" for t
  proof -
    have live: "t < tasks_total" "t \<notin> avail s" using rest_live(1) [OF g t] by simp_all
    obtain q n h chunk where r: "(jo t, q, n, h, chunk) \<in> set cur" using crowdD(3) [OF I(1) live] by auto
    have "\<not> scheduler_is_job_complete (job_state (jobs s (jo t)))" using live_below_root [OF I(1) live] crowdD(3,10) [OF I(1)] live by blast
    then have "\<not> (h = f \<and> q = p)" using assms(4) r by blast
    moreover have "job_function (jobs s (jo t)) = h" "job_payload (jobs s (jo t)) = q"
      using crowdD(9) [OF I(1) r] by (simp_all add: recorded_def)
    ultimately show ?thesis using waits_marks [OF crowdD(5) [OF I(1) t]] by (auto simp: marks_def)
  qed
  then have "filter_mset ?own (pending s) = {#}" by (fastforce simp: pending_def)
  then have "filter_mset ?own (call_marks cs) = filter_mset ?own (request_marks js)" unfolding I(3) [symmetric] by simp
  with I(2) show ?thesis by blast
qed

text \<open>
  C7: Jobs that run at the same time compute what the sequential program computes. When the function of each
  job replaces every element of its range by a function of its index and its old value, and no two requests
  share a payload, the calls of any schedule that has emptied the queues leave the arrays as plain loops over
  the payloads, one job after the other, do; no access is outside an array. The functions use nothing of the
  scheduler (\<open>leaf_dev\<close>).
\<close>

theorem concurrent_jobs_match_sequential:
  assumes "leaf_dev dev" and "fresh_boot s0" and "schedule dev s0 s js cur k" and "queued_tasks s = {#}"
    and "\<And>f. cell_kernel (K f) (g f)" and "payloads_fit js mem" and "distinct (map (fst \<circ> snd) js)"
  shows "\<exists>cs mem'. calls s = calls s0 @ cs \<and> apply_calls K cs mem = Some mem' \<and> run_sequential K js mem = Some mem'"
proof -
  obtain jo cs where I: "calls s = calls s0 @ cs" "call_marks cs + pending s = request_marks js"
    using schedule_crowd [OF assms(3,1,2)] by blast
  have "call_marks cs = request_marks js" using I(2) assms(4) by (simp add: pending_def)
  from marks_sequential [where K = K and g = g, OF assms(5) this assms(6,7)] I(1) show ?thesis by blast
qed

text \<open>
  C6: No schedule gets stuck. Take any state of any schedule. Every round whose search returns ends. As long
  as a task waits, some worker finds one whatever its random numbers are. There is a sequence of rounds from
  this state, without a further submission, that empties the queues. There is no livelock: every sequence of
  rounds from it has at most \<open>rounds_left\<close> rounds that find a task, which the requests bound. And every
  endless sequence of rounds from it in which each worker makes infinitely many empties the queues. The
  developer's functions work on the developer's data (\<open>leaf_dev\<close>).
\<close>

theorem schedule_progress:
  assumes "leaf_dev dev" and "fresh_boot s0" and "schedule dev s0 s js cur k"
  shows "(\<forall>tid cores rng. is_worker tid s \<longrightarrow> find_task tid cores rng (set_current tid None s) \<noteq> None
      \<longrightarrow> worker_iteration dev tid cores rng s \<noteq> None)
    \<and> (queued_tasks s \<noteq> {#} \<longrightarrow> (\<exists>tid. is_worker tid s \<and> (\<forall>cores rng. \<exists>t s1.
         find_task tid cores rng (set_current tid None s) = Some (Some t, rng, s1))))
    \<and> (\<exists>s' m. rounds dev s s' m \<and> queued_tasks s' = {#})
    \<and> (\<forall>s' m. rounds dev s s' m \<longrightarrow> m + rounds_left s' \<le> rounds_left s) \<and> k + rounds_left s \<le> total_rounds js
    \<and> (\<forall>run who found. run 0 = s \<longrightarrow> fair_rounds dev who found run \<longrightarrow> (\<exists>i. queued_tasks (run i) = {#}))"
proof -
  obtain jo where crowd: "crowd jo s cur" and left: "k + rounds_left s \<le> total_rounds js"
    using schedule_crowd [OF assms(3,1,2)] by blast
  obtain g where "at_rest s g" using crowdD(1) [OF crowd] by blast
  then have wf: "sched_wf s" by (simp add: at_rest_def)
  have bound: "m + rounds_left s' \<le> rounds_left s" if "rounds dev s s' m" for s' m
    using rounds_crowd [OF that assms(1) crowd] by auto
  have fair: "\<exists>i. queued_tasks (run i) = {#}" if "run 0 = s" "fair_rounds dev who found run" for run who found
    using fair_rounds_drain [OF assms(1) _ that(2)] crowd that(1) by blast
  show ?thesis
    using round_crowd [OF assms(1) crowd] holder_exists [OF wf] rounds_drain [OF assms(1) crowd] bound left fair
    by (intro conjI allI impI) (fastforce, blast, blast, blast, blast, blast)
qed

text \<open>One job on the booted scheduler, submitted and run to the end.\<close>

lemma one_submitted:
  obtains s where "schedule idle_dev booted s [(0, Null, 16, UserFn 0, 16)] [(0, Null, 16, UserFn 0, 16)] 0" "queued_tasks s \<noteq> {#}"
proof -
  let ?s = "init_job 0 Null 16 (UserFn 0) booted" and ?r = "(0, Null, 16, UserFn 0, 16)"
  have ready: "ready 1 (Suc 0) ?s" by (simp add: ready_booted)
  obtain ok s1 where sub: "scheduler_submit_job 1 0 16 ?s = (ok, s1)" by (cases "scheduler_submit_job 1 0 16 ?s")
  then have ok: "ok" using ready_submits(1) [OF ready sub] by simp
  have "schedule idle_dev booted ?s [] (filter (\<lambda>r. fst r \<noteq> 0) []) 0" by (rule schedule.init [OF schedule.boot]) simp
  then have one: "schedule idle_dev booted ?s [] [] 0" by simp
  have "rings_bounded ?s" using booted_facts(5) by (simp add: rings_bounded_def init_job_def)
  then have "schedule idle_dev booted s1 ([] @ [?r]) ([] @ [?r]) 0"
    by (rule schedule.submit [OF one _ _ _ sub])
      (use ok in \<open>simp_all add: request_of_def init_job_def scheduler_init_job_def scheduler_is_job_complete_def JOB_STATE_RUNNING_def JOB_STATE_DONE_def\<close>)
  then have S: "schedule idle_dev booted s1 [?r] [?r] 0" by simp
  obtain jo where C: "crowd jo s1 [?r]" using schedule_crowd [OF S idle_dev_leaf booted_fresh] by blast
  have "sched_wf ?s" using booted_facts(2) by (simp add: init_job_def sched_wf_def)
  from submit_result [OF this \<open>rings_bounded ?s\<close> sub] have "jobs s1 = jobs (with_chunk 0 16 ?s)" by (simp add: submit_outcome_def)
  then have "job_state (jobs s1 0) = JOB_STATE_RUNNING" by (simp add: init_job_def scheduler_init_job_def)
  then have "queued_tasks s1 \<noteq> {#}"
    using empty_complete(2) [OF C, of 0] by (auto simp: scheduler_is_job_complete_def JOB_STATE_RUNNING_def JOB_STATE_DONE_def)
  with S that show thesis by blast
qed

lemma one_scheduled:
  obtains s k where "schedule idle_dev booted s [(0, Null, 16, UserFn 0, 16)] [(0, Null, 16, UserFn 0, 16)] k" "queued_tasks s = {#}"
proof -
  obtain s where "schedule idle_dev booted s [(0, Null, 16, UserFn 0, 16)] [(0, Null, 16, UserFn 0, 16)] 0" by (rule one_submitted)
  from schedule_drains [OF this idle_dev_leaf booted_fresh] that show thesis by blast
qed

theorem any_schedule_serves_witness:
  "\<exists>s cs. \<exists>k\<le>16. schedule idle_dev booted s [(0, Null, 16, UserFn 0, 16)] [(0, Null, 16, UserFn 0, 16)] k
     \<and> calls s = calls booted @ cs \<and> call_marks cs = request_marks [(0, Null, 16, UserFn 0, 16)]
     \<and> scheduler_is_job_complete (job_state (jobs s 0))"
proof -
  obtain s k where R: "schedule idle_dev booted s [(0, Null, 16, UserFn 0, 16)] [(0, Null, 16, UserFn 0, 16)] k" "queued_tasks s = {#}"
    by (rule one_scheduled)
  from any_schedule_serves [OF idle_dev_leaf booted_fresh R(1)] R(2)
  obtain cs where "calls s = calls booted @ cs" "call_marks cs = request_marks [(0, Null, 16, UserFn 0, 16)]" "k \<le> 16"
      "scheduler_is_job_complete (job_state (jobs s 0))"
    by (auto simp: total_rounds_def)
  with R(1) show ?thesis by blast
qed

theorem complete_jobs_have_run_witness:
  "\<exists>(s :: sched) cs. calls s = calls booted @ cs \<and> filter_mset (\<lambda>(g, q, i). g = UserFn 0 \<and> q = Null) (call_marks cs) = marks (UserFn 0) Null (mset [0..<16])"
proof -
  obtain s k where R: "schedule idle_dev booted s [(0, Null, 16, UserFn 0, 16)] [(0, Null, 16, UserFn 0, 16)] k" "queued_tasks s = {#}"
    by (rule one_scheduled)
  obtain jo where "crowd jo s [(0, Null, 16, UserFn 0, 16)]" using schedule_crowd [OF R(1) idle_dev_leaf booted_fresh] by blast
  from empty_complete(2) [OF this R(2), of 0] have "scheduler_is_job_complete (job_state (jobs s 0))" by simp
  with complete_jobs_have_run [OF idle_dev_leaf booted_fresh R(1), of "UserFn 0" Null]
  obtain cs where cs: "calls s = calls booted @ cs" "filter_mset (\<lambda>(g, q, i). g = UserFn 0 \<and> q = Null) (call_marks cs)
      = filter_mset (\<lambda>(g, q, i). g = UserFn 0 \<and> q = Null) (request_marks [(0, Null, 16, UserFn 0, 16)])"
    by auto
  moreover have "filter_mset (\<lambda>(g, q, i). g = UserFn 0 \<and> q = Null) (marks (UserFn 0) Null M) = marks (UserFn 0) Null M" for M
    by (induction M) (simp_all add: marks_def)
  ultimately have "filter_mset (\<lambda>(g, q, i). g = UserFn 0 \<and> q = Null) (call_marks cs) = marks (UserFn 0) Null (mset [0..<16])"
    by (simp add: request_marks_def)
  with cs(1) show ?thesis by blast
qed

theorem schedule_progress_witness:
  "\<exists>s k s' m. schedule idle_dev booted s [(0, Null, 16, UserFn 0, 16)] [(0, Null, 16, UserFn 0, 16)] k \<and> queued_tasks s \<noteq> {#}
     \<and> rounds idle_dev s s' m \<and> m \<le> 16 \<and> queued_tasks s' = {#}"
proof -
  obtain s where R: "schedule idle_dev booted s [(0, Null, 16, UserFn 0, 16)] [(0, Null, 16, UserFn 0, 16)] 0" "queued_tasks s \<noteq> {#}"
    by (rule one_submitted)
  note P = schedule_progress [OF idle_dev_leaf booted_fresh R(1)]
  obtain s' m where D: "rounds idle_dev s s' m" "queued_tasks s' = {#}" using P by (elim conjE exE) (rule that)
  have "m + rounds_left s' \<le> rounds_left s" using P D(1) by (elim conjE) blast
  moreover have "0 + rounds_left s \<le> total_rounds [(0, Null, 16, UserFn 0, 16)]" using P by (elim conjE)
  then have "rounds_left s \<le> 16" by (simp add: total_rounds_def)
  ultimately show ?thesis using R D by (intro exI [of _ s] exI [of _ 0] exI [of _ s'] exI [of _ m]) simp
qed

theorem concurrent_jobs_match_sequential_witness:
  "\<exists>(s :: sched) cs mem'. calls s = calls booted @ cs \<and> apply_calls (\<lambda>_. update_at Suc) cs (\<lambda>_. [0..<16]) = Some mem'
     \<and> run_sequential (\<lambda>_. update_at Suc) [(0, Null, 16, UserFn 0, 16)] (\<lambda>_. [0..<16]) = Some mem'"
proof -
  obtain s k where R: "schedule idle_dev booted s [(0, Null, 16, UserFn 0, 16)] [(0, Null, 16, UserFn 0, 16)] k" "queued_tasks s = {#}"
    by (rule one_scheduled)
  have fit: "payloads_fit [(0, Null, 16, UserFn 0, 16)] (\<lambda>_. [0..<16])" by (simp add: payloads_fit_def)
  have one: "distinct (map (fst \<circ> snd) [(0 :: job_ref, Null, 16 :: size_t, UserFn 0, 16 :: size_t)])" by simp
  obtain cs mem' where "calls s = calls booted @ cs" "apply_calls (\<lambda>_. update_at Suc) cs (\<lambda>_. [0..<16]) = Some mem'"
      "run_sequential (\<lambda>_. update_at Suc) [(0, Null, 16, UserFn 0, 16)] (\<lambda>_. [0..<16]) = Some mem'"
    using concurrent_jobs_match_sequential [where K = "\<lambda>_. update_at Suc" and g = "\<lambda>_ _. Suc", OF idle_dev_leaf booted_fresh R
        upd.cell_kernel_axioms fit one]
    by (elim exE conjE) (rule that)
  then show ?thesis by (intro exI conjI)
qed

end
