(* ===== verification/SystemsTick.thy ===== *)
theory SystemsTick
  imports Crowd
begin

text \<open>
  \<open>multiple_jobs_ex.c\<close> on any number of processors: three jobs are submitted one right after the other and run at
  the same time. \<open>batch\<close> is what a thread that submits several jobs after a boot relies on.
\<close>

section \<open>Several submissions after a boot\<close>

text \<open>After \<open>m\<close> submissions by the thread \<open>tid\<close>, with rings of \<open>q\<close> slots at least.\<close>

definition batch :: "nat \<Rightarrow> nat \<Rightarrow> nat \<Rightarrow> sched \<Rightarrow> bool" where
  "batch tid q m s \<longleftrightarrow> sched_wf s \<and> worker_pool s \<noteq> None \<and> (\<forall>v. v \<noteq> tid \<longrightarrow> task_cache (pool s) v = [])
     \<and> global_task_capacity \<le> card (avail s) + 2 * m
     \<and> (\<forall>ws. worker_pool s = Some ws \<longrightarrow> (\<forall>w\<in>set ws. unat (rb_tail w) \<le> m \<and> length (rb_items w) \<le> m \<and> q \<le> rb_capacity w))"

lemma batch_init_job [simp]: "batch tid q m (init_job j p n f s) = batch tid q m s"
  by (simp add: batch_def init_job_def sched_wf_def)

lemma target_index:
  assumes "sched_wf s" "worker_pool s = Some ws"
  shows "unat (i mod global_worker_count s) < length ws"
proof -
  have "length ws = unat (global_worker_count s)" "ws \<noteq> []" using assms by (simp_all add: sched_wf_def)
  then have "0 < unat (global_worker_count s)" by (metis length_greater_0_conv)
  then show ?thesis using \<open>length ws = unat (global_worker_count s)\<close> by (simp add: unat_mod)
qed

lemma submit_workers:
  assumes wf: "sched_wf s" and ws: "worker_pool s = Some ws" and sub: "scheduler_submit_job tid j chunk s = (ok, s')"
  shows "u \<noteq> tid \<Longrightarrow> task_cache (pool s') u = task_cache (pool s) u"
    and "\<exists>i t. i < length ws \<and> (worker_pool s' = Some ws \<or> (\<exists>b ws'. ring_push i t ws = (b, ws') \<and> worker_pool s' = Some ws'))"
proof -
  have acq: "task_cache (pool y) u = task_cache (pool x) u" if "acquire tid x = (r, y)" "u \<noteq> tid" for x y r
    using that by (auto simp: acquire_def memory_pool_acquire_def Let_def split: prod.splits if_splits)
  have rel: "task_cache (pool (release tid t x)) u = task_cache (pool x) u" if "u \<noteq> tid" for x t
    using that by (auto simp: release_def memory_pool_release_def Let_def)
  have upd: "task_cache (pool (upd_task t f x)) = task_cache (pool x)" for t f x by (simp add: upd_task_def)
  show "task_cache (pool s') u = task_cache (pool s) u" if "u \<noteq> tid"
    using sub that
    by (auto simp: scheduler_submit_job_def Let_def rel upd dest!: acq split: option.splits prod.splits if_splits)
  have acq2: "worker_pool y = worker_pool x \<and> global_worker_count y = global_worker_count x \<and> rr_worker_index y = rr_worker_index x"
    if "acquire v x = (r, y)" for v x y r
    using that by (auto simp: acquire_def split: prod.splits)
  have rel2: "worker_pool (release v t x) = worker_pool x" for v x t by (simp add: release_def)
  let ?i = "unat (rr_worker_index s mod global_worker_count s)"
  have "worker_pool s' = Some ws \<or> (\<exists>t b ws'. ring_push ?i t ws = (b, ws') \<and> worker_pool s' = Some ws')"
    using sub ws by (auto simp: scheduler_submit_job_def Let_def rel2 dest!: acq2 split: option.splits prod.splits if_splits)
  with target_index [OF wf ws] show "\<exists>i t. i < length ws \<and> (worker_pool s' = Some ws \<or> (\<exists>b ws'. ring_push i t ws = (b, ws') \<and> worker_pool s' = Some ws'))"
    by blast
qed

lemma batch_submit:
  assumes batch: "batch tid q m s" and m: "m < q" "m < 1000" and sub: "scheduler_submit_job tid j chunk s = (ok, s')"
  shows "ok" and "batch tid q (Suc m) s'" and "rings_bounded s"
proof -
  obtain ws where ws: "worker_pool s = Some ws" using batch by (auto simp: batch_def)
  have wf: "sched_wf s" and caches: "\<And>v. v \<noteq> tid \<Longrightarrow> task_cache (pool s) v = []" and free: "global_task_capacity \<le> card (avail s) + 2 * m"
    and each: "\<And>w. w \<in> set ws \<Longrightarrow> unat (rb_tail w) \<le> m \<and> length (rb_items w) \<le> m \<and> q \<le> rb_capacity w"
    using batch ws by (simp_all add: batch_def)
  show bound: "rings_bounded s" using each ws m by (fastforce simp: rings_bounded_def)
  have out: "submit_outcome tid j chunk s ok s'" by (rule submit_result [OF wf bound sub])
  have ok_all: "worker_ok w" if "w \<in> set ws" for w using wf ws that by (simp add: sched_wf_def)
  have "2 \<le> obtainable tid s"
    using two_caches [OF wf, of "Suc tid" tid] caches free m by (simp add: global_task_capacity_def TASK_CACHE_CAPACITY_def)
  moreover have "target_room s"
  proof -
    have "ws ! unat (rr_worker_index s mod global_worker_count s) \<in> set ws" using target_index [OF wf ws] by simp
    from each [OF this] show ?thesis using ws m by (simp add: target_room_def Let_def)
  qed
  ultimately show ok: ok using out ws by (simp add: submit_outcome_def)
  note K = submit_workers [OF wf ws sub]
  obtain i t where i: "i < length ws" "worker_pool s' = Some ws \<or> (\<exists>b ws'. ring_push i t ws = (b, ws') \<and> worker_pool s' = Some ws')" using K(2) by blast
  let ?w = "snd (spmc_producer_push (ws ! i) t)"
  have wi: "ws ! i \<in> set ws" using i(1) by simp
  have "rb_inv (ws ! i)" "unat (rb_tail (ws ! i)) < 2 ^ 64 - 1"
    using ok_all [OF wi] each [OF wi] m by (simp_all add: worker_ok_def)
  note P = rb_push [OF this refl]
  have new: "unat (rb_tail ?w) \<le> Suc m \<and> length (rb_items ?w) \<le> Suc m \<and> q \<le> rb_capacity ?w"
    using P(2,4,6) [of t] each [OF wi] by simp
  have "ws' = ws[i := ?w]" if "ring_push i t ws = (b, ws')" for b ws' using that by (auto simp: ring_push_def split: prod.splits)
  with i(2) have ws': "\<exists>ws'. worker_pool s' = Some ws' \<and> set ws' \<subseteq> insert ?w (set ws)"
    using set_update_subset_insert [of ws i ?w] by auto
  have "submitted j s s'" using out ok by (simp add: submit_outcome_def)
  then obtain r c where rc: "{r, c} \<subseteq> avail s" "avail s' = avail s - {r, c}" unfolding submitted_def by blast
  have "avail s = avail s' \<union> {r, c}" using rc by blast
  then have "card (avail s) \<le> card (avail s') + card {r, c}" by (metis card_Un_le)
  moreover have "card {r, c} \<le> 2" by (simp add: card_insert_if)
  ultimately have "global_task_capacity \<le> card (avail s') + 2 * Suc m" using free by simp
  moreover have "sched_wf s'" using out by (simp add: submit_outcome_def)
  ultimately show "batch tid q (Suc m) s'"
    using ws' new each K(1) caches unfolding batch_def by fastforce
qed

lemma boot_batch:
  assumes "unat sq \<le> 2 ^ 60" "unat dq \<le> 2 ^ 60" "\<And>i b. ad i b \<noteq> None" "\<And>i b. ar i b \<noteq> None"
    and "at (word_of_nat global_task_capacity * 64) = Some a" "ap (boot_worker_count cpus * 384) = Some ws0"
    and "length ws0 = unat (boot_worker_count cpus)" "\<And>tid. task_cache (pool s) tid = []"
  shows "\<exists>s'. scheduler_boot cpus at ap ad ar sq dq s = Some s' \<and> fresh_boot s' \<and> batch tid (unat sq) 0 s'"
proof -
  obtain s' ws where boot: "scheduler_boot cpus at ap ad ar sq dq s = Some s'" and wp: "worker_pool s' = Some ws"
    and len: "length ws = unat (boot_worker_count cpus)" and fresh: "\<forall>i<length ws. fresh_worker sq dq i (ws ! i)"
    and s': "s' = s\<lparr>global_worker_count := boot_worker_count cpus, task_array_allocated := True, worker_pool := Some ws,
             pool := init_task_pool global_task_capacity ((pool s)\<lparr>global_task_array := a\<rparr>)\<rparr>"
    using boot_result [of sq dq ad ar "at" a ap cpus ws0 s] assms(1-7) by blast
  have each: "worker_ok w \<and> rb_items w = [] \<and> deque_items (cl_deque w) = [] \<and> rb_tail w = 0 \<and> unat sq \<le> rb_capacity w" if "w \<in> set ws" for w
    using that fresh by (auto simp: in_set_conv_nth fresh_worker_def worker_ok_def)
  have pool: "pool_wf global_task_capacity (pool s') \<and> avail s' = {..<global_task_capacity}" "task_cache (pool s') v = []" for v
    using init_result [of global_task_capacity "(pool s)\<lparr>global_task_array := a\<rparr>"] assms(8)
    by (simp_all add: s' global_task_capacity_def init_task_pool_def)
  have "ws \<noteq> []" using len boot_worker_pos [of cpus] by auto
  with each pool wp len s' have wf: "sched_wf s'" by (simp add: sched_wf_def)
  have "(\<Sum>w\<in>#mset ws. worker_queued w) = (\<Sum>w\<in>#mset ws. {#})"
    by (rule sum_mset_eq) (use each in \<open>simp add: worker_queued_def\<close>)
  then have "queued_tasks s' = {#}" using wp by (simp add: queued_tasks_def)
  with wf pool have "fresh_boot s'" by (simp add: fresh_boot_def)
  moreover have "batch tid (unat sq) 0 s'" using wf wp pool each by (simp add: batch_def)
  ultimately show ?thesis using boot by blast
qed

section \<open>The program\<close>

definition systems_tick :: "nat \<Rightarrow> size_t \<Rightarrow> size_t \<Rightarrow> sched \<Rightarrow> bool list \<times> sched" where
  "systems_tick tid ENTITY_COUNT CHUNK_SIZE s =
     (let s = init_job 0 (UserPtr 0) ENTITY_COUNT (UserFn 0) s;
          s = init_job 1 (UserPtr 1) ENTITY_COUNT (UserFn 1) s;
          s = init_job 2 (UserPtr 2) ENTITY_COUNT (UserFn 2) s;
          (phys, s) = scheduler_submit_job tid 0 CHUNK_SIZE s;
          (ai, s) = scheduler_submit_job tid 1 CHUNK_SIZE s;
          (part, s) = scheduler_submit_job tid 2 CHUNK_SIZE s
      in ([phys, ai, part], s))"

definition tick_requests :: "size_t \<Rightarrow> size_t \<Rightarrow> job_request list" where
  "tick_requests n chunk = [(0, UserPtr 0, n, UserFn 0, chunk), (1, UserPtr 1, n, UserFn 1, chunk), (2, UserPtr 2, n, UserFn 2, chunk)]"

lemma tick_schedule:
  assumes boot: "fresh_boot s" "batch tid q 0 s" "2 < q" and tick: "systems_tick tid n chunk s = (oks, s')"
  shows "oks = [True, True, True]" and "schedule dev s s' (tick_requests n chunk) (tick_requests n chunk) 0"
proof -
  let ?s3 = "init_job 2 (UserPtr 2) n (UserFn 2) (init_job 1 (UserPtr 1) n (UserFn 1) (init_job 0 (UserPtr 0) n (UserFn 0) s))"
  obtain a s4 b s5 c where sub: "scheduler_submit_job tid 0 chunk ?s3 = (a, s4)" "scheduler_submit_job tid 1 chunk s4 = (b, s5)"
      "scheduler_submit_job tid 2 chunk s5 = (c, s')" and oks: "oks = [a, b, c]"
    using tick by (auto simp: systems_tick_def Let_def split: prod.splits)
  have b3: "batch tid q 0 ?s3" using boot(2) by simp
  note A = batch_submit [OF b3 _ _ sub(1)]
  have b4: "batch tid q 1 s4" using A(2) boot(3) by simp
  note B = batch_submit [OF b4 _ _ sub(2)]
  have b5: "batch tid q 2 s5" using B(2) boot(3) by (simp add: numeral_2_eq_2)
  note C = batch_submit [OF b5 _ _ sub(3)]
  have ok: "a" "b" "c" using A(1) B(1) C(1) boot(3) by simp_all
  then show "oks = [True, True, True]" using oks by simp
  have jobs: "jobs s4 = jobs (with_chunk 0 chunk ?s3)" "jobs s5 = jobs (with_chunk 1 chunk s4)"
    using submit_result [OF _ A(3) sub(1)] submit_result [OF _ B(3) sub(2)] b3 b4 boot(3) by (simp_all add: batch_def submit_outcome_def)
  have "schedule dev s (init_job 0 (UserPtr 0) n (UserFn 0) s) [] (filter (\<lambda>r. fst r \<noteq> 0) []) 0" by (rule schedule.init [OF schedule.boot]) simp
  from schedule.init [OF this, of 1 "UserPtr 1" n "UserFn 1"] schedule.init
  have "schedule dev s (init_job 1 (UserPtr 1) n (UserFn 1) (init_job 0 (UserPtr 0) n (UserFn 0) s)) [] [] 0" by simp
  from schedule.init [OF this, of 2 "UserPtr 2" n "UserFn 2"] have i3: "schedule dev s ?s3 [] [] 0" by simp
  have r3: "request_of ?s3 0 chunk = (0, UserPtr 0, n, UserFn 0, chunk)" "job_state (jobs ?s3 0) = JOB_STATE_RUNNING"
    by (simp_all add: request_of_def init_job_def scheduler_init_job_def)
  have r4: "request_of s4 1 chunk = (1, UserPtr 1, n, UserFn 1, chunk)" "job_state (jobs s4 1) = JOB_STATE_RUNNING"
    using jobs(1) by (simp_all add: request_of_def init_job_def scheduler_init_job_def)
  have r5: "request_of s5 2 chunk = (2, UserPtr 2, n, UserFn 2, chunk)" "job_state (jobs s5 2) = JOB_STATE_RUNNING"
    using jobs by (simp_all add: request_of_def init_job_def scheduler_init_job_def)
  have open_job: "\<not> scheduler_is_job_complete JOB_STATE_RUNNING" by (simp add: scheduler_is_job_complete_def JOB_STATE_RUNNING_def JOB_STATE_DONE_def)
  have "schedule dev s s4 ([] @ [request_of ?s3 0 chunk]) ([] @ [request_of ?s3 0 chunk]) 0"
    by (rule schedule.submit [OF i3 A(3) _ _ sub(1)]) (use ok open_job r3 boot(3) in simp_all)
  then have "schedule dev s s4 [request_of ?s3 0 chunk] [request_of ?s3 0 chunk] 0" by simp
  from schedule.submit [OF this B(3) _ _ sub(2)]
  have "schedule dev s s5 [request_of ?s3 0 chunk, request_of s4 1 chunk] [request_of ?s3 0 chunk, request_of s4 1 chunk] 0"
    using ok open_job r3 r4 boot(3) by simp
  from schedule.submit [OF this C(3) _ _ sub(3)]
  show "schedule dev s s' (tick_requests n chunk) (tick_requests n chunk) 0"
    using ok open_job r3 r4 r5 boot(3) by (simp add: tick_requests_def)
qed

text \<open>The task functions of the three systems, by the number that stands for them.\<close>

definition system_step :: "'f arith \<Rightarrow> sc_fn \<Rightarrow> 'f \<Rightarrow> 'f" where
  "system_step F f v = (if f = UserFn 0 then fadd F v (lit F 981 2) else if f = UserFn 1 then fmul F v (lit F 105 2) else fsub F v (lit F 1 1))"

definition system_body :: "'f arith \<Rightarrow> sc_fn \<Rightarrow> size_t \<Rightarrow> 'f list \<Rightarrow> 'f list option" where
  "system_body F f = update_at (system_step F f)"

lemma system_tasks:
  "physics_system_task F p a b = map_option (\<lambda>xs. p\<lparr>vals := xs\<rparr>) (for_range (system_body F (UserFn 0)) a b (vals p))"
  "ai_system_task F p a b = map_option (\<lambda>xs. p\<lparr>vals := xs\<rparr>) (for_range (system_body F (UserFn 1)) a b (vals p))"
  "particle_system_task F p a b = map_option (\<lambda>xs. p\<lparr>vals := xs\<rparr>) (for_range (system_body F (UserFn 2)) a b (vals p))"
proof -
  have "system_step F (UserFn 0) = (\<lambda>v. fadd F v (lit F 981 2))" "system_step F (UserFn 1) = (\<lambda>v. fmul F v (lit F 105 2))"
      "system_step F (UserFn 2) = (\<lambda>v. fsub F v (lit F 1 1))"
    by (simp_all add: system_step_def fun_eq_iff)
  then show "physics_system_task F p a b = map_option (\<lambda>xs. p\<lparr>vals := xs\<rparr>) (for_range (system_body F (UserFn 0)) a b (vals p))"
    "ai_system_task F p a b = map_option (\<lambda>xs. p\<lparr>vals := xs\<rparr>) (for_range (system_body F (UserFn 1)) a b (vals p))"
    "particle_system_task F p a b = map_option (\<lambda>xs. p\<lparr>vals := xs\<rparr>) (for_range (system_body F (UserFn 2)) a b (vals p))"
    by (simp_all only: physics_system_task_def ai_system_task_def particle_system_task_def update_values_def system_body_def)
qed

lemma system_kernel: "cell_kernel (system_body F f) (\<lambda>_. system_step F f)"
  unfolding system_body_def by (rule upd.cell_kernel_axioms)

lemma system_range: "for_range (system_body F f) 0 n (replicate (unat n) z) = Some (replicate (unat n) (system_step F f z))"
proof -
  have "touch_all (\<lambda>_. system_step F f) [0..<unat n] (replicate (unat n) z) = replicate (unat n) (system_step F f z)"
    by (rule nth_equalityI) (simp_all add: touch_all_nth)
  then show ?thesis using cell_kernel.range_run [OF system_kernel, of 0 n "replicate (unat n) z" F f] by simp
qed

lemma tick_sequential:
  "run_sequential (system_body F) (tick_requests n chunk) (\<lambda>_. replicate (unat n) z) = Some
     ((\<lambda>_. replicate (unat n) z)(UserPtr 0 := replicate (unat n) (system_step F (UserFn 0) z),
        UserPtr 1 := replicate (unat n) (system_step F (UserFn 1) z), UserPtr 2 := replicate (unat n) (system_step F (UserFn 2) z)))"
  by (simp add: tick_requests_def system_range)

text \<open>
  C8: The systems tick completes. After a boot with enough memory, on any number of processors, the three
  submissions of the program are accepted; in whatever order the workers then make their rounds, no more than
  one round for each element finds a task, and once the queues are empty, which rounds alone bring about, all
  three jobs are complete, so that the waits return, and each array holds what its system computes from the
  value \<open>z\<close> that \<open>calloc\<close> put there, in every element and nothing applied twice.
\<close>

theorem systems_tick_completes:
  assumes "\<And>i b. ad i b \<noteq> None" "\<And>i b. ar i b \<noteq> None" "at (word_of_nat global_task_capacity * 64) = Some a"
    and "ap (boot_worker_count cpus * 384) = Some ws0" "length ws0 = unat (boot_worker_count cpus)" "\<And>v. task_cache (pool start) v = []"
    and "scheduler_boot cpus at ap ad ar 2048 4096 start = Some s0" "systems_tick tid n chunk s0 = (oks, s1)"
    and "leaf_dev dev" "js = tick_requests n chunk"
  shows "oks = [True, True, True] \<and> schedule dev s0 s1 js js 0 \<and> (\<exists>s k. schedule dev s0 s js js k \<and> queued_tasks s = {#})
    \<and> (\<forall>s k. schedule dev s0 s js js k \<longrightarrow> queued_tasks s = {#} \<longrightarrow> k \<le> 3 * max 1 (unat n)
         \<and> (\<forall>j<3. scheduler_is_job_complete (job_state (jobs s j)))
         \<and> (\<exists>cs mem. calls s = calls s0 @ cs \<and> apply_calls (system_body F) cs (\<lambda>_. replicate (unat n) z) = Some mem
              \<and> mem (UserPtr 0) = replicate (unat n) (fadd F z (lit F 981 2))
              \<and> mem (UserPtr 1) = replicate (unat n) (fmul F z (lit F 105 2))
              \<and> mem (UserPtr 2) = replicate (unat n) (fsub F z (lit F 1 1))))"
proof -
  have boot: "fresh_boot s0" "batch tid 2048 0 s0"
    using boot_batch [of 2048 4096 ad ar "at" a ap cpus ws0 start tid] assms(1-7) by auto
  have T: "oks = [True, True, True]" "schedule dev s0 s1 js js 0"
    using tick_schedule [OF boot _ assms(8)] by (simp_all add: assms(10))
  have drained: "\<exists>s k. schedule dev s0 s js js k \<and> queued_tasks s = {#}"
    using schedule_drains [OF T(2) assms(9) boot(1)] by auto
  have js: "fst ` set js = {0, 1, 2}" "total_rounds js = 3 * max 1 (unat n)" "payloads_fit js (\<lambda>_. replicate (unat n) z)"
      "distinct (map (fst \<circ> snd) js)"
    by (auto simp: assms(10) tick_requests_def total_rounds_def payloads_fit_def)
  have "k \<le> 3 * max 1 (unat n) \<and> (\<forall>j<3. scheduler_is_job_complete (job_state (jobs s j)))
      \<and> (\<exists>cs mem. calls s = calls s0 @ cs \<and> apply_calls (system_body F) cs (\<lambda>_. replicate (unat n) z) = Some mem
           \<and> mem (UserPtr 0) = replicate (unat n) (fadd F z (lit F 981 2))
           \<and> mem (UserPtr 1) = replicate (unat n) (fmul F z (lit F 105 2))
           \<and> mem (UserPtr 2) = replicate (unat n) (fsub F z (lit F 1 1)))"
    if run: "schedule dev s0 s js js k" and empty: "queued_tasks s = {#}" for s k
  proof -
    obtain jo cs where I: "crowd jo s js" "calls s = calls s0 @ cs" "call_marks cs + pending s = request_marks js"
        "k + rounds_left s \<le> total_rounds js"
      using schedule_crowd [OF run assms(9) boot(1)] by blast
    have "scheduler_is_job_complete (job_state (jobs s j))" if "j < 3" for j
      by (rule empty_complete(2) [OF I(1) empty]) (use that js(1) in auto)
    moreover have "call_marks cs = request_marks js" using I(3) empty by (simp add: pending_def)
    from marks_sequential [where K = "system_body F" and g = "\<lambda>f _. system_step F f", OF system_kernel this js(3,4)]
    obtain mem where "apply_calls (system_body F) cs (\<lambda>_. replicate (unat n) z) = Some mem"
        "run_sequential (system_body F) js (\<lambda>_. replicate (unat n) z) = Some mem"
      by blast
    ultimately show ?thesis using I(2,4) js(2) tick_sequential [of F n chunk z]
      by (intro conjI exI [of _ cs] exI [of _ mem]) (auto simp: assms(10) system_step_def)
  qed
  with T drained show ?thesis by simp
qed

theorem systems_tick_completes_witness:
  "\<exists>(s0 :: sched) s1 (s :: sched) cs mem. systems_tick 1 8 2 s0 = ([True, True, True], s1) \<and> calls s = calls s0 @ cs
     \<and> apply_calls (system_body int_arith) cs (\<lambda>_. replicate 8 0) = Some mem \<and> mem (UserPtr 0) = replicate 8 9"
proof -
  let ?ad = "\<lambda>_ _. Some (\<lambda>_. 0)" and ?at = "\<lambda>_. Some (global_task_array empty_pool)" and ?ap = "\<lambda>_. Some [raw_worker]"
  have one: "boot_worker_count 1 = 1" by (simp add: boot_worker_count_def)
  then have len: "length [raw_worker] = unat (boot_worker_count 1)" by simp
  have caches: "task_cache (pool unbooted) v = []" for v by (simp add: unbooted_def empty_pool_def)
  obtain s0 where boot: "scheduler_boot 1 ?at ?ap ?ad ?ad 2048 4096 unbooted = Some s0"
    using boot_batch [of 2048 4096 ?ad ?ad ?at "global_task_array empty_pool" ?ap 1 "[raw_worker]" unbooted 0] one caches by auto
  obtain oks s1 where tick: "systems_tick 1 8 2 s0 = (oks, s1)" by (cases "systems_tick 1 8 2 s0")
  note all = systems_tick_completes [of ?ad ?ad ?at "global_task_array empty_pool" ?ap 1 "[raw_worker]" unbooted s0 1 8 2 oks s1 idle_dev _ int_arith 0,
      OF option.distinct(2) option.distinct(2) refl refl len caches boot tick idle_dev_leaf refl]
  note oks = conjunct1 [OF all] and rest = conjunct2 [OF conjunct2 [OF all]]
  obtain s k where run: "schedule idle_dev s0 s (tick_requests 8 2) (tick_requests 8 2) k" "queued_tasks s = {#}" using conjunct1 [OF rest] by blast
  from conjunct2 [OF rest, rule_format, OF run] obtain cs mem where "calls s = calls s0 @ cs"
      "apply_calls (system_body int_arith) cs (\<lambda>_. replicate (unat (8 :: size_t)) 0) = Some mem"
      "mem (UserPtr 0) = replicate (unat (8 :: size_t)) (fadd int_arith 0 (lit int_arith 981 2))"
    by blast
  with oks tick show ?thesis by (intro exI [of _ s0] exI [of _ s1] exI [of _ s] exI [of _ cs] exI [of _ mem]) (simp add: int_arith_def)
qed

end
