(* ===== verification/SortArrays.thy ===== *)
theory SortArrays
  imports Main "HOL-Library.Multiset"
begin

text \<open>
  The sorting kernels of the examples: \<open>insertion_sort\<close>, the merge step and the sequential merge sort of
  \<open>merge_sort_comparison_ex.c\<close>. An array of C \<open>int\<close> is the list of its values, which the kernels only
  compare and copy. Indices are naturals: all of them stay below the length of an array in memory, so no
  \<open>size_t\<close> operation of these functions wraps around.
\<close>

section \<open>Ranges of an array\<close>

definition sorted_on :: "int list \<Rightarrow> nat \<Rightarrow> nat \<Rightarrow> bool" where
  "sorted_on arr s e \<longleftrightarrow> (\<forall>i j. s \<le> i \<longrightarrow> i < j \<longrightarrow> j < e \<longrightarrow> arr ! i \<le> arr ! j)"

text \<open>Only the range from \<open>s\<close> to \<open>e\<close> is rearranged, and nothing is lost.\<close>

definition permuted_in :: "nat \<Rightarrow> nat \<Rightarrow> int list \<Rightarrow> int list \<Rightarrow> bool" where
  "permuted_in s e a b \<longleftrightarrow> length b = length a \<and> take s b = take s a \<and> drop e b = drop e a \<and> mset b = mset a"

lemma permuted_in_refl: "permuted_in s e a a"
  by (simp add: permuted_in_def)

lemma permuted_in_trans: "permuted_in s e a b \<Longrightarrow> permuted_in s e b c \<Longrightarrow> permuted_in s e a c"
  by (simp add: permuted_in_def)

lemma permuted_in_wider:
  assumes "permuted_in s e a b" and "s' \<le> s" and "e \<le> e'" shows "permuted_in s' e' a b"
proof -
  have eq: "take s b = take s a" "drop e b = drop e a" using assms(1) by (simp_all add: permuted_in_def)
  have "take s' b = take s' (take s b)" "take s' a = take s' (take s a)" using assms(2) by (simp_all add: min_absorb1)
  then have "take s' b = take s' a" by (simp only: eq)
  moreover have "drop e' b = drop (e' - e) (drop e b)" "drop e' a = drop (e' - e) (drop e a)" using assms(3) by simp_all
  then have "drop e' b = drop e' a" by (simp only: eq)
  ultimately show ?thesis using assms(1) by (simp add: permuted_in_def)
qed

lemma permuted_in_outside:
  assumes "permuted_in s e a b" and "i < s \<or> e \<le> i" and "i < length a" shows "b ! i = a ! i"
  using assms(2)
proof
  assume "i < s"
  then show ?thesis using assms(1) by (metis nth_take permuted_in_def)
next
  assume "e \<le> i"
  moreover have "length b = length a" using assms(1) by (simp add: permuted_in_def)
  ultimately have "b ! i = drop e b ! (i - e)" "a ! i = drop e a ! (i - e)" using assms(3) by simp_all
  moreover have "drop e b = drop e a" using assms(1) by (simp add: permuted_in_def)
  ultimately show ?thesis by (simp only:)
qed

lemma permuted_in_segment:
  assumes "permuted_in s e a b" and "s \<le> e" shows "mset (take (e - s) (drop s b)) = mset (take (e - s) (drop s a))"
proof -
  have split: "mset x = mset (take s x) + mset (take (e - s) (drop s x)) + mset (drop e x)" for x :: "int list"
  proof -
    have "x = take s x @ take (e - s) (drop s x) @ drop e x"
      using assms(2) by (metis append_take_drop_id drop_drop le_add_diff_inverse2)
    then show ?thesis by (metis mset_append union_assoc)
  qed
  have "mset b = mset a" "take s b = take s a" "drop e b = drop e a" using assms(1) by (simp_all add: permuted_in_def)
  with split [of a] split [of b] show ?thesis by (metis add_left_imp_eq add_right_imp_eq)
qed

text \<open>A property of all values in the range survives a rearrangement of it.\<close>

lemma permuted_in_all:
  assumes "permuted_in s e a b" and "e \<le> length a" and "\<And>i. s \<le> i \<Longrightarrow> i < e \<Longrightarrow> P (a ! i)" and "s \<le> i" "i < e"
  shows "P (b ! i)"
proof -
  have len: "length b = length a" using assms(1) by (simp add: permuted_in_def)
  have "b ! i = take (e - s) (drop s b) ! (i - s)" using assms(2,4,5) len by simp
  moreover have "i - s < length (take (e - s) (drop s b))" using assms(2,4,5) len by simp
  ultimately have "b ! i \<in> set (take (e - s) (drop s b))" by (metis nth_mem)
  then have "b ! i \<in> set (take (e - s) (drop s a))"
    using permuted_in_segment [OF assms(1)] assms(4,5) by (metis less_imp_le order.trans set_mset_mset)
  then obtain k where "k < e - s" "b ! i = a ! (s + k)" using assms(2) by (auto simp: in_set_conv_nth)
  with assms(3) [of "s + k"] show ?thesis by simp
qed

lemma sorted_on_outside:
  assumes "sorted_on a s e" and "permuted_in l h a b" and "e \<le> l \<or> h \<le> s" and "e \<le> length a"
  shows "sorted_on b s e"
  unfolding sorted_on_def
proof (intro allI impI)
  fix i j
  assume ij: "s \<le> i" "i < j" "j < e"
  have "b ! i = a ! i" "b ! j = a ! j"
    by (rule permuted_in_outside [OF assms(2)]; use ij assms(3,4) in linarith)+
  then show "b ! i \<le> b ! j" using assms(1) ij by (simp add: sorted_on_def)
qed

lemma permuted_update:
  assumes "mset (a[i := x]) = mset b" and "length a = length b" and "s \<le> i" "i < e"
    and "\<And>k. k < length a \<Longrightarrow> k < s \<or> e \<le> k \<Longrightarrow> a ! k = b ! k"
  shows "permuted_in s e b (a[i := x])"
proof -
  have "take s (a[i := x]) = take s b" using assms by (intro nth_equalityI) auto
  moreover have "drop e (a[i := x]) = drop e b" using assms by (intro nth_equalityI) (auto simp: nth_list_update)
  ultimately show ?thesis using assms(1,2) by (simp add: permuted_in_def)
qed

section \<open>Insertion sort\<close>

text \<open>The inner loop: the array, in which the value of the hole \<open>j\<close> is stale, and the place of the key.\<close>

fun insert_shift :: "int list \<Rightarrow> nat \<Rightarrow> int \<Rightarrow> nat \<Rightarrow> int list \<times> nat" where
  "insert_shift arr start key 0 = (arr, 0)"
| "insert_shift arr start key (Suc j) =
     (if start < Suc j \<and> key < arr ! j then insert_shift (arr[Suc j := arr ! j]) start key j else (arr, Suc j))"

function insertion_loop :: "int list \<Rightarrow> nat \<Rightarrow> nat \<Rightarrow> nat \<Rightarrow> int list" where
  "insertion_loop arr start e i =
     (if i < e then
        (let key = arr ! i
         in case insert_shift arr start key i of (arr, j) \<Rightarrow> insertion_loop (arr[j := key]) start e (i + 1))
      else arr)"
  by pat_completeness auto
termination by (relation "measure (\<lambda>(arr, start, e, i). e - i)") auto

declare insertion_loop.simps [simp del]

definition insertion_sort :: "int list \<Rightarrow> nat \<Rightarrow> nat \<Rightarrow> int list" where
  "insertion_sort arr start e = insertion_loop arr start e (start + 1)"

text \<open>The values up to \<open>i\<close> are in order but for the hole \<open>j\<close>, and those above the hole exceed the key.\<close>

definition shifting :: "int list \<Rightarrow> nat \<Rightarrow> int \<Rightarrow> nat \<Rightarrow> nat \<Rightarrow> bool" where
  "shifting arr s key j i \<longleftrightarrow> (\<forall>x y. s \<le> x \<longrightarrow> x < y \<longrightarrow> y \<le> i \<longrightarrow> x \<noteq> j \<longrightarrow> y \<noteq> j \<longrightarrow> arr ! x \<le> arr ! y)
     \<and> (\<forall>y. j < y \<longrightarrow> y \<le> i \<longrightarrow> key < arr ! y)"

lemma sorted_on_filled:
  assumes "shifting arr s key j i" and "j < length arr" and "\<And>x. s \<le> x \<Longrightarrow> x < j \<Longrightarrow> arr ! x \<le> key"
  shows "sorted_on (arr[j := key]) s (Suc i)"
  unfolding sorted_on_def
proof (intro allI impI)
  fix x y
  assume "s \<le> x" "x < y" "y < Suc i"
  then show "arr[j := key] ! x \<le> arr[j := key] ! y"
    using assms(1,3) [unfolded shifting_def] assms(2) by (cases "x = j"; cases "y = j") (auto simp: less_imp_le)
qed

lemma insert_shift_correct:
  assumes "shifting arr s key j i" and "s \<le> j" "j \<le> i" "i < length arr" and "insert_shift arr s key j = (arr', j')"
  shows "s \<le> j' \<and> j' \<le> j \<and> length arr' = length arr \<and> mset (arr'[j' := key]) = mset (arr[j := key])
    \<and> sorted_on (arr'[j' := key]) s (Suc i) \<and> (\<forall>k. k < s \<or> i < k \<longrightarrow> arr' ! k = arr ! k)"
  using assms
proof (induction j arbitrary: arr)
  case 0
  then show ?case using sorted_on_filled [OF 0(1)] by (cases arr) auto
next
  case (Suc j)
  show ?case
  proof (cases "s < Suc j \<and> key < arr ! j")
    case False
    have "arr ! x \<le> key" if "s \<le> x" "x < Suc j" for x
    proof -
      have "s \<le> j" using that by simp
      with False have "arr ! j \<le> key" by simp
      moreover have "arr ! x \<le> arr ! j" if "x \<noteq> j"
        using Suc.prems(1) [unfolded shifting_def, THEN conjunct1, rule_format, of x j] Suc.prems(3) \<open>s \<le> x\<close> \<open>x < Suc j\<close> that by simp
      ultimately show ?thesis by (cases "x = j") auto
    qed
    then have "sorted_on (arr[Suc j := key]) s (Suc i)"
      by (intro sorted_on_filled [OF Suc.prems(1)]) (use Suc.prems(3,4) in auto)
    then show ?thesis using False Suc.prems(2,5) by auto
  next
    case True
    let ?a = "arr[Suc j := arr ! j]"
    have less: "j < length arr" "Suc j < length arr" using Suc.prems(3,4) by simp_all
    have "shifting ?a s key j i"
      using Suc.prems(1) True less Suc.prems(3,4) unfolding shifting_def
      by (auto simp: nth_list_update)
    then have "s \<le> j' \<and> j' \<le> j \<and> length arr' = length ?a \<and> mset (arr'[j' := key]) = mset (?a[j := key])
        \<and> sorted_on (arr'[j' := key]) s (Suc i) \<and> (\<forall>k. k < s \<or> i < k \<longrightarrow> arr' ! k = ?a ! k)"
      by (rule Suc.IH) (use True Suc.prems in auto)
    moreover have "mset (?a[j := key]) = mset (arr[Suc j := key])"
      using mset_swap [of j "arr[Suc j := key]" "Suc j"] less by (simp add: list_update_swap)
    moreover have "?a ! k = arr ! k" if "k < s \<or> i < k" for k using that True Suc.prems(2,3) by (auto simp: nth_list_update)
    ultimately show ?thesis by auto
  qed
qed

lemma insertion_loop_correct:
  assumes "sorted_on arr s i" and "s < i" "e \<le> length arr"
  shows "permuted_in s e arr (insertion_loop arr s e i) \<and> sorted_on (insertion_loop arr s e i) s e"
  using assms
proof (induction "e - i" arbitrary: arr i)
  case 0
  then show ?case by (auto simp: insertion_loop.simps permuted_in_refl sorted_on_def)
next
  case (Suc n)
  obtain a j where shift: "insert_shift arr s (arr ! i) i = (a, j)" by (cases "insert_shift arr s (arr ! i) i")
  let ?b = "a[j := arr ! i]"
  have i: "i < e" using Suc.hyps(2) by simp
  have pre: "shifting arr s (arr ! i) i i" using Suc.prems(1) by (auto simp: shifting_def sorted_on_def)
  have post: "s \<le> j \<and> j \<le> i \<and> length a = length arr \<and> mset ?b = mset (arr[i := arr ! i])
      \<and> sorted_on ?b s (Suc i) \<and> (\<forall>k. k < s \<or> i < k \<longrightarrow> a ! k = arr ! k)"
    by (rule insert_shift_correct [OF pre _ _ _ shift]) (use Suc.prems i in auto)
  have "permuted_in s e arr ?b"
    by (rule permuted_update) (use post i in auto)
  moreover have "permuted_in s e ?b (insertion_loop ?b s e (Suc i)) \<and> sorted_on (insertion_loop ?b s e (Suc i)) s e"
    by (rule Suc.hyps(1)) (use Suc.hyps(2) Suc.prems post in auto)
  moreover have "insertion_loop arr s e i = insertion_loop ?b s e (Suc i)"
    using i shift by (subst insertion_loop.simps) (simp add: Let_def)
  ultimately show ?case by (auto intro: permuted_in_trans)
qed

lemma insertion_sort_result:
  assumes "e \<le> length arr"
  shows "permuted_in s e arr (insertion_sort arr s e)" and "sorted_on (insertion_sort arr s e) s e"
  using insertion_loop_correct [of arr s "s + 1" e] assms by (simp_all add: insertion_sort_def sorted_on_def)

section \<open>Merging\<close>

text \<open>\<open>sequential_merge_step\<close>: the three copy loops into \<open>temp\<close>, then the copy back; both arrays are returned.\<close>

function merge_loop :: "int list \<Rightarrow> int list \<Rightarrow> nat \<Rightarrow> nat \<Rightarrow> nat \<Rightarrow> nat \<Rightarrow> nat \<Rightarrow> int list \<times> nat \<times> nat \<times> nat" where
  "merge_loop arr temp mid e i j k =
     (if i < mid \<and> j < e then
        if arr ! i \<le> arr ! j then merge_loop arr (temp[k := arr ! i]) mid e (i + 1) j (k + 1)
        else merge_loop arr (temp[k := arr ! j]) mid e i (j + 1) (k + 1)
      else (temp, i, j, k))"
  by pat_completeness auto
termination by (relation "measure (\<lambda>(arr, temp, mid, e, i, j, k). (mid - i) + (e - j))") auto

declare merge_loop.simps [simp del]

text \<open>\<open>while (i < n) temp[k++] = arr[i++]\<close>.\<close>

function copy_loop :: "int list \<Rightarrow> int list \<Rightarrow> nat \<Rightarrow> nat \<Rightarrow> nat \<Rightarrow> int list \<times> nat" where
  "copy_loop arr temp n i k =
     (if i < n then copy_loop arr (temp[k := arr ! i]) n (i + 1) (k + 1) else (temp, k))"
  by pat_completeness auto
termination by (relation "measure (\<lambda>(arr, temp, n, i, k). n - i)") auto

declare copy_loop.simps [simp del]

definition sequential_merge_step :: "int list \<Rightarrow> int list \<Rightarrow> nat \<Rightarrow> nat \<Rightarrow> nat \<Rightarrow> int list \<times> int list" where
  "sequential_merge_step arr temp start mid e =
     (case merge_loop arr temp mid e start mid start of
        (temp, i, j, k) \<Rightarrow>
          (case copy_loop arr temp mid i k of
             (temp, k) \<Rightarrow>
               (case copy_loop arr temp e j k of
                  (temp, k) \<Rightarrow> (fst (copy_loop temp arr e start start), temp))))"

text \<open>The reference: merging two lists.\<close>

fun merge :: "int list \<Rightarrow> int list \<Rightarrow> int list" where
  "merge (x # xs) (y # ys) = (if x \<le> y then x # merge xs (y # ys) else y # merge (x # xs) ys)"
| "merge xs [] = xs"
| "merge [] ys = ys"

lemma mset_merge: "mset (merge xs ys) = mset xs + mset ys"
  by (induction xs ys rule: merge.induct) auto

lemma set_merge: "set (merge xs ys) = set xs \<union> set ys"
  by (metis mset_merge set_mset_mset set_mset_union)

lemma sorted_merge: "sorted xs \<Longrightarrow> sorted ys \<Longrightarrow> sorted (merge xs ys)"
  by (induction xs ys rule: merge.induct) (auto simp: set_merge)

lemma length_merge [simp]: "length (merge xs ys) = length xs + length ys"
  by (metis mset_merge size_mset size_union)

abbreviation segment :: "int list \<Rightarrow> nat \<Rightarrow> nat \<Rightarrow> int list" where
  "segment arr s e \<equiv> map ((!) arr) [s..<e]"

text \<open>Writing a list into an array from index \<open>k\<close> on.\<close>

fun written :: "int list \<Rightarrow> nat \<Rightarrow> int list \<Rightarrow> int list" where
  "written temp k [] = temp"
| "written temp k (x # xs) = written (temp[k := x]) (k + 1) xs"

lemma written_append: "written temp k (xs @ ys) = written (written temp k xs) (k + length xs) ys"
  by (induction xs arbitrary: temp k) auto

lemma length_written [simp]: "length (written temp k xs) = length temp"
  by (induction xs arbitrary: temp k) auto

lemma written_nth:
  "k + length xs \<le> length temp \<Longrightarrow> written temp k xs ! i = (if k \<le> i \<and> i < k + length xs then xs ! (i - k) else temp ! i)"
proof (induction xs arbitrary: temp k)
  case (Cons x xs)
  then have "written (temp[k := x]) (k + 1) xs ! i = (if k + 1 \<le> i \<and> i < k + 1 + length xs then xs ! (i - (k + 1)) else temp[k := x] ! i)"
    by (intro Cons.IH) simp
  then show ?case using Cons.prems by (cases "i = k") (auto simp: nth_Cons')
qed simp

lemma copy_loop_result:
  "copy_loop arr temp n i k = (written temp k (segment arr i n), k + (n - i))"
proof (induction "n - i" arbitrary: temp i k)
  case 0
  then show ?case by (subst copy_loop.simps) simp
next
  case (Suc m)
  then have i: "i < n" and split: "[i..<n] = i # [Suc i..<n]" by (simp_all add: upt_rec)
  have "copy_loop arr (temp[k := arr ! i]) n (Suc i) (Suc k) = (written (temp[k := arr ! i]) (Suc k) (segment arr (Suc i) n), Suc k + (n - Suc i))"
    by (rule Suc(1)) (use Suc(2) in simp)
  then show ?case using i split by (subst copy_loop.simps) auto
qed

lemma merge_Nil [simp]: "merge [] ys = ys"
  by (cases ys) auto

lemma merge_loop_result:
  assumes "merge_loop arr temp mid e i j k = (temp', i', j', k')" and "i \<le> mid" "j \<le> e"
  shows "written (written temp' k' (segment arr i' mid)) (k' + (mid - i')) (segment arr j' e)
      = written temp k (merge (segment arr i mid) (segment arr j e))"
  using assms
proof (induction arr temp mid e i j k rule: merge_loop.induct)
  case (1 arr temp mid e i j k)
  show ?case
  proof (cases "i < mid \<and> j < e")
    case False
    then have "merge_loop arr temp mid e i j k = (temp, i, j, k)" by (subst merge_loop.simps) auto
    with 1(3) have "temp' = temp" "i' = i" "j' = j" "k' = k" by simp_all
    moreover from False 1(4,5) have "i = mid \<or> j = e" by auto
    ultimately show ?thesis by auto
  next
    case True
    then have split: "[i..<mid] = i # [Suc i..<mid]" "[j..<e] = j # [Suc j..<e]" by (simp_all add: upt_rec)
    show ?thesis
    proof (cases "arr ! i \<le> arr ! j")
      case le: True
      have "merge_loop arr (temp[k := arr ! i]) mid e (i + 1) j (k + 1) = (temp', i', j', k')"
        using 1(3) True le by (subst (asm) merge_loop.simps) simp
      from 1(1) [OF True le this] True 1(5) split le show ?thesis by simp
    next
      case gt: False
      have "merge_loop arr (temp[k := arr ! j]) mid e i (j + 1) (k + 1) = (temp', i', j', k')"
        using 1(3) True gt by (subst (asm) merge_loop.simps) simp
      from 1(2) [OF True gt this] True 1(4) split gt show ?thesis by simp
    qed
  qed
qed

lemma segment_eq: "e \<le> length arr \<Longrightarrow> segment arr s e = take (e - s) (drop s arr)"
  by (intro nth_equalityI) auto

lemma written_eq:
  assumes "k + length xs \<le> length temp"
  shows "written temp k xs = take k temp @ xs @ drop (k + length xs) temp"
  by (rule nth_equalityI) (use assms in \<open>auto simp: written_nth nth_append\<close>)

lemma written_permuted:
  assumes "s \<le> e" "e \<le> length arr" and "mset xs = mset (segment arr s e)"
  shows "permuted_in s e arr (written arr s xs)"
proof -
  have "length xs = e - s" using mset_eq_length [OF assms(3)] by simp
  then have eq: "written arr s xs = take s arr @ xs @ drop e arr" using written_eq [of s xs arr] assms(1,2) by simp
  have "arr = take s arr @ segment arr s e @ drop e arr"
    using segment_eq [OF assms(2), of s] assms(1) by (metis append_take_drop_id drop_drop le_add_diff_inverse2)
  then have "mset arr = mset (take s arr) + mset (segment arr s e) + mset (drop e arr)" by (metis mset_append union_assoc)
  then show ?thesis using assms \<open>length xs = e - s\<close> by (simp add: permuted_in_def eq)
qed

lemma sorted_segment: "sorted_on arr s e \<Longrightarrow> sorted (segment arr s e)"
  by (auto simp: sorted_on_def sorted_iff_nth_mono_less)

lemma written_sorted:
  assumes "e \<le> length arr" and "length xs = e - s" and "sorted xs"
  shows "sorted_on (written arr s xs) s e"
  unfolding sorted_on_def
proof (intro allI impI)
  fix i j
  assume ij: "s \<le> i" "i < j" "j < e"
  have "written arr s xs ! i = xs ! (i - s)" "written arr s xs ! j = xs ! (j - s)"
    using written_nth [of s xs arr] assms(1,2) ij by auto
  then show "written arr s xs ! i \<le> written arr s xs ! j"
    using assms(2) ij by (simp add: sorted_nth_mono [OF assms(3)])
qed

lemma merge_step_result:
  assumes "s \<le> mid" "mid \<le> e" "e \<le> length arr" "e \<le> length temp"
  defines "xs \<equiv> merge (segment arr s mid) (segment arr mid e)"
  shows "sequential_merge_step arr temp s mid e = (written arr s xs, written temp s xs)"
proof -
  obtain t i j k where loop: "merge_loop arr temp mid e s mid s = (t, i, j, k)"
    by (cases "merge_loop arr temp mid e s mid s") auto
  note M = merge_loop_result [OF loop assms(1,2), folded xs_def]
  have len: "length xs = e - s" using assms(1,2) by (simp add: xs_def)
  have "segment (written temp s xs) s e = xs"
    by (rule nth_equalityI) (use len assms(4) in \<open>auto simp: written_nth\<close>)
  then show ?thesis
    using loop M by (simp add: sequential_merge_step_def copy_loop_result)
qed

lemma merge_step_correct:
  assumes "s \<le> mid" "mid \<le> e" "e \<le> length arr" "e \<le> length temp" and "sorted_on arr s mid" "sorted_on arr mid e"
    and "sequential_merge_step arr temp s mid e = (arr', temp')"
  shows "permuted_in s e arr arr' \<and> sorted_on arr' s e \<and> length temp' = length temp"
proof -
  let ?xs = "merge (segment arr s mid) (segment arr mid e)"
  have res: "arr' = written arr s ?xs" "temp' = written temp s ?xs"
    using merge_step_result [OF assms(1-4)] assms(7) by simp_all
  have "[s..<e] = [s..<mid] @ [mid..<e]" using assms(1,2) by (metis le_add_diff_inverse upt_add_eq_append)
  then have "mset ?xs = mset (segment arr s e)" by (simp add: mset_merge)
  with assms(1-3) have "permuted_in s e arr arr'" unfolding res by (intro written_permuted) simp_all
  moreover have "sorted_on arr' s e"
    unfolding res by (rule written_sorted) (use assms in \<open>simp_all add: sorted_merge sorted_segment\<close>)
  ultimately show ?thesis by (simp add: res)
qed

section \<open>The sequential merge sort\<close>

definition BASE_CASE_THRESHOLD :: nat where
  "BASE_CASE_THRESHOLD = 1024"

function sequential_merge_sort :: "int list \<Rightarrow> int list \<Rightarrow> nat \<Rightarrow> nat \<Rightarrow> int list \<times> int list" where
  "sequential_merge_sort arr temp start e =
     (let length = e - start
      in if length \<le> BASE_CASE_THRESHOLD then (insertion_sort arr start e, temp)
         else (let mid = start + (length - length div 2)
               in case sequential_merge_sort arr temp start mid of
                    (arr, temp) \<Rightarrow>
                      (case sequential_merge_sort arr temp mid e of
                         (arr, temp) \<Rightarrow> sequential_merge_step arr temp start mid e)))"
  by pat_completeness auto
termination
  by (relation "measure (\<lambda>(arr, temp, start, e). e - start)") (auto simp: BASE_CASE_THRESHOLD_def)

declare sequential_merge_sort.simps [simp del]

lemma halves:
  assumes "BASE_CASE_THRESHOLD < e - s"
  shows "s < s + (e - s - (e - s) div 2)" and "s + (e - s - (e - s) div 2) < e"
  using assms by (simp_all add: BASE_CASE_THRESHOLD_def)

text \<open>Rearranging one half and then the other, in either order.\<close>

lemma both_halves:
  shows "s \<le> mid \<Longrightarrow> mid \<le> e \<Longrightarrow> e \<le> length arr \<Longrightarrow> permuted_in s mid arr a1 \<Longrightarrow> sorted_on a1 s mid \<Longrightarrow> permuted_in mid e a1 a2 \<Longrightarrow>
      permuted_in s e arr a2 \<and> sorted_on a2 s mid"
    and "s \<le> mid \<Longrightarrow> mid \<le> e \<Longrightarrow> e \<le> length arr \<Longrightarrow> permuted_in mid e arr a1 \<Longrightarrow> sorted_on a1 mid e \<Longrightarrow> permuted_in s mid a1 a2 \<Longrightarrow>
      permuted_in s e arr a2 \<and> sorted_on a2 mid e"
proof -
  assume le: "s \<le> mid" "mid \<le> e" "e \<le> length arr"
  show "permuted_in s e arr a2 \<and> sorted_on a2 s mid"
    if p: "permuted_in s mid arr a1" "sorted_on a1 s mid" "permuted_in mid e a1 a2"
  proof -
    have "length a1 = length arr" using p(1) by (simp add: permuted_in_def)
    then have "sorted_on a2 s mid" by (intro sorted_on_outside [OF p(2,3)]) (use le in auto)
    moreover have "permuted_in s e arr a2"
      by (rule permuted_in_trans [OF permuted_in_wider [OF p(1)] permuted_in_wider [OF p(3)]]) (use le in auto)
    ultimately show ?thesis by blast
  qed
  show "permuted_in s e arr a2 \<and> sorted_on a2 mid e"
    if p: "permuted_in mid e arr a1" "sorted_on a1 mid e" "permuted_in s mid a1 a2"
  proof -
    have "length a1 = length arr" using p(1) by (simp add: permuted_in_def)
    then have "sorted_on a2 mid e" by (intro sorted_on_outside [OF p(2,3)]) (use le in auto)
    moreover have "permuted_in s e arr a2"
      by (rule permuted_in_trans [OF permuted_in_wider [OF p(1)] permuted_in_wider [OF p(3)]]) (use le in auto)
    ultimately show ?thesis by blast
  qed
qed

lemma merge_sort_result:
  assumes "e \<le> length arr" "e \<le> length temp" and "sequential_merge_sort arr temp s e = (arr', temp')"
  shows "permuted_in s e arr arr' \<and> sorted_on arr' s e \<and> length temp' = length temp"
  using assms
proof (induction arr temp s e arbitrary: arr' temp' rule: sequential_merge_sort.induct)
  case (1 arr temp s e)
  show ?case
  proof (cases "e - s \<le> BASE_CASE_THRESHOLD")
    case True
    then have "arr' = insertion_sort arr s e" "temp' = temp"
      using 1(5) by (simp_all add: sequential_merge_sort.simps [of arr temp s e] Let_def)
    then show ?thesis using insertion_sort_result [OF 1(3)] by simp
  next
    case False
    let ?mid = "s + (e - s - (e - s) div 2)"
    have mid: "s < ?mid" "?mid < e" using halves [of e s] False by simp_all
    obtain a1 t1 where A: "sequential_merge_sort arr temp s ?mid = (a1, t1)" by (cases "sequential_merge_sort arr temp s ?mid")
    obtain a2 t2 where B: "sequential_merge_sort a1 t1 ?mid e = (a2, t2)" by (cases "sequential_merge_sort a1 t1 ?mid e")
    have C: "sequential_merge_step a2 t2 s ?mid e = (arr', temp')"
      using 1(5) False A B by (simp add: sequential_merge_sort.simps [of arr temp s e] Let_def)
    have A': "permuted_in s ?mid arr a1 \<and> sorted_on a1 s ?mid \<and> length t1 = length temp"
      by (rule 1(1) [OF refl False refl _ _ A]) (use 1(3,4) mid in auto)
    have B': "permuted_in ?mid e a1 a2 \<and> sorted_on a2 ?mid e \<and> length t2 = length t1"
      by (rule 1(2) [OF refl False refl A [symmetric] _ _ B]) (use 1(3,4) A' in \<open>auto simp: permuted_in_def\<close>)
    have "permuted_in s e arr a2 \<and> sorted_on a2 s ?mid"
      by (rule both_halves(1) [of s ?mid e arr a1]) (use A' B' mid 1(3) in auto)
    moreover from this have "permuted_in s e a2 arr' \<and> sorted_on arr' s e \<and> length temp' = length t2"
      by (intro merge_step_correct [OF _ _ _ _ _ _ C]) (use A' B' mid 1(3,4) in \<open>auto simp: permuted_in_def\<close>)
    ultimately show ?thesis using A' B' by (auto intro: permuted_in_trans)
  qed
qed

section \<open>The concurrent merge sort\<close>

text \<open>
  \<open>scheduler_spawn_subtasks\<close> as the caller sees it when the pool has tasks for all chunks: the children's
  ranges (\<open>Spawn.spawn_covers_range\<close>). They finish in some order before the continuation runs; the ranges are
  disjoint, so children that overlap in time act as in one of these orders.
\<close>

definition spawn_chunks :: "nat \<Rightarrow> nat \<Rightarrow> nat \<Rightarrow> (nat \<times> nat) list" where
  "spawn_chunks a b c = map (\<lambda>k. (a + k * c, min b (a + k * c + c))) [0..<(b - a + c - 1) div c]"

definition merge_step_continuation :: "int list \<Rightarrow> int list \<Rightarrow> nat \<Rightarrow> nat \<Rightarrow> int list \<times> int list" where
  "merge_step_continuation arr temp start_idx end_idx =
     sequential_merge_step arr temp start_idx (start_idx + ((end_idx - start_idx) - ((end_idx - start_idx) div 2))) end_idx"

inductive concurrent_merge_sort :: "nat \<Rightarrow> nat \<Rightarrow> int list \<times> int list \<Rightarrow> int list \<times> int list \<Rightarrow> bool" where
  base: "e - s \<le> BASE_CASE_THRESHOLD \<Longrightarrow> concurrent_merge_sort s e (arr, temp) (insertion_sort arr s e, temp)"
| spawn: "\<not> e - s \<le> BASE_CASE_THRESHOLD \<Longrightarrow> chunk = e - s - (e - s) div 2 \<Longrightarrow>
    mset [(a1, b1), (a2, b2)] = mset (spawn_chunks s e chunk) \<Longrightarrow>
    concurrent_merge_sort a1 b1 st st1 \<Longrightarrow> concurrent_merge_sort a2 b2 st1 (arr, temp) \<Longrightarrow>
    concurrent_merge_sort s e st (merge_step_continuation arr temp s e)"

lemma two_chunks:
  assumes "BASE_CASE_THRESHOLD < e - s"
  defines "c \<equiv> e - s - (e - s) div 2"
  shows "spawn_chunks s e c = [(s, s + c), (s + c, e)]"
proof -
  have c: "0 < c" "c < e - s" "e - s \<le> 2 * c" using assms by (simp_all add: BASE_CASE_THRESHOLD_def)
  have "(e - s + c - 1) div c = 2"
    by (rule div_nat_eqI) (use c in auto)
  moreover have "[0..<2] = [0, 1::nat]" by (simp add: numeral_2_eq_2)
  ultimately show ?thesis using c by (simp add: spawn_chunks_def)
qed

lemma concurrent_sorts:
  assumes "concurrent_merge_sort s e st st'" and "e \<le> length (fst st)" "e \<le> length (snd st)"
  shows "permuted_in s e (fst st) (fst st') \<and> sorted_on (fst st') s e \<and> length (snd st') = length (snd st)"
  using assms
proof (induction rule: concurrent_merge_sort.induct)
  case (base e s arr temp)
  then show ?case by (simp add: insertion_sort_result)
next
  case (spawn e s chunk a1 b1 a2 b2 st st1 arr temp)
  have s: "BASE_CASE_THRESHOLD < e - s" using spawn(1) by simp
  let ?mid = "s + chunk"
  have mid: "s < ?mid" "?mid < e" using halves [OF s] by (simp_all add: spawn(2))
  obtain a3 t3 where C: "sequential_merge_step arr temp s ?mid e = (a3, t3)" by (cases "sequential_merge_step arr temp s ?mid e")
  then have res: "merge_step_continuation arr temp s e = (a3, t3)" by (simp add: merge_step_continuation_def spawn(2))
  have "mset [(a1, b1), (a2, b2)] = mset [(s, ?mid), (?mid, e)]" using spawn(3) two_chunks [OF s] by (simp add: spawn(2))
  then have "a1 = s \<and> b1 = ?mid \<and> a2 = ?mid \<and> b2 = e \<or> a1 = ?mid \<and> b1 = e \<and> a2 = s \<and> b2 = ?mid"
    by (auto simp: add_eq_conv_ex)
  then have "permuted_in s e (fst st) arr \<and> sorted_on arr s ?mid \<and> sorted_on arr ?mid e \<and> length temp = length (snd st)"
  proof (elim disjE conjE)
    assume eq: "a1 = s" "b1 = ?mid" "a2 = ?mid" "b2 = e"
    have A: "permuted_in s ?mid (fst st) (fst st1) \<and> sorted_on (fst st1) s ?mid \<and> length (snd st1) = length (snd st)"
      using spawn.IH(1) spawn.prems mid by (simp add: eq)
    then have len: "length (fst st1) = length (fst st)" by (simp add: permuted_in_def)
    have B: "permuted_in ?mid e (fst st1) arr \<and> sorted_on arr ?mid e \<and> length temp = length (snd st1)"
      using spawn.IH(2) spawn.prems A len by (simp add: eq)
    then show ?thesis
      using A B both_halves(1) [of s ?mid e "fst st" "fst st1" arr] mid spawn.prems by simp
  next
    assume eq: "a1 = ?mid" "b1 = e" "a2 = s" "b2 = ?mid"
    have A: "permuted_in ?mid e (fst st) (fst st1) \<and> sorted_on (fst st1) ?mid e \<and> length (snd st1) = length (snd st)"
      using spawn.IH(1) spawn.prems mid by (simp add: eq)
    then have len: "length (fst st1) = length (fst st)" by (simp add: permuted_in_def)
    have B: "permuted_in s ?mid (fst st1) arr \<and> sorted_on arr s ?mid \<and> length temp = length (snd st1)"
      using spawn.IH(2) spawn.prems A len mid by (simp add: eq)
    then show ?thesis
      using A B both_halves(2) [of s ?mid e "fst st" "fst st1" arr] mid spawn.prems by simp
  qed
  then have "permuted_in s e arr a3 \<and> sorted_on a3 s e \<and> length t3 = length temp"
    by (intro merge_step_correct [OF _ _ _ _ _ _ C]) (use mid spawn.prems in \<open>auto simp: permuted_in_def\<close>)
  with \<open>permuted_in s e (fst st) arr \<and> _\<close> show ?case by (auto simp: res intro: permuted_in_trans)
qed

text \<open>Some order of the children can always be run, to its end.\<close>

lemma concurrent_ends: "\<exists>st'. concurrent_merge_sort s e st st'"
proof (induction "e - s" arbitrary: s e st rule: less_induct)
  case less
  show ?case
  proof (cases "e - s \<le> BASE_CASE_THRESHOLD")
    case True
    then show ?thesis by (cases st) (blast intro: concurrent_merge_sort.base)
  next
    case False
    define c where "c = e - s - (e - s) div 2"
    have mid: "s < s + c" "s + c < e" using halves [of e s] False by (simp_all add: c_def)
    have "s + c - s < e - s" using mid by linarith
    from less [OF this, of st] obtain st1 where A: "concurrent_merge_sort s (s + c) st st1" by blast
    have "e - (s + c) < e - s" using mid by simp
    from less [OF this, of st1] obtain arr temp where B: "concurrent_merge_sort (s + c) e st1 (arr, temp)" by (metis prod.exhaust)
    have "mset [(s, s + c), (s + c, e)] = mset (spawn_chunks s e c)" using two_chunks [of e s] False by (simp add: c_def)
    from concurrent_merge_sort.spawn [OF False c_def this A B] show ?thesis by blast
  qed
qed

section \<open>One specification for all of them\<close>

text \<open>The array with the range from \<open>s\<close> to \<open>e\<close> sorted.\<close>

definition range_sorted :: "int list \<Rightarrow> nat \<Rightarrow> nat \<Rightarrow> int list" where
  "range_sorted arr s e = take s arr @ sort (take (e - s) (drop s arr)) @ drop e arr"

lemma range_sorted_unique:
  assumes "permuted_in s e a b" and "sorted_on b s e" and "s \<le> e" "e \<le> length a"
  shows "b = range_sorted a s e"
proof -
  have len: "e \<le> length b" using assms(1,4) by (simp add: permuted_in_def)
  have "sorted (take (e - s) (drop s b))" using sorted_segment [OF assms(2)] segment_eq [OF len] by simp
  then have "sort (take (e - s) (drop s a)) = take (e - s) (drop s b)"
    by (intro properties_for_sort permuted_in_segment [OF assms(1,3)])
  moreover have "b = take s b @ take (e - s) (drop s b) @ drop e b"
    using assms(3) by (metis append_take_drop_id drop_drop le_add_diff_inverse2)
  ultimately show ?thesis using assms(1) by (simp add: range_sorted_def permuted_in_def)
qed

text \<open>
  The merge step merges. On two sorted halves, the three copy loops and the copy back leave in the
  range exactly the merge of the two halves, left element first among equals, and nothing else of the
  array is touched.
\<close>

theorem sequential_merge_step_merges:
  assumes "s \<le> mid" "mid \<le> e" "e \<le> length arr" "e \<le> length temp"
  shows "fst (sequential_merge_step arr temp s mid e)
    = take s arr @ merge (map ((!) arr) [s..<mid]) (map ((!) arr) [mid..<e]) @ drop e arr"
  using merge_step_result [OF assms] written_eq [of s "merge (segment arr s mid) (segment arr mid e)" arr] assms by simp

theorem sequential_merge_step_merges_witness:
  "fst (sequential_merge_step [9, 1, 4, 2, 3, 0] [0, 0, 0, 0, 0, 0] 1 3 5) = [9, 1, 2, 3, 4, 0]"
  using sequential_merge_step_merges [of 1 3 5 "[9, 1, 4, 2, 3, 0]" "[0, 0, 0, 0, 0, 0]"] by (simp add: upt_rec numeral_eq_Suc)



end
