(* ===== verification/QuickSort.thy ===== *)
theory QuickSort
  imports SortArrays
begin

text \<open>
  The quicksorts of \<open>quick_sort_concurrent_ex.c\<close>: the partition, the baseline on raw threads, and the tasks
  on the scheduler as a state machine over the ranges that are still to be sorted.
\<close>

section \<open>Partition\<close>

definition swap_at :: "int list \<Rightarrow> nat \<Rightarrow> nat \<Rightarrow> int list" where
  "swap_at arr a b = arr[a := arr ! b, b := arr ! a]"

function partition_loop :: "int list \<Rightarrow> int \<Rightarrow> nat \<Rightarrow> nat \<Rightarrow> nat \<Rightarrow> int list \<times> nat" where
  "partition_loop arr pivot lim i j =
     (if j < lim then
        if arr ! j \<le> pivot then partition_loop (swap_at arr i j) pivot lim (i + 1) (j + 1)
        else partition_loop arr pivot lim i (j + 1)
      else (arr, i))"
  by pat_completeness auto
termination by (relation "measure (\<lambda>(arr, pivot, lim, i, j). lim - j)") auto

declare partition_loop.simps [simp del]

definition qs_partition :: "int list \<Rightarrow> nat \<Rightarrow> nat \<Rightarrow> int list \<times> nat" where
  "qs_partition arr start e =
     (let pivot = arr ! (e - 1)
      in case partition_loop arr pivot (e - 1) start start of
           (arr, i) \<Rightarrow> (swap_at arr i (e - 1), i))"

lemma partition_loop_bounds: "i \<le> j \<Longrightarrow> j \<le> lim \<Longrightarrow> i \<le> snd (partition_loop arr pivot lim i j) \<and> snd (partition_loop arr pivot lim i j) \<le> lim"
proof (induction arr pivot lim i j rule: partition_loop.induct)
  case (1 arr pivot lim i j)
  then show ?case by (subst (1 2) partition_loop.simps) auto
qed

lemma qs_partition_bounds:
  assumes "s < e" and "qs_partition arr s e = (arr', p)" shows "s \<le> p" and "p < e"
proof -
  have "s \<le> e - 1" using assms(1) by simp
  from partition_loop_bounds [OF order.refl this, of arr "arr ! (e - 1)"] assms show "s \<le> p" "p < e"
    by (auto simp: qs_partition_def Let_def split: prod.splits)
qed

lemma qs_partition_inside: "(arr', p) = qs_partition arr s e \<Longrightarrow> \<not> e - s \<le> n \<Longrightarrow> s \<le> p \<and> p < e"
  using qs_partition_bounds [of s e arr arr' p] by simp

lemma swap_permuted:
  assumes "s \<le> i" "i < e" "s \<le> j" "j < e" "e \<le> length arr" shows "permuted_in s e arr (swap_at arr i j)"
proof -
  have "mset (swap_at arr i j) = mset arr" using assms by (simp add: swap_at_def mset_swap)
  moreover have "take s (swap_at arr i j) = take s arr" using assms by (intro nth_equalityI) (auto simp: swap_at_def)
  moreover have "drop e (swap_at arr i j) = drop e arr" using assms by (intro nth_equalityI) (auto simp: swap_at_def nth_list_update)
  ultimately show ?thesis by (simp add: permuted_in_def swap_at_def)
qed

lemma partition_loop_correct:
  assumes "s \<le> i" "i \<le> j" "j \<le> lim" "lim \<le> length arr" and "\<And>k. s \<le> k \<Longrightarrow> k < i \<Longrightarrow> arr ! k \<le> pivot"
    and "\<And>k. i \<le> k \<Longrightarrow> k < j \<Longrightarrow> pivot < arr ! k" and "partition_loop arr pivot lim i j = (arr', p)"
  shows "permuted_in s lim arr arr' \<and> i \<le> p \<and> p \<le> lim \<and> (\<forall>k. s \<le> k \<longrightarrow> k < p \<longrightarrow> arr' ! k \<le> pivot)
    \<and> (\<forall>k. p \<le> k \<longrightarrow> k < lim \<longrightarrow> pivot < arr' ! k)"
  using assms
proof (induction arr pivot lim i j rule: partition_loop.induct)
  case (1 arr pivot lim i j)
  show ?case
  proof (cases "j < lim")
    case False
    then have "partition_loop arr pivot lim i j = (arr, i)" by (subst partition_loop.simps) simp
    with False 1(3-9) show ?thesis by (auto simp: permuted_in_refl)
  next
    case j: True
    show ?thesis
    proof (cases "arr ! j \<le> pivot")
      case True
      let ?a = "swap_at arr i j"
      have eq: "partition_loop ?a pivot lim (i + 1) (j + 1) = (arr', p)"
        using 1(9) j True by (subst (asm) partition_loop.simps) simp
      have at: "?a ! k = (if k = j then arr ! i else if k = i then arr ! j else arr ! k)" for k
        using 1(4,6) j by (auto simp: swap_at_def nth_list_update)
      have perm: "permuted_in s lim arr ?a" by (rule swap_permuted) (use 1(3-6) j in auto)
      have "permuted_in s lim ?a arr' \<and> i + 1 \<le> p \<and> p \<le> lim \<and> (\<forall>k. s \<le> k \<longrightarrow> k < p \<longrightarrow> arr' ! k \<le> pivot)
          \<and> (\<forall>k. p \<le> k \<longrightarrow> k < lim \<longrightarrow> pivot < arr' ! k)"
      proof (rule 1(1) [OF j True _ _ _ _ _ _ eq])
        show "?a ! k \<le> pivot" if "s \<le> k" "k < i + 1" for k
          using 1(4) 1(7) [of k] that True unfolding at by (cases "i = j") auto
        show "pivot < ?a ! k" if "i + 1 \<le> k" "k < j + 1" for k
          using 1(8) [of k] 1(8) [of i] that unfolding at by auto
      qed (use 1(3-6) j perm in \<open>auto simp: permuted_in_def\<close>)
      with perm show ?thesis by (auto intro: permuted_in_trans)
    next
      case False
      have eq: "partition_loop arr pivot lim i (j + 1) = (arr', p)"
        using 1(9) j False by (subst (asm) partition_loop.simps) simp
      show ?thesis
      proof (rule 1(2) [OF j False _ _ _ _ _ _ eq])
        show "pivot < arr ! k" if "i \<le> k" "k < j + 1" for k
          using 1(8) [of k] that False by (cases "k = j") auto
      qed (use 1(3-7) j in auto)
    qed
  qed
qed

text \<open>The pivot is in its place: nothing before it is larger, nothing after it is smaller.\<close>

lemma qs_partition_result:
  assumes "s < e" "e \<le> length arr" and "qs_partition arr s e = (arr', p)"
  shows "permuted_in s e arr arr'" and "s \<le> p" "p < e" and "\<And>k. s \<le> k \<Longrightarrow> k < p \<Longrightarrow> arr' ! k \<le> arr' ! p"
    and "\<And>k. p < k \<Longrightarrow> k < e \<Longrightarrow> arr' ! p \<le> arr' ! k"
proof -
  let ?v = "arr ! (e - 1)"
  obtain a where loop: "partition_loop arr ?v (e - 1) s s = (a, p)" and arr': "arr' = swap_at a p (e - 1)"
    using assms(3) by (auto simp: qs_partition_def Let_def split: prod.splits)
  have L: "permuted_in s (e - 1) arr a \<and> s \<le> p \<and> p \<le> e - 1 \<and> (\<forall>k. s \<le> k \<longrightarrow> k < p \<longrightarrow> a ! k \<le> ?v)
      \<and> (\<forall>k. p \<le> k \<longrightarrow> k < e - 1 \<longrightarrow> ?v < a ! k)"
    by (rule partition_loop_correct [OF _ _ _ _ _ _ loop]) (use assms(1,2) in auto)
  show p: "s \<le> p" "p < e" using L assms(1) by auto
  have len: "length a = length arr" using L by (simp add: permuted_in_def)
  have pivot: "a ! (e - 1) = ?v" by (rule permuted_in_outside) (use L assms(1,2) in auto)
  have at: "arr' ! k = (if k = e - 1 then a ! p else if k = p then ?v else a ! k)" for k
    using p assms(1,2) len pivot by (auto simp: arr' swap_at_def nth_list_update)
  have "permuted_in s e a arr'" unfolding arr' by (rule swap_permuted) (use p assms(1,2) len in auto)
  moreover have "permuted_in s e arr a" by (rule permuted_in_wider [of s "e - 1"]) (use L in auto)
  ultimately show "permuted_in s e arr arr'" by (rule permuted_in_trans [rotated])
  have v: "arr' ! p = ?v" using pivot by (simp add: at)
  show "arr' ! k \<le> arr' ! p" if "s \<le> k" "k < p" for k
  proof -
    have "k \<noteq> e - 1" "k \<noteq> p" using that p by linarith+
    then have "arr' ! k = a ! k" by (simp add: at)
    then show ?thesis using that L by (simp add: v)
  qed
  show "arr' ! p \<le> arr' ! k" if "p < k" "k < e" for k
  proof (cases "k = e - 1")
    case True
    then have "arr' ! k = a ! p" by (simp add: at)
    moreover have "?v < a ! p" using L that True by simp
    ultimately show ?thesis by (simp add: v)
  next
    case False
    then have "arr' ! k = a ! k" using that by (simp add: at)
    moreover have "?v < a ! k" using L that False by simp
    ultimately show ?thesis by (simp add: v)
  qed
qed

text \<open>A bound on a range survives a rearrangement inside or outside of it.\<close>

lemma bound_keeps:
  assumes "permuted_in l h a b" and "h \<le> x \<or> y \<le> l \<or> x \<le> l \<and> h \<le> y" and "y \<le> length a"
    and "\<And>k. x \<le> k \<Longrightarrow> k < y \<Longrightarrow> P (a ! k)" and "x \<le> k" "k < y"
  shows "P (b ! k)"
proof (cases "x \<le> l \<and> h \<le> y")
  case True
  then have "permuted_in x y a b" using permuted_in_wider [OF assms(1)] by blast
  then show ?thesis by (rule permuted_in_all [OF _ assms(3)]) (use assms in auto)
next
  case False
  then have "b ! k = a ! k" by (intro permuted_in_outside [OF assms(1)]) (use assms in auto)
  with assms(4-6) show ?thesis by simp
qed

text \<open>A partition whose sides are then sorted, in either order.\<close>

lemma sides_sorted:
  assumes le: "s \<le> p" "p < e" "e \<le> length a" and bounds: "\<And>k. s \<le> k \<Longrightarrow> k < p \<Longrightarrow> a ! k \<le> a ! p" "\<And>k. p < k \<Longrightarrow> k < e \<Longrightarrow> a ! p \<le> a ! k"
    and sides: "permuted_in s p a b \<and> permuted_in (p + 1) e b c \<or> permuted_in (p + 1) e a b \<and> permuted_in s p b c"
    and sorted: "sorted_on c s p" "sorted_on c (p + 1) e"
  shows "permuted_in s e a c \<and> sorted_on c s e"
proof -
  have step: "permuted_in s e x y \<and> length y = length x \<and> y ! p = x ! p \<and> (\<forall>k. s \<le> k \<longrightarrow> k < p \<longrightarrow> y ! k \<le> x ! p)
      \<and> (\<forall>k. p < k \<longrightarrow> k < e \<longrightarrow> x ! p \<le> y ! k)"
    if xy: "permuted_in s p x y \<or> permuted_in (p + 1) e x y" "e \<le> length x"
      "\<forall>k. s \<le> k \<longrightarrow> k < p \<longrightarrow> x ! k \<le> x ! p" "\<forall>k. p < k \<longrightarrow> k < e \<longrightarrow> x ! p \<le> x ! k" for x y
  proof -
    obtain l h where lh: "permuted_in l h x y" "l = s \<and> h = p \<or> l = p + 1 \<and> h = e" using xy(1) by blast
    have "permuted_in s e x y" by (rule permuted_in_wider [OF lh(1)]) (use lh(2) le in auto)
    moreover have "y ! p = x ! p" by (rule permuted_in_outside [OF lh(1)]) (use lh(2) le xy(2) in auto)
    moreover have "y ! k \<le> x ! p" if "s \<le> k" "k < p" for k
      by (rule bound_keeps [OF lh(1), where P = "\<lambda>v. v \<le> x ! p" and x = s and y = p])
        (use lh(2) le \<open>e \<le> length x\<close> \<open>\<forall>k. s \<le> k \<longrightarrow> k < p \<longrightarrow> x ! k \<le> x ! p\<close> that in auto)
    moreover have "x ! p \<le> y ! k" if "p < k" "k < e" for k
      by (rule bound_keeps [OF lh(1), where P = "\<lambda>v. x ! p \<le> v" and x = "p + 1" and y = e])
        (use lh(2) le \<open>e \<le> length x\<close> \<open>\<forall>k. p < k \<longrightarrow> k < e \<longrightarrow> x ! p \<le> x ! k\<close> that in auto)
    ultimately show ?thesis by (simp add: permuted_in_def)
  qed
  have B: "permuted_in s e a b \<and> length b = length a \<and> b ! p = a ! p \<and> (\<forall>k. s \<le> k \<longrightarrow> k < p \<longrightarrow> b ! k \<le> a ! p)
      \<and> (\<forall>k. p < k \<longrightarrow> k < e \<longrightarrow> a ! p \<le> b ! k)"
    by (rule step) (use sides le(3) bounds in auto)
  have C: "permuted_in s e b c \<and> length c = length b \<and> c ! p = b ! p \<and> (\<forall>k. s \<le> k \<longrightarrow> k < p \<longrightarrow> c ! k \<le> b ! p)
      \<and> (\<forall>k. p < k \<longrightarrow> k < e \<longrightarrow> b ! p \<le> c ! k)"
    by (rule step) (use sides le(3) B in auto)
  have "c ! i \<le> c ! j" if ij: "s \<le> i" "i < j" "j < e" for i j
  proof -
    have "c ! i \<le> c ! p" if "i \<le> p" using C ij that by (cases "i = p") auto
    moreover have "c ! p \<le> c ! j" if "p \<le> j" using C ij that by (cases "j = p") auto
    moreover have "c ! i \<le> c ! j" if "j < p \<or> p < i" using sorted ij that by (auto simp: sorted_on_def)
    ultimately show ?thesis by (meson leI order.trans)
  qed
  with B C show ?thesis by (auto simp: sorted_on_def intro: permuted_in_trans)
qed

section \<open>The baseline on raw threads\<close>

definition MAX_OS_THREAD_DEPTH :: int where
  "MAX_OS_THREAD_DEPTH = 4"

definition OS_SPAWN_THRESHOLD :: nat where
  "OS_SPAWN_THRESHOLD = 1000"

text \<open>
  With a thread for the left side, the caller sorts the right side and then joins the thread. The sides are
  disjoint ranges, so the array after the join is that of the right side followed by the left one.
\<close>

function raw_thread_quicksort :: "int list \<Rightarrow> nat \<Rightarrow> nat \<Rightarrow> int \<Rightarrow> int list" where
  "raw_thread_quicksort arr start e depth =
     (let length = e - start
      in if length \<le> BASE_CASE_THRESHOLD then insertion_sort arr start e
         else
           (case qs_partition arr start e of
              (arr, pivot_idx) \<Rightarrow>
                (let left_len = pivot_idx - start; right_len = e - (pivot_idx + 1)
                 in if depth < MAX_OS_THREAD_DEPTH \<and> OS_SPAWN_THRESHOLD < left_len then
                      raw_thread_quicksort
                        (if 0 < right_len then raw_thread_quicksort arr (pivot_idx + 1) e (depth + 1) else arr)
                        start pivot_idx (depth + 1)
                    else
                      (let arr = (if 0 < left_len then raw_thread_quicksort arr start pivot_idx (depth + 1) else arr)
                       in if 0 < right_len then raw_thread_quicksort arr (pivot_idx + 1) e (depth + 1) else arr))))"
  by pat_completeness auto
termination
  by (relation "measure (\<lambda>(arr, start, e, depth). e - start)") (auto dest: qs_partition_inside)

declare raw_thread_quicksort.simps [simp del]


definition sorts :: "nat \<Rightarrow> nat \<Rightarrow> int list \<Rightarrow> int list \<Rightarrow> bool" where
  "sorts s e a b \<longleftrightarrow> permuted_in s e a b \<and> sorted_on b s e"

lemma sorts_short: "e \<le> s + 1 \<Longrightarrow> sorts s e a a"
  by (simp add: sorts_def permuted_in_refl sorted_on_def)

lemma sides_sorts:
  assumes "s \<le> p" "p < e" "e \<le> length a" and "\<And>k. s \<le> k \<Longrightarrow> k < p \<Longrightarrow> a ! k \<le> a ! p" "\<And>k. p < k \<Longrightarrow> k < e \<Longrightarrow> a ! p \<le> a ! k"
    and "sorts s p a b \<and> sorts (p + 1) e b c \<or> sorts (p + 1) e a b \<and> sorts s p b c"
  shows "sorts s e a c"
proof -
  have len: "length b = length a" using assms(6) by (auto simp: sorts_def permuted_in_def)
  have "sorted_on c s p"
    using assms(6) sorted_on_outside [of b s p "p + 1" e c] assms(2,3) len by (auto simp: sorts_def)
  moreover have "sorted_on c (p + 1) e"
    using assms(6) sorted_on_outside [of b "p + 1" e s p c] assms(3) len by (auto simp: sorts_def)
  ultimately show ?thesis
    using sides_sorted [OF assms(1-5), of b c] assms(6) by (auto simp: sorts_def)
qed

lemma raw_thread_sorts: "e \<le> length arr \<Longrightarrow> sorts s e arr (raw_thread_quicksort arr s e depth)"
proof (induction "e - s" arbitrary: arr s e depth rule: less_induct)
  case less
  show ?case
  proof (cases "e - s \<le> BASE_CASE_THRESHOLD")
    case True
    then show ?thesis
      using insertion_sort_result [OF less.prems] by (subst raw_thread_quicksort.simps) (simp add: sorts_def)
  next
    case False
    obtain a p where P: "qs_partition arr s e = (a, p)" by (cases "qs_partition arr s e")
    have "s < e" using False by simp
    note Q = qs_partition_result [OF this less.prems P]
    have len: "length a = length arr" using Q(1) by (simp add: permuted_in_def)
    let ?left = "\<lambda>x. if 0 < p - s then raw_thread_quicksort x s p (depth + 1) else x"
    let ?right = "\<lambda>x. if 0 < e - (p + 1) then raw_thread_quicksort x (p + 1) e (depth + 1) else x"
    have left: "sorts s p x (?left x)" if "length x = length arr" for x
      using less.hyps [of p s x "depth + 1"] Q(2,3) less.prems that sorts_short [of p s x] by auto
    have right: "sorts (p + 1) e x (?right x)" if "length x = length arr" for x
      using less.hyps [of e "p + 1" x "depth + 1"] Q(2,3) less.prems that sorts_short [of e "p + 1" x] by auto
    have keep: "length (?left a) = length arr" "length (?right a) = length arr"
      using left [OF len] right [OF len] len by (simp_all add: sorts_def permuted_in_def)
    have e: "e \<le> length a" using less.prems len by simp
    have "sorts s e a (?right (?left a))"
      by (rule sides_sorts [OF Q(2,3) e Q(4,5) disjI1 [OF conjI [OF left [OF len] right [OF keep(1)]]]])
    moreover have "sorts s e a (?left (?right a))"
      by (rule sides_sorts [OF Q(2,3) e Q(4,5) disjI2 [OF conjI [OF right [OF len] left [OF keep(2)]]]])
    moreover have "raw_thread_quicksort arr s e depth = (if depth < MAX_OS_THREAD_DEPTH \<and> OS_SPAWN_THRESHOLD < p - s
        then ?left (?right a) else ?right (?left a))"
      using False P by (subst raw_thread_quicksort.simps) (auto simp: Let_def)
    ultimately show ?thesis using Q(1) by (auto simp: sorts_def intro: permuted_in_trans)
  qed
qed

text \<open>
  The raw-thread quicksort sorts its range, whatever the recursion depth at which it starts and hence
  whether it uses threads or not, and leaves the rest of the array alone.
\<close>

theorem raw_thread_quicksort_correct:
  assumes "s \<le> e" "e \<le> length arr"
  shows "raw_thread_quicksort arr s e depth = range_sorted arr s e"
  using raw_thread_sorts [OF assms(2)] assms by (intro range_sorted_unique) (auto simp: sorts_def)

theorem raw_thread_quicksort_correct_witness: "raw_thread_quicksort [4, 8, 2, 6] 0 4 0 = [2, 4, 6, 8]"
  using raw_thread_quicksort_correct [of 0 4 "[4, 8, 2, 6]" 0] by (simp add: range_sorted_def)

section \<open>The tasks on the scheduler\<close>

text \<open>
  The subtasks that one task spawns. Each spawn has the whole side as its chunk size, so it makes one task.
\<close>

definition spawned_sides :: "nat \<Rightarrow> nat \<Rightarrow> nat \<Rightarrow> (nat \<times> nat) multiset" where
  "spawned_sides start_idx pivot_idx end_idx =
     (let left_len = pivot_idx - start_idx; right_len = end_idx - (pivot_idx + 1)
      in mset (if 0 < left_len then spawn_chunks start_idx pivot_idx left_len else [])
         + mset (if 0 < right_len then spawn_chunks (pivot_idx + 1) end_idx right_len else []))"

text \<open>
  One task of \<open>sk_quicksort_task\<close>: any of the pending ranges is taken, and it is sorted, or partitioned and
  its sides become pending. A state is the bag of pending ranges and the array.
\<close>

inductive sk_quicksort_task :: "(nat \<times> nat) multiset \<times> int list \<Rightarrow> (nat \<times> nat) multiset \<times> int list \<Rightarrow> bool" where
  base: "end_idx - start_idx \<le> BASE_CASE_THRESHOLD \<Longrightarrow>
    sk_quicksort_task (add_mset (start_idx, end_idx) P, arr) (P, insertion_sort arr start_idx end_idx)"
| split: "\<not> end_idx - start_idx \<le> BASE_CASE_THRESHOLD \<Longrightarrow> qs_partition arr start_idx end_idx = (arr', pivot_idx) \<Longrightarrow>
    sk_quicksort_task (add_mset (start_idx, end_idx) P, arr) (P + spawned_sides start_idx pivot_idx end_idx, arr')"

lemma one_chunk:
  assumes "a < b" shows "spawn_chunks a b (b - a) = [(a, b)]"
proof -
  obtain c where b: "b = a + c" "0 < c" using assms by (metis less_imp_add_positive)
  have "(c + c - 1) div c = 1" by (rule div_nat_eqI) (use b(2) in auto)
  then show ?thesis by (simp add: spawn_chunks_def b(1))
qed

lemma spawned_sides_eq:
  "s \<le> p \<Longrightarrow> p < e \<Longrightarrow> spawned_sides s p e = (if s < p then {#(s, p)#} else {#}) + (if p + 1 < e then {#(p + 1, e)#} else {#})"
  using one_chunk [of s p] one_chunk [of "p + 1" e] by (simp add: spawned_sides_def Let_def)

definition pending_work :: "(nat \<times> nat) multiset \<Rightarrow> nat" where
  "pending_work P = (\<Sum>(a, b)\<in>#P. 2 * (b - a) + 1)"

lemma task_work_decreases:
  assumes "sk_quicksort_task st st'" shows "pending_work (fst st') < pending_work (fst st)"
  using assms
proof cases
  case (split e s arr arr' p P)
  then have "s \<le> p" "p < e" using qs_partition_bounds [of s e arr arr' p] by auto
  then obtain l r where "p = s + l" "e = Suc (s + l + r)" by (metis add_Suc_right le_Suc_ex less_imp_Suc_add)
  with split show ?thesis by (simp add: pending_work_def spawned_sides_eq)
qed (simp add: pending_work_def)

text \<open>How often an index lies in a pending range, and the order that is reached but for pending ranges.\<close>

definition covers :: "(nat \<times> nat) multiset \<Rightarrow> nat \<Rightarrow> nat" where
  "covers P i = size {#r \<in># P. fst r \<le> i \<and> i < snd r#}"

definition both_pending :: "(nat \<times> nat) multiset \<Rightarrow> nat \<Rightarrow> nat \<Rightarrow> bool" where
  "both_pending P i j \<longleftrightarrow> (\<exists>a b. (a, b) \<in># P \<and> a \<le> i \<and> j < b)"

lemma both_pendingI: "(a, b) \<in># P \<Longrightarrow> a \<le> i \<Longrightarrow> j < b \<Longrightarrow> both_pending P i j"
  by (auto simp: both_pending_def)

definition pending_ok :: "nat \<Rightarrow> nat \<Rightarrow> (nat \<times> nat) multiset \<times> int list \<Rightarrow> bool" where
  "pending_ok s e st \<longleftrightarrow> e \<le> length (snd st) \<and> (\<forall>a b. (a, b) \<in># fst st \<longrightarrow> s \<le> a \<and> b \<le> e) \<and> (\<forall>i. covers (fst st) i \<le> 1)
     \<and> (\<forall>i j. s \<le> i \<longrightarrow> i < j \<longrightarrow> j < e \<longrightarrow> snd st ! i \<le> snd st ! j \<or> both_pending (fst st) i j)"

lemma covers_add [simp]: "covers (add_mset (a, b) P) i = of_bool (a \<le> i \<and> i < b) + covers P i" "covers (P + Q) i = covers P i + covers Q i"
  "covers {#} i = 0"
  by (simp_all add: covers_def)

lemma covers_pos: "(a, b) \<in># P \<Longrightarrow> a \<le> i \<Longrightarrow> i < b \<Longrightarrow> 0 < covers P i"
  by (auto simp: covers_def dest!: multi_member_split)

text \<open>A step on the range from \<open>a\<close> to \<open>b\<close> that leaves the sides \<open>Q\<close> pending.\<close>

lemma pending_step:
  assumes ok: "pending_ok s e (add_mset (a, b) P, arr)" and perm: "permuted_in a b arr arr'"
    and inside: "\<And>i j. a \<le> i \<Longrightarrow> i < j \<Longrightarrow> j < b \<Longrightarrow> arr' ! i \<le> arr' ! j \<or> both_pending Q i j"
    and Q: "\<And>x y. (x, y) \<in># Q \<Longrightarrow> a \<le> x \<and> y \<le> b" "\<And>i. covers Q i \<le> of_bool (a \<le> i \<and> i < b)"
  shows "pending_ok s e (P + Q, arr')"
proof -
  have len: "e \<le> length arr" "length arr' = length arr" using ok perm by (simp_all add: pending_ok_def permuted_in_def)
  have ranges: "s \<le> x \<and> y \<le> e" if "(x, y) = (a, b) \<or> (x, y) \<in># P" for x y using ok that by (auto simp: pending_ok_def)
  then have ab: "s \<le> a" "b \<le> e" by auto
  have once: "of_bool (a \<le> i \<and> i < b) + covers P i \<le> 1" for i using ok by (simp add: pending_ok_def)
  have order: "arr ! i \<le> arr ! j \<or> both_pending P i j \<or> a \<le> i \<and> j < b" if "s \<le> i" "i < j" "j < e" for i j
  proof -
    have "arr ! i \<le> arr ! j \<or> both_pending (add_mset (a, b) P) i j" using ok that by (simp add: pending_ok_def)
    then show ?thesis by (auto simp: both_pending_def)
  qed
  have apart: "\<not> both_pending P i j" if "a \<le> i \<and> i < b \<or> a \<le> j \<and> j < b" "i < j" for i j
  proof
    assume "both_pending P i j"
    then obtain x y where xy: "(x, y) \<in># P" "x \<le> i" "j < y" by (auto simp: both_pending_def)
    then have "0 < covers P i" "0 < covers P j" using covers_pos [OF xy(1)] that(2) by simp_all
    with once [of i] once [of j] that(1) show False by auto
  qed
  have "arr' ! i \<le> arr' ! j \<or> both_pending (P + Q) i j" if ij: "s \<le> i" "i < j" "j < e" for i j
  proof -
    consider "a \<le> i" "j < b" | "both_pending P i j" | "arr ! i \<le> arr ! j" "\<not> (a \<le> i \<and> i < b)" "\<not> (a \<le> j \<and> j < b)"
      | "a \<le> i" "i < b" "b \<le> j" | "i < a" "a \<le> j" "j < b"
      using order [OF ij] by linarith
    then show ?thesis
    proof cases
      case 1
      with inside [of i j] ij show ?thesis by (auto simp: both_pending_def)
    next
      case 2
      then show ?thesis by (auto simp: both_pending_def)
    next
      case 3
      have "arr' ! i = arr ! i" "arr' ! j = arr ! j"
        by (rule permuted_in_outside [OF perm]; use 3 ij len in linarith)+
      with 3 show ?thesis by simp
    next
      case 4
      have le: "arr ! k \<le> arr ! j" if "a \<le> k" "k < b" for k
        using order [of k j] apart [of k j] that 4 ij ab by auto
      have "arr' ! i \<le> arr ! j" by (rule permuted_in_all [OF perm, where P = "\<lambda>v. v \<le> arr ! j"]) (use le 4 ab len in auto)
      moreover have "arr' ! j = arr ! j" by (rule permuted_in_outside [OF perm]) (use 4 ij len in auto)
      ultimately show ?thesis by simp
    next
      case 5
      have le: "arr ! i \<le> arr ! k" if "a \<le> k" "k < b" for k
        using order [of i k] apart [of i k] that 5 ij ab by auto
      have "arr ! i \<le> arr' ! j" by (rule permuted_in_all [OF perm, where P = "\<lambda>v. arr ! i \<le> v"]) (use le 5 ab len in auto)
      moreover have "arr' ! i = arr ! i" by (rule permuted_in_outside [OF perm]) (use 5 ij len in auto)
      ultimately show ?thesis by simp
    qed
  qed
  moreover have "covers P i + covers Q i \<le> 1" for i using once [of i] Q(2) [of i] by linarith
  moreover have "s \<le> x \<and> y \<le> e" if "(x, y) \<in># P + Q" for x y using that ranges [of x y] Q(1) [of x y] ab by auto
  ultimately show ?thesis using len by (simp add: pending_ok_def)
qed

lemma task_keeps_pending:
  assumes "sk_quicksort_task st st'" and "pending_ok s e st"
  shows "pending_ok s e st' \<and> permuted_in s e (snd st) (snd st')"
  using assms(1)
proof cases
  case (base b a P arr)
  have ab: "s \<le> a" "b \<le> e" "e \<le> length arr" using assms(2) base by (simp_all add: pending_ok_def)
  note I = insertion_sort_result [of b arr a]
  have "pending_ok s e (P + {#}, insertion_sort arr a b)"
    by (rule pending_step [OF assms(2) [unfolded base]]) (use I ab in \<open>auto simp: sorted_on_def\<close>)
  moreover have "permuted_in s e arr (insertion_sort arr a b)"
    by (rule permuted_in_wider [of a b]) (use I ab in auto)
  ultimately show ?thesis by (simp add: base)
next
  case (split b a arr arr' p P)
  have ab: "s \<le> a" "b \<le> e" "e \<le> length arr" using assms(2) split by (simp_all add: pending_ok_def)
  have "a < b" using split(3) by simp
  note R = qs_partition_result [OF this _ split(4)]
  have len: "b \<le> length arr" using ab by simp
  note R = R [OF len]
  let ?Q = "spawned_sides a p b"
  have Q: "?Q = (if a < p then {#(a, p)#} else {#}) + (if p + 1 < b then {#(p + 1, b)#} else {#})"
    by (rule spawned_sides_eq [OF R(2,3)])
  have "pending_ok s e (P + ?Q, arr')"
  proof (rule pending_step [OF assms(2) [unfolded split(1)] R(1)])
    fix i j
    assume ij: "a \<le> i" "i < j" "j < b"
    show "arr' ! i \<le> arr' ! j \<or> both_pending ?Q i j"
    proof -
      consider "j < p" | "p < i" | "i \<le> p" "p \<le> j" by linarith
      then show ?thesis
      proof cases
        case 1
        then have "both_pending ?Q i j" by (intro both_pendingI [of a p]) (use ij in \<open>auto simp: Q\<close>)
        then show ?thesis ..
      next
        case 2
        then have "both_pending ?Q i j" by (intro both_pendingI [of "p + 1" b]) (use ij in \<open>auto simp: Q\<close>)
        then show ?thesis ..
      next
        case 3
        then have "arr' ! i \<le> arr' ! p" "arr' ! p \<le> arr' ! j"
        using R(4) [of i] R(5) [of j] ij by (cases "i = p"; cases "j = p"; auto)+
        then show ?thesis by simp
      qed
    qed
  next
    show "a \<le> x \<and> y \<le> b" if "(x, y) \<in># ?Q" for x y using that R(2,3) by (auto simp: Q split: if_splits)
    show "covers ?Q i \<le> of_bool (a \<le> i \<and> i < b)" for i using R(2,3) by (auto simp: Q)
  qed
  moreover have "permuted_in s e arr arr'" by (rule permuted_in_wider [OF R(1) ab(1,2)])
  ultimately show ?thesis by (simp add: split)
qed

lemma pending_start: "e \<le> length arr \<Longrightarrow> pending_ok s e ({#(s, e)#}, arr)"
  by (simp add: pending_ok_def both_pending_def)

text \<open>What holds of every run of the tasks, and of one that has ended.\<close>

lemma quick_tasks_inv:
  assumes "e \<le> length arr" and "sk_quicksort_task\<^sup>*\<^sup>* ({#(s, e)#}, arr) (P, arr')"
  shows "pending_ok s e (P, arr') \<and> permuted_in s e arr arr'"
  using assms(2)
proof (induction "(P, arr')" arbitrary: P arr' rule: rtranclp_induct)
  case base
  then show ?case by (simp add: pending_start assms(1) permuted_in_refl)
next
  case (step st)
  then show ?case using task_keeps_pending [of st "(P, arr')" s e] by (cases st) (auto intro: permuted_in_trans)
qed

lemma quick_tasks_sort:
  assumes "s \<le> e" "e \<le> length arr" and "sk_quicksort_task\<^sup>*\<^sup>* ({#(s, e)#}, arr) ({#}, arr')"
  shows "arr' = range_sorted arr s e"
  using quick_tasks_inv [OF assms(2,3)] assms(1,2)
  by (intro range_sorted_unique) (auto simp: pending_ok_def sorted_on_def both_pending_def)

text \<open>
  C32: The quicksort tasks sort. From one pending task on the range, in whatever order the workers take the
  tasks that are spawned: as long as one is pending some task can be run, every task that is run makes
  the work left smaller, the rest of the array is never touched, and when no task is pending any more the
  range is sorted.
\<close>

theorem sk_quicksort_correct:
  assumes "s \<le> e" "e \<le> length arr" and "sk_quicksort_task\<^sup>*\<^sup>* ({#(s, e)#}, arr) (P, arr')"
  shows "permuted_in s e arr arr' \<and> (P = {#} \<longrightarrow> arr' = range_sorted arr s e)
    \<and> (P \<noteq> {#} \<longrightarrow> (\<exists>st. sk_quicksort_task (P, arr') st))
    \<and> (\<forall>st. sk_quicksort_task (P, arr') st \<longrightarrow> pending_work (fst st) < pending_work P)"
proof -
  have inv: "pending_ok s e (P, arr') \<and> permuted_in s e arr arr'" by (rule quick_tasks_inv [OF assms(2,3)])
  have "arr' = range_sorted arr s e" if "P = {#}"
    using quick_tasks_sort assms that by blast
  moreover have "\<exists>st. sk_quicksort_task (P, arr') st" if more: "P \<noteq> {#}"
  proof -
    from more obtain r P' where "P = add_mset r P'" by (cases P) auto
    then obtain a b where P: "P = add_mset (a, b) P'" by (cases r) auto
    show ?thesis
    proof (cases "b - a \<le> BASE_CASE_THRESHOLD")
      case True
      then show ?thesis unfolding P by (blast intro: sk_quicksort_task.base)
    next
      case False
      obtain x p where "qs_partition arr' a b = (x, p)" by (cases "qs_partition arr' a b")
      from sk_quicksort_task.split [OF False this] show ?thesis unfolding P by blast
    qed
  qed
  ultimately show ?thesis using inv task_work_decreases [of "(P, arr')"] by auto
qed

theorem sk_quicksort_correct_witness: "insertion_sort [3, 1, 2] 0 3 = [1, 2, 3]"
proof -
  have "sk_quicksort_task (add_mset (0, 3) {#}, [3, 1, 2]) ({#}, insertion_sort [3, 1, 2] 0 3)"
    by (rule sk_quicksort_task.base) (simp add: BASE_CASE_THRESHOLD_def)
  then have "sk_quicksort_task\<^sup>*\<^sup>* ({#(0, 3)#}, [3, 1, 2]) ({#}, insertion_sort [3, 1, 2] 0 3)" by blast
  from sk_quicksort_correct [OF _ _ this] show ?thesis by (simp add: range_sorted_def)
qed

end
