(* ===== verification/Timing.thy ===== *)
theory Timing
  imports Kernels "HOL-Library.Monad_Syntax" "HOL-Library.Signed_Division"
begin

text \<open>
  What the \<open>main\<close> functions of the benchmarks share: the timed loops with their clock readings, the jobs
  that are submitted and awaited, and the statistics of the timings. A \<open>long long\<close> is a 64-bit word that is
  read as signed, and an operation on it that overflows is \<open>None\<close>, which stands for undefined behaviour. The
  clock and what comes of the jobs are parameters.
\<close>

section \<open>Signed 64-bit arithmetic\<close>

definition fits_ll :: "int \<Rightarrow> bool" where
  "fits_ll x \<longleftrightarrow> - (2 ^ 63) \<le> x \<and> x < 2 ^ 63"

definition ll :: "int \<Rightarrow> 64 word option" where
  "ll x = (if fits_ll x then Some (word_of_int x) else None)"

definition ll_add :: "64 word \<Rightarrow> 64 word \<Rightarrow> 64 word option" where
  "ll_add a b = ll (sint a + sint b)"

definition ll_sub :: "64 word \<Rightarrow> 64 word \<Rightarrow> 64 word option" where
  "ll_sub a b = ll (sint a - sint b)"

definition ll_mul :: "64 word \<Rightarrow> 64 word \<Rightarrow> 64 word option" where
  "ll_mul a b = ll (sint a * sint b)"

definition ll_div :: "64 word \<Rightarrow> 64 word \<Rightarrow> 64 word option" where
  "ll_div a b = (if sint b = 0 then None else ll (sint a sdiv sint b))"

lemma sint_ll: "fits_ll x \<Longrightarrow> sint (word_of_int x :: 64 word) = x"
  by (simp add: fits_ll_def signed_of_int signed_take_bit_int_eq_self)

lemma ll_Some: "ll x = Some w \<longleftrightarrow> fits_ll x \<and> sint w = x"
  by (auto simp: ll_def sint_ll)

lemma ll_obtain: "fits_ll x \<Longrightarrow> \<exists>w. ll x = Some w \<and> sint w = x"
  by (auto simp: ll_def sint_ll)

lemma sdiv_thousand: "0 \<le> x \<Longrightarrow> x sdiv 1000 = x div 1000" "x \<le> 0 \<Longrightarrow> x sdiv 1000 = - ((- x) div (1000 :: int))"
  by (auto simp: signed_divide_int_def sgn_if)

section \<open>The clock\<close>

record timespec =
  tv_sec :: "64 word"
  tv_nsec :: "64 word"

text \<open>The elapsed microseconds as three of the benchmarks compute them, and as the quicksort one does.\<close>

definition elapsed_us :: "timespec \<Rightarrow> timespec \<Rightarrow> 64 word option" where
  "elapsed_us start end' = do {
     s \<leftarrow> ll_sub (tv_sec end') (tv_sec start);
     us \<leftarrow> ll_mul s 1000000;
     ns \<leftarrow> ll_sub (tv_nsec end') (tv_nsec start);
     rest \<leftarrow> ll_div ns 1000;
     ll_add us rest
   }"

definition get_time_us :: "timespec \<Rightarrow> 64 word option" where
  "get_time_us ts = do {
     us \<leftarrow> ll_mul (tv_sec ts) 1000000;
     rest \<leftarrow> ll_div (tv_nsec ts) 1000;
     ll_add us rest
   }"

definition elapsed_qs :: "timespec \<Rightarrow> timespec \<Rightarrow> 64 word option" where
  "elapsed_qs t1 t2 = do {
     start \<leftarrow> get_time_us t1;
     now \<leftarrow> get_time_us t2;
     ll_sub now start
   }"

text \<open>Readings of a clock that has not run for more than \<open>2 ^ 40\<close> seconds, and the time they stand for.\<close>

definition reading :: "timespec \<Rightarrow> bool" where
  "reading t \<longleftrightarrow> 0 \<le> sint (tv_sec t) \<and> sint (tv_sec t) < 2 ^ 40 \<and> 0 \<le> sint (tv_nsec t) \<and> sint (tv_nsec t) < 1000000000"

definition nanos :: "timespec \<Rightarrow> int" where
  "nanos t = sint (tv_sec t) * 1000000000 + sint (tv_nsec t)"

text \<open>What a measurement promises: no overflow, never negative, and less than a microsecond off.\<close>

definition measures :: "(timespec \<Rightarrow> timespec \<Rightarrow> 64 word option) \<Rightarrow> bool" where
  "measures elapsed \<longleftrightarrow> (\<forall>t1 t2. reading t1 \<longrightarrow> reading t2 \<longrightarrow> nanos t1 \<le> nanos t2 \<longrightarrow>
     (\<exists>w. elapsed t1 t2 = Some w \<and> 0 \<le> sint w \<and> \<bar>1000 * sint w - (nanos t2 - nanos t1)\<bar> < 1000))"

lemma nanos_bound: "reading t \<Longrightarrow> 0 \<le> nanos t \<and> nanos t < 2 ^ 40 * 1000000000"
  by (auto simp: reading_def nanos_def)

lemma whole_seconds_error:
  "\<bar>1000 * d - n\<bar> < 1000 \<Longrightarrow> \<bar>1000 * (s * 1000000 + d) - (s * 1000000000 + n)\<bar> < (1000 :: int)"
  by (simp add: algebra_simps)

lemma whole_seconds: "0 \<le> s * 1000000000 + n \<Longrightarrow> n < 1000000000 \<Longrightarrow> 0 \<le> (s :: int)"
  by linarith

lemma elapsed_us_measures: "measures elapsed_us"
  unfolding measures_def
proof (intro allI impI)
  fix t1 t2 assume t: "reading t1" "reading t2" "nanos t1 \<le> nanos t2"
  let ?s = "sint (tv_sec t2) - sint (tv_sec t1)" and ?n = "sint (tv_nsec t2) - sint (tv_nsec t1)"
  have s: "- (2 ^ 40) < ?s" "?s < 2 ^ 40" "- 1000000000 < ?n" "?n < 1000000000" using t(1,2) by (auto simp: reading_def)
  have total: "0 \<le> ?s * 1000000000 + ?n" "nanos t2 - nanos t1 = ?s * 1000000000 + ?n" using t(3) by (auto simp: nanos_def)
  have d: "\<bar>1000 * (?n sdiv 1000) - ?n\<bar> < 1000" "\<bar>?n sdiv 1000\<bar> \<le> 1000000" "0 \<le> ?n \<longrightarrow> 0 \<le> ?n sdiv 1000" "- 999999 \<le> ?n sdiv 1000"
    using s(3,4) sdiv_thousand [of ?n] by (cases "0 \<le> ?n"; simp; linarith)+
  have "0 \<le> ?s" by (rule whole_seconds [OF total(1) s(4)])
  then have sec: "0 < ?s \<or> ?s = 0 \<and> 0 \<le> ?n" using total(1) by (cases "?s = 0") auto
  let ?e = "?s * 1000000 + ?n sdiv 1000"
  have e: "0 \<le> ?e" using sec d(3,4) by auto
  have fits: "fits_ll ?s" "fits_ll (?s * 1000000)" "fits_ll ?n" "fits_ll (?n sdiv 1000)" "fits_ll ?e"
    using s d(2) e by (auto simp: fits_ll_def)
  obtain a where a: "ll ?s = Some a" "sint a = ?s" using ll_obtain [OF fits(1)] by blast
  obtain b where b: "ll (?s * 1000000) = Some b" "sint b = ?s * 1000000" using ll_obtain [OF fits(2)] by blast
  obtain c where c: "ll ?n = Some c" "sint c = ?n" using ll_obtain [OF fits(3)] by blast
  obtain f where f: "ll (?n sdiv 1000) = Some f" "sint f = ?n sdiv 1000" using ll_obtain [OF fits(4)] by blast
  obtain g where g: "ll ?e = Some g" "sint g = ?e" using ll_obtain [OF fits(5)] by blast
  have k: "sint (1000000 :: 64 word) = 1000000" "sint (1000 :: 64 word) = 1000" "(1000 :: int) \<noteq> 0" by simp_all
  have "elapsed_us t1 t2 = Some g"
    by (simp only: elapsed_us_def ll_sub_def ll_mul_def ll_div_def ll_add_def k a b c f g bind.simps if_False)
  moreover have "\<bar>1000 * ?e - (nanos t2 - nanos t1)\<bar> < 1000" unfolding total(2) by (rule whole_seconds_error [OF d(1)])
  ultimately show "\<exists>w. elapsed_us t1 t2 = Some w \<and> 0 \<le> sint w \<and> \<bar>1000 * sint w - (nanos t2 - nanos t1)\<bar> < 1000"
    using g(2) e by auto
qed

lemma get_time_us_result:
  assumes "reading t"
  shows "\<exists>w. get_time_us t = Some w \<and> sint w = nanos t div 1000"
proof -
  let ?s = "sint (tv_sec t)" and ?n = "sint (tv_nsec t)"
  have s: "0 \<le> ?s" "?s < 2 ^ 40" "0 \<le> ?n" "?n < 1000000000" using assms by (auto simp: reading_def)
  let ?e = "?s * 1000000 + ?n div 1000"
  have fits: "fits_ll (?s * 1000000)" "fits_ll (?n div 1000)" "fits_ll ?e" using s by (auto simp: fits_ll_def)
  obtain b where b: "ll (?s * 1000000) = Some b" "sint b = ?s * 1000000" using ll_obtain [OF fits(1)] by blast
  obtain f where f: "ll (?n div 1000) = Some f" "sint f = ?n div 1000" using ll_obtain [OF fits(2)] by blast
  obtain g where g: "ll ?e = Some g" "sint g = ?e" using ll_obtain [OF fits(3)] by blast
  have "get_time_us t = Some g"
    using s by (simp add: get_time_us_def ll_mul_def ll_div_def ll_add_def sdiv_thousand b f g)
  moreover have "?e = nanos t div 1000" by (simp add: nanos_def)
  ultimately show ?thesis using g(2) by simp
qed

lemma elapsed_qs_measures: "measures elapsed_qs"
  unfolding measures_def
proof (intro allI impI)
  fix t1 t2 assume t: "reading t1" "reading t2" "nanos t1 \<le> nanos t2"
  obtain a where a: "get_time_us t1 = Some a" "sint a = nanos t1 div 1000" using get_time_us_result [OF t(1)] by blast
  obtain b where b: "get_time_us t2 = Some b" "sint b = nanos t2 div 1000" using get_time_us_result [OF t(2)] by blast
  let ?e = "nanos t2 div 1000 - nanos t1 div 1000"
  have "0 \<le> ?e" using t(3) by (simp add: zdiv_mono1)
  moreover have "\<bar>1000 * ?e - (nanos t2 - nanos t1)\<bar> < 1000" by (simp add: minus_mod_eq_mult_div [symmetric])
  ultimately have e: "0 \<le> ?e" "\<bar>1000 * ?e - (nanos t2 - nanos t1)\<bar> < 1000" .
  have "fits_ll ?e" using e(1) nanos_bound [OF t(1)] nanos_bound [OF t(2)] by (simp add: fits_ll_def) linarith
  then obtain g where g: "ll ?e = Some g" "sint g = ?e" using ll_obtain by blast
  then have "elapsed_qs t1 t2 = Some g" by (simp add: elapsed_qs_def ll_sub_def a b)
  then show "\<exists>w. elapsed_qs t1 t2 = Some w \<and> 0 \<le> sint w \<and> \<bar>1000 * sint w - (nanos t2 - nanos t1)\<bar> < 1000"
    using g(2) e by simp
qed

section \<open>The statistics\<close>

text \<open>
  \<open>qsort\<close> of the standard library, as an insertion by the comparison it is given. What else a library's
  \<open>qsort\<close> does, it can only return this list: the comparison is zero on equal numbers alone.
\<close>

fun insert_ll :: "64 word \<Rightarrow> 64 word list \<Rightarrow> 64 word list" where
  "insert_ll x [] = [x]"
| "insert_ll x (y # ys) = (if compare_ll x y \<le> 0 then x # y # ys else y # insert_ll x ys)"

definition qsort_ll :: "64 word list \<Rightarrow> 64 word list" where
  "qsort_ll xs = foldr insert_ll xs []"

abbreviation ordered_ll :: "64 word list \<Rightarrow> bool" where
  "ordered_ll \<equiv> sorted_wrt (\<lambda>a b. compare_ll a b \<le> 0)"

lemma compare_ll_le: "compare_ll a b \<le> 0 \<longleftrightarrow> sint a \<le> sint b"
  by (auto simp: compare_ll_sign sgn_if)

lemma insert_ll_mset [simp]: "mset (insert_ll x ys) = add_mset x (mset ys)"
  by (induction ys) auto

lemma insert_ll_set [simp]: "set (insert_ll x ys) = insert x (set ys)"
  by (induction ys) auto

lemma insert_ll_ordered: "ordered_ll ys \<Longrightarrow> ordered_ll (insert_ll x ys)"
  by (induction ys) (auto simp: compare_ll_le)

lemma qsort_ll_result: "mset (qsort_ll xs) = mset xs" "ordered_ll (qsort_ll xs)"
  by (induction xs) (simp_all add: qsort_ll_def insert_ll_ordered)

lemma qsort_ll_unique:
  assumes "mset ys = mset xs" and "ordered_ll ys" shows "ys = qsort_ll xs"
proof -
  have sorted: "sorted (map sint zs)" if "ordered_ll zs" for zs :: "64 word list"
    using that by (simp add: compare_ll_le sorted_map)
  have "sort (map sint xs) = map sint zs" if "mset zs = mset xs" "ordered_ll zs" for zs
    by (rule properties_for_sort) (use that sorted in auto)
  from this [OF assms] this [OF qsort_ll_result] have "map sint ys = map sint (qsort_ll xs)" by simp
  moreover have "inj (sint :: 64 word \<Rightarrow> int)" by (rule injI) (metis scast_eq scast_id)
  ultimately show ?thesis by (simp add: inj_map_eq_map)
qed

record report =
  p50 :: "64 word"
  p90 :: "64 word"
  p99 :: "64 word"
  least :: "64 word"
  most :: "64 word"
  total_us :: "64 word"

definition element :: "nat \<Rightarrow> 'e list \<Rightarrow> 'e option" where
  "element i xs = (if i < length xs then Some (xs ! i) else None)"

text \<open>
  The numbers that are printed, before their conversion to floating point. The positions of the percentiles
  are constants of the program: the products \<open>NUM_RUNS * 0.90\<close> and \<open>NUM_RUNS * 0.99\<close> are integers.
\<close>

definition percentile :: "nat \<Rightarrow> nat \<Rightarrow> nat" where
  "percentile p NUM_RUNS = NUM_RUNS * p div 100"

definition statistics :: "nat \<Rightarrow> 64 word list \<times> 64 word \<Rightarrow> report option" where
  "statistics NUM_RUNS = (\<lambda>(times, sum). do {
     let times = qsort_ll times;
     median \<leftarrow> element (NUM_RUNS div 2) times;
     ninety \<leftarrow> element (percentile 90 NUM_RUNS) times;
     ninety_nine \<leftarrow> element (percentile 99 NUM_RUNS) times;
     first \<leftarrow> element 0 times;
     last \<leftarrow> element (NUM_RUNS - 1) times;
     Some \<lparr>p50 = median, p90 = ninety, p99 = ninety_nine, least = first, most = last, total_us = sum\<rparr>
   })"

definition report_sound :: "nat \<Rightarrow> report \<Rightarrow> bool" where
  "report_sound n r \<longleftrightarrow> 0 \<le> sint (least r) \<and> sint (least r) \<le> sint (p50 r) \<and> sint (p50 r) \<le> sint (p90 r)
     \<and> sint (p90 r) \<le> sint (p99 r) \<and> sint (p99 r) \<le> sint (most r)
     \<and> int n * sint (least r) \<le> sint (total_us r) \<and> sint (total_us r) \<le> int n * sint (most r)"

lemma sum_list_bounds:
  assumes "\<And>x. x \<in> set xs \<Longrightarrow> lo \<le> x \<and> x \<le> (hi :: int)"
  shows "int (length xs) * lo \<le> sum_list xs \<and> sum_list xs \<le> int (length xs) * hi"
  using assms by (induction xs) (auto simp: algebra_simps intro: add_mono)

lemma statistics_sound:
  assumes "0 < n" and "length us = n" and "sint tot = sum_list (map sint us)" and "\<And>w. w \<in> set us \<Longrightarrow> 0 \<le> sint w"
  shows "\<exists>r. statistics n (us, tot) = Some r \<and> report_sound n r"
proof -
  define ts where "ts = qsort_ll us"
  have m: "mset ts = mset us" and o: "ordered_ll ts" using qsort_ll_result by (simp_all add: ts_def)
  have len: "length ts = n" using assms(2) m by (metis size_mset)
  have mono: "sint (ts ! i) \<le> sint (ts ! j)" if "i \<le> j" "j < n" for i j
    using o that len by (cases "i = j") (auto simp: sorted_wrt_iff_nth_less compare_ll_le)
  have idx: "n div 2 < n" "percentile 90 n < n" "percentile 99 n < n" "n - 1 < n" "0 < n" "n div 2 \<le> percentile 90 n"
    "percentile 90 n \<le> percentile 99 n" "percentile 99 n \<le> n - 1" "ts \<noteq> []"
    using assms(1) len unfolding percentile_def by (linarith | force)+
  have all: "sint (ts ! 0) \<le> sint w \<and> sint w \<le> sint (ts ! (n - 1))" if "w \<in> set us" for w
  proof -
    from that have "w \<in> set ts" using m by (metis set_mset_mset)
    then obtain i where "i < n" "w = ts ! i" using len by (auto simp: in_set_conv_nth)
    then show ?thesis using mono [of 0 i] mono [of i "n - 1"] by simp
  qed
  have "ts ! 0 \<in> set us" using m len idx(5) by (metis nth_mem set_mset_mset)
  then have "0 \<le> sint (ts ! 0)" by (rule assms(4))
  moreover have "int n * sint (ts ! 0) \<le> sint tot \<and> sint tot \<le> int n * sint (ts ! (n - 1))"
    using sum_list_bounds [of "map sint us" "sint (ts ! 0)" "sint (ts ! (n - 1))"] all by (auto simp: assms(2,3))
  ultimately show ?thesis
    using idx mono by (simp add: statistics_def element_def len ts_def [symmetric] report_sound_def)
qed

section \<open>The timed loops\<close>

text \<open>\<open>times[run] = elapsed; sum += elapsed;\<close>, where the list is the part of the array that is filled.\<close>

definition record_run :: "64 word \<Rightarrow> 64 word list \<times> 64 word \<Rightarrow> (64 word list \<times> 64 word) option" where
  "record_run elapsed = (\<lambda>(us, tot). do {
     tot \<leftarrow> ll_add tot elapsed;
     Some (us @ [elapsed], tot)
   })"

text \<open>
  The loop over the runs of a sequential phase. \<open>clock k\<close> is the \<open>k\<close>-th reading of the clock; the work on the
  memory \<open>m\<close> of the benchmark is \<open>None\<close> where its behaviour is undefined.
\<close>

fun timed_runs :: "('m \<Rightarrow> 'm option) \<Rightarrow> (timespec \<Rightarrow> timespec \<Rightarrow> 64 word option) \<Rightarrow> (nat \<Rightarrow> timespec) \<Rightarrow> nat \<Rightarrow> nat
    \<Rightarrow> 'm \<Rightarrow> 64 word list \<times> 64 word \<Rightarrow> ('m \<times> 64 word list \<times> 64 word) option" where
  "timed_runs work elapsed clock 0 k m acc = Some (m, acc)"
| "timed_runs work elapsed clock (Suc left) k m acc = do {
     m \<leftarrow> work m;
     e \<leftarrow> elapsed (clock k) (clock (k + 1));
     acc \<leftarrow> record_run e acc;
     timed_runs work elapsed clock left (k + 2) m acc
   }"

text \<open>
  What comes of a job that is submitted and awaited: it is refused, its behaviour is undefined, or it is
  done and leaves the memory changed. The warm-up runs do not look at the result of the submission and
  wait for ever when the job was refused.
\<close>

datatype 'm served = Faulty | Refused | Done 'm

fun warm_up :: "(nat \<Rightarrow> 'm \<Rightarrow> 'm served) \<Rightarrow> nat \<Rightarrow> nat \<Rightarrow> 'm \<Rightarrow> 'm served" where
  "warm_up serve 0 k m = Done m"
| "warm_up serve (Suc left) k m =
     (case serve k m of Done m \<Rightarrow> warm_up serve left (k + 1) m | bad \<Rightarrow> bad)"

datatype 'm loop_end = Broken | RejectedAt nat | InvalidAt nat | Completed 'm "64 word list \<times> 64 word"

fun served_runs :: "(nat \<Rightarrow> 'm \<Rightarrow> 'm served) \<Rightarrow> ('m \<Rightarrow> bool) \<Rightarrow> (timespec \<Rightarrow> timespec \<Rightarrow> 64 word option) \<Rightarrow> (nat \<Rightarrow> timespec)
    \<Rightarrow> nat \<Rightarrow> nat \<Rightarrow> nat \<Rightarrow> 'm \<Rightarrow> 64 word list \<times> 64 word \<Rightarrow> 'm loop_end" where
  "served_runs serve valid elapsed clock 0 run k m acc = Completed m acc"
| "served_runs serve valid elapsed clock (Suc left) run k m acc =
     (case serve run m of
        Faulty \<Rightarrow> Broken
      | Refused \<Rightarrow> RejectedAt run
      | Done m \<Rightarrow>
          (case Option.bind (elapsed (clock k) (clock (k + 1))) (\<lambda>e. record_run e acc) of
             None \<Rightarrow> Broken
           | Some acc \<Rightarrow>
               if valid m then served_runs serve valid elapsed clock left (run + 1) (k + 2) m acc else InvalidAt run))"

text \<open>A clock that never goes back, and timings that add up to no more than the time that has passed.\<close>

definition clock_ok :: "(nat \<Rightarrow> timespec) \<Rightarrow> bool" where
  "clock_ok clock \<longleftrightarrow> (\<forall>k. reading (clock k) \<and> nanos (clock k) \<le> nanos (clock (k + 1)))"

definition timings_ok :: "(nat \<Rightarrow> timespec) \<Rightarrow> nat \<Rightarrow> nat \<Rightarrow> 64 word list \<times> 64 word \<Rightarrow> bool" where
  "timings_ok clock k n = (\<lambda>(us, tot). length us = n \<and> sint tot = sum_list (map sint us) \<and> (\<forall>w\<in>set us. 0 \<le> sint w)
     \<and> 1000 * sint tot \<le> nanos (clock k) + 1000 * int n)"

lemma timings_start: "clock_ok clock \<Longrightarrow> timings_ok clock k 0 ([], 0)"
  using nanos_bound [of "clock k"] by (simp add: timings_ok_def clock_ok_def)

lemma record_run_ok:
  assumes "measures elapsed" "clock_ok clock" "timings_ok clock k n acc" "n < 2 ^ 31"
  shows "\<exists>e acc'. elapsed (clock k) (clock (k + 1)) = Some e \<and> record_run e acc = Some acc' \<and> timings_ok clock (k + 2) (n + 1) acc'"
proof -
  obtain us tot where acc: "acc = (us, tot)" by (cases acc)
  have c: "reading (clock k)" "reading (clock (k + 1))" "nanos (clock k) \<le> nanos (clock (k + 1))"
      "nanos (clock (k + 1)) \<le> nanos (clock (k + 2))" for k
    using assms(2) by (auto simp: clock_ok_def) 
  obtain e where e: "elapsed (clock k) (clock (k + 1)) = Some e" "0 \<le> sint e"
      "\<bar>1000 * sint e - (nanos (clock (k + 1)) - nanos (clock k))\<bar> < 1000"
    using assms(1) c unfolding measures_def by meson
  have t: "length us = n" "sint tot = sum_list (map sint us)" "\<forall>w\<in>set us. 0 \<le> sint w" "1000 * sint tot \<le> nanos (clock k) + 1000 * int n"
    using assms(3) by (simp_all add: timings_ok_def acc)
  have pos: "0 \<le> sint tot" unfolding t(2) using t(3) by (induction us) auto
  have le: "1000 * (sint tot + sint e) \<le> nanos (clock (k + 2)) + 1000 * (int n + 1)" using t(4) e(3) c(4) [of k] by (simp add: abs_less_iff)
  have "nanos (clock (k + 2)) < 2 ^ 40 * 1000000000" using nanos_bound c(1) by blast
  then have "fits_ll (sint tot + sint e)" using le pos e(2) assms(4) by (simp add: fits_ll_def)
  then obtain w where w: "ll (sint tot + sint e) = Some w" "sint w = sint tot + sint e" using ll_obtain by blast
  then have "record_run e acc = Some (us @ [e], w)" by (simp add: record_run_def acc ll_add_def)
  moreover have "timings_ok clock (k + 2) (n + 1) (us @ [e], w)"
    using t(1-3) e(2) w(2) le by (auto simp: timings_ok_def)
  ultimately show ?thesis using e(1) by blast
qed

lemma timed_runs_ok:
  assumes "measures elapsed" "clock_ok clock" and work: "\<And>m. I m \<Longrightarrow> \<exists>m'. work m = Some m' \<and> I m'"
  shows "I m \<Longrightarrow> timings_ok clock k n acc \<Longrightarrow> n + left \<le> 2 ^ 31 \<Longrightarrow>
    \<exists>m' acc'. timed_runs work elapsed clock left k m acc = Some (m', acc') \<and> I m' \<and> timings_ok clock (k + 2 * left) (n + left) acc'"
proof (induction left arbitrary: k n m acc)
  case (Suc left)
  obtain m1 where m1: "work m = Some m1" "I m1" using work [OF Suc.prems(1)] by blast
  obtain e acc1 where e: "elapsed (clock k) (clock (k + 1)) = Some e" "record_run e acc = Some acc1" "timings_ok clock (k + 2) (n + 1) acc1"
    using record_run_ok [OF assms(1,2) Suc.prems(2)] Suc.prems(3) by auto
  show ?case using Suc.IH [OF m1(2) e(3)] Suc.prems(3) m1(1) e(1,2) by (simp add: add.commute add.left_commute)
qed auto

lemma warm_up_ok:
  assumes serve: "\<And>r m. r < N \<Longrightarrow> I m \<Longrightarrow> \<exists>m'. serve r m = Done m' \<and> I m'"
  shows "I m \<Longrightarrow> k + left \<le> N \<Longrightarrow> \<exists>m'. warm_up serve left k m = Done m' \<and> I m'"
proof (induction left arbitrary: k m)
  case (Suc left)
  then show ?case using serve [of k m] by fastforce
qed auto

lemma served_runs_ok:
  assumes "measures elapsed" "clock_ok clock" and serve: "\<And>r m. r < N \<Longrightarrow> I m \<Longrightarrow> \<exists>m'. serve r m = Done m' \<and> I m' \<and> valid m'"
  shows "I m \<Longrightarrow> timings_ok clock k n acc \<Longrightarrow> n + left \<le> 2 ^ 31 \<Longrightarrow> run + left \<le> N \<Longrightarrow>
    \<exists>m' acc'. served_runs serve valid elapsed clock left run k m acc = Completed m' acc' \<and> I m' \<and> timings_ok clock (k + 2 * left) (n + left) acc'"
proof (induction left arbitrary: k n m acc run)
  case (Suc left)
  obtain m1 where m1: "serve run m = Done m1" "I m1" "valid m1" using serve [of run m] Suc.prems by auto
  obtain e acc1 where e: "elapsed (clock k) (clock (k + 1)) = Some e" "record_run e acc = Some acc1" "timings_ok clock (k + 2) (n + 1) acc1"
    using record_run_ok [OF assms(1,2) Suc.prems(2)] Suc.prems(3) by auto
  show ?case using Suc.IH [OF m1(2) e(3), of "run + 1"] Suc.prems m1(1,3) e(1,2) by (simp add: add.commute add.left_commute)
qed auto

lemma timings_statistics:
  assumes "0 < n" "timings_ok clock k n acc" shows "\<exists>r. statistics n acc = Some r \<and> report_sound n r"
  using assms statistics_sound [OF assms(1)] by (cases acc) (auto simp: timings_ok_def)

section \<open>The two phases of a benchmark\<close>

datatype verdict = NoMemory | JobRejected nat | ValidationFailed nat | Success "report list"

datatype bench_result = Exit int verdict | Undefined | Hangs

fun finish :: "nat \<Rightarrow> int \<Rightarrow> (64 word list \<times> 64 word) list \<Rightarrow> 'm loop_end \<Rightarrow> bench_result" where
  "finish NUM_RUNS code accs Broken = Undefined"
| "finish NUM_RUNS code accs (RejectedAt run) = Exit code (JobRejected (run + 1))"
| "finish NUM_RUNS code accs (InvalidAt run) = Exit 0 (ValidationFailed (run + 1))"
| "finish NUM_RUNS code accs (Completed m acc) =
     (case those (map (statistics NUM_RUNS) (accs @ [acc])) of None \<Rightarrow> Undefined | Some reports \<Rightarrow> Exit 0 (Success reports))"

fun times_do :: "nat \<Rightarrow> ('m \<Rightarrow> 'm option) \<Rightarrow> 'm \<Rightarrow> 'm option" where
  "times_do 0 work m = Some m"
| "times_do (Suc n) work m = Option.bind (work m) (times_do n work)"

declare finish.simps(4) [simp del]

lemma times_do_ok:
  assumes "\<And>m. I m \<Longrightarrow> \<exists>m'. work m = Some m' \<and> I m'" shows "I m \<Longrightarrow> \<exists>m'. times_do n work m = Some m' \<and> I m'"
  by (induction n arbitrary: m) (use assms in fastforce)+

lemma finish_ok:
  assumes "0 < n" "\<forall>acc\<in>set (accs @ [acc]). \<exists>k. timings_ok clk k n acc"
  shows "\<exists>rs. finish n code accs (Completed m acc) = Exit 0 (Success rs) \<and> length rs = length accs + 1 \<and> (\<forall>r\<in>set rs. report_sound n r)"
proof -
  have "\<exists>rs. those (map (statistics n) xs) = Some rs \<and> length rs = length xs \<and> (\<forall>r\<in>set rs. report_sound n r)"
    if "\<forall>acc\<in>set xs. \<exists>k. timings_ok clk k n acc" for xs
    using that
  proof (induction xs)
    case (Cons x xs)
    then obtain k where "timings_ok clk k n x" by auto
    then obtain r where "statistics n x = Some r" "report_sound n r" using timings_statistics [OF assms(1)] by blast
    with Cons show ?case by auto
  qed simp
  from this [OF assms(2)] show ?thesis by (auto simp: finish.simps)
qed

text \<open>The sequential phase and the one on the scheduler, each with its warm-up runs, and both together.\<close>

lemma sequential_phase:
  assumes "measures elapsed" "clock_ok clk" "runs < 2 ^ 31"
    and work: "\<And>m. P m \<Longrightarrow> \<exists>m'. work m = Some m' \<and> I m'" and I: "\<And>m. I m \<Longrightarrow> P m" and start: "P m" "0 < warm"
  obtains m' acc where "Option.bind (times_do warm work m) (\<lambda>m. timed_runs work elapsed clk runs k m ([], 0)) = Some (m', acc)"
    "I m'" "timings_ok clk (k + 2 * runs) runs acc"
proof -
  have work': "\<exists>m'. work m = Some m' \<and> I m'" if "I m" for m using work I that by blast
  obtain warm' where w: "warm = Suc warm'" using start(2) by (cases warm) auto
  obtain m0 where m0: "work m = Some m0" "I m0" using work start(1) by blast
  then obtain m1 where m1: "times_do warm work m = Some m1" "I m1" using times_do_ok [where I = I and work = work, OF work'] w by fastforce
  obtain m2 acc where m2: "timed_runs work elapsed clk runs k m1 ([], 0) = Some (m2, acc)" "I m2" "timings_ok clk (k + 2 * runs) runs acc"
    using timed_runs_ok [where I = I and work = work and left = runs and k = k, OF assms(1,2) work' m1(2) timings_start [OF assms(2)]] assms(3) by auto
  show ?thesis by (rule that [OF _ m2(2,3)]) (simp add: m1(1) m2(1))
qed

lemma served_phase:
  assumes "measures elapsed" "clock_ok clk" "runs < 2 ^ 31"
    and job: "\<And>k m. k < w + runs \<Longrightarrow> Q m \<Longrightarrow> \<exists>m'. job k m = Done m' \<and> J m' \<and> valid m'" and J: "\<And>m. J m \<Longrightarrow> Q m"
    and start: "Q p" "0 < w"
  obtains p' q acc where "warm_up job w 0 p = Done p'" "J q"
    "served_runs (\<lambda>run. job (w + run)) valid elapsed clk runs 0 k p' ([], 0) = Completed q acc"
    "timings_ok clk (k + 2 * runs) runs acc"
proof -
  have job': "\<exists>m'. job k m = Done m' \<and> J m' \<and> valid m'" if "k < w + runs" "J m" for k m using job J that by blast
  obtain w' where w: "w = Suc w'" using start(2) by (cases w) auto
  obtain p0 where p0: "job 0 p = Done p0" "J p0" using job start by blast
  have "\<exists>m'. warm_up job w' 1 p0 = Done m' \<and> J m'" by (rule warm_up_ok [where N = "w + runs"]) (use job' p0 w in auto)
  then obtain p1 where p1: "warm_up job w 0 p = Done p1" "J p1" using p0(1) w by auto
  show ?thesis
    using served_runs_ok [where I = J and N = runs and serve = "\<lambda>run. job (w + run)",
        OF assms(1,2) job' p1(2) timings_start [OF assms(2)], of runs 0 k] assms(3) that [OF p1(1)] by auto
qed

lemma two_phases:
  assumes "measures elapsed" "clock_ok clk" "0 < runs" "runs < 2 ^ 31"
    and work: "\<And>m. P m \<Longrightarrow> \<exists>m'. work m = Some m' \<and> I m'" and I: "\<And>m. I m \<Longrightarrow> P m"
    and job: "\<And>k m. k < w + runs \<Longrightarrow> Q m \<Longrightarrow> \<exists>m'. job k m = Done m' \<and> J m' \<and> valid m'" and J: "\<And>m. J m \<Longrightarrow> Q m"
    and start: "P m" "Q p" "0 < warm" "0 < w"
  obtains m' acc p' q acc' rs where
    "Option.bind (times_do warm work m) (\<lambda>m. timed_runs work elapsed clk runs 0 m ([], 0)) = Some (m', acc)"
    "warm_up job w 0 p = Done p'" "I m'" "J q"
    "served_runs (\<lambda>run. job (w + run)) valid elapsed clk runs 0 (2 * runs) p' ([], 0) = Completed q acc'"
    "finish runs code [acc] (Completed q acc') = Exit 0 (Success rs)" "length rs = 2" "\<forall>r\<in>set rs. report_sound runs r"
proof -
  obtain m' acc where m: "Option.bind (times_do warm work m) (\<lambda>m. timed_runs work elapsed clk runs 0 m ([], 0)) = Some (m', acc)"
      "I m'" "timings_ok clk (0 + 2 * runs) runs acc"
    by (rule sequential_phase [where P = P, OF assms(1,2,4) work I start(1,3)])
  obtain p' q acc' where p: "warm_up job w 0 p = Done p'" "J q"
      "served_runs (\<lambda>run. job (w + run)) valid elapsed clk runs 0 (2 * runs) p' ([], 0) = Completed q acc'"
      "timings_ok clk (2 * runs + 2 * runs) runs acc'"
    by (rule served_phase [where Q = Q, OF assms(1,2,4) job J start(2,4)])
  obtain rs where rs: "finish runs code [acc] (Completed q acc') = Exit 0 (Success rs)" "length rs = 2" "\<forall>r\<in>set rs. report_sound runs r"
    using finish_ok [OF assms(3), of "[acc]" acc' clk code q] m(3) p(4) by fastforce
  show ?thesis by (rule that [OF m(1) p(1) m(2) p(2,3) rs])
qed

text \<open>A clock that stands still after its first second.\<close>

definition still_clock :: "nat \<Rightarrow> timespec" where
  "still_clock k = \<lparr>tv_sec = (if k = 0 then 0 else 1), tv_nsec = 5000\<rparr>"

lemma still_clock_ok: "clock_ok still_clock"
  by (simp add: clock_ok_def still_clock_def reading_def nanos_def)

end
