(* ===== verification/Benchmarks.thy ===== *)
theory Benchmarks
  imports QuickSort Timing
begin

text \<open>
  The \<open>main\<close> functions of three benchmarks, from their allocations to the statistics they print. The
  allocator, \<open>rand\<close>, the clock and what comes of the submitted jobs are parameters; the number of elements and
  of runs, which the sources define as positive constants, are arguments.
\<close>

section \<open>The sorting benchmarks\<close>

text \<open>The rest of the program: the \<open>k\<close>-th allocation and what its block holds, \<open>rand\<close> and the clock.\<close>

record bench_env =
  allocated :: "nat \<Rightarrow> bool"
  found :: "nat \<Rightarrow> int list"
  rand :: "nat \<Rightarrow> int"
  clock :: "nat \<Rightarrow> timespec"

definition random_array :: "bench_env \<Rightarrow> nat \<Rightarrow> int list" where
  "random_array env ARRAY_SIZE = map (\<lambda>i. rand env i smod 1000000) [0..<ARRAY_SIZE]"

text \<open>The validation loop; \<open>lim\<close> is \<open>ARRAY_SIZE - 1\<close>.\<close>

function check_order :: "int list \<Rightarrow> nat \<Rightarrow> nat \<Rightarrow> bool" where
  "check_order arr lim i = (if i < lim then (if arr ! (i + 1) < arr ! i then False else check_order arr lim (i + 1)) else True)"
  by pat_completeness auto
termination by (relation "measure (\<lambda>(arr, lim, i). lim - i)") auto

declare check_order.simps [simp del]

lemma check_order_iff: "check_order arr lim i \<longleftrightarrow> (\<forall>j. i \<le> j \<longrightarrow> j < lim \<longrightarrow> arr ! j \<le> arr ! (j + 1))"
proof (induction arr lim i rule: check_order.induct)
  case (1 arr lim i)
  show ?case
  proof (cases "i < lim")
    case True
    then have "(\<forall>j. i \<le> j \<longrightarrow> j < lim \<longrightarrow> arr ! j \<le> arr ! (j + 1))
        \<longleftrightarrow> arr ! i \<le> arr ! (i + 1) \<and> (\<forall>j. i + 1 \<le> j \<longrightarrow> j < lim \<longrightarrow> arr ! j \<le> arr ! (j + 1))"
      by (force simp: Suc_le_eq nat_less_le [of i])
    then show ?thesis using 1 True by (subst check_order.simps) (simp add: not_less [symmetric])
  next
    case False
    then show ?thesis by (subst check_order.simps) simp
  qed
qed

lemma check_order_sorted: "check_order arr (length arr - 1) 0 \<longleftrightarrow> sorted arr"
  by (auto simp: check_order_iff sorted_iff_nth_Suc)

text \<open>
  \<open>merge_sort_comparison_ex.c\<close>. The program does not look whether the buffers \<open>temp_array\<close> were allocated; a
  sort of more than \<open>BASE_CASE_THRESHOLD\<close> elements writes to them.
\<close>

record sort_payload =
  array :: "int list"
  temp_array :: "int list option"

definition allocate :: "bench_env \<Rightarrow> nat \<Rightarrow> int list option" where
  "allocate env k = (if allocated env k then Some (found env k) else None)"

definition sequential_merge_run :: "int list \<Rightarrow> nat \<Rightarrow> sort_payload \<Rightarrow> sort_payload option" where
  "sequential_merge_run baseline ARRAY_SIZE p =
     (case temp_array p of
        None \<Rightarrow> if ARRAY_SIZE \<le> BASE_CASE_THRESHOLD then Some (p\<lparr>array := insertion_sort baseline 0 ARRAY_SIZE\<rparr>) else None
      | Some temp \<Rightarrow>
          (case sequential_merge_sort baseline temp 0 ARRAY_SIZE of
             (arr, temp) \<Rightarrow> Some \<lparr>array = arr, temp_array = Some temp\<rparr>))"

definition merge_main :: "bench_env \<Rightarrow> (nat \<Rightarrow> sort_payload \<Rightarrow> sort_payload served) \<Rightarrow> nat \<Rightarrow> nat \<Rightarrow> bench_result" where
  "merge_main env serve ARRAY_SIZE NUM_RUNS =
     (if \<not> (allocated env 0 \<and> allocated env 1 \<and> allocated env 3 \<and> allocated env 5 \<and> allocated env 6) then Exit 1 NoMemory
      else
        (let baseline = random_array env ARRAY_SIZE;
             seq_payload = \<lparr>array = found env 1, temp_array = allocate env 2\<rparr>;
             conc_payload = \<lparr>array = found env 3, temp_array = allocate env 4\<rparr>;
             seq_run = sequential_merge_run baseline ARRAY_SIZE;
             conc_job = (\<lambda>k p. serve k (p\<lparr>array := baseline\<rparr>))
         in case Option.bind (times_do 5 seq_run seq_payload) (\<lambda>p. timed_runs seq_run elapsed_us (clock env) NUM_RUNS 0 p ([], 0)) of
              None \<Rightarrow> Undefined
            | Some (seq_payload, seq_times) \<Rightarrow>
                (case warm_up conc_job 5 0 conc_payload of
                   Faulty \<Rightarrow> Undefined
                 | Refused \<Rightarrow> Hangs
                 | Done conc_payload \<Rightarrow>
                     finish NUM_RUNS 1 [seq_times]
                       (served_runs (\<lambda>run. conc_job (5 + run)) (\<lambda>p. check_order (array p) (ARRAY_SIZE - 1) 0) elapsed_us (clock env)
                          NUM_RUNS 0 (2 * NUM_RUNS) conc_payload ([], 0)))))"

text \<open>\<open>quick_sort_concurrent_ex.c\<close>; a job that is rejected ends the loop, and the program returns 0.\<close>

definition quick_main :: "bench_env \<Rightarrow> (nat \<Rightarrow> int list \<Rightarrow> int list served) \<Rightarrow> nat \<Rightarrow> nat \<Rightarrow> bench_result" where
  "quick_main env serve ARRAY_SIZE NUM_RUNS =
     (if \<not> (\<forall>k<5. allocated env k) then Exit 1 NoMemory
      else
        (let baseline = random_array env ARRAY_SIZE;
             raw_run = (\<lambda>_. Some (raw_thread_quicksort baseline 0 ARRAY_SIZE 0));
             sk_job = (\<lambda>k _. serve k baseline)
         in case Option.bind (times_do 3 raw_run (found env 1)) (\<lambda>arr. timed_runs raw_run elapsed_qs (clock env) NUM_RUNS 0 arr ([], 0)) of
              None \<Rightarrow> Undefined
            | Some (raw_array, raw_times) \<Rightarrow>
                (case warm_up sk_job 5 0 (found env 2) of
                   Faulty \<Rightarrow> Undefined
                 | Refused \<Rightarrow> Hangs
                 | Done sk_array \<Rightarrow>
                     finish NUM_RUNS 0 [raw_times]
                       (served_runs (\<lambda>run. sk_job (5 + run)) (\<lambda>arr. check_order arr (ARRAY_SIZE - 1) 0) elapsed_qs (clock env)
                          NUM_RUNS 0 (2 * NUM_RUNS) sk_array ([], 0)))))"

text \<open>What the benchmarks rely on: the memory, the clock, and that every job is served by a sort.\<close>

definition merge_jobs_sort :: "(nat \<Rightarrow> sort_payload \<Rightarrow> sort_payload served) \<Rightarrow> nat \<Rightarrow> nat \<Rightarrow> bool" where
  "merge_jobs_sort serve n N \<longleftrightarrow> (\<forall>k<N. \<forall>arr temp. length arr = n \<longrightarrow> length temp = n \<longrightarrow>
     (\<exists>arr' temp'. serve k \<lparr>array = arr, temp_array = Some temp\<rparr> = Done \<lparr>array = arr', temp_array = Some temp'\<rparr>
        \<and> concurrent_merge_sort 0 n (arr, temp) (arr', temp')))"

definition quick_jobs_sort :: "(nat \<Rightarrow> int list \<Rightarrow> int list served) \<Rightarrow> nat \<Rightarrow> nat \<Rightarrow> bool" where
  "quick_jobs_sort serve n N \<longleftrightarrow> (\<forall>k<N. \<forall>arr. length arr = n \<longrightarrow>
     (\<exists>arr'. serve k arr = Done arr' \<and> sk_quicksort_task\<^sup>*\<^sup>* ({#(0, n)#}, arr) ({#}, arr')))"

lemma range_sorted_all: "length arr = n \<Longrightarrow> range_sorted arr 0 n = sort arr"
  by (simp add: range_sorted_def)

definition has_temp :: "nat \<Rightarrow> sort_payload \<Rightarrow> bool" where
  "has_temp n p \<longleftrightarrow> (\<exists>temp. temp_array p = Some temp \<and> length temp = n)"

lemma sequential_run_ok:
  assumes "length baseline = n" "has_temp n p"
  shows "\<exists>p'. sequential_merge_run baseline n p = Some p' \<and> has_temp n p'"
proof -
  obtain temp where t: "temp_array p = Some temp" "length temp = n" using assms(2) by (auto simp: has_temp_def)
  obtain a b where ab: "sequential_merge_sort baseline temp 0 n = (a, b)" by (cases "sequential_merge_sort baseline temp 0 n")
  then show ?thesis using merge_sort_result [OF _ _ ab] t assms(1) by (simp add: sequential_merge_run_def has_temp_def)
qed

lemma served_sort_ok:
  assumes "merge_jobs_sort serve n N" "length baseline = n" "k < N" "has_temp n p"
  shows "\<exists>p'. serve k (p\<lparr>array := baseline\<rparr>) = Done p' \<and> has_temp n p' \<and> check_order (array p') (n - 1) 0"
proof -
  obtain temp where t: "temp_array p = Some temp" "length temp = n" using assms(4) by (auto simp: has_temp_def)
  then have p: "p\<lparr>array := baseline\<rparr> = \<lparr>array = baseline, temp_array = Some temp\<rparr>" by simp
  obtain arr' temp' where s: "serve k (p\<lparr>array := baseline\<rparr>) = Done \<lparr>array = arr', temp_array = Some temp'\<rparr>"
      "concurrent_merge_sort 0 n (baseline, temp) (arr', temp')"
    using assms(1-3) t(2) unfolding merge_jobs_sort_def p by blast
  have r: "permuted_in 0 n baseline arr'" "sorted_on arr' 0 n" "length temp' = n"
    using concurrent_sorts [OF s(2)] assms(2) t(2) by simp_all
  then have "arr' = sort baseline" using range_sorted_unique [OF r(1,2)] range_sorted_all assms(2) by simp
  then have "check_order arr' (n - 1) 0" using check_order_sorted [of arr'] assms(2) by simp
  then show ?thesis using s(1) r(3) by (simp add: has_temp_def)
qed

lemma served_quick_ok:
  assumes "quick_jobs_sort serve n N" "length baseline = n" "k < N"
  shows "\<exists>arr'. serve k baseline = Done arr' \<and> check_order arr' (n - 1) 0"
proof -
  obtain arr' where s: "serve k baseline = Done arr'" "sk_quicksort_task\<^sup>*\<^sup>* ({#(0, n)#}, baseline) ({#}, arr')"
    using assms by (auto simp: quick_jobs_sort_def)
  have "arr' = sort baseline" using quick_tasks_sort [OF _ _ s(2)] assms(2) range_sorted_all by simp
  then have "check_order arr' (n - 1) 0" using check_order_sorted [of arr'] assms(2) by simp
  then show ?thesis using s(1) by simp
qed

lemma length_random_array [simp]: "length (random_array env n) = n"
  by (simp add: random_array_def)



text \<open>The same for the quicksort benchmark.\<close>

theorem quick_benchmark_validates:
  assumes "\<forall>k<5. allocated env k" "clock_ok (clock env)" "0 < runs" "runs < 2 ^ 31" "quick_jobs_sort serve n (5 + runs)"
  shows "\<exists>raw_report sk_report. quick_main env serve n runs = Exit 0 (Success [raw_report, sk_report])
    \<and> report_sound runs raw_report \<and> report_sound runs sk_report"
proof -
  let ?b = "random_array env n"
  have job: "\<exists>m'. serve k ?b = Done m' \<and> True \<and> check_order m' (n - 1) 0" if "k < 5 + runs" for k and m :: "int list"
    using served_quick_ok [OF assms(5) length_random_array that] by simp
  obtain m acc p q acc' rs where
      "Option.bind (times_do 3 (\<lambda>_. Some (raw_thread_quicksort ?b 0 n 0)) (found env 1))
         (\<lambda>p. timed_runs (\<lambda>_. Some (raw_thread_quicksort ?b 0 n 0)) elapsed_qs (clock env) runs 0 p ([], 0)) = Some (m, acc)"
      "warm_up (\<lambda>k _. serve k ?b) 5 0 (found env 2) = Done p" True True
      "served_runs (\<lambda>run _. serve (5 + run) ?b) (\<lambda>arr. check_order arr (n - 1) 0) elapsed_qs
         (clock env) runs 0 (2 * runs) p ([], 0) = Completed q acc'"
      "finish runs 0 [acc] (Completed q acc') = Exit 0 (Success rs)" "length rs = 2" "\<forall>r\<in>set rs. report_sound runs r"
    by (rule two_phases [where P = "\<lambda>_. True" and Q = "\<lambda>_. True" and I = "\<lambda>_. True" and J = "\<lambda>_. True" and w = 5 and warm = 3
        and work = "\<lambda>_. Some (raw_thread_quicksort ?b 0 n 0)" and job = "\<lambda>k _. serve k ?b" and valid = "\<lambda>arr. check_order arr (n - 1) 0"
        and code = 0 and m = "found env 1" and p = "found env 2", OF elapsed_qs_measures assms(2-4) _ _ job]) simp_all
  then show ?thesis using assms(1) by (auto simp: quick_main_def Let_def length_Suc_conv numeral_2_eq_2)
qed

text \<open>
  The buffers \<open>temp_array\<close> are not checked: when the one of the sequential phase was not allocated, the
  first warm-up run writes through a null pointer, where the program means to report that memory is short.
\<close>

theorem merge_temp_unchecked:
  assumes "\<forall>k<7. allocated env k \<longleftrightarrow> k \<noteq> 2" "BASE_CASE_THRESHOLD < n"
  shows "merge_main env serve n runs = Undefined"
  using assms by (simp add: merge_main_def allocate_def sequential_merge_run_def numeral_eq_Suc)

text \<open>A warm-up job that is rejected leaves the program waiting for ever.\<close>

theorem quick_warm_up_hangs:
  assumes "\<forall>k<5. allocated env k" "clock_ok (clock env)" "runs < 2 ^ 31" "\<And>arr. serve 0 arr = Refused"
  shows "quick_main env serve n runs = Hangs"
proof -
  let ?work = "\<lambda>_ :: int list. Some (raw_thread_quicksort (random_array env n) 0 n 0)"
  obtain m where m: "times_do 3 ?work (found env 1) = Some m" by (simp add: numeral_3_eq_3)
  obtain m' acc where "timed_runs ?work elapsed_qs (clock env) runs 0 m ([], 0) = Some (m', acc)"
    using timed_runs_ok [where I = "\<lambda>_. True" and work = ?work, OF elapsed_qs_measures assms(2) _ _ timings_start [OF assms(2)], where m = m and left = runs and k = 0] assms(3)
    by auto
  then show ?thesis using assms(1,4) m by (simp add: quick_main_def Let_def numeral_eq_Suc)
qed

section \<open>The array benchmark\<close>

text \<open>
  \<open>array writing_comparison_ex.c\<close>, which validates once, after its last run, and compares the elements with the
  product it expects; none of these is a floating-point value that differs from itself.
\<close>

definition array_main :: "'f arith \<Rightarrow> (nat \<Rightarrow> bool) \<Rightarrow> 'f list \<Rightarrow> 'f list \<Rightarrow> (nat \<Rightarrow> timespec)
    \<Rightarrow> (nat \<Rightarrow> 'f math_payload \<Rightarrow> 'f math_payload served) \<Rightarrow> size_t \<Rightarrow> nat \<Rightarrow> bench_result" where
  "array_main F alloc seq_data conc_data clk serve ARRAY_SIZE NUM_ITERATIONS =
     (if \<not> (\<forall>k<4. alloc k) then Exit 1 NoMemory
      else
        (let seq_payload = \<lparr>data_array = seq_data, multiplier = lit F 105 2\<rparr>;
             conc_payload = \<lparr>data_array = conc_data, multiplier = lit F 105 2\<rparr>;
             seq_run = (\<lambda>p. process_array_chunk F p 0 ARRAY_SIZE)
         in case Option.bind (times_do 5 seq_run seq_payload) (\<lambda>p. timed_runs seq_run elapsed_us clk NUM_ITERATIONS 0 p ([], 0)) of
              None \<Rightarrow> Undefined
            | Some (seq_payload, seq_times) \<Rightarrow>
                (case warm_up serve 5 0 conc_payload of
                   Faulty \<Rightarrow> Undefined
                 | Refused \<Rightarrow> Hangs
                 | Done conc_payload \<Rightarrow>
                     (case served_runs (\<lambda>i. serve (5 + i)) (\<lambda>_. True) elapsed_us clk NUM_ITERATIONS 0 (2 * NUM_ITERATIONS) conc_payload ([], 0) of
                        RejectedAt i \<Rightarrow> Exit 1 (JobRejected i)
                      | Completed conc_payload conc_times \<Rightarrow>
                          (case List.find (\<lambda>i. let expected = fmul F (of_size F (word_of_nat i)) (lit F 105 2)
                                          in data_array seq_payload ! i \<noteq> expected \<or> data_array conc_payload ! i \<noteq> expected)
                                 [0..<unat ARRAY_SIZE] of
                             Some i \<Rightarrow> Exit 0 (ValidationFailed i)
                           | None \<Rightarrow> finish NUM_ITERATIONS 1 [seq_times] (Completed conc_payload conc_times))
                      | _ \<Rightarrow> Undefined))))"

text \<open>Every job runs the task function on ranges that together have every index once.\<close>

definition array_jobs_cover :: "'f arith \<Rightarrow> (nat \<Rightarrow> 'f math_payload \<Rightarrow> 'f math_payload served) \<Rightarrow> size_t \<Rightarrow> nat \<Rightarrow> bool" where
  "array_jobs_cover F serve n N \<longleftrightarrow> (\<forall>k<N. \<forall>p. length (data_array p) = unat n \<longrightarrow>
     (\<exists>rs xs. (\<Sum>(a, b)\<in>#mset rs. mset [unat a..<unat b]) = mset [0..<unat n]
        \<and> run_ranges (array_body F (multiplier p)) rs (data_array p) = Some xs \<and> serve k p = Done (p\<lparr>data_array := xs\<rparr>)))"

definition products :: "'f arith \<Rightarrow> size_t \<Rightarrow> 'f list" where
  "products F n = map (\<lambda>i. fmul F (of_size F (word_of_nat i)) (lit F 105 2)) [0..<unat n]"

text \<open>
  The array benchmark validates: with its memory, a clock that never goes back and jobs that are accepted,
  its result is one report for each phase, and no element differs from the product.
\<close>

theorem array_benchmark_validates:
  assumes "\<forall>k<4. alloc k" "length seq_data = unat n" "length conc_data = unat n" "clock_ok clk"
    and "0 < runs" "runs < 2 ^ 31" "array_jobs_cover F serve n (5 + runs)"
  shows "\<exists>seq_report conc_report. array_main F alloc seq_data conc_data clk serve n runs = Exit 0 (Success [seq_report, conc_report])
    \<and> report_sound runs seq_report \<and> report_sound runs conc_report"
proof -
  let ?work = "\<lambda>p. process_array_chunk F p 0 n"
  define I where "I p \<longleftrightarrow> length (data_array p) = unat n \<and> multiplier p = lit F 105 2" for p :: "'a math_payload"
  define J where "J p \<longleftrightarrow> data_array p = products F n \<and> multiplier p = lit F 105 2" for p :: "'a math_payload"
  have cells: "for_range (array_body F (lit F 105 2)) 0 n (data_array p) = Some (products F n)" if "I p" for p
    using arr.range_all [of "data_array p" n F "lit F 105 2"] that by (simp add: I_def products_def)
  have J: "I p" if "J p" for p using that by (simp add: I_def J_def products_def)
  have work: "\<exists>p'. ?work p = Some p' \<and> J p'" if "I p" for p
    using cells [OF that] that by (simp add: process_array_chunk_def I_def J_def)
  have job: "\<exists>p'. serve k p = Done p' \<and> J p' \<and> True" if k: "k < 5 + runs" and p: "I p" for k p
  proof -
    have len: "length (data_array p) = unat n" and mul: "multiplier p = lit F 105 2" using p by (simp_all add: I_def)
    obtain rs xs where rs: "(\<Sum>(a, b)\<in>#mset rs. mset [unat a..<unat b]) = mset [0..<unat n]"
        "run_ranges (array_body F (multiplier p)) rs (data_array p) = Some xs" "serve k p = Done (p\<lparr>data_array := xs\<rparr>)"
      using assms(7) k len unfolding array_jobs_cover_def by blast
    have "xs = products F n" using arr.ranges_cover [OF rs(1), of "data_array p" F "multiplier p"] rs(2) len mul cells [OF p] by simp
    then show ?thesis using rs(3) mul by (simp add: J_def)
  qed
  have start: "I \<lparr>data_array = seq_data, multiplier = lit F 105 2\<rparr>" "I \<lparr>data_array = conc_data, multiplier = lit F 105 2\<rparr>"
    using assms(2,3) by (simp_all add: I_def)
  obtain m acc p q acc' rs where
      "Option.bind (times_do 5 ?work \<lparr>data_array = seq_data, multiplier = lit F 105 2\<rparr>)
         (\<lambda>p. timed_runs ?work elapsed_us clk runs 0 p ([], 0)) = Some (m, acc)"
      "warm_up serve 5 0 \<lparr>data_array = conc_data, multiplier = lit F 105 2\<rparr> = Done p" "J m" "J q"
      "served_runs (\<lambda>i. serve (5 + i)) (\<lambda>_. True) elapsed_us clk runs 0 (2 * runs) p ([], 0) = Completed q acc'"
      and rs: "finish runs 1 [acc] (Completed q acc') = Exit 0 (Success rs)" "length rs = 2" "\<forall>r\<in>set rs. report_sound runs r"
    by (rule two_phases [where P = I and I = J and Q = I and J = J and work = ?work and w = 5 and warm = 5 and job = serve and code = 1
        and valid = "\<lambda>_. True", OF elapsed_us_measures assms(4-6) work J job J start]) simp_all
  moreover from this(3,4) have "List.find (\<lambda>i. let expected = fmul F (of_size F (word_of_nat i)) (lit F 105 2)
      in data_array m ! i \<noteq> expected \<or> data_array q ! i \<noteq> expected) [0..<unat n] = None"
    by (simp add: find_None_iff J_def products_def)
  ultimately have "array_main F alloc seq_data conc_data clk serve n runs = Exit 0 (Success rs)"
    using assms(1) by (simp add: array_main_def Let_def)
  then show ?thesis using rs(2,3) by (auto simp: length_Suc_conv numeral_2_eq_2)
qed

end
