(* ===== verification/MandelbrotMain.thy ===== *)
theory MandelbrotMain
  imports StaticPool Timing
begin

text \<open>
  The \<open>main\<close> function of \<open>mandelbrot_work_stealing_ex.c\<close>: the renderer on one core, on the static threads and
  on the scheduler, and the comparison of the three images. One generation of the static threads is their
  slices one after the other; \<open>StaticPool.static_runs_render_once\<close> shows that every interleaving renders the same.
\<close>

definition slices :: "size_t \<Rightarrow> size_t \<Rightarrow> (size_t \<times> size_t) list" where
  "slices pixels num_cores = map (\<lambda>i. (slice_start pixels num_cores i, slice_end pixels num_cores i)) [0..<unat num_cores]"

definition static_run :: "'f arith \<Rightarrow> size_t \<Rightarrow> size_t \<Rightarrow> 'f mandelbrot_payload \<Rightarrow> 'f mandelbrot_payload option" where
  "static_run F pixels num_cores p =
     map_option (\<lambda>out. p\<lparr>output_buffer := out\<rparr>) (run_ranges (render_body F p) (slices pixels num_cores) (output_buffer p))"

definition image_payload :: "'f arith \<Rightarrow> uint32 \<Rightarrow> uint32 \<Rightarrow> uint32 \<Rightarrow> 16 word list \<Rightarrow> 'f mandelbrot_payload" where
  "image_payload F IMAGE_WIDTH IMAGE_HEIGHT MAX_ITERATIONS buffer =
     \<lparr>output_buffer = buffer, width = IMAGE_WIDTH, height = IMAGE_HEIGHT, max_iter = MAX_ITERATIONS,
      x_min = lit F (- 20) 1, x_max = lit F 10 1, y_min = lit F (- 112) 2, y_max = lit F 112 2\<rparr>"

text \<open>
  \<open>buffer k\<close> is what the block of allocation \<open>k\<close> holds. The blocks of the thread handles and of the slices are
  allocated without a check, and taken as there.
\<close>

definition mandelbrot_main :: "'f arith \<Rightarrow> uint32 \<Rightarrow> uint32 \<Rightarrow> uint32 \<Rightarrow> size_t \<Rightarrow> (nat \<Rightarrow> bool) \<Rightarrow> (nat \<Rightarrow> 16 word list) \<Rightarrow> (nat \<Rightarrow> timespec)
    \<Rightarrow> (nat \<Rightarrow> 'f mandelbrot_payload \<Rightarrow> 'f mandelbrot_payload served) \<Rightarrow> nat \<Rightarrow> bench_result" where
  "mandelbrot_main F IMAGE_WIDTH IMAGE_HEIGHT MAX_ITERATIONS MY_CORE_COUNT alloc buffer clk serve NUM_RUNS =
     (let num_cores = (if MY_CORE_COUNT < 1 then 1 else MY_CORE_COUNT);
          TOTAL_PIXELS = ucast IMAGE_WIDTH * ucast IMAGE_HEIGHT;
          payload = (\<lambda>k. image_payload F IMAGE_WIDTH IMAGE_HEIGHT MAX_ITERATIONS (buffer k));
          seq_run = (\<lambda>p. render_mandelbrot_chunk F p 0 TOTAL_PIXELS)
      in if \<not> (\<forall>k<6. alloc k) then Exit 1 NoMemory
         else
           (case Option.bind (times_do 1 seq_run (payload 0)) (\<lambda>p. timed_runs seq_run elapsed_us clk NUM_RUNS 0 p ([], 0)) of
              None \<Rightarrow> Undefined
            | Some (seq_payload, seq_times) \<Rightarrow>
                (case Option.bind (times_do 3 (static_run F TOTAL_PIXELS num_cores) (payload 1))
                        (\<lambda>p. timed_runs (static_run F TOTAL_PIXELS num_cores) elapsed_us clk NUM_RUNS (2 * NUM_RUNS) p ([], 0)) of
                   None \<Rightarrow> Undefined
                 | Some (static_payload, static_times) \<Rightarrow>
                     (case warm_up serve 3 0 (payload 2) of
                        Faulty \<Rightarrow> Undefined
                      | Refused \<Rightarrow> Hangs
                      | Done conc_payload \<Rightarrow>
                          (case served_runs (\<lambda>run. serve (3 + run)) (\<lambda>_. True) elapsed_us clk NUM_RUNS 0 (4 * NUM_RUNS) conc_payload ([], 0) of
                             Completed conc_payload conc_times \<Rightarrow>
                               (if output_buffer seq_payload \<noteq> output_buffer static_payload
                                   \<or> output_buffer seq_payload \<noteq> output_buffer conc_payload
                                then Exit 0 (ValidationFailed 0)
                                else finish NUM_RUNS 1 [seq_times, static_times] (Completed conc_payload conc_times))
                           | stopped \<Rightarrow> finish NUM_RUNS 1 [] stopped)))))"

text \<open>Every job renders ranges that together have every pixel once.\<close>

definition render_jobs_cover :: "'f arith \<Rightarrow> (nat \<Rightarrow> 'f mandelbrot_payload \<Rightarrow> 'f mandelbrot_payload served) \<Rightarrow> size_t \<Rightarrow> nat \<Rightarrow> bool" where
  "render_jobs_cover F serve pixels N \<longleftrightarrow> (\<forall>k<N. \<forall>p. length (output_buffer p) = unat pixels \<longrightarrow> width p \<noteq> 0 \<longrightarrow>
     (\<exists>rs out. (\<Sum>(a, b)\<in>#mset rs. mset [unat a..<unat b]) = mset [0..<unat pixels]
        \<and> run_ranges (render_body F p) rs (output_buffer p) = Some out \<and> serve k p = Done (p\<lparr>output_buffer := out\<rparr>)))"

lemma mset_ranges:
  "(\<Sum>(a, b)\<in>#mset (map (\<lambda>i. (f i, g i)) xs). mset [unat a..<unat b]) = mset (concat (map (\<lambda>i. [unat (f i)..<unat (g i)]) xs))"
  by (induction xs) simp_all

lemma slices_cover:
  assumes "num_cores \<noteq> 0"
  shows "(\<Sum>(a, b)\<in>#mset (slices pixels num_cores). mset [unat a..<unat b]) = mset [0..<unat pixels]"
proof -
  have "0 < unat num_cores" using assms by (simp add: unat_gt_0)
  then show ?thesis unfolding slices_def mset_ranges by (simp only: slice_cover)
qed

definition image :: "'f arith \<Rightarrow> 'f mandelbrot_payload \<Rightarrow> size_t \<Rightarrow> 16 word list" where
  "image F p pixels = map (\<lambda>i. ucast (pixel_iterations F p (word_of_nat i))) [0..<unat pixels]"

text \<open>The picture does not depend on what the buffer held.\<close>

lemma pixel_of_buffer: "pixel_iterations F (p\<lparr>output_buffer := out\<rparr>) i = pixel_iterations F p i"
  by (simp add: pixel_iterations_def pixel_point_def)

lemma render_of_buffer: "render_body F (p\<lparr>output_buffer := out\<rparr>) = render_body F p"
  by (simp add: fun_eq_iff render_body_def pixel_of_buffer)

lemma image_of_buffer: "image F (p\<lparr>output_buffer := out\<rparr>) n = image F p n"
  by (simp add: image_def pixel_of_buffer)

text \<open>Payloads of one picture, and those that hold the picture.\<close>

definition canvas_of :: "'f mandelbrot_payload \<Rightarrow> size_t \<Rightarrow> 'f mandelbrot_payload \<Rightarrow> bool" where
  "canvas_of base pixels p \<longleftrightarrow> length (output_buffer p) = unat pixels \<and> (\<exists>out. p = base\<lparr>output_buffer := out\<rparr>)"

definition rendered :: "'f arith \<Rightarrow> 'f mandelbrot_payload \<Rightarrow> size_t \<Rightarrow> 'f mandelbrot_payload \<Rightarrow> bool" where
  "rendered F base pixels p \<longleftrightarrow> p = base\<lparr>output_buffer := image F base pixels\<rparr>"

lemma rendered_canvas: "rendered F base pixels p \<Longrightarrow> canvas_of base pixels p"
  by (auto simp: rendered_def canvas_of_def image_def)

lemma ranges_render:
  assumes "width base \<noteq> 0" "canvas_of base pixels p" "(\<Sum>(a, b)\<in>#mset rs. mset [unat a..<unat b]) = mset [0..<unat pixels]"
  shows "for_range (render_body F p) 0 pixels (output_buffer p) = Some (image F base pixels)"
    and "run_ranges (render_body F p) rs (output_buffer p) = Some (image F base pixels)"
proof -
  obtain out where p: "p = base\<lparr>output_buffer := out\<rparr>" "length out = unat pixels" using assms(2) by (auto simp: canvas_of_def)
  note ker = render_cells [OF assms(1), of F]
  show all: "for_range (render_body F p) 0 pixels (output_buffer p) = Some (image F base pixels)"
    using cell_kernel.range_all [OF ker p(2)] by (simp add: p(1) render_of_buffer image_def)
  show "run_ranges (render_body F p) rs (output_buffer p) = Some (image F base pixels)"
    using cell_kernel.ranges_cover [OF ker assms(3), of out] p(2) all by (simp add: p(1) render_of_buffer)
qed

lemma canvas_set: "canvas_of base pixels p \<Longrightarrow> p\<lparr>output_buffer := xs\<rparr> = base\<lparr>output_buffer := xs\<rparr>"
  by (auto simp: canvas_of_def)

text \<open>
  The Mandelbrot benchmark validates. With its memory, a clock that never goes back and jobs that are
  accepted and render every pixel once, the program finds the three images equal, whatever the buffers held
  before, does not overflow and returns 0 with one report for each phase, in which the percentiles are
  ordered between the least and the greatest timing and the sum lies between \<open>NUM_RUNS\<close> times either.
\<close>

theorem mandelbrot_benchmark_validates:
  assumes "\<forall>k<6. alloc k" "w \<noteq> 0" "pixels = ucast w * ucast h" "\<forall>k<3. length (buffer k) = unat pixels" "clock_ok clk"
    and "0 < runs" "runs < 2 ^ 31" "render_jobs_cover F serve pixels (3 + runs)"
  shows "\<exists>seq_report static_report conc_report. mandelbrot_main F w h iters cores alloc buffer clk serve runs
      = Exit 0 (Success [seq_report, static_report, conc_report])
    \<and> report_sound runs seq_report \<and> report_sound runs static_report \<and> report_sound runs conc_report"
proof -
  let ?p = "\<lambda>k. image_payload F w h iters (buffer k)" and ?cores = "if cores < 1 then 1 else cores"
  let ?seq = "\<lambda>p. render_mandelbrot_chunk F p 0 pixels" and ?static = "static_run F pixels ?cores"
  let ?C = "canvas_of (?p 0) pixels" and ?R = "rendered F (?p 0) pixels"
  have width: "width (?p 0) \<noteq> 0" using assms(2) by (simp add: image_payload_def)
  have "?cores \<noteq> 0" by (auto simp: not_less)
  note cover = slices_cover [OF this, of pixels]
  have start: "?C (?p k)" if "k < 3" for k
    using assms(4) that by (auto simp: canvas_of_def image_payload_def)
  have seq: "\<exists>p'. ?seq p = Some p' \<and> ?R p'" if "?C p" for p
    using ranges_render(1) [OF width that cover] canvas_set [OF that] by (simp add: render_mandelbrot_chunk_def rendered_def)
  have static: "\<exists>p'. ?static p = Some p' \<and> ?R p'" if "?C p" for p
    using ranges_render(2) [OF width that cover] canvas_set [OF that] by (simp add: static_run_def rendered_def)
  have job: "\<exists>p'. serve k p = Done p' \<and> ?R p' \<and> True" if k: "k < 3 + runs" and p: "?C p" for k p
  proof -
    have "length (output_buffer p) = unat pixels" "width p \<noteq> 0" using p width by (auto simp: canvas_of_def)
    then obtain rs out where "(\<Sum>(a, b)\<in>#mset rs. mset [unat a..<unat b]) = mset [0..<unat pixels]"
        "run_ranges (render_body F p) rs (output_buffer p) = Some out" "serve k p = Done (p\<lparr>output_buffer := out\<rparr>)"
      using assms(8) k unfolding render_jobs_cover_def by blast
    then show ?thesis using ranges_render(2) [OF width p] canvas_set [OF p] by (simp add: rendered_def)
  qed
  obtain m1 a1 where m1: "Option.bind (times_do 1 ?seq (?p 0)) (\<lambda>m. timed_runs ?seq elapsed_us clk runs 0 m ([], 0)) = Some (m1, a1)"
      "?R m1" "timings_ok clk (0 + 2 * runs) runs a1"
    by (rule sequential_phase [where P = ?C and warm = 1 and k = 0, OF elapsed_us_measures assms(5,7) seq rendered_canvas start [of 0]]) (fact that | simp)+
  obtain m2 a2 where m2: "Option.bind (times_do 3 ?static (?p 1)) (\<lambda>m. timed_runs ?static elapsed_us clk runs (2 * runs) m ([], 0)) = Some (m2, a2)"
      "?R m2" "timings_ok clk (2 * runs + 2 * runs) runs a2"
    by (rule sequential_phase [where P = ?C and warm = 3 and k = "2 * runs", OF elapsed_us_measures assms(5,7) static rendered_canvas start [of 1]]) (fact that | simp)+
  obtain p q a3 where p: "warm_up serve 3 0 (?p 2) = Done p" "?R q"
      "served_runs (\<lambda>run. serve (3 + run)) (\<lambda>_. True) elapsed_us clk runs 0 (4 * runs) p ([], 0) = Completed q a3"
      "timings_ok clk (4 * runs + 2 * runs) runs a3"
    by (rule served_phase [where Q = ?C and w = 3 and k = "4 * runs", OF elapsed_us_measures assms(5,7) job rendered_canvas start [of 2]]) (fact that | simp)+
  obtain rs where rs: "finish runs 1 [a1, a2] (Completed q a3) = Exit 0 (Success rs)" "length rs = 3" "\<forall>r\<in>set rs. report_sound runs r"
    using finish_ok [OF assms(6), of "[a1, a2]" a3 clk 1 q] m1(3) m2(3) p(4) by fastforce
  have "mandelbrot_main F w h iters cores alloc buffer clk serve runs = Exit 0 (Success rs)"
    using assms(1) m1(1,2) m2(1,2) p(1-3) rs(1)
    by (simp add: mandelbrot_main_def Let_def assms(3) [symmetric] rendered_def)
  then show ?thesis using rs(2,3) by (auto simp: length_Suc_conv numeral_3_eq_3)
qed

definition one_range_job :: "nat \<Rightarrow> int mandelbrot_payload \<Rightarrow> int mandelbrot_payload served" where
  "one_range_job k p =
     (case run_ranges (render_body int_arith p) [(0, 6)] (output_buffer p) of
        None \<Rightarrow> Faulty
      | Some out \<Rightarrow> Done (p\<lparr>output_buffer := out\<rparr>))"

theorem mandelbrot_benchmark_validates_witness:
  "\<exists>seq_report static_report conc_report. mandelbrot_main int_arith 3 2 5 2 (\<lambda>_. True) (\<lambda>k. replicate 6 (word_of_nat k)) still_clock one_range_job 4
      = Exit 0 (Success [seq_report, static_report, conc_report])
    \<and> report_sound 4 seq_report \<and> report_sound 4 static_report \<and> report_sound 4 conc_report"
proof -
  have "\<exists>out. run_ranges (render_body int_arith p) [(0, 6)] (output_buffer p) = Some out"
    if "length (output_buffer p) = 6" "width p \<noteq> 0" for p
    using cell_kernel.range_all [OF render_cells [OF that(2)], of "output_buffer p" 6 int_arith] that(1) by simp
  then have "render_jobs_cover int_arith one_range_job 6 (3 + 4)"
    unfolding render_jobs_cover_def by (intro allI impI exI [of _ "[(0, 6)]"]) (fastforce simp: one_range_job_def)
  then show ?thesis by (intro mandelbrot_benchmark_validates [where pixels = 6]) (simp_all add: still_clock_ok)
qed

end
