(* ===== verification/Spec2Isabelle.thy ===== *)
theory Spec2Isabelle
  imports ClDequeConc TaskPoolConc RingConc SchedOps Lifecycle SystemsTick Benchmarks MandelbrotMain
begin

text \<open>
  A verification of C-Job-Scheduler: a work-stealing scheduler in C for jobs over index ranges, with
  subtasks and continuations. The code is in \<open>src/include\<close> and \<open>src/src\<close>; \<open>src/release/sk_scheduler.h\<close> is
  the same code as one header. The theories are models of it in the order in which it is built up; each
  names the functions it translates.

  \<^bold>\<open>The program.\<close> \<open>scheduler_boot\<close> allocates one worker record per processor and one array of tasks,
  which all go to a free list. \<open>scheduler_submit_job\<close> takes two tasks from it, a root and a child, and puts
  the child into the submission ring of one worker. A worker (\<open>worker_main_loop\<close>) takes tasks from its
  deque, its ring, or those of a victim. The child runs \<open>internal_macro_job_splitter\<close>, which halves the
  range, pushes right halves as new tasks and calls the developer's function on the rest. Such a function
  may spawn subtasks (\<open>scheduler_spawn_subtasks\<close>) and register a continuation. Every task counts its
  unfinished dependencies; the worker that drops the last one runs the continuation or returns the task
  to the pool and goes on with its parent. The continuation of the root is \<open>hooked_job_finish_task\<close>, which
  wakes the threads in \<open>scheduler_wait_for_job\<close>.

  \<^bold>\<open>Data and machine arithmetic.\<close>
  \<^item> \<open>Prelude\<close>: the C integer types as words (\<open>size_t\<close>, \<open>uint32\<close>), facts on masks, slots and words.
  \<^item> \<open>MemUtils\<close> (\<open>sk_memory_utils.h\<close>): \<open>next_power_of_two\<close>, the aligned allocation and its header word.
  \<^item> \<open>Task\<close> (\<open>sk_task.h\<close>, \<open>sk_scheduler.h\<close>): the records \<open>sc_task\<close> and \<open>sc_job\<close>. A task pointer is its
    index in \<open>global_task_array\<close>, a job pointer a number, a function pointer a value of \<open>sc_fn\<close>.
  \<^item> \<open>Rng\<close> (\<open>sk_worker.c\<close>): \<open>xorshift32\<close>, its seed, and the choice of the victim of a steal.

  \<^bold>\<open>Shared containers.\<close> Each is modelled twice: as functions that run without interference, and as a step
  relation with one access to shared memory per step, any number of threads and sequential consistency.
  The invariants of the step relations give no loss and no duplication; further theorems say that a
  thread that is not disturbed computes the sequential function, so the two models agree.
  \<^item> \<open>ClDeque\<close>, \<open>ClDequeConc\<close> (\<open>sk_cl_deque.h\<close>): the Chase-Lev deque. \<open>ClDeque\<close> states its interface
    as a locale over the list of items and interprets it on the code's functions.
  \<^item> \<open>TaskPool\<close>, \<open>TaskPoolConc\<close> (\<open>sk_scheduler.c\<close>): the free list with ABA tags and the thread caches.
  \<^item> \<open>RingBuffer\<close>, \<open>RingConc\<close> (\<open>sk_scheduler.c\<close>, \<open>sk_worker.c\<close>): the submission ring of a worker, the
    worker record and \<open>allocate_worker_pool\<close>; one producer, any number of consumers.
  \<^item> \<open>JobWait\<close> (\<open>sk_scheduler.c\<close>): the state word of a job, waiting on it and the finishing hook. The futex
    calls have their documented meaning: a wait sleeps only while the word has the expected value.

  \<^bold>\<open>The scheduler.\<close> A state of type \<open>sched\<close> holds the pool, the workers, the jobs and the current task of
  each thread; operations return the new state, with \<open>None\<close> for undefined behaviour and for not
  returning. The developer's functions are a parameter \<open>dev\<close>; \<open>leaf_dev\<close> says of it that it works on the
  developer's data only. The component \<open>calls\<close> is a ghost that lists the calls made.
  \<^item> \<open>Sched\<close> (\<open>sk_scheduler.c\<close>): boot, submission, continuation and shutdown; the invariant \<open>sched_wf\<close>.
  \<^item> \<open>Splitter\<close> (\<open>sk_worker.c\<close>): \<open>internal_macro_job_splitter\<close>. \<open>Spawn\<close> (\<open>sk_scheduler.c\<close>):
    \<open>scheduler_spawn_subtasks\<close>. Both partition their range exactly, as multisets of indices, into tasks and
    calls; \<open>Spawn\<close> also states when a spawn does not.
  \<^item> \<open>Worker\<close> (\<open>sk_worker.c\<close>): \<open>worker_main_loop\<close> as one worker runs it: the search, the function and its
    continuations, the walk to the ancestors. The loops that a developer's function can keep going for ever
    are partial functions, and the theorems about them prove that they return.
  \<^item> \<open>WorkerFind\<close>: the three sources of tasks as interpretations of one locale \<open>task_source\<close>, and the search.
  \<^item> \<open>WorkerView\<close>: which parts of the state a worker's operations change, as a locale over a view of it.
  \<^item> \<open>WorkerRun\<close>: the tree of live tasks (\<open>job_tree\<close>), what a walk does to it, and the run of a job from its
    submission to its end. No fuel is chosen there: the number of rounds is part of the statement.
  \<^item> \<open>Continuations\<close>: chains of continuations, parking of a parent, and what happens without free tasks.
  \<^item> \<open>SchedOps\<close>: the operations as one relation; what every sequence of them keeps.
  \<^item> \<open>JobSequence\<close>: programs that submit jobs and await each of them, with one worker: every job is served,
    and what the calls do to arrays is what the sequential program does. The fuel of a wait is a number of
    rounds of the worker; the payload's size is enough.
  \<^item> \<open>ForkJoin\<close> (\<open>simple_subtask_ex.c\<close>, \<open>multi_continuation.c\<close>): a job whose function spawns children and
    registers a continuation, from the submission to the end, with one worker and free tasks enough.
  \<^item> \<open>Lifecycle\<close> (\<open>sk_scheduler.c\<close>, \<open>sk_worker.c\<close>): the threads and the memory from boot to stop, main and the
    workers interleaved. No block is used after it is freed, and a stop ends.

  \<^bold>\<open>The task graph.\<close> \<open>TaskGraph\<close> is the protocol on the dependency counts under full concurrency: any number
  of workers, one shared access per step. The deques and rings are one bag and the pool is a set, which the
  theorems on the containers justify. Ghost components give each task a role and a depth.
  \<open>TaskGraphInv\<close> proves the invariant: each task has one owner, a count is the number of its counted
  children, of the workers about to drop it, and of its own lock. From it: no task is run twice or used
  after its release, counts do not wrap, no worker gets stuck, the hook runs once and last, and nothing is
  left behind when the workers are idle. A submission is one step there, when it publishes its tasks.
  \<open>GraphSim\<close>, \<open>GraphCode\<close> and \<open>Programs\<close> show that the code of \<open>Worker\<close> refines it: \<open>GraphSim\<close> has the
  relation between the two states and one lemma per primitive operation, \<open>GraphCode\<close> one per function of a
  worker, and \<open>Programs\<close> rounds of any workers and submissions in any order. The developer's functions are
  any whose effect the graph allows the running task (\<open>graph_dev\<close>); all that only set continuations and
  spawn, however often, are such (\<open>api_graph\<close>).

  \<^bold>\<open>Many jobs.\<close> \<open>CrowdTask\<close> and \<open>Crowd\<close> put this together for jobs whose functions work on the developer's
  data: any number of jobs on any number of workers, rounds and submissions in any order, records of
  complete jobs used again. \<open>CrowdTask\<close> says what the run of one task does among others, \<open>Crowd\<close> has the
  invariant of the whole. The calls and the queued tasks always have every index once; a job is complete
  only when it has run; rounds alone empty the queues, at most one for each index; and the arrays are then
  those of the sequential program. There is no fuel: the bound on the rounds is part of the statement.
  \<open>SystemsTick\<close> (\<open>multiple_jobs_ex.c\<close>) is one such program from its boot to its last wait.

  \<^bold>\<open>Examples.\<close> \<open>SortArrays\<close> and \<open>QuickSort\<close> (\<open>merge_sort_comparison_ex.c\<close>, \<open>quick_sort_concurrent_ex.c\<close>): the
  sorting kernels on arrays, and their tasks as relations that allow every order in which the scheduler can
  finish them; all of them compute \<open>range_sorted\<close>. \<open>Kernels\<close> (\<open>array writing_comparison_ex.c\<close>,
  \<open>multiple_jobs_ex.c\<close>, \<open>mandelbrot_work_stealing_ex.c\<close>): the task functions that write one element per
  index, over any arithmetic that stands for floating point, with a locale for what they share.
  \<open>StaticPool\<close> (\<open>mandelbrot_work_stealing_ex.c\<close>): the threads with static slices and a generation barrier
  that the scheduler is compared with, one shared access per step.
  \<open>Timing\<close>, \<open>Benchmarks\<close> and \<open>MandelbrotMain\<close> are the \<open>main\<close> functions of the four benchmarks: checked signed
  64-bit arithmetic, the timed loops, the warm-up and the served jobs, the percentiles. Parameters are the
  allocator, \<open>rand\<close>, the clock, and what comes of a submitted job. The theorems say that the validation of
  each benchmark succeeds and that what is printed is consistent; the hypotheses on a job are what
  \<open>SortArrays\<close>, \<open>QuickSort\<close> and \<open>Kernels\<close> prove of every order of its subtasks.

  \<^bold>\<open>What the models showed.\<close> The theorems on wrap-around, on partial allocation in a spawn, on continuations of
  children that are run inline, on spawns without free tasks, on a second boot, on threads that could not be
  created, and on allocations and rejected jobs that a benchmark does not look at, describe behaviour that
  the comments of the code do not intend.

  \<^bold>\<open>Not modelled.\<close> The operating-system glue: processor count, thread creation and pinning, the futex calls
  themselves, the pause instruction. Memory orderings weaker than sequential consistency. The
  texts that the examples print, and the conversion of the numbers among them to floating point. The
  properties of floating point. Two threads that submit at once: a ring has a single producer, as its
  name says.
\<close>

end
